(* ===== verification/Prelude.thy ===== *)
theory Prelude
  imports Main "HOL-Library.Word" "HOL-Library.Multiset"
begin

text \<open>
  Shared vocabulary of the development: the values a C++ function of the repository can
  end with (a result, or one of the ways it stops), the machine integers \<^verbatim>\<open>int\<close> and
  \<^verbatim>\<open>long\<close> as mathematical integers with their wrap-around written out, and the lemmas on
  lists, maps and powers of two that several components use.
\<close>

unbundle bit_operations_syntax

subsection \<open>Outcomes\<close>

text \<open>
  How a call ends without a result. \<open>AssertFailed\<close> is a failing \<^verbatim>\<open>assert\<close> (the process
  aborts), \<open>Thrown\<close> a \<^verbatim>\<open>throw\<close>, \<open>OutOfRange\<close> an index outside an array or vector,
  \<open>NullDeref\<close> a member access through a null or dangling pointer, \<open>Uninitialised\<close> a read of
  storage never written, \<open>NoReturn\<close> control
  flowing off the end of a non-void function, \<open>Diverges\<close> a loop that used up its fuel,
  \<open>DivByZero\<close> a division by zero, \<open>ProcessExit\<close> a call of \<^verbatim>\<open>exit\<close>. All but the first two and
  the last are undefined behaviour in C++
  (\<open>Diverges\<close> stands for a run that does not end).
\<close>

datatype failure =
    AssertFailed | Thrown | OutOfRange | NullDeref | Uninitialised | NoReturn | Diverges | DivByZero | ProcessExit

text \<open>A pointer into a memory block: the block and the offset in bytes.\<close>

type_synonym ptr = "nat \<times> int"

type_synonym 'a res = "failure + 'a"

fun rbind :: "'a res \<Rightarrow> ('a \<Rightarrow> 'b res) \<Rightarrow> 'b res" where
  "rbind (Inl e) f = Inl e"
| "rbind (Inr x) f = f x"

definition assert_that :: "bool \<Rightarrow> 'a res \<Rightarrow> 'a res" where
  "assert_that b r = (if b then r else Inl AssertFailed)"

definition at_vec :: "'a list \<Rightarrow> int \<Rightarrow> 'a res" where
  "at_vec xs i = (if 0 \<le> i \<and> i < int (length xs) then Inr (xs ! nat i) else Inl OutOfRange)"

definition set_vec :: "'a list \<Rightarrow> int \<Rightarrow> 'a \<Rightarrow> 'a list res" where
  "set_vec xs i v =
     (if 0 \<le> i \<and> i < int (length xs) then Inr (xs[nat i := v]) else Inl OutOfRange)"

definition deref :: "('p \<rightharpoonup> 'a) \<Rightarrow> 'p option \<Rightarrow> 'a res" where
  "deref s p = (case p of None \<Rightarrow> Inl NullDeref
     | Some a \<Rightarrow> (case s a of None \<Rightarrow> Inl NullDeref | Some x \<Rightarrow> Inr x))"

definition store_upd :: "(nat \<rightharpoonup> 'a) \<Rightarrow> nat option \<Rightarrow> ('a \<Rightarrow> 'a) \<Rightarrow> (nat \<rightharpoonup> 'a) res" where
  "store_upd s p f = (case p of None \<Rightarrow> Inl NullDeref
     | Some a \<Rightarrow> (case s a of None \<Rightarrow> Inl NullDeref | Some x \<Rightarrow> Inr (s(a \<mapsto> f x))))"

named_theorems outcome_simps \<open>unfolding of the outcome combinators\<close>

lemma rbind_Inr_iff [simp]: "rbind r f = Inr y \<longleftrightarrow> (\<exists>x. r = Inr x \<and> f x = Inr y)"
  by (cases r) auto

lemma rbind_Inl_iff: "rbind r f = Inl e \<longleftrightarrow> r = Inl e \<or> (\<exists>x. r = Inr x \<and> f x = Inl e)"
  by (cases r) auto

lemma rbind_assoc: "rbind (rbind r f) g = rbind r (\<lambda>x. rbind (f x) g)"
  by (cases r) auto

lemma rbind_cong [fundef_cong]:
  "r = r' \<Longrightarrow> (\<And>x. r' = Inr x \<Longrightarrow> f x = f' x) \<Longrightarrow> rbind r f = rbind r' f'"
  by (cases r') auto

lemma assert_that_True [simp]: "assert_that True r = r"
  and assert_that_False [simp]: "assert_that False r = Inl AssertFailed"
  by (simp_all add: assert_that_def)

lemma assert_that_Inr [simp]: "assert_that b r = Inr x \<longleftrightarrow> b \<and> r = Inr x"
  by (simp add: assert_that_def)

lemma at_vec_Inr [simp]:
  "at_vec xs i = Inr x \<longleftrightarrow> 0 \<le> i \<and> i < int (length xs) \<and> xs ! nat i = x"
  by (auto simp: at_vec_def)

lemma set_vec_Inr [simp]:
  "set_vec xs i v = Inr ys \<longleftrightarrow> 0 \<le> i \<and> i < int (length xs) \<and> xs[nat i := v] = ys"
  by (auto simp: set_vec_def)

lemma deref_Inr [simp]: "deref s p = Inr x \<longleftrightarrow> (\<exists>a. p = Some a \<and> s a = Some x)"
  by (auto simp: deref_def split: option.splits)

lemma store_upd_Inr [simp]:
  "store_upd s p f = Inr s' \<longleftrightarrow> (\<exists>a x. p = Some a \<and> s a = Some x \<and> s' = s(a \<mapsto> f x))"
  by (auto simp: store_upd_def split: option.splits)

lemmas [outcome_simps] = store_upd_def assert_that_def at_vec_def set_vec_def deref_def

subsection \<open>Machine integers\<close>

text \<open>
  The target is 64-bit Linux: \<^verbatim>\<open>int\<close> has 32 bits and \<^verbatim>\<open>long\<close> 64. A C++ integer is a
  HOL \<open>int\<close>; \<open>i32\<close> and \<open>i64\<close> write out the two's complement value that fits the
  width, and are applied where an operation can leave the range. A right shift of a signed
  value is arithmetic, which on HOL integers is \<open>drop_bit\<close>.
\<close>

definition i32 :: "int \<Rightarrow> int" where "i32 x = signed_take_bit 31 x"

definition i64 :: "int \<Rightarrow> int" where "i64 x = signed_take_bit 63 x"

definition shl32 :: "int \<Rightarrow> int \<Rightarrow> int" where "shl32 x n = i32 (push_bit (nat n) x)"

definition shr :: "int \<Rightarrow> int \<Rightarrow> int" where "shr x n = drop_bit (nat n) x"

text \<open>Division of C++: towards zero, the remainder with the sign of the dividend.\<close>

definition trunc_div :: "int \<Rightarrow> int \<Rightarrow> int" where
  "trunc_div a b = (if (a < 0) = (b < 0) then \<bar>a\<bar> div \<bar>b\<bar> else - (\<bar>a\<bar> div \<bar>b\<bar>))"

definition trunc_mod :: "int \<Rightarrow> int \<Rightarrow> int" where
  "trunc_mod a b = (if a < 0 then - (\<bar>a\<bar> mod \<bar>b\<bar>) else \<bar>a\<bar> mod \<bar>b\<bar>)"

lemma trunc_nonneg [simp]:
  "0 \<le> a \<Longrightarrow> 0 < b \<Longrightarrow> trunc_div a b = a div b" "0 \<le> a \<Longrightarrow> 0 < b \<Longrightarrow> trunc_mod a b = a mod b"
  by (simp_all add: trunc_div_def trunc_mod_def)

lemma trunc_div_mod: "b \<noteq> 0 \<Longrightarrow> trunc_div a b * b + trunc_mod a b = a"
proof -
  define q m where "q = \<bar>a\<bar> div \<bar>b\<bar>" and "m = \<bar>a\<bar> mod \<bar>b\<bar>"
  have "q * \<bar>b\<bar> + m = \<bar>a\<bar>" by (simp add: q_def m_def)
  then show ?thesis unfolding trunc_div_def trunc_mod_def q_def [symmetric] m_def [symmetric]
    by (cases "a < 0"; cases "b < 0") auto
qed

abbreviation INT_MAX :: int where "INT_MAX \<equiv> 2147483647"
abbreviation INT_MIN :: int where "INT_MIN \<equiv> -2147483648"

lemma i32_id: "INT_MIN \<le> x \<Longrightarrow> x \<le> INT_MAX \<Longrightarrow> i32 x = x"
  unfolding i32_def by (rule signed_take_bit_int_eq_self) auto

lemma i64_id: "- 9223372036854775808 \<le> x \<Longrightarrow> x < 9223372036854775808 \<Longrightarrow> i64 x = x"
  unfolding i64_def by (rule signed_take_bit_int_eq_self) auto

lemma i32_range: "INT_MIN \<le> i32 x" "i32 x \<le> INT_MAX"
  using signed_take_bit_int_greater_eq_minus_exp [of 31 x] signed_take_bit_int_less_exp [of 31 x]
  by (simp_all add: i32_def)

lemma i32_mod: "i32 x = (x + 2147483648) mod 4294967296 - 2147483648"
  by (simp only: i32_def signed_take_bit_eq_take_bit_shift take_bit_eq_mod) simp

lemma i32_wrap: "2147483648 \<le> x \<Longrightarrow> x < 6442450944 \<Longrightarrow> i32 x = x - 4294967296"
proof -
  assume "2147483648 \<le> x" "x < 6442450944"
  then have "(x - 2147483648) mod 4294967296 = x - 2147483648" by (intro mod_pos_pos_trivial) auto
  moreover have "x + 2147483648 = (x - 2147483648) + 4294967296" by simp
  ultimately show ?thesis unfolding i32_mod by (simp only: mod_add_self2)
qed

lemma shl32_eq: "0 \<le> x \<Longrightarrow> x * 2 ^ nat n \<le> INT_MAX \<Longrightarrow> shl32 x n = x * 2 ^ nat n"
  unfolding shl32_def push_bit_eq_mult
  by (rule i32_id) (auto intro: order_trans [of _ 0])

lemma shr_eq: "shr x n = x div 2 ^ nat n"
  by (simp add: shr_def drop_bit_eq_div)

lemma int_le_div: "0 < (d::int) \<Longrightarrow> b \<le> a div d \<longleftrightarrow> b * d \<le> a"
proof
  assume d: "0 < d" and "b \<le> a div d"
  then have "b * d \<le> a div d * d" by (simp add: mult_right_mono)
  also have "\<dots> \<le> a" using d div_mult_mod_eq [of a d] pos_mod_sign [of d a] by linarith
  finally show "b * d \<le> a" .
next
  assume d: "0 < d" and "b * d \<le> a"
  then have "b * d div d \<le> a div d" by (intro zdiv_mono1)
  then show "b \<le> a div d" using d by simp
qed

lemma int_div_less: "0 < (d::int) \<Longrightarrow> a div d < b \<longleftrightarrow> a < b * d"
  using int_le_div [of d b a] by linarith

lemma or_eq_plus:
  fixes a b :: int
  assumes "0 \<le> b" "b < 2 ^ n"
  shows "(a * 2 ^ n) OR b = a * 2 ^ n + b"
proof -
  have b: "take_bit n b = b" using assms by (simp add: take_bit_int_eq_self)
  have "(a * 2 ^ n) AND b = 0"
    by (rule bit_eqI) (metis b bit_and_iff bit_push_bit_iff bit_take_bit_iff
        bit_0_eq bot_apply not_le push_bit_eq_mult bot_bool_def)
  then show ?thesis by (simp add: disjunctive_add_eq_or)
qed

lemma and_mask_mod:
  fixes x :: int
  shows "x AND 3 = x mod 4" "x AND 7 = x mod 8" "x AND 63 = x mod 64" "x AND 1 = x mod 2"
    "x AND 32767 = x mod 32768"
  using take_bit_eq_mask [of 2 x] take_bit_eq_mask [of 3 x] take_bit_eq_mask [of 6 x]
    take_bit_eq_mask [of 1 x] take_bit_eq_mask [of 15 x]
  by (simp_all add: take_bit_eq_mod mask_eq_exp_minus_1)

subsection \<open>Printing\<close>

text \<open>The decimal digits \<^verbatim>\<open>%d\<close>, \<^verbatim>\<open>%u\<close> and \<^verbatim>\<open>%zd\<close> print of a number that is not negative.\<close>

fun dec :: "nat \<Rightarrow> string" where
  "dec n = (if n < 10 then [''0123456789'' ! n] else dec (n div 10) @ [''0123456789'' ! (n mod 10)])"

declare dec.simps [simp del]

end
