(* ===== verification/MathUtils.thy ===== *)
theory MathUtils
  imports Prelude
begin

text \<open>
  \<^verbatim>\<open>buffer/MathUtils.h\<close>: the bit tricks on 32-bit integers the size classes rest on, and
  the power-of-two rounding that \<^verbatim>\<open>base/Dependence.cpp\<close> and
  \<^verbatim>\<open>buffer/LongAddr/MetaConcurrent.h\<close> repeat.
\<close>

definition nlz_step :: "nat \<Rightarrow> nat \<Rightarrow> int \<times> 32 word \<Rightarrow> int \<times> 32 word" where
  "nlz_step k s st = (case st of (n, val) \<Rightarrow>
     if drop_bit k val = 0 then (n + int s, push_bit s val) else (n, val))"

definition numberOfLeadingZeros :: "int \<Rightarrow> int" where
  "numberOfLeadingZeros signedVal =
     (let val = (word_of_int signedVal :: 32 word) in
      if val = 0 then 32
      else case nlz_step 30 2 (nlz_step 28 4 (nlz_step 24 8 (nlz_step 16 16 (1, val))))
           of (n, val) \<Rightarrow> n - uint (drop_bit 31 val))"

definition log2 :: "int \<Rightarrow> int" where
  "log2 val = 31 - numberOfLeadingZeros val"

definition smear :: "nat \<Rightarrow> int \<Rightarrow> int" where
  "smear k val = val OR drop_bit k val"

definition nextPowerofTwo :: "int \<Rightarrow> int" where
  "nextPowerofTwo val =
     i32 (smear 16 (smear 8 (smear 4 (smear 2 (smear 1 (i32 (val - 1)))))) + 1)"

subsection \<open>Leading zeros and the binary logarithm\<close>

lemma uint_drop_bit: "uint (drop_bit k (w :: 32 word)) = uint w div 2 ^ k"
proof -
  have "take_bit LENGTH(32) (uint w) = uint w"
    using uint_lt2p [of w] by (intro take_bit_int_eq_self) auto
  then show ?thesis by (simp only: unsigned_drop_bit_eq) (simp only: drop_bit_eq_div)
qed

text \<open>
  The invariant of the four shifting steps: the value has been shifted left by \<open>n - 1\<close>
  without losing a bit, and its top \<open>k\<close> bits are no longer all zero.
\<close>

definition nlz_inv :: "int \<Rightarrow> int \<Rightarrow> int \<times> 32 word \<Rightarrow> bool" where
  "nlz_inv w lo st \<longleftrightarrow> (case st of (n, val) \<Rightarrow>
     1 \<le> n \<and> uint val = w * 2 ^ nat (n - 1) \<and> lo \<le> uint val)"

lemma nlz_step_inv:
  assumes inv: "nlz_inv w lo st" and k: "k + s = 32" and lo: "2 ^ k \<le> lo * 2 ^ s"
    and big: "lo' = 2 ^ k"
  shows "nlz_inv w lo' (nlz_step k s st)"
proof -
  obtain n val where st: "st = (n, val)" by (cases st)
  have n: "1 \<le> n" and v: "uint val = w * 2 ^ nat (n - 1)" and l: "lo \<le> uint val"
    using inv by (auto simp: nlz_inv_def st)
  show ?thesis
  proof (cases "drop_bit k val = 0")
    case True
    then have "uint val div 2 ^ k = 0"
      by (simp flip: uint_drop_bit)
    then have "uint val < 2 ^ k \<or> (2::int) ^ k < uint val \<and> uint val \<le> 0"
      by (auto simp: zdiv_eq_0_iff)
    then have small: "uint val < 2 ^ k"
      by (meson order.strict_trans1 order_less_asym zero_less_numeral zero_less_power)
    have "uint val * 2 ^ s < 2 ^ k * 2 ^ s" using small by simp
    also have "(2::int) ^ k * 2 ^ s = 2 ^ 32" using k by (simp flip: power_add)
    finally have lt: "uint val * 2 ^ s < 2 ^ 32" .
    have "uint (push_bit s val) = uint val * 2 ^ s"
    proof (simp only: unsigned_push_bit_eq, simp only: push_bit_eq_mult)
      show "take_bit LENGTH(32) (uint val * 2 ^ s) = uint val * 2 ^ s"
        using lt by (intro take_bit_int_eq_self) auto
    qed
    moreover have "nat (n + int s - 1) = nat (n - 1) + s" using n by simp
    moreover have "2 ^ k \<le> uint val * 2 ^ s"
      by (rule order_trans [OF lo mult_right_mono [OF l]]) simp
    ultimately show ?thesis
      using True n v big by (auto simp: nlz_inv_def nlz_step_def st power_add)
  next
    case False
    have "2 ^ k \<le> uint val"
    proof (rule ccontr)
      assume "\<not> 2 ^ k \<le> uint val"
      then have "uint val div 2 ^ k = 0" by (simp add: div_pos_pos_trivial)
      then have "uint (drop_bit k val) = 0" by (simp only: uint_drop_bit)
      then have "drop_bit k val = 0" by (simp only: uint_0_iff)
      with False show False by simp
    qed
    then show ?thesis using False n v big by (auto simp: nlz_inv_def nlz_step_def st)
  qed
qed

lemma numberOfLeadingZeros_spec:
  fixes w :: "32 word"
  assumes w: "w = word_of_int x" "w \<noteq> 0"
  defines "n \<equiv> numberOfLeadingZeros x"
  shows "0 \<le> n" "n \<le> 31" "2 ^ 31 \<le> uint w * 2 ^ nat n" "uint w * 2 ^ nat n < 2 ^ 32"
proof -
  have pos: "1 \<le> uint w" using w(2) by (metis uint_0_iff uint_ge_0 zero_less_iff_neq_zero
        int_one_le_iff_zero_less le_less)
  have i0: "nlz_inv (uint w) 1 (1, w)" using pos by (simp add: nlz_inv_def)
  define s where "s = nlz_step 30 2 (nlz_step 28 4 (nlz_step 24 8 (nlz_step 16 16 (1, w))))"
  have "nlz_inv (uint w) (2 ^ 30) s"
    unfolding s_def
    by (rule nlz_step_inv [OF nlz_step_inv [OF nlz_step_inv [OF nlz_step_inv [OF i0,
          where k = 16 and s = 16 and lo' = "2 ^ 16"], where k = 24 and s = 8 and lo' = "2 ^ 24"],
          where k = 28 and s = 4 and lo' = "2 ^ 28"], where k = 30 and s = 2]) simp_all
  then obtain m v where s: "s = (m, v)" and m: "1 \<le> m"
    and v: "uint v = uint w * 2 ^ nat (m - 1)" and l: "2 ^ 30 \<le> uint v"
    by (cases s) (auto simp: nlz_inv_def)
  have n: "n = m - uint (drop_bit 31 v)"
    using w s by (simp add: n_def numberOfLeadingZeros_def s_def)
  have lt: "uint v < 2 ^ 32" using uint_bounded [of v] by simp
  have bit31: "uint (drop_bit 31 v) = (if 2 ^ 31 \<le> uint v then 1 else 0)"
  proof (cases "2 ^ 31 \<le> uint v")
    case True
    have "uint v div 2 ^ 31 = 1"
      using True lt by (intro int_div_pos_eq [where r = "uint v - 2 ^ 31"]) auto
    with True show ?thesis by (simp only: uint_drop_bit) simp
  next
    case False
    then have "uint v div 2 ^ 31 = 0" by (intro div_pos_pos_trivial) auto
    with False show ?thesis by (simp only: uint_drop_bit) simp
  qed
  have main: "0 \<le> n \<and> 2 ^ 31 \<le> uint w * 2 ^ nat n \<and> uint w * 2 ^ nat n < 2 ^ 32"
  proof (cases "2 ^ 31 \<le> uint v")
    case True
    then show ?thesis using n bit31 m v lt by simp
  next
    case False
    have "nat m = Suc (nat (m - 1))" using m by simp
    then have "uint w * 2 ^ nat m = 2 * uint v" using v by simp
    with False show ?thesis using n bit31 m l by simp
  qed
  then show "0 \<le> n" "2 ^ 31 \<le> uint w * 2 ^ nat n" "uint w * 2 ^ nat n < 2 ^ 32" by auto
  show "n \<le> 31"
  proof (rule ccontr)
    assume "\<not> n \<le> 31"
    then have "(2::int) ^ 32 \<le> 2 ^ nat n" by (intro power_increasing) auto
    also have "\<dots> \<le> uint w * 2 ^ nat n" using pos by simp
    finally show False using main by simp
  qed
qed

lemma log2_bounds:
  assumes x: "0 < x" "x \<le> INT_MAX"
  shows "0 \<le> log2 x" "log2 x \<le> 30" "2 ^ nat (log2 x) \<le> x" "x < 2 ^ Suc (nat (log2 x))"
proof -
  let ?w = "word_of_int x :: 32 word"
  define n where "n = numberOfLeadingZeros x"
  have u: "uint ?w = x" using x by (simp add: uint_word_of_int_eq take_bit_int_eq_self)
  then have nz: "?w \<noteq> 0" using x by auto
  note spec = numberOfLeadingZeros_spec [OF refl nz, folded n_def, unfolded u]
  have "n \<noteq> 0" using spec(3) x by auto
  then have n: "1 \<le> n" "n \<le> 31" using spec by auto
  have l: "log2 x = 31 - n" by (simp add: log2_def n_def)
  have split: "(2::int) ^ nat (31 - n) * 2 ^ nat n = 2 ^ 31"
    using n by (simp flip: power_add nat_add_distrib)
  show "0 \<le> log2 x" "log2 x \<le> 30" using n l by auto
  have "2 ^ nat (31 - n) * 2 ^ nat n \<le> x * 2 ^ nat n" using spec(3) split by simp
  then show "2 ^ nat (log2 x) \<le> x" by (simp add: l)
  have "x * 2 ^ nat n < 2 * (2 ^ nat (31 - n) * 2 ^ nat n)" using spec(4) split by simp
  then show "x < 2 ^ Suc (nat (log2 x))" by (simp add: l)
qed

lemma log2_unique:
  assumes "2 ^ k \<le> x" "x < 2 ^ Suc k" "k \<le> 30"
  shows "log2 x = int k"
proof -
  have p: "(0::int) < 2 ^ k" by simp
  have "(2::int) ^ Suc k \<le> 2 ^ 31" using assms(3) by (intro power_increasing) auto
  then have x: "0 < x" "x \<le> INT_MAX" using assms p by auto
  note b = log2_bounds [OF x]
  have "(2::int) ^ nat (log2 x) < 2 ^ Suc k" using b(3) assms(2) by linarith
  then have 1: "nat (log2 x) < Suc k" by (rule power_less_imp_less_exp [rotated]) simp
  have "(2::int) ^ k < 2 ^ Suc (nat (log2 x))" using b(4) assms(1) by linarith
  then have 2: "k < Suc (nat (log2 x))" by (rule power_less_imp_less_exp [rotated]) simp
  show ?thesis using 1 2 b(1) by simp
qed

lemma log2_negative:
  assumes "INT_MIN \<le> x" "x < 0"
  shows "log2 x = 31"
proof -
  let ?w = "word_of_int x :: 32 word"
  have u: "uint ?w = x + 2 ^ 32"
    using assms by (simp add: uint_word_of_int_eq take_bit_eq_mod)
      (smt (verit) mod_add_self2 mod_pos_pos_trivial)
  then have nz: "?w \<noteq> 0" using assms by auto
  note spec = numberOfLeadingZeros_spec [OF refl nz, unfolded u]
  have "nat (numberOfLeadingZeros x) = 0"
  proof (rule ccontr)
    assume "nat (numberOfLeadingZeros x) \<noteq> 0"
    then have "(2::int) ^ 1 \<le> 2 ^ nat (numberOfLeadingZeros x)" by (intro power_increasing) auto
    then have "(x + 2 ^ 32) * 2 \<le> (x + 2 ^ 32) * 2 ^ nat (numberOfLeadingZeros x)"
      using assms by (intro mult_left_mono) auto
    then have "(x + 2 ^ 32) * 2 < 2 ^ 32" using spec(4) by (rule order.strict_trans1)
    with assms show False by simp
  qed
  with spec(1) show ?thesis by (simp add: log2_def)
qed

text \<open>
  The reference: halving until one is left. It is also the code equation, since counting
  the zeros of a word is slow inside the kernel.
\<close>

function ilog2 :: "int \<Rightarrow> int" where
  "ilog2 x = (if x \<le> 1 then 0 else ilog2 (x div 2) + 1)"
  by pat_completeness auto
termination
  by (relation "measure nat") auto

declare ilog2.simps [simp del]

lemma ilog2_bounds:
  "0 < x \<Longrightarrow> 0 \<le> ilog2 x \<and> 2 ^ nat (ilog2 x) \<le> x \<and> x < 2 ^ Suc (nat (ilog2 x))"
proof (induction x rule: ilog2.induct)
  case (1 x)
  show ?case
  proof (cases "x \<le> 1")
    case True
    with 1 show ?thesis by (simp add: ilog2.simps [of x])
  next
    case False
    then have "0 < x div 2" by simp
    note IH = "1.IH" [OF False this]
    have "nat (ilog2 (x div 2) + 1) = Suc (nat (ilog2 (x div 2)))"
      using IH by (simp add: Suc_nat_eq_nat_zadd1 add.commute)
    with False IH show ?thesis by (simp add: ilog2.simps [of x]) linarith
  qed
qed

lemma log2_eq_ilog2:
  assumes "0 < x" "x \<le> INT_MAX"
  shows "log2 x = ilog2 x"
proof -
  note b = ilog2_bounds [OF assms(1)]
  have "nat (ilog2 x) < 31"
  proof (rule power_less_imp_less_exp)
    show "(2::int) ^ nat (ilog2 x) < 2 ^ 31" using b assms by simp
  qed simp
  then have "log2 x = int (nat (ilog2 x))" using b by (intro log2_unique) auto
  with b show ?thesis by simp
qed

lemma log2_code [code]:
  "log2 x = (if 0 < x \<and> x \<le> INT_MAX then ilog2 x else 31 - numberOfLeadingZeros x)"
  by (simp add: log2_eq_ilog2) (simp add: log2_def)

subsection \<open>Rounding up to a power of two\<close>

text \<open>
  After smearing by 1, 2, 4, 8 and 16, bit \<open>i\<close> is set exactly when some bit of the
  argument within the 32 positions from \<open>i\<close> upwards is.
\<close>

lemma smear_covers:
  assumes "\<And>i. bit v i \<longleftrightarrow> (\<exists>j<k. bit x (i + j))"
  shows "bit (smear k v) i \<longleftrightarrow> (\<exists>j<2 * k. bit x (i + j))"
proof -
  have "bit (smear k v) i \<longleftrightarrow> (\<exists>j<k. bit x (i + j)) \<or> (\<exists>j<k. bit x (i + k + j))"
    by (simp add: smear_def bit_or_iff bit_drop_bit_eq assms add.commute [of k])
  also have "\<dots> \<longleftrightarrow> (\<exists>j<2 * k. bit x (i + j))"
  proof
    assume "(\<exists>j<k. bit x (i + j)) \<or> (\<exists>j<k. bit x (i + k + j))"
    then show "\<exists>j<2 * k. bit x (i + j)"
    proof
      assume "\<exists>j<k. bit x (i + k + j)"
      then obtain j where "j < k" "bit x (i + (k + j))" by (auto simp: add.assoc)
      then show ?thesis by (intro exI [of _ "k + j"]) simp
    next
      assume "\<exists>j<k. bit x (i + j)"
      then obtain j where "j < k" "bit x (i + j)" by blast
      then show ?thesis by (intro exI [of _ j]) simp
    qed
  next
    assume "\<exists>j<2 * k. bit x (i + j)"
    then obtain j where j: "j < 2 * k" "bit x (i + j)" by blast
    show "(\<exists>j<k. bit x (i + j)) \<or> (\<exists>j<k. bit x (i + k + j))"
    proof (cases "j < k")
      case False
      then have "j - k < k" "i + k + (j - k) = i + j" using j by auto
      then show ?thesis using j by metis
    qed (use j in blast)
  qed
  finally show ?thesis .
qed

definition smear_all :: "int \<Rightarrow> int" where
  "smear_all x = smear 16 (smear 8 (smear 4 (smear 2 (smear 1 x))))"

lemma bit_smear_all: "bit (smear_all x) i \<longleftrightarrow> (\<exists>j<32. bit x (i + j))"
proof -
  have 0: "\<And>i. bit x i \<longleftrightarrow> (\<exists>j<1. bit x (i + j))" by simp
  note 1 = smear_covers [OF 0]
  note 2 = smear_covers [OF 1, unfolded mult_1_right]
  have 3: "\<And>i. bit (smear 2 (smear 1 x)) i \<longleftrightarrow> (\<exists>j<4. bit x (i + j))"
    using smear_covers [of "smear 1 x" 2 x] 1 by simp
  have 4: "\<And>i. bit (smear 4 (smear 2 (smear 1 x))) i \<longleftrightarrow> (\<exists>j<8. bit x (i + j))"
    using smear_covers [of _ 4 x, OF 3] by simp
  have 5: "\<And>i. bit (smear 8 (smear 4 (smear 2 (smear 1 x)))) i \<longleftrightarrow> (\<exists>j<16. bit x (i + j))"
    using smear_covers [of _ 8 x, OF 4] by simp
  show ?thesis using smear_covers [of _ 16 x, OF 5] by (simp add: smear_all_def)
qed

lemma smear_all_eq:
  assumes x: "2 ^ k \<le> x" "x < 2 ^ Suc k" and k: "k \<le> 31"
  shows "smear_all x = 2 ^ Suc k - 1"
proof -
  have high: "\<not> bit x i" if "Suc k \<le> i" for i
  proof -
    have "x < 2 ^ i" using x(2) power_increasing [OF that, of "2::int"] by linarith
    moreover have "0 \<le> x" using x(1) zero_le_power [of "2::int" k] by linarith
    ultimately show ?thesis by (simp add: bit_iff_odd div_pos_pos_trivial)
  qed
  have "x div 2 ^ k = 1"
    using x by (intro int_div_pos_eq [where r = "x - 2 ^ k"]) auto
  then have top: "bit x k" by (simp add: bit_iff_odd)
  have "smear_all x = mask (Suc k)"
  proof (rule bit_eqI)
    fix i
    have "(\<exists>j<32. bit x (i + j)) \<longleftrightarrow> i < Suc k"
    proof
      assume "\<exists>j<32. bit x (i + j)"
      then show "i < Suc k" using high by (metis le_add1 le_trans not_less)
    next
      assume "i < Suc k"
      then have "i + (k - i) = k" "k - i < 32" using k by auto
      then show "\<exists>j<32. bit x (i + j)" using top by metis
    qed
    then show "bit (smear_all x) i = bit (mask (Suc k) :: int) i"
      by (simp add: bit_smear_all bit_mask_iff)
  qed
  then show ?thesis by (simp add: mask_eq_exp_minus_1)
qed

lemma nextPowerofTwo_eq:
  assumes "2 ^ k < v" "v \<le> 2 ^ Suc k" "k \<le> 29"
  shows "nextPowerofTwo v = 2 ^ Suc k"
proof -
  have "(2::int) ^ Suc k \<le> 2 ^ 30" using assms(3) by (intro power_increasing) auto
  moreover have "(0::int) < 2 ^ k" by simp
  ultimately have r: "i32 (v - 1) = v - 1" "i32 (2 ^ Suc k) = 2 ^ Suc k"
    using assms by (auto intro!: i32_id)
  have "smear_all (v - 1) = 2 ^ Suc k - 1" using assms by (intro smear_all_eq) auto
  then have "smear 16 (smear 8 (smear 4 (smear 2 (smear 1 (v - 1))))) = 2 ^ Suc k - 1"
    by (simp only: smear_all_def)
  then show ?thesis using r by (simp only: nextPowerofTwo_def diff_add_cancel)
qed

lemma nextPowerofTwo_1: "nextPowerofTwo 1 = 1"
  by (simp add: nextPowerofTwo_def smear_def i32_def)

end
