(* ===== verification/SizeFormula.thy ===== *)
theory SizeFormula
  imports MathUtils
begin

text \<open>
  The arithmetic behind the size classes, for a quantum of \<open>2 ^ k\<close>: the first group has
  the four sizes \<open>(m + 1) * 2 ^ k\<close>, and every later group \<open>g\<close> the four sizes
  \<open>(m + 5) * 2 ^ (g + k - 1)\<close>. \<open>class_of k s\<close> is the closed formula the code uses to
  find the class of a size, \<open>size_of k i\<close> the size of a class. \<^verbatim>\<open>SizeClass.cpp\<close> uses both
  twice: with \<open>k = 4\<close> for bytes and \<open>k = m_pageShifts\<close> for runs of pages.
\<close>

definition delta_of :: "nat \<Rightarrow> int \<Rightarrow> nat" where
  "delta_of k s = max k (nat (log2 (2 * s - 1)) - 3)"

definition class_of :: "nat \<Rightarrow> int \<Rightarrow> int" where
  "class_of k s = 4 * int (nat (log2 (2 * s - 1)) - (k + 2)) + ((s - 1) div 2 ^ delta_of k s) mod 4"

definition size_of :: "nat \<Rightarrow> int \<Rightarrow> int" where
  "size_of k i = (if i div 4 = 0 then (i mod 4 + 1) * 2 ^ k
                  else (i mod 4 + 5) * 2 ^ (nat (i div 4) + k - 1))"

text \<open>The shape of a class: its group, its position in it and the width of the group.\<close>

lemma class_shape:
  assumes s: "1 \<le> s" "s \<le> 2 ^ 30"
  obtains (first) m where "0 \<le> m" "m < 4" "class_of k s = m" "delta_of k s = k"
      "(s - 1) div 2 ^ k = m"
    | (later) m g where "0 \<le> m" "m < 4" "1 \<le> g" "class_of k s = 4 * int g + m"
      "delta_of k s = g + k - 1" "(s - 1) div 2 ^ (g + k - 1) = m + 4" "g + k + 2 \<le> 30"
proof -
  define x where "x = nat (log2 (2 * s - 1))"
  have r: "0 < 2 * s - 1" "2 * s - 1 \<le> INT_MAX" using s by auto
  have lo: "2 ^ x \<le> 2 * s - 1" and hi: "2 * s - 1 < 2 ^ Suc x"
    using log2_bounds(3,4) [OF r] by (simp_all add: x_def)
  have x30: "x \<le> 30" using log2_bounds(1,2) [OF r] by (simp add: x_def)
  show thesis
  proof (cases "x < k + 3")
    case True
    define m where "m = (s - 1) div 2 ^ k"
    have d: "delta_of k s = k" using True by (simp add: delta_of_def x_def)
    have "2 * s - 1 < 2 * 2 ^ (k + 2)"
      using hi power_increasing [of "Suc x" "k + 3" "2::int"] True by (simp add: power_add)
    then have "s - 1 < 4 * 2 ^ k" by (simp add: power_add)
    then have "m < 4" unfolding m_def by (simp add: int_div_less)
    moreover have "0 \<le> m" using s by (simp add: m_def pos_imp_zdiv_nonneg_iff)
    moreover have "class_of k s = m"
    proof -
      have "x - (k + 2) = 0" using True by simp
      then have "class_of k s = 4 * int 0 + m mod 4"
        unfolding class_of_def d x_def [symmetric] m_def [symmetric] by (simp only:)
      then show ?thesis using mod_pos_pos_trivial [OF \<open>0 \<le> m\<close> \<open>m < 4\<close>] by linarith
    qed
    ultimately show thesis using first [OF _ _ _ d m_def [symmetric]] by metis
  next
    case False
    define g where "g = x - (k + 2)"
    have g: "1 \<le> g" "x = g + k + 2" using False unfolding g_def by linarith+
    define e where "e = g + k - 1"
    have e: "x = e + 3" using g unfolding e_def by linarith
    have d: "delta_of k s = e"
      using e False unfolding delta_of_def x_def [symmetric] by linarith
    define q where "q = (s - 1) div 2 ^ e"
    have "8 * 2 ^ e \<le> 2 * s - 1" "2 * s - 1 < 16 * 2 ^ e"
      using lo hi by (simp_all add: e power_add)
    then have "4 * 2 ^ e \<le> s - 1" "s - 1 < 8 * 2 ^ e" by linarith+
    then have q: "4 \<le> q" "q < 8"
      unfolding q_def by (simp_all add: int_div_less int_le_div)
    have "class_of k s = 4 * int g + (q - 4)"
    proof -
      have "q mod 4 = q - 4" using q by presburger
      then show ?thesis
        unfolding class_of_def d x_def [symmetric] q_def [symmetric] g_def [symmetric] by linarith
    qed
    then show thesis
      using later [of "q - 4" g] q g d x30 by (simp add: q_def e_def)
  qed
qed

lemma size_of_first: "0 \<le> m \<Longrightarrow> m < 4 \<Longrightarrow> size_of k m = (m + 1) * 2 ^ k"
  by (simp add: size_of_def)

lemma size_of_later:
  assumes "0 \<le> m" "m < 4" "1 \<le> g"
  shows "size_of k (4 * int g + m) = (m + 5) * 2 ^ (g + k - 1)"
proof -
  have "(4 * int g + m) div 4 = int g" "(4 * int g + m) mod 4 = m" using assms by auto
  then show ?thesis using assms by (simp add: size_of_def)
qed

lemma size_of_suc:
  assumes "0 \<le> i"
  shows "size_of k i < size_of k (i + 1)"
proof -
  define g where "g = nat (i div 4)"
  define m where "m = i mod 4"
  have i: "i = 4 * int g + m" "0 \<le> m" "m < 4" using assms by (auto simp: g_def m_def)
  consider "m < 3" "g = 0" | "m = 3" "g = 0" | "m < 3" "1 \<le> g" | "m = 3" "1 \<le> g"
    using i by force
  then show ?thesis
  proof cases
    case 1 then show ?thesis using i by (simp add: size_of_first)
  next
    case 2
    then have "i + 1 = 4 * int 1 + 0" using i by simp
    then show ?thesis using 2 i size_of_later [of 0 1 k] by (simp add: size_of_first)
  next
    case 3
    then have "i + 1 = 4 * int g + (m + 1)" using i by simp
    then have "size_of k (i + 1) = (m + 6) * 2 ^ (g + k - 1)"
      using 3 i size_of_later [of "m + 1" g k] by (simp add: algebra_simps)
    then show ?thesis using 3 i size_of_later [of m g k] by simp
  next
    case 4
    then have "i + 1 = 4 * int (Suc g) + 0" using i by simp
    moreover have "(2::int) ^ (Suc g + k - 1) = 2 * 2 ^ (g + k - 1)"
      using 4 by (cases g) simp_all
    ultimately show ?thesis
      using 4 i size_of_later [of m g k] size_of_later [of 0 "Suc g" k] by simp
  qed
qed

lemma size_of_strict_mono:
  assumes "0 \<le> i" "i < j"
  shows "size_of k i < size_of k j"
proof -
  have "size_of k i < size_of k (i + int (Suc n))" for n
  proof (induction n)
    case 0
    then show ?case using size_of_suc [OF assms(1)] by simp
  next
    case (Suc n)
    have "size_of k (i + int (Suc n)) < size_of k (i + int (Suc (Suc n)))"
      using size_of_suc [of "i + int (Suc n)" k] assms(1) by (simp add: algebra_simps)
    with Suc show ?case by (rule order.strict_trans)
  qed
  from this [of "nat (j - i - 1)"] assms show ?thesis by (simp add: algebra_simps)
qed

lemma size_of_mono: "0 \<le> i \<Longrightarrow> i \<le> j \<Longrightarrow> size_of k i \<le> size_of k j"
  using size_of_strict_mono [of i j k] by (cases "i = j") auto

lemma class_of_nonneg: "1 \<le> s \<Longrightarrow> s \<le> 2 ^ 30 \<Longrightarrow> 0 \<le> class_of k s"
  by (rule class_shape [of s k]) auto

text \<open>The class of a size rounds it up to the next multiple of the width of its group.\<close>

lemma size_of_class_of:
  assumes "1 \<le> s" "s \<le> 2 ^ 30"
  shows "size_of k (class_of k s) = ((s - 1) div 2 ^ delta_of k s + 1) * 2 ^ delta_of k s"
  using assms by (rule class_shape [of s k]) (auto simp: size_of_first size_of_later)

lemma class_of_fits:
  assumes "1 \<le> s" "s \<le> 2 ^ 30"
  shows "s \<le> size_of k (class_of k s)"
proof -
  have "(s - 1) div 2 ^ delta_of k s < (s - 1) div 2 ^ delta_of k s + 1" by simp
  then have "s - 1 < ((s - 1) div 2 ^ delta_of k s + 1) * 2 ^ delta_of k s"
    by (subst (asm) int_div_less) auto
  then show ?thesis using size_of_class_of [OF assms] by simp
qed

lemma class_of_tight:
  assumes s: "1 \<le> s" "s \<le> 2 ^ 30" and i: "0 \<le> i" "i < class_of k s"
  shows "size_of k i < s"
proof -
  have "size_of k (class_of k s - 1) \<le> s - 1"
    using s
  proof (rule class_shape [of s k])
    fix m assume m: "0 \<le> m" "m < 4" "class_of k s = m" "(s - 1) div 2 ^ k = m"
    then have "m * 2 ^ k \<le> s - 1" by (metis int_le_div order_refl zero_less_numeral zero_less_power)
    then show ?thesis using m i by (simp add: size_of_first)
  next
    fix m g assume m: "0 \<le> m" "m < 4" "1 \<le> g" "class_of k s = 4 * int g + m"
      "(s - 1) div 2 ^ (g + k - 1) = m + 4"
    then have le: "(m + 4) * 2 ^ (g + k - 1) \<le> s - 1"
      by (metis int_le_div order_refl zero_less_numeral zero_less_power)
    have "size_of k (class_of k s - 1) = (m + 4) * 2 ^ (g + k - 1)"
    proof (cases "m = 0")
      case False
      then have "class_of k s - 1 = 4 * int g + (m - 1)" using m by simp
      then show ?thesis using m False size_of_later [of "m - 1" g k] by (simp only:) auto
    next
      case True
      show ?thesis
      proof (cases "g = 1")
        case True
        with \<open>m = 0\<close> m show ?thesis by (simp add: size_of_first)
      next
        case False
        then obtain h where h: "g = Suc h" "1 \<le> h" using m by (cases g) auto
        then have "class_of k s - 1 = 4 * int h + 3" using m True by simp
        moreover have "(2::int) ^ (Suc h + k - 1) = 2 * 2 ^ (h + k - 1)"
          using h by (cases h) simp_all
        ultimately show ?thesis using True h size_of_later [of 3 h k] by (simp only:) simp
      qed
    qed
    then show ?thesis using le by simp
  qed
  moreover have "size_of k i \<le> size_of k (class_of k s - 1)"
    using i by (intro size_of_mono) auto
  ultimately show ?thesis by linarith
qed

text \<open>So \<open>class_of\<close> is the lower adjoint of \<open>size_of\<close>.\<close>

lemma class_of_le_iff:
  assumes "1 \<le> s" "s \<le> 2 ^ 30" "0 \<le> i"
  shows "class_of k s \<le> i \<longleftrightarrow> s \<le> size_of k i"
proof
  assume "class_of k s \<le> i"
  then have "size_of k (class_of k s) \<le> size_of k i"
    using assms class_of_nonneg [OF assms(1,2)] by (intro size_of_mono) auto
  then show "s \<le> size_of k i" using class_of_fits [OF assms(1,2), of k] by linarith
next
  assume "s \<le> size_of k i"
  then show "class_of k s \<le> i" using class_of_tight [OF assms(1,2,3)] by (meson not_le)
qed

lemma class_of_size_of:
  assumes "0 \<le> i" "size_of k i \<le> 2 ^ 30"
  shows "class_of k (size_of k i) = i"
proof -
  have 1: "1 \<le> size_of k i"
  proof -
    have "0 \<le> i mod 4" by simp
    then have "0 < size_of k i" by (auto simp: size_of_def intro!: mult_pos_pos simp del: pos_mod_sign)
    then show ?thesis by simp
  qed
  have le: "class_of k (size_of k i) \<le> i"
    using class_of_le_iff [OF 1 assms(2,1)] by simp
  have "\<not> class_of k (size_of k i) < i"
    using class_of_fits [OF 1 assms(2), of k] class_of_nonneg [OF 1 assms(2), of k]
      size_of_strict_mono [of "class_of k (size_of k i)" i k] by linarith
  with le show ?thesis by linarith
qed

end
