(* ===== verification/SizeClass.thy ===== *)
theory SizeClass
  imports SizeFormula
begin

text \<open>
  \<^verbatim>\<open>buffer/SizeClass.h\<close> and \<^verbatim>\<open>buffer/SizeClass.cpp\<close>: the jemalloc-style table of size
  classes, the three lookup tables built from it, and the closed formulas that avoid
  them. The object is the record \<open>size_class\<close>; a method that writes members returns the
  new object. The tables are raw \<^verbatim>\<open>new int[n]\<close> arrays, so an element is \<open>None\<close> until
  it is written and reading it then is \<open>Uninitialised\<close>.
\<close>

record size_row =
  INDEX_IDX :: int
  LOG2GROUP_IDX :: int
  LOG2DELTA_IDX :: int
  NDELTA_IDX :: int
  PAGESIZE_IDX :: int
  SUBPAGE_IDX :: int
  LOG2_DELTA_SEARCH_IDX :: int

record size_class =
  m_searchMaxSize :: int
  m_sizeClasses :: "size_row option list"
  m_pageIdx2sizeTab :: "int option list"
  m_sizeIdx2sizeTab :: "int option list"
  m_size2idxTab :: "int option list"
  m_nSizes :: int
  m_nSubpages :: int
  m_nPSizes :: int
  m_pageSize :: int
  m_pageShifts :: int
  m_chunkSize :: int
  m_smallMaxSizeIdx :: int

definition u16 :: "int \<Rightarrow> int" where "u16 x = take_bit 16 x"

definition read_tab :: "'a option list \<Rightarrow> int \<Rightarrow> 'a res" where
  "read_tab xs i = rbind (at_vec xs i)
     (\<lambda>c. case c of None \<Rightarrow> Inl Uninitialised | Some x \<Rightarrow> Inr x)"

subsection \<open>Building the table of classes\<close>

definition class_size :: "int \<Rightarrow> int \<Rightarrow> int \<Rightarrow> int" where
  "class_size log2Group log2Delta nDelta = i32 (shl32 1 log2Group + i32 (shl32 1 log2Delta * nDelta))"

definition sizeClass ::
  "int \<Rightarrow> int \<Rightarrow> int \<Rightarrow> int \<Rightarrow> size_class \<Rightarrow> (int \<times> size_class) res" where
  "sizeClass index log2Group log2Delta nDelta sc =
     (let sz = class_size log2Group log2Delta nDelta;
          isMultiPageSize =
            (if m_pageShifts sc \<le> log2Delta then 1
             else let pageSize = shl32 1 (m_pageShifts sc)
                  in if sz AND (pageSize - 1) = 0 then 1 else 0);
          log2nDelta = (if nDelta = 0 then 0 else log2 nDelta);
          mark = (if shl32 1 log2nDelta < nDelta then 1 else 0);
          log2size = (if log2nDelta + log2Delta = log2Group then log2Group + 1 else log2Group);
          mark = (if log2size = log2Group then 1 else mark :: int);
          isSubPage = (if log2size < m_pageShifts sc + 2 then 1 else 0);
          log2searchDelta = (if log2size < 12 \<or> log2size = 12 \<and> mark = 0 then log2Delta else 0);
          row = \<lparr>INDEX_IDX = u16 index, LOG2GROUP_IDX = u16 log2Group,
                 LOG2DELTA_IDX = u16 log2Delta, NDELTA_IDX = u16 nDelta,
                 PAGESIZE_IDX = isMultiPageSize, SUBPAGE_IDX = isSubPage,
                 LOG2_DELTA_SEARCH_IDX = u16 log2searchDelta\<rparr>
      in rbind (set_vec (m_sizeClasses sc) index (Some row)) (\<lambda>rows.
         let sc = sc\<lparr>m_sizeClasses := rows\<rparr>;
             sc = (if PAGESIZE_IDX row = 1 then sc\<lparr>m_nPSizes := m_nPSizes sc + 1\<rparr> else sc);
             sc = (if SUBPAGE_IDX row = 1
                   then sc\<lparr>m_nSubpages := m_nSubpages sc + 1, m_smallMaxSizeIdx := index\<rparr> else sc);
             sc = (if LOG2_DELTA_SEARCH_IDX row \<noteq> 0 then sc\<lparr>m_searchMaxSize := sz\<rparr> else sc)
         in Inr (sz, sc)))"

text \<open>
  The loops of \<^verbatim>\<open>sizeClasses()\<close>. The first fills the group of \<open>nDelta\<close> 0 to 3; a round of
  the outer loop fills one later group. Each round doubles the group, so 32 rounds leave
  the range of an \<^verbatim>\<open>int\<close>: running out of the 32 rounds is \<open>Diverges\<close>.
\<close>

function first_group ::
  "int \<Rightarrow> int \<Rightarrow> int \<Rightarrow> int \<Rightarrow> int \<Rightarrow> size_class \<Rightarrow> (int \<times> int \<times> size_class) res" where
  "first_group index sz log2Group log2Delta nDelta sc =
     (if nDelta < 4
      then rbind (sizeClass index log2Group log2Delta nDelta sc) (\<lambda>(sz, sc).
             first_group (index + 1) sz log2Group log2Delta (nDelta + 1) sc)
      else Inr (index, sz, sc))"
  by pat_completeness auto
termination
  by (relation "measure (\<lambda>(index, sz, lg, ld, nDelta, sc). nat (4 - nDelta))") auto

function next_group ::
  "int \<Rightarrow> int \<Rightarrow> int \<Rightarrow> int \<Rightarrow> int \<Rightarrow> int \<Rightarrow> size_class \<Rightarrow> (int \<times> int \<times> int \<times> size_class) res" where
  "next_group index sz normalMaxSize log2Group log2Delta nDelta sc =
     (if nDelta \<le> 4 \<and> sz < m_chunkSize sc
      then rbind (sizeClass index log2Group log2Delta nDelta sc) (\<lambda>(sz, sc).
             next_group (index + 1) sz sz log2Group log2Delta (nDelta + 1) sc)
      else Inr (index, sz, normalMaxSize, sc))"
  by pat_completeness auto
termination
  by (relation "measure (\<lambda>(index, sz, nm, lg, ld, nDelta, sc). nat (5 - nDelta))") auto

fun later_groups ::
  "nat \<Rightarrow> int \<Rightarrow> int \<Rightarrow> int \<Rightarrow> int \<Rightarrow> int \<Rightarrow> size_class \<Rightarrow> (int \<times> int \<times> size_class) res" where
  "later_groups 0 index sz normalMaxSize log2Group log2Delta sc = Inl Diverges"
| "later_groups (Suc n) index sz normalMaxSize log2Group log2Delta sc =
     (if sz < m_chunkSize sc
      then rbind (next_group index sz normalMaxSize log2Group log2Delta 1 sc)
             (\<lambda>(index, sz, normalMaxSize, sc).
               later_groups n index sz normalMaxSize (log2Group + 1) (log2Delta + 1) sc)
      else Inr (index, normalMaxSize, sc))"

definition sizeClasses :: "size_class \<Rightarrow> (int \<times> size_class) res" where
  "sizeClasses sc =
     rbind (first_group 0 0 4 4 0 sc) (\<lambda>(index, sz, sc).
     rbind (later_groups 32 index sz (- 1) (4 + 2) 4 sc) (\<lambda>(index, normalMaxSize, sc).
     assert_that (normalMaxSize = m_chunkSize sc) (Inr (index, sc))))"

subsection \<open>Building the lookup tables\<close>

function idx2SizeTab_loop ::
  "size_class \<Rightarrow> int \<Rightarrow> int \<Rightarrow> int option list \<Rightarrow> int option list
    \<Rightarrow> (int option list \<times> int option list) res" where
  "idx2SizeTab_loop sc i pageIdx sizeTab pageTab =
     (if i < m_nSizes sc
      then rbind (read_tab (m_sizeClasses sc) i) (\<lambda>row.
           let sz = class_size (LOG2GROUP_IDX row) (LOG2DELTA_IDX row) (NDELTA_IDX row) in
           rbind (set_vec sizeTab i (Some sz)) (\<lambda>sizeTab.
           if PAGESIZE_IDX row = 1
           then rbind (set_vec pageTab pageIdx (Some sz)) (\<lambda>pageTab.
                  idx2SizeTab_loop sc (i + 1) (pageIdx + 1) sizeTab pageTab)
           else idx2SizeTab_loop sc (i + 1) pageIdx sizeTab pageTab))
      else Inr (sizeTab, pageTab))"
  by pat_completeness auto
termination
  by (relation "measure (\<lambda>(sc, i, pageIdx, st, pt). nat (m_nSizes sc - i))") auto

definition idx2SizeTab ::
  "size_class \<Rightarrow> int option list \<Rightarrow> int option list \<Rightarrow> (int option list \<times> int option list) res" where
  "idx2SizeTab sc sizeTab pageTab = idx2SizeTab_loop sc 0 0 sizeTab pageTab"

text \<open>
  \<open>size2idx_fill\<close> is the inner loop \<^verbatim>\<open>while(size <= m_searchMaxSize && times--)\<close>;
  \<open>size2idx_loop\<close> is the outer one, at most one round per class of the table (it reads
  row \<open>i\<close>, so a further round would leave the table).
\<close>

fun size2idx_fill ::
  "int \<Rightarrow> int \<Rightarrow> nat \<Rightarrow> int \<Rightarrow> int \<Rightarrow> int option list \<Rightarrow> (int \<times> int \<times> int option list) res" where
  "size2idx_fill maxSize i 0 idx sz tab = Inr (idx, sz, tab)"
| "size2idx_fill maxSize i (Suc cnt) idx sz tab =
     (if sz \<le> maxSize
      then rbind (set_vec tab idx (Some i)) (\<lambda>tab.
             size2idx_fill maxSize i cnt (idx + 1) (shl32 (idx + 1 + 1) 4) tab)
      else Inr (idx, sz, tab))"

fun size2idx_loop ::
  "nat \<Rightarrow> size_class \<Rightarrow> int \<Rightarrow> int \<Rightarrow> int \<Rightarrow> int option list \<Rightarrow> int option list res" where
  "size2idx_loop 0 sc i idx sz tab = Inl Diverges"
| "size2idx_loop (Suc n) sc i idx sz tab =
     (if sz \<le> m_searchMaxSize sc
      then rbind (read_tab (m_sizeClasses sc) i) (\<lambda>row.
           let cnt = shl32 1 (LOG2DELTA_IDX row - 4) in
           rbind (size2idx_fill (m_searchMaxSize sc) i (nat cnt) idx sz tab)
             (\<lambda>(idx, sz, tab). size2idx_loop n sc (i + 1) idx sz tab))
      else Inr tab)"

definition size2idxTab :: "size_class \<Rightarrow> int option list \<Rightarrow> int option list res" where
  "size2idxTab sc tab = size2idx_loop (Suc (length (m_sizeClasses sc))) sc 0 0 0 tab"

definition SizeClass :: "int \<Rightarrow> int \<Rightarrow> int \<Rightarrow> size_class res" where
  "SizeClass pageSize pageShifts chunkSize =
     (let group = log2 chunkSize + 1 - 4;
          sc = \<lparr>m_searchMaxSize = 0, m_sizeClasses = replicate (nat (shl32 group 2)) None,
                m_pageIdx2sizeTab = [], m_sizeIdx2sizeTab = [], m_size2idxTab = [],
                m_nSizes = 0, m_nSubpages = 0, m_nPSizes = 0, m_pageSize = pageSize,
                m_pageShifts = pageShifts, m_chunkSize = chunkSize, m_smallMaxSizeIdx = 0\<rparr>
      in rbind (sizeClasses sc) (\<lambda>(n, sc).
         let sc = sc\<lparr>m_nSizes := n\<rparr> in
         rbind (idx2SizeTab sc (replicate (nat (m_nSizes sc)) None)
                               (replicate (nat (m_nPSizes sc)) None)) (\<lambda>(sizeTab, pageTab).
         let sc = sc\<lparr>m_sizeIdx2sizeTab := sizeTab, m_pageIdx2sizeTab := pageTab\<rparr> in
         rbind (size2idxTab sc (replicate (nat (shr (m_searchMaxSize sc) 4)) None)) (\<lambda>tab.
         Inr (sc\<lparr>m_size2idxTab := tab\<rparr>)))))"

subsection \<open>Lookups\<close>

definition size2sizeIdxCompute :: "int \<Rightarrow> int" where
  "size2sizeIdxCompute sz =
     (let x = log2 (i32 (shl32 sz 1 - 1));
          shift = (if x < 4 + 2 + 1 then 0 else x - (2 + 4));
          group = shl32 shift 2;
          log2delta = (if x < 2 + 4 + 1 then 4 else x - 2 - 1);
          deltaInverseMask = shl32 (- 1) log2delta;
          mod' = shr ((sz - 1) AND deltaInverseMask) log2delta AND (shl32 1 2 - 1)
      in group + mod')"

definition size2sizeIdx :: "size_class \<Rightarrow> int \<Rightarrow> int res" where
  "size2sizeIdx sc sz =
     (if sz = 0 then Inr 0
      else if sz > m_chunkSize sc then Inr (m_nSizes sc)
      else if sz \<le> m_searchMaxSize sc then read_tab (m_size2idxTab sc) (shr (sz - 1) 4)
      else Inr (size2sizeIdxCompute sz))"

definition sizeIdx2size :: "size_class \<Rightarrow> int \<Rightarrow> int res" where
  "sizeIdx2size sc sizeIdx = read_tab (m_sizeIdx2sizeTab sc) sizeIdx"

definition sizeIdx2sizeCompute :: "int \<Rightarrow> int" where
  "sizeIdx2sizeCompute sizeIdx =
     (let group = shr sizeIdx 2;
          mod' = sizeIdx AND (shl32 1 2 - 1);
          groupSize = (if group = 0 then 0 else shl32 (shl32 1 (4 + 2 - 1)) group);
          shift = (if group = 0 then 1 else group);
          logDelta = shift + 4 - 1;
          modSize = shl32 (mod' + 1) logDelta
      in i32 (groupSize + modSize))"

definition pageIdx2size :: "size_class \<Rightarrow> int \<Rightarrow> int res" where
  "pageIdx2size sc pageIdx = read_tab (m_pageIdx2sizeTab sc) pageIdx"

definition pageIdx2sizeCompute :: "size_class \<Rightarrow> int \<Rightarrow> int" where
  "pageIdx2sizeCompute sc pageIdx =
     (let group = shr pageIdx 2;
          mod' = pageIdx AND (shl32 1 2 - 1);
          groupSize = (if group = 0 then 0
                       else i64 (push_bit (nat group) (i64 (push_bit (nat (m_pageShifts sc + 2 - 1)) 1))));
          shift = (if group = 0 then 1 else group);
          log2Delta = shift + m_pageShifts sc - 1;
          modSize = shl32 (mod' + 1) log2Delta
      in i64 (groupSize + modSize))"

definition pages2pageIdxCompute :: "size_class \<Rightarrow> int \<Rightarrow> bool \<Rightarrow> int res" where
  "pages2pageIdxCompute sc pages floor =
     (let pageSize = shl32 pages (m_pageShifts sc) in
      if pageSize > m_chunkSize sc then Inr (m_nPSizes sc)
      else let x = log2 (i32 (shl32 pageSize 1 - 1));
               shift = (if x < 2 + m_pageShifts sc then 0 else x - (2 + m_pageShifts sc));
               group = shl32 shift 2;
               log2Delta = (if x < 2 + m_pageShifts sc + 1 then m_pageShifts sc else x - 2 - 1);
               deltaInverseMask = shl32 (- 1) log2Delta;
               mod' = shr ((pageSize - 1) AND deltaInverseMask) log2Delta AND (shl32 1 2 - 1);
               pageIdx = group + mod'
           in if floor
              then rbind (read_tab (m_pageIdx2sizeTab sc) pageIdx) (\<lambda>s.
                     if s > shl32 pages (m_pageShifts sc) then Inr (pageIdx - 1) else Inr pageIdx)
              else Inr pageIdx)"

definition page2pageIdx :: "size_class \<Rightarrow> int \<Rightarrow> int res" where
  "page2pageIdx sc pages = pages2pageIdxCompute sc pages False"

definition page2pageIdxFloor :: "size_class \<Rightarrow> int \<Rightarrow> int res" where
  "page2pageIdxFloor sc pages = pages2pageIdxCompute sc pages True"

definition normalizeSizeCompute :: "int \<Rightarrow> int" where
  "normalizeSizeCompute sz =
     (let x = log2 (i32 (shl32 sz 1 - 1));
          log2Delta = (if x < 2 + 4 + 1 then 4 else x - 2 - 1);
          delta = shl32 1 log2Delta;
          delta_mask = delta - 1
      in i32 (sz + delta_mask) AND NOT delta_mask)"

definition normalizeSize :: "size_class \<Rightarrow> int \<Rightarrow> int res" where
  "normalizeSize sc sz =
     (if sz = 0 then read_tab (m_sizeIdx2sizeTab sc) 0
      else if sz \<le> m_searchMaxSize sc
      then rbind (read_tab (m_size2idxTab sc) (shr (sz - 1) 4)) (\<lambda>i.
           rbind (read_tab (m_sizeIdx2sizeTab sc) i) (\<lambda>ret.
           assert_that (ret = normalizeSizeCompute sz) (Inr ret)))
      else Inr (normalizeSizeCompute sz))"

subsection \<open>The closed formulas\<close>

lemma drop_bit_and_minus_exp:
  fixes a :: int
  shows "drop_bit d (a AND - (2 ^ d)) = drop_bit d a"
proof -
  have "(- 1) * 2 ^ d div 2 ^ d = (- 1 :: int)" by (rule nonzero_mult_div_cancel_right) simp
  then have "drop_bit d (- (2 ^ d)) = (- 1 :: int)" by (simp add: drop_bit_eq_div)
  then show ?thesis by simp
qed

lemma shl32_minus_1: "0 \<le> d \<Longrightarrow> d \<le> 31 \<Longrightarrow> shl32 (- 1) d = - (2 ^ nat d)"
proof -
  assume "0 \<le> d" "d \<le> 31"
  then have "(2::int) ^ nat d \<le> 2 ^ 31" by (intro power_increasing) auto
  moreover have "(0::int) < 2 ^ nat d" by simp
  ultimately show ?thesis unfolding shl32_def push_bit_eq_mult
    by (simp, intro i32_id) (simp_all del: zero_less_power)
qed

lemma shl32_one: "0 \<le> n \<Longrightarrow> n \<le> 30 \<Longrightarrow> shl32 1 n = 2 ^ nat n"
proof -
  assume "0 \<le> n" "n \<le> 30"
  then have "(2::int) ^ nat n \<le> 2 ^ 30" by (intro power_increasing) auto
  then show ?thesis using shl32_eq [of 1 n] by simp
qed

lemma code_class_eq:
  assumes s: "1 \<le> s" "s \<le> 2 ^ 29" and k: "k \<le> 20" and kk: "kk = int k"
    and shift: "\<And>x. 0 \<le> x \<Longrightarrow> shiftf x = int (nat x - (k + 2))"
  shows "(let x = log2 (i32 (shl32 s 1 - 1));
              shift = shiftf x;
              group = shl32 shift 2;
              log2Delta = (if x < 2 + kk + 1 then kk else x - 2 - 1);
              deltaInverseMask = shl32 (- 1) log2Delta;
              mod' = shr ((s - 1) AND deltaInverseMask) log2Delta AND (shl32 1 2 - 1)
          in group + mod') = class_of k s"
proof -
  define x where "x = log2 (2 * s - 1)"
  have r: "0 < 2 * s - 1" "2 * s - 1 \<le> INT_MAX" using s by auto
  have x: "0 \<le> x" "x \<le> 30" using log2_bounds(1,2) [OF r] by (simp_all add: x_def)
  have "shl32 s 1 = 2 * s" using s by (subst shl32_eq) auto
  then have arg: "log2 (i32 (shl32 s 1 - 1)) = x" using r by (simp add: i32_id x_def)
  have d: "(if x < 2 + kk + 1 then kk else x - 2 - 1) = int (delta_of k s)"
    using x kk by (auto simp: delta_of_def simp flip: x_def)
  have d31: "delta_of k s \<le> 30" using x k unfolding delta_of_def x_def [symmetric] by linarith
  have sh: "shiftf x = int (nat x - (k + 2))" using x by (intro shift)
  have g: "shl32 (int (nat x - (k + 2))) 2 = 4 * int (nat x - (k + 2))"
    using x by (subst shl32_eq) auto
  have m1: "shl32 (- 1) (int (delta_of k s)) = - (2 ^ delta_of k s)"
    using d31 shl32_minus_1 [of "int (delta_of k s)"] by simp
  have "shr ((s - 1) AND shl32 (- 1) (int (delta_of k s))) (int (delta_of k s))
      = (s - 1) div 2 ^ delta_of k s"
    by (simp only: m1 shr_def nat_int drop_bit_and_minus_exp) (rule drop_bit_eq_div)
  moreover have "shl32 1 2 - 1 = 3" by (simp add: shl32_one)
  ultimately show ?thesis
    by (simp only: Let_def arg d sh g and_mask_mod) (simp only: class_of_def x_def)
qed

lemma size2sizeIdxCompute_eq:
  "1 \<le> s \<Longrightarrow> s \<le> 2 ^ 29 \<Longrightarrow> size2sizeIdxCompute s = class_of 4 s"
  unfolding size2sizeIdxCompute_def Let_def
  by (rule code_class_eq [of s 4 4, unfolded Let_def]) auto

lemma sizeIdx2sizeCompute_eq:
  assumes i: "0 \<le> i" "i < 100"
  shows "sizeIdx2sizeCompute i = size_of 4 i"
proof -
  define g where "g = i div 4"
  define m where "m = i mod 4"
  have m: "0 \<le> m" "m < 4" and g: "0 \<le> g" "g < 25" using i by (auto simp: g_def m_def)
  have *: "shr i 2 = g" "i AND (shl32 1 2 - 1) = m"
    by (simp_all add: shr_eq g_def m_def shl32_one and_mask_mod)
  show ?thesis
  proof (cases "g = 0")
    case True
    have "shl32 (m + 1) 4 = (m + 1) * 2 ^ 4" using m by (subst shl32_eq) auto
    with True m show ?thesis
      by (simp add: sizeIdx2sizeCompute_def Let_def * size_of_def i32_id flip: g_def m_def)
  next
    case False
    have p: "(2::int) ^ (nat g + 3) \<le> 2 ^ 27" using g by (intro power_increasing) auto
    have e: "nat (g + 4 - 1) = nat g + 3" using g by simp
    have "(m + 1) * 2 ^ (nat g + 3) \<le> 4 * 2 ^ 27"
      using m p by (intro mult_mono) auto
    then have 1: "shl32 (m + 1) (g + 4 - 1) = (m + 1) * 2 ^ (nat g + 3)"
      using m e by (subst shl32_eq) auto
    have q: "(32::int) * 2 ^ nat g = 4 * 2 ^ (nat g + 3)" by (simp add: power_add)
    have "shl32 1 (4 + 2 - 1) = 32" by (simp add: shl32_one)
    moreover have "shl32 32 g = 4 * 2 ^ (nat g + 3)"
      using p q by (subst shl32_eq) auto
    ultimately have 2: "shl32 (shl32 1 (4 + 2 - 1)) g = 4 * 2 ^ (nat g + 3)" by simp
    have "4 * 2 ^ (nat g + 3) + (m + 1) * 2 ^ (nat g + 3) = (m + 5) * 2 ^ (nat g + 4 - 1)"
      by (simp add: algebra_simps)
    moreover have "(m + 5) * 2 ^ (nat g + 3) \<le> 8 * 2 ^ 27"
      using m p by (intro mult_mono) auto
    ultimately have "i32 (4 * 2 ^ (nat g + 3) + (m + 1) * 2 ^ (nat g + 3))
        = (m + 5) * 2 ^ (nat g + 4 - 1)"
      using m by (subst i32_id) (auto intro: order_trans [of _ 0] simp: add.commute)
    with False show ?thesis
      by (simp only: sizeIdx2sizeCompute_def Let_def * if_False 1 2)
        (simp add: size_of_def flip: g_def m_def)
  qed
qed

lemma normalizeSizeCompute_eq:
  assumes s: "1 \<le> s" "s \<le> 2 ^ 29"
  shows "normalizeSizeCompute s = size_of 4 (class_of 4 s)"
proof -
  define x where "x = log2 (2 * s - 1)"
  have r: "0 < 2 * s - 1" "2 * s - 1 \<le> INT_MAX" using s by auto
  have x: "0 \<le> x" "x \<le> 30" using log2_bounds(1,2) [OF r] by (simp_all add: x_def)
  have "shl32 s 1 = 2 * s" using s by (subst shl32_eq) auto
  then have arg: "log2 (i32 (shl32 s 1 - 1)) = x" using r by (simp add: i32_id x_def)
  define d where "d = delta_of 4 s"
  have d: "(if x < 2 + 4 + 1 then 4 else x - 2 - 1) = int d"
    using x by (auto simp: d_def delta_of_def simp flip: x_def)
  have d27: "d \<le> 27" using x unfolding d_def delta_of_def x_def [symmetric] by linarith
  then have p: "(2::int) ^ d \<le> 2 ^ 27" by (intro power_increasing) auto
  have "shl32 1 (int d) = 2 ^ d" using d27 by (simp add: shl32_one)
  moreover have "i32 (s + (2 ^ d - 1)) = s + (2 ^ d - 1)"
    using s p by (intro i32_id) auto
  ultimately have "normalizeSizeCompute s = (s + (2 ^ d - 1)) AND NOT (mask d)"
    by (simp only: normalizeSizeCompute_def Let_def arg d) (simp add: mask_eq_exp_minus_1)
  also have "\<dots> = push_bit d (drop_bit d (s + (2 ^ d - 1)))"
    by (rule bit_eqI) (auto simp: bit_simps)
  also have "\<dots> = ((s - 1) + 2 ^ d) div 2 ^ d * 2 ^ d"
    by (simp add: push_bit_eq_mult drop_bit_eq_div algebra_simps)
  also have "\<dots> = ((s - 1) div 2 ^ d + 1) * 2 ^ d"
    using div_mult_self2 [of "2 ^ d" "s - 1" 1] by (simp add: add.commute)
  also have "\<dots> = size_of 4 (class_of 4 s)"
    using size_of_class_of [of s 4] s by (simp add: d_def)
  finally show ?thesis .
qed

lemma pages2pageIdxCompute_eq:
  assumes p: "1 \<le> p" "p * 2 ^ k \<le> m_chunkSize sc" "m_chunkSize sc \<le> 2 ^ 29"
    and k: "k \<le> 20" "m_pageShifts sc = int k"
  shows "pages2pageIdxCompute sc p floor =
    (if floor
     then rbind (read_tab (m_pageIdx2sizeTab sc) (class_of k (p * 2 ^ k))) (\<lambda>s.
            if s > p * 2 ^ k then Inr (class_of k (p * 2 ^ k) - 1) else Inr (class_of k (p * 2 ^ k)))
     else Inr (class_of k (p * 2 ^ k)))"
proof -
  have ps: "shl32 p (int k) = p * 2 ^ k" using p by (subst shl32_eq) auto
  have "1 * 1 \<le> p * 2 ^ k" using p by (intro mult_mono) auto
  then have s: "1 \<le> p * 2 ^ k" "p * 2 ^ k \<le> 2 ^ 29" "\<not> m_chunkSize sc < p * 2 ^ k" using p by auto
  note c = code_class_eq [where s = "p * 2 ^ k" and k = k and kk = "int k"
      and shiftf = "\<lambda>x. if x < 2 + int k then 0 else x - (2 + int k)", OF s(1,2) k(1) refl]
  show ?thesis
    unfolding pages2pageIdxCompute_def k(2) ps Let_def if_not_P [OF s(3)]
    by (subst c [unfolded Let_def], force)+ (rule refl)
qed

subsection \<open>The default configuration\<close>

text \<open>
  \<^verbatim>\<open>PoolByteBufAllocator\<close> builds every arena with pages of 8192 bytes and chunks of
  \<open>8192 * 2 ^ 11\<close>. \<open>default_sizes\<close> is the object the constructor makes for it; the tables it
  fills are the closed formulas, entry by entry (the kernel runs the constructor).
\<close>

definition default_sizes :: size_class where
  "default_sizes = (case SizeClass 8192 13 16777216 of Inr sc \<Rightarrow> sc | Inl _ \<Rightarrow> undefined)"

text \<open>
  An entry \<open>i\<close> of the size table at slot \<open>k\<close> is right when \<open>i\<close> is the least class that
  holds the \<open>16 * k + 16\<close> bytes the slot stands for.
\<close>

definition slot_ok :: "int \<Rightarrow> int option \<Rightarrow> bool" where
  "slot_ok k e = (case e of None \<Rightarrow> False
     | Some i \<Rightarrow> 0 \<le> i \<and> 16 * k + 16 \<le> size_of 4 i \<and> (i = 0 \<or> size_of 4 (i - 1) < 16 * k + 16))"

lemma default_eval:
  "case SizeClass 8192 13 16777216 of
     Inl _ \<Rightarrow> False
   | Inr sc \<Rightarrow>
      (m_nSizes sc, m_nSubpages sc, m_nPSizes sc, m_searchMaxSize sc, m_smallMaxSizeIdx sc)
        = (76, 39, 40, 4096, 38) \<and>
      (m_pageSize sc, m_pageShifts sc, m_chunkSize sc) = (8192, 13, 16777216) \<and>
      m_sizeIdx2sizeTab sc = map (\<lambda>i. Some (size_of 4 i)) [0..75] \<and>
      m_pageIdx2sizeTab sc = map (\<lambda>i. Some (size_of 13 i)) [0..39] \<and>
      map (\<lambda>i. Some (pageIdx2sizeCompute sc i)) [0..39] = m_pageIdx2sizeTab sc \<and>
      length (m_size2idxTab sc) = 256 \<and>
      list_all2 slot_ok [0..255] (m_size2idxTab sc)"
  by code_simp

lemma default_built: "SizeClass 8192 13 16777216 = Inr default_sizes"
  using default_eval by (auto simp: default_sizes_def split: sum.splits)

lemma default_fields [simp]:
  "m_nSizes default_sizes = 76" "m_nSubpages default_sizes = 39" "m_nPSizes default_sizes = 40"
  "m_searchMaxSize default_sizes = 4096" "m_smallMaxSizeIdx default_sizes = 38"
  "m_pageSize default_sizes = 8192" "m_pageShifts default_sizes = 13"
  "m_chunkSize default_sizes = 16777216"
  using default_eval unfolding default_built sum.case by simp_all

lemma default_tabs:
  "m_sizeIdx2sizeTab default_sizes = map (\<lambda>i. Some (size_of 4 i)) [0..75]"
  "m_pageIdx2sizeTab default_sizes = map (\<lambda>i. Some (size_of 13 i)) [0..39]"
  "map (\<lambda>i. Some (pageIdx2sizeCompute default_sizes i)) [0..39] = m_pageIdx2sizeTab default_sizes"
  "length (m_size2idxTab default_sizes) = 256"
  "list_all2 slot_ok [0..255] (m_size2idxTab default_sizes)"
  using default_eval unfolding default_built sum.case by simp_all

lemma read_tab_map_upto:
  assumes "0 \<le> i" "i \<le> n"
  shows "read_tab (map (\<lambda>i. Some (f i)) [0..n]) i = Inr (f i)"
  using assms by (simp add: read_tab_def at_vec_def)

lemma sizeIdx2size_default [simp]:
  "0 \<le> i \<Longrightarrow> i \<le> 75 \<Longrightarrow> sizeIdx2size default_sizes i = Inr (size_of 4 i)"
  by (simp add: sizeIdx2size_def default_tabs read_tab_map_upto)

lemma pageIdx2size_default [simp]:
  "0 \<le> i \<Longrightarrow> i \<le> 39 \<Longrightarrow> pageIdx2size default_sizes i = Inr (size_of 13 i)"
  by (simp add: pageIdx2size_def default_tabs(2) read_tab_map_upto)

lemma size_of_4_multiple:
  assumes "0 \<le> i"
  shows "size_of 4 i mod 16 = 0"
proof (cases "i div 4 = 0")
  case False
  then obtain n where "nat (i div 4) = Suc n" using assms by (cases "nat (i div 4)") auto
  with False show ?thesis by (simp add: size_of_def power_add)
qed (simp add: size_of_def)

lemma size_of_13_multiple:
  assumes "0 \<le> i"
  shows "size_of 13 i mod 8192 = 0"
proof (cases "i div 4 = 0")
  case False
  then obtain n where "nat (i div 4) = Suc n" using assms by (cases "nat (i div 4)") auto
  with False show ?thesis by (simp add: size_of_def power_add)
qed (simp add: size_of_def)

lemma size2idx_slot:
  assumes s: "1 \<le> s" "s \<le> 4096"
  shows "read_tab (m_size2idxTab default_sizes) (shr (s - 1) 4) = Inr (class_of 4 s)"
proof -
  define k where "k = (s - 1) div 16"
  have k: "0 \<le> k" "k \<le> 255" using s by (auto simp: k_def int_div_less pos_imp_zdiv_nonneg_iff)
  have sk: "16 * k < s" "s \<le> 16 * k + 16" by (auto simp: k_def)
  have "nat k < length [0..255]" using k by simp
  then have "slot_ok ([0..255] ! nat k) (m_size2idxTab default_sizes ! nat k)"
    by (rule list_all2_nthD [OF default_tabs(5)])
  moreover have "[0..255] ! nat k = k" using k by simp
  ultimately have "slot_ok k (m_size2idxTab default_sizes ! nat k)" by simp
  then obtain i where i: "m_size2idxTab default_sizes ! nat k = Some i" "0 \<le> i"
    "16 * k + 16 \<le> size_of 4 i" "i = 0 \<or> size_of 4 (i - 1) < 16 * k + 16"
    by (auto simp: slot_ok_def split: option.splits)
  have b: "s \<le> 2 ^ 30" using s by simp
  have le: "class_of 4 s \<le> i" using class_of_le_iff [OF s(1) b i(2)] i sk by simp
  have "class_of 4 s = i"
  proof (cases "i = 0")
    case True
    then show ?thesis using le class_of_nonneg [OF s(1) b, of 4] by simp
  next
    case False
    then have "size_of 4 (i - 1) \<le> 16 * k" 
      using i(2,4) size_of_4_multiple [of "i - 1"] by presburger
    then have "\<not> s \<le> size_of 4 (i - 1)" using sk by simp
    then have "\<not> class_of 4 s \<le> i - 1" 
      using class_of_le_iff [OF s(1) b, of "i - 1" 4] False i(2) by simp
    then show ?thesis using le by simp
  qed
  then show ?thesis
    using i k by (simp add: read_tab_def at_vec_def default_tabs(4) shr_eq flip: k_def)
qed

lemma size2sizeIdx_default [simp]:
  assumes "1 \<le> s" "s \<le> 16777216"
  shows "size2sizeIdx default_sizes s = Inr (class_of 4 s)"
  using assms size2idx_slot [of s] size2sizeIdxCompute_eq [of s] by (simp add: size2sizeIdx_def)

lemma class_of_default_range:
  assumes "1 \<le> s" "s \<le> 16777216"
  shows "0 \<le> class_of 4 s" "class_of 4 s \<le> 75"
proof -
  have "size_of 4 75 = 16777216" by (simp add: size_of_def)
  then show "class_of 4 s \<le> 75" using class_of_le_iff [of s 75 4] assms by simp
  show "0 \<le> class_of 4 s" using assms class_of_nonneg [of s 4] by simp
qed

lemma page_class_range:
  assumes "1 \<le> p" "p \<le> 2048"
  shows "1 \<le> p * 2 ^ 13" "p * 2 ^ 13 \<le> 2 ^ 24" "0 \<le> class_of 13 (p * 2 ^ 13)" "class_of 13 (p * 2 ^ 13) \<le> 39"
proof -
  show a: "1 \<le> p * 2 ^ 13" "p * 2 ^ 13 \<le> 2 ^ 24" using assms by auto
  have "size_of 13 39 = 2 ^ 24" by (simp add: size_of_def)
  then show "class_of 13 (p * 2 ^ 13) \<le> 39"
    using class_of_le_iff [of "p * 2 ^ 13" 39 13] a by simp
  show "0 \<le> class_of 13 (p * 2 ^ 13)" using a class_of_nonneg [of "p * 2 ^ 13" 13] by simp
qed

lemma page2pageIdx_default:
  assumes "1 \<le> p" "p \<le> 2048"
  shows "page2pageIdx default_sizes p = Inr (class_of 13 (p * 2 ^ 13))"
  unfolding page2pageIdx_def
  by (subst pages2pageIdxCompute_eq [where k = 13]) (use assms in auto)

lemma page2pageIdxFloor_default:
  assumes p: "1 \<le> p" "p \<le> 2048"
  shows "page2pageIdxFloor default_sizes p =
    Inr (if size_of 13 (class_of 13 (p * 2 ^ 13)) > p * 2 ^ 13
         then class_of 13 (p * 2 ^ 13) - 1 else class_of 13 (p * 2 ^ 13))"
proof -
  have "read_tab (m_pageIdx2sizeTab default_sizes) (class_of 13 (p * 2 ^ 13))
      = Inr (size_of 13 (class_of 13 (p * 2 ^ 13)))"
    using page_class_range [OF p] by (simp only: default_tabs(2) read_tab_map_upto)
  then show ?thesis
    unfolding page2pageIdxFloor_def
    by (subst pages2pageIdxCompute_eq [where k = 13]) (use p in auto)
qed

text \<open>A run fits its class, a class fits the runs filed under it.\<close>

lemma page_classes_fit:
  assumes "1 \<le> p" "p \<le> 2048" "1 \<le> r" "r \<le> 2048"
  shows "\<exists>i j z y. page2pageIdx default_sizes p = Inr i \<and> pageIdx2size default_sizes i = Inr z \<and>
      page2pageIdxFloor default_sizes r = Inr j \<and> pageIdx2size default_sizes j = Inr y \<and>
      p * 8192 \<le> z \<and> y \<le> r * 8192 \<and> 0 \<le> j \<and> j < m_nPSizes default_sizes \<and> (i \<le> j \<longrightarrow> p \<le> r)"
proof -
  note P = page_class_range [OF assms(1,2)] and R = page_class_range [OF assms(3,4)]
  have p: "p * 2 ^ 13 \<le> 2 ^ 30" and r: "r * 2 ^ 13 \<le> 2 ^ 30" using assms by auto
  define i where "i = class_of 13 (p * 2 ^ 13)"
  define c where "c = class_of 13 (r * 2 ^ 13)"
  define j where "j = (if size_of 13 c > r * 2 ^ 13 then c - 1 else c)"
  have fit: "p * 2 ^ 13 \<le> size_of 13 i" using class_of_fits [OF P(1) p] by (simp only: i_def)
  have j0: "0 \<le> j"
  proof -
    have "size_of 13 0 = 2 ^ 13" by (simp add: size_of_def)
    then have "c \<noteq> 0 \<or> \<not> size_of 13 c > r * 2 ^ 13" using assms(3) by auto
    moreover have "0 \<le> c" using R(3) by (simp add: c_def)
    ultimately show ?thesis by (cases "c = 0") (auto simp: j_def)
  qed
  have floor: "size_of 13 j \<le> r * 2 ^ 13"
  proof (cases "size_of 13 c > r * 2 ^ 13")
    case True
    then show ?thesis using class_of_tight [OF R(1) r, of j 13] j0 by (simp add: j_def c_def)
  qed (simp add: j_def)
  have "p \<le> r" if "i \<le> j"
  proof -
    have "size_of 13 i \<le> size_of 13 j" using that P(3) by (intro size_of_mono) (auto simp: i_def)
    then have "p * 2 ^ 13 \<le> r * 2 ^ 13" using fit floor by linarith
    then show ?thesis by simp
  qed
  moreover have "j \<le> 39" using R(4) by (auto simp: j_def c_def)
  ultimately show ?thesis
    using fit floor j0 P(3,4) page2pageIdx_default [OF assms(1,2)] page2pageIdxFloor_default [OF assms(3,4)]
    by (intro exI [of _ i] exI [of _ j] exI [of _ "size_of 13 i"] exI [of _ "size_of 13 j"])
      (simp add: i_def j_def c_def)
qed

lemma page_classes_range:
  "1 \<le> p \<Longrightarrow> p \<le> 2048 \<Longrightarrow>
    \<exists>j. page2pageIdxFloor default_sizes p = Inr j \<and> 0 \<le> j \<and> j < m_nPSizes default_sizes"
  using page_classes_fit [of 1 p] by auto

end
