(* ===== verification/SizeClassSpec.thy ===== *)
theory SizeClassSpec
  imports SizeClass
begin

text \<open>
  What the size classes promise, for the configuration every arena uses: least class,
  agreement of the table and the formulas, best fit of runs of pages, and the overflow of
  \<^verbatim>\<open>normalizeSize\<close> near the top of the \<^verbatim>\<open>int\<close> range.
\<close>

subsection \<open>Properties\<close>

text \<open>C27. The class \<^verbatim>\<open>size2sizeIdx\<close> returns for a request up to the chunk size is the
  least class whose size (by \<^verbatim>\<open>sizeIdx2size\<close>) holds the request, whether the answer comes
  from the lookup table or from the formula.\<close>

theorem size2sizeIdx_smallest:
  assumes "1 \<le> s" "s \<le> m_chunkSize default_sizes"
  shows "\<exists>i z. size2sizeIdx default_sizes s = Inr i \<and> 0 \<le> i \<and> i < m_nSizes default_sizes \<and>
      sizeIdx2size default_sizes i = Inr z \<and> s \<le> z \<and>
      (\<forall>j y. 0 \<le> j \<and> j < i \<and> sizeIdx2size default_sizes j = Inr y \<longrightarrow> y < s)"
proof -
  have s: "1 \<le> s" "s \<le> 16777216" "s \<le> 2 ^ 30" using assms by auto
  note r = class_of_default_range [OF s(1,2)]
  show ?thesis
    using s r class_of_fits [OF s(1,3), of 4] class_of_tight [OF s(1,3), of _ 4]
    by (intro exI [of _ "class_of 4 s"] exI [of _ "size_of 4 (class_of 4 s)"]) auto
qed

theorem size2sizeIdx_smallest_witness:
  "\<exists>i z. size2sizeIdx default_sizes 5000 = Inr i \<and> 0 \<le> i \<and> i < m_nSizes default_sizes \<and>
      sizeIdx2size default_sizes i = Inr z \<and> 5000 \<le> z \<and>
      (\<forall>j y. 0 \<le> j \<and> j < i \<and> sizeIdx2size default_sizes j = Inr y \<longrightarrow> y < 5000)"
  by (rule size2sizeIdx_smallest) simp_all

text \<open>C26. \<^verbatim>\<open>normalizeSize\<close> never trips its assertion for a request up to the chunk size: its
  answer is the size of the class \<^verbatim>\<open>size2sizeIdx\<close> chooses, from the table and from the
  formula alike.\<close>

theorem normalizeSize_is_class_size:
  assumes "1 \<le> s" "s \<le> m_chunkSize default_sizes"
  shows "normalizeSize default_sizes s
    = rbind (size2sizeIdx default_sizes s) (sizeIdx2size default_sizes)"
proof -
  have s: "1 \<le> s" "s \<le> 16777216" using assms by auto
  note r = class_of_default_range [OF s]
  have "normalizeSizeCompute s = size_of 4 (class_of 4 s)" using s by (intro normalizeSizeCompute_eq) auto
  moreover have "read_tab (m_sizeIdx2sizeTab default_sizes) (class_of 4 s) = Inr (size_of 4 (class_of 4 s))"
    using sizeIdx2size_default [OF r] by (simp only: sizeIdx2size_def)
  ultimately show ?thesis
    using s r size2idx_slot [of s] by (auto simp: normalizeSize_def)
qed

theorem normalizeSize_is_class_size_witness:
  "normalizeSize default_sizes 4000 = rbind (size2sizeIdx default_sizes 4000) (sizeIdx2size default_sizes)"
  by (rule normalizeSize_is_class_size) simp_all

text \<open>Above \<open>2 ^ 31 - 2 ^ 28\<close> bytes \<^verbatim>\<open>normalizeSize\<close> overflows: the capacity it returns is
  the least \<^verbatim>\<open>int\<close>, which the caller passes to \<^verbatim>\<open>new char[]\<close>.\<close>

lemma normalizeSize_overflows:
  assumes s: "1879048192 < s" "s \<le> INT_MAX"
  shows "normalizeSize default_sizes s = Inr INT_MIN"
proof -
  have "shl32 s 1 = 2 * s - 4294967296"
    using s i32_wrap [of "2 * s"] by (simp add: shl32_def push_bit_eq_mult mult.commute)
  then have "log2 (i32 (shl32 s 1 - 1)) = 31" using s by (simp add: i32_id log2_negative)
  moreover have "i32 (s + 268435455) = s + 268435455 - 4294967296" using s by (intro i32_wrap) auto
  moreover have "(s + 268435455 - 4294967296) AND NOT (mask 28) = INT_MIN"
  proof -
    have "(a :: int) AND NOT (mask 28) = a div 2 ^ 28 * 2 ^ 28" for a
    proof -
      have "a AND NOT (mask 28) = push_bit 28 (drop_bit 28 a)"
        by (rule bit_eqI) (auto simp: bit_simps)
      then show ?thesis by (simp add: push_bit_eq_mult drop_bit_eq_div)
    qed
    moreover have "(s + 268435455 - 4294967296) div 268435456 = - 8" using s by auto
    ultimately show ?thesis by simp
  qed
  ultimately show ?thesis
    using s by (simp add: normalizeSize_def normalizeSizeCompute_def Let_def shl32_one mask_eq_exp_minus_1)
qed

lemma normalizeSize_overflows_witness: "normalizeSize default_sizes 2000000000 = Inr INT_MIN"
  by (rule normalizeSize_overflows) simp_all

text \<open>The page classes round a run up with \<^verbatim>\<open>page2pageIdx\<close> and down with
  \<^verbatim>\<open>page2pageIdxFloor\<close>: the run fits the first class, the second class fits the run, and a run
  filed under a class at or above the one searched for is large enough.\<close>

lemma page_classes_best_fit:
  assumes "1 \<le> p" "p \<le> 2048" "1 \<le> r" "r \<le> 2048"
  shows "\<exists>i j z y. page2pageIdx default_sizes p = Inr i \<and> pageIdx2size default_sizes i = Inr z \<and>
      page2pageIdxFloor default_sizes r = Inr j \<and> pageIdx2size default_sizes j = Inr y \<and>
      p * 8192 \<le> z \<and> y \<le> r * 8192 \<and> 0 \<le> j \<and> j < m_nPSizes default_sizes \<and> (i \<le> j \<longrightarrow> p \<le> r)"
  by (rule page_classes_fit [OF assms])

lemma page_classes_best_fit_witness:
  "\<exists>i j z y. page2pageIdx default_sizes 5 = Inr i \<and> pageIdx2size default_sizes i = Inr z \<and>
      page2pageIdxFloor default_sizes 11 = Inr j \<and> pageIdx2size default_sizes j = Inr y \<and>
      5 * 8192 \<le> z \<and> y \<le> 11 * 8192 \<and> 0 \<le> j \<and> j < m_nPSizes default_sizes \<and> (i \<le> j \<longrightarrow> 5 \<le> (11::int))"
  by (rule page_classes_best_fit) simp_all

end
