(* ===== verification/RunHandle.thy ===== *)
theory RunHandle
  imports Prelude
begin

text \<open>
  The 64-bit handle of an allocated region (\<^verbatim>\<open>buffer/PoolChunk.h\<close>, \<^verbatim>\<open>buffer/PoolChunk.cpp\<close>
  and \<^verbatim>\<open>buffer/PoolSubpage.cpp\<close>): run offset from bit 49, pages from bit 34 (15 bits),
  in-use bit 33, subpage bit 32, bitmap index in the low 32 bits. The packing and the
  accessors are the code's shifts and masks; the lemmas give them as arithmetic.
\<close>

abbreviation IS_SUBPAGE_SHIFT :: nat where "IS_SUBPAGE_SHIFT \<equiv> 32"
abbreviation IS_INUSED_SHIFT :: nat where "IS_INUSED_SHIFT \<equiv> 33"
abbreviation SIZE_SHIFT :: nat where "SIZE_SHIFT \<equiv> 34"
abbreviation RUN_OFFSET_SHIFT :: nat where "RUN_OFFSET_SHIFT \<equiv> 49"

definition shl64 :: "int \<Rightarrow> nat \<Rightarrow> int" where "shl64 x n = i64 (push_bit n x)"

definition toRunHandle :: "int \<Rightarrow> int \<Rightarrow> int \<Rightarrow> int" where
  "toRunHandle runOffset runPages inUsed =
     shl64 runOffset RUN_OFFSET_SHIFT OR shl64 runPages SIZE_SHIFT OR shl64 inUsed IS_INUSED_SHIFT"

definition calculateRunOffset :: "int \<Rightarrow> int" where
  "calculateRunOffset handle = i32 (drop_bit RUN_OFFSET_SHIFT handle)"

definition calculateRunPages :: "int \<Rightarrow> int" where
  "calculateRunPages handle = i32 (drop_bit SIZE_SHIFT handle AND 32767)"

definition calculateRunSize :: "int \<Rightarrow> int \<Rightarrow> int" where
  "calculateRunSize pageShifts handle = shl32 (calculateRunPages handle) pageShifts"

definition runSize :: "int \<Rightarrow> int \<Rightarrow> int" where
  "runSize pageShifts handle = shl32 (calculateRunPages handle) pageShifts"

definition isUsed :: "int \<Rightarrow> bool" where
  "isUsed handle \<longleftrightarrow> drop_bit IS_INUSED_SHIFT handle AND 1 = 1"

definition isSubpage :: "int \<Rightarrow> bool" where
  "isSubpage handle \<longleftrightarrow> drop_bit IS_SUBPAGE_SHIFT handle AND 1 = 1"

definition isRun :: "int \<Rightarrow> bool" where "isRun handle \<longleftrightarrow> \<not> isSubpage handle"

definition calculateBitmapIdx :: "int \<Rightarrow> int" where "calculateBitmapIdx handle = i32 handle"

definition tailPage :: "int \<Rightarrow> int \<Rightarrow> int" where "tailPage runOffset pages = runOffset + pages - 1"

text \<open>\<open>handle |= 1L << IS_INUSED_SHIFT_\<close>, and the clearing of both flags in \<^verbatim>\<open>free\<close>.\<close>

definition mark_used :: "int \<Rightarrow> int" where
  "mark_used handle = handle OR shl64 1 IS_INUSED_SHIFT"

definition clear_flags :: "int \<Rightarrow> int" where
  "clear_flags handle =
     (handle AND NOT (shl64 1 IS_INUSED_SHIFT)) AND NOT (shl64 1 IS_SUBPAGE_SHIFT)"

text \<open>\<^verbatim>\<open>PoolSubpage::toHandle\<close>.\<close>

definition subpageHandle :: "int \<Rightarrow> int \<Rightarrow> int \<Rightarrow> int \<Rightarrow> int" where
  "subpageHandle rsz pageShifts runOffset bitmapIdx =
     (let pages = shr rsz pageShifts in
      shl64 runOffset RUN_OFFSET_SHIFT OR shl64 pages SIZE_SHIFT OR
      shl64 1 IS_INUSED_SHIFT OR shl64 1 IS_SUBPAGE_SHIFT OR bitmapIdx)"

subsection \<open>Handles as arithmetic\<close>

abbreviation (input) run_word :: "int \<Rightarrow> int \<Rightarrow> int \<Rightarrow> int \<Rightarrow> int \<Rightarrow> int" where
  "run_word off pages used sub idx \<equiv>
     off * 562949953421312 + pages * 17179869184 + used * 8589934592 + sub * 4294967296 + idx"

definition run_fields :: "int \<Rightarrow> int \<Rightarrow> bool" where
  "run_fields off pages \<longleftrightarrow> 0 \<le> off \<and> off < 16384 \<and> 0 \<le> pages \<and> pages < 32768"

lemma shl64_eq: "0 \<le> x \<Longrightarrow> x * 2 ^ n < 9223372036854775808 \<Longrightarrow> shl64 x n = x * 2 ^ n"
  unfolding shl64_def push_bit_eq_mult
  by (rule i64_id) (auto intro: order_trans [of _ 0])

lemma or_nonneg_plus: "0 \<le> b \<Longrightarrow> b < 2 ^ n \<Longrightarrow> m = 2 ^ n \<Longrightarrow> a * m OR b = a * m + (b::int)"
  using or_eq_plus [of b n a] by simp

lemma toRunHandle_eq:
  assumes "run_fields off pages" "u = 0 \<or> u = 1"
  shows "toRunHandle off pages u = run_word off pages u 0 0"
proof -
  have a: "shl64 off 49 = off * 562949953421312" "shl64 pages 34 = pages * 17179869184"
    "shl64 u 33 = u * 8589934592"
    using assms by (auto simp: shl64_eq run_fields_def)
  have "pages * 17179869184 OR u * 8589934592 = pages * 17179869184 + u * 8589934592"
    using assms by (intro or_nonneg_plus [of _ 34]) auto
  moreover have "off * 562949953421312 OR (pages * 17179869184 + u * 8589934592)
      = off * 562949953421312 + (pages * 17179869184 + u * 8589934592)"
    using assms by (intro or_nonneg_plus [of _ 49]) (auto simp: run_fields_def)
  ultimately show ?thesis by (simp add: toRunHandle_def a or.assoc)
qed

lemma subpageHandle_eq:
  assumes f: "run_fields off (shr sz ps)" and b: "0 \<le> idx" "idx < 4294967296"
  shows "subpageHandle sz ps off idx = run_word off (shr sz ps) 1 1 idx"
proof -
  define pages where "pages = shr sz ps"
  have a: "shl64 off 49 = off * 562949953421312" "shl64 pages 34 = pages * 17179869184"
    "shl64 1 33 = 1 * 8589934592" "shl64 1 32 = 1 * 4294967296"
    using f by (simp_all only: shl64_eq run_fields_def pages_def) (auto simp: shl64_eq)
  have "1 * 4294967296 OR idx = 1 * 4294967296 + idx"
    by (rule or_nonneg_plus [of _ 32]) (use b in auto)
  moreover have "1 * 8589934592 OR (1 * 4294967296 + idx) = 1 * 8589934592 + (1 * 4294967296 + idx)"
    by (rule or_nonneg_plus [of _ 33]) (use b in auto)
  moreover have "pages * 17179869184 OR (1 * 8589934592 + (1 * 4294967296 + idx))
      = pages * 17179869184 + (1 * 8589934592 + (1 * 4294967296 + idx))"
    by (rule or_nonneg_plus [of _ 34]) (use b in auto)
  moreover have "off * 562949953421312 OR (pages * 17179869184 + (1 * 8589934592 + (1 * 4294967296 + idx)))
      = off * 562949953421312 + (pages * 17179869184 + (1 * 8589934592 + (1 * 4294967296 + idx)))"
    using f b by (intro or_nonneg_plus [of _ 49]) (auto simp: run_fields_def pages_def)
  ultimately show ?thesis
    unfolding subpageHandle_def Let_def pages_def [symmetric] a or.assoc by simp
qed

lemma run_word_fields:
  assumes f: "run_fields off pages" and u: "u = 0 \<or> u = 1" and s: "s = 0 \<or> s = 1"
    and b: "0 \<le> idx" "idx < 4294967296"
  defines "h \<equiv> run_word off pages u s idx"
  shows "calculateRunOffset h = off" "calculateRunPages h = pages"
    "isUsed h \<longleftrightarrow> u = 1" "isSubpage h \<longleftrightarrow> s = 1" "0 \<le> h" "h < 9223372036854775808"
    "h mod 4294967296 = idx"
proof -
  have d: "h div 562949953421312 = off" "h div 17179869184 = off * 32768 + pages"
    "h div 8589934592 = (off * 32768 + pages) * 2 + u"
    "h div 4294967296 = ((off * 32768 + pages) * 2 + u) * 2 + s" "h mod 4294967296 = idx"
  proof -
    have q: "x div m = a" if "x = a * m + r" "0 \<le> r" "r < m" for x a m r :: int
      using that by simp
    have us: "0 \<le> u" "u \<le> 1" "0 \<le> s" "s \<le> 1" using u s by auto
    show "h div 562949953421312 = off"
      by (rule q [where r = "pages * 17179869184 + u * 8589934592 + s * 4294967296 + idx"])
        (use f us b in \<open>auto simp: h_def run_fields_def\<close>)
    show "h div 17179869184 = off * 32768 + pages"
      by (rule q [where r = "u * 8589934592 + s * 4294967296 + idx"])
        (use f us b in \<open>auto simp: h_def run_fields_def\<close>)
    show "h div 8589934592 = (off * 32768 + pages) * 2 + u"
      by (rule q [where r = "s * 4294967296 + idx"]) (use f us b in \<open>auto simp: h_def run_fields_def\<close>)
    show d4: "h div 4294967296 = ((off * 32768 + pages) * 2 + u) * 2 + s"
      by (rule q [where r = idx]) (use f us b in \<open>auto simp: h_def run_fields_def\<close>)
    show "h mod 4294967296 = idx"
      unfolding minus_div_mult_eq_mod [symmetric] d4 by (simp add: h_def)
  qed
  show "calculateRunOffset h = off"
    using f by (simp add: calculateRunOffset_def drop_bit_eq_div d(1) i32_id run_fields_def)
  have "(off * 32768 + pages) mod 32768 = pages" using f by (simp add: run_fields_def)
  then show "calculateRunPages h = pages"
    using f by (simp add: calculateRunPages_def drop_bit_eq_div d(2) and_mask_mod i32_id run_fields_def)
  have par: "(x * 2 + y) mod 2 = 1 \<longleftrightarrow> y = 1" if "y = 0 \<or> y = 1" for x y :: int
    using that by presburger
  have pw: "(2::int) ^ 33 = 8589934592" "(2::int) ^ 32 = 4294967296" by simp_all
  show "isUsed h \<longleftrightarrow> u = 1"
    unfolding isUsed_def drop_bit_eq_div and_mask_mod pw d(3) by (rule par [OF u])
  show "isSubpage h \<longleftrightarrow> s = 1"
    unfolding isSubpage_def drop_bit_eq_div and_mask_mod pw d(4) by (rule par [OF s])
  show "0 \<le> h" "h < 9223372036854775808"
    using f u s b unfolding h_def run_fields_def by auto
  show "h mod 4294967296 = idx" by (rule d(5))
qed

lemma toRunHandle_fields:
  assumes f: "run_fields off pages" and u: "u = 0 \<or> u = 1"
  shows "calculateRunOffset (toRunHandle off pages u) = off"
    "calculateRunPages (toRunHandle off pages u) = pages"
    "isUsed (toRunHandle off pages u) \<longleftrightarrow> u = 1" "\<not> isSubpage (toRunHandle off pages u)"
    "0 \<le> toRunHandle off pages u"
  using run_word_fields [OF f u, of 0 0] by (simp_all add: toRunHandle_eq [OF f u])

lemma subpageHandle_fields:
  assumes f: "run_fields off (shr sz ps)" and b: "0 \<le> idx" "idx < 2147483648"
  shows "calculateRunOffset (subpageHandle sz ps off idx) = off"
    "calculateRunPages (subpageHandle sz ps off idx) = shr sz ps"
    "isUsed (subpageHandle sz ps off idx)" "isSubpage (subpageHandle sz ps off idx)"
    "0 \<le> subpageHandle sz ps off idx" "calculateBitmapIdx (subpageHandle sz ps off idx) = idx"
proof -
  have eq: "subpageHandle sz ps off idx = run_word off (shr sz ps) 1 1 idx"
    using f b by (intro subpageHandle_eq) auto
  note F = run_word_fields [OF f, of 1 1 idx, folded eq]
  show "calculateRunOffset (subpageHandle sz ps off idx) = off"
    "calculateRunPages (subpageHandle sz ps off idx) = shr sz ps"
    "isUsed (subpageHandle sz ps off idx)" "isSubpage (subpageHandle sz ps off idx)"
    "0 \<le> subpageHandle sz ps off idx"
    using F b by auto
  define h where "h = subpageHandle sz ps off idx"
  have m: "h mod 4294967296 = idx" using F(7) b by (simp add: h_def)
  have "(h + 2147483648) mod 4294967296 = (h mod 4294967296 + 2147483648) mod 4294967296"
    by (simp add: mod_add_left_eq)
  also have "\<dots> = idx + 2147483648" using b by (simp add: m)
  finally show "calculateBitmapIdx (subpageHandle sz ps off idx) = idx"
    by (simp add: calculateBitmapIdx_def i32_mod h_def)
qed

lemma toRunHandle_inj:
  "run_fields o1 p1 \<Longrightarrow> run_fields o2 p2 \<Longrightarrow> toRunHandle o1 p1 0 = toRunHandle o2 p2 0
    \<longleftrightarrow> o1 = o2 \<and> p1 = p2"
  using toRunHandle_fields(1,2) [of o1 p1 0] toRunHandle_fields(1,2) [of o2 p2 0] by auto

text \<open>
  A handle above another starts at the same page or further on, so the least handle of a
  queue is the run of least offset.
\<close>

lemma calculateRunOffset_mono:
  "0 \<le> g \<Longrightarrow> g \<le> h \<Longrightarrow> h < 9223372036854775808 \<Longrightarrow> calculateRunOffset g \<le> calculateRunOffset h"
proof -
  assume gh: "0 \<le> g" "g \<le> h" "h < 9223372036854775808"
  have "g div 562949953421312 \<le> h div 562949953421312" using gh by (intro zdiv_mono1) auto
  moreover have "0 \<le> g div 562949953421312" using gh by (simp add: pos_imp_zdiv_nonneg_iff)
  moreover have "h div 562949953421312 < 16384" using gh by (simp add: int_div_less)
  ultimately show ?thesis by (simp add: calculateRunOffset_def drop_bit_eq_div i32_id)
qed

subsection \<open>Setting and clearing the flags\<close>

lemma flag_bits: "shl64 1 33 = 2 ^ 33" "shl64 1 32 = 2 ^ 32"
  by (simp_all add: shl64_eq)

lemma drop_bit_flag:
  fixes h :: int
  assumes "a < n"
  shows "drop_bit n (h OR 2 ^ a) = drop_bit n h" "drop_bit n (h AND NOT (2 ^ a)) = drop_bit n h"
  by (rule bit_eqI; use assms in \<open>auto simp: bit_simps\<close>)+

lemma drop_bit_odd:
  fixes h :: int
  shows "drop_bit n h AND 1 = 1 \<longleftrightarrow> bit h n"
  by (simp add: and_mask_mod bit_iff_odd_drop_bit odd_iff_mod_2_eq_one)

lemma flag_bit:
  fixes h :: int
  shows "bit (h OR 2 ^ a) n \<longleftrightarrow> bit h n \<or> n = a" "bit (h AND NOT (2 ^ a)) n \<longleftrightarrow> bit h n \<and> n \<noteq> a"
  by (auto simp: bit_simps)

lemma mark_used_fields:
  "calculateRunOffset (mark_used h) = calculateRunOffset h"
  "calculateRunPages (mark_used h) = calculateRunPages h"
  "isUsed (mark_used h)" "isSubpage (mark_used h) = isSubpage h" "0 \<le> h \<Longrightarrow> 0 \<le> mark_used h"
  unfolding calculateRunOffset_def calculateRunPages_def isUsed_def isSubpage_def mark_used_def flag_bits
  by (simp_all only: drop_bit_odd flag_bit drop_bit_flag) auto

lemma clear_flags_fields:
  "calculateRunOffset (clear_flags h) = calculateRunOffset h"
  "calculateRunPages (clear_flags h) = calculateRunPages h"
  "\<not> isUsed (clear_flags h)" "\<not> isSubpage (clear_flags h)" "0 \<le> h \<Longrightarrow> 0 \<le> clear_flags h"
  unfolding calculateRunOffset_def calculateRunPages_def isUsed_def isSubpage_def clear_flags_def flag_bits
  by (simp_all only: drop_bit_odd flag_bit drop_bit_flag) auto

subsection \<open>Properties\<close>

text \<open>A run handle packs its fields without loss: within the 14 bits of offset and 15 bits
  of pages, \<^verbatim>\<open>toRunHandle\<close> gives a non-negative handle whose accessors return what was packed,
  and which is no subpage.\<close>

lemma run_handle_roundtrip:
  assumes "0 \<le> runOffset" "runOffset < 16384" "0 \<le> pages" "pages < 32768" "used = 0 \<or> used = 1"
  shows "calculateRunOffset (toRunHandle runOffset pages used) = runOffset \<and>
    calculateRunPages (toRunHandle runOffset pages used) = pages \<and>
    (isUsed (toRunHandle runOffset pages used) \<longleftrightarrow> used = 1) \<and>
    isRun (toRunHandle runOffset pages used) \<and> 0 \<le> toRunHandle runOffset pages used"
  using toRunHandle_fields [of runOffset pages used] assms by (simp add: run_fields_def isRun_def)

lemma run_handle_roundtrip_witness:
  "calculateRunOffset (toRunHandle 2047 1 1) = 2047 \<and> calculateRunPages (toRunHandle 2047 1 1) = 1 \<and>
    (isUsed (toRunHandle 2047 1 1) \<longleftrightarrow> (1::int) = 1) \<and> isRun (toRunHandle 2047 1 1) \<and> 0 \<le> toRunHandle 2047 1 1"
  by (rule run_handle_roundtrip) simp_all

text \<open>The handle of an element of a subpage (\<^verbatim>\<open>PoolSubpage::toHandle\<close>) gives back the run
  it lies in and its bitmap index, and marking or clearing the flags of any handle keeps the
  run it names.\<close>

lemma subpage_handle_roundtrip:
  assumes "0 \<le> runOffset" "runOffset < 16384" "0 \<le> shr sz shift" "shr sz shift < 32768"
    "0 \<le> bitmapIdx" "bitmapIdx \<le> INT_MAX"
  shows "let h = subpageHandle sz shift runOffset bitmapIdx in
    calculateRunOffset h = runOffset \<and> calculateRunPages h = shr sz shift \<and>
    calculateBitmapIdx h = bitmapIdx \<and> isSubpage h \<and> isUsed h \<and> 0 \<le> h \<and>
    calculateRunOffset (clear_flags h) = runOffset \<and> calculateRunPages (clear_flags h) = shr sz shift \<and>
    isRun (clear_flags h) \<and> \<not> isUsed (clear_flags h)"
  using subpageHandle_fields [of runOffset sz shift bitmapIdx] assms
  by (simp add: run_fields_def Let_def clear_flags_fields isRun_def)

lemma subpage_handle_roundtrip_witness:
  "let h = subpageHandle 24576 13 100 63 in
    calculateRunOffset h = 100 \<and> calculateRunPages h = shr 24576 13 \<and>
    calculateBitmapIdx h = 63 \<and> isSubpage h \<and> isUsed h \<and> 0 \<le> h \<and>
    calculateRunOffset (clear_flags h) = 100 \<and> calculateRunPages (clear_flags h) = shr 24576 13 \<and>
    isRun (clear_flags h) \<and> \<not> isUsed (clear_flags h)"
  by (rule subpage_handle_roundtrip) (simp_all add: shr_eq)

end
