(* ===== verification/StdHeap.thy ===== *)
theory StdHeap
  imports Prelude
begin

text \<open>
  The heap algorithms of the C++ standard library (\<^verbatim>\<open>push_heap\<close>, \<^verbatim>\<open>pop_heap\<close>,
  \<^verbatim>\<open>make_heap\<close>) on a vector, ordered by a key with the greatest-first comparator the
  repository uses, so that the front is the least key. \<^verbatim>\<open>buffer/BestFitQueue.h\<close> and the
  \<^verbatim>\<open>std::priority_queue\<close> of \<^verbatim>\<open>timer/delay_queue/DelayQueue.h\<close> are both built on them. The
  standard fixes the contract (a heap again, the same elements), not the arrangement; the
  model sifts by swaps along one path.
\<close>

definition par :: "nat \<Rightarrow> nat" where "par i = (i - 1) div 2"

definition swap :: "nat \<Rightarrow> nat \<Rightarrow> 'a list \<Rightarrow> 'a list" where
  "swap i j xs = xs[i := xs ! j, j := xs ! i]"

function sift_up :: "('a \<Rightarrow> 'k::linorder) \<Rightarrow> nat \<Rightarrow> 'a list \<Rightarrow> 'a list" where
  "sift_up key i xs =
     (if 0 < i \<and> key (xs ! i) < key (xs ! par i) then sift_up key (par i) (swap i (par i) xs) else xs)"
  by pat_completeness auto
termination
  by (relation "measure (\<lambda>(key, i, xs). i)") (auto simp: par_def)

definition min_child :: "('a \<Rightarrow> 'k::linorder) \<Rightarrow> nat \<Rightarrow> 'a list \<Rightarrow> nat" where
  "min_child key i xs =
     (if 2 * i + 2 < length xs \<and> key (xs ! (2 * i + 2)) < key (xs ! (2 * i + 1))
      then 2 * i + 2 else 2 * i + 1)"

function sift_down :: "('a \<Rightarrow> 'k::linorder) \<Rightarrow> nat \<Rightarrow> 'a list \<Rightarrow> 'a list" where
  "sift_down key i xs =
     (if 2 * i + 1 < length xs \<and> key (xs ! min_child key i xs) < key (xs ! i)
      then sift_down key (min_child key i xs) (swap i (min_child key i xs) xs) else xs)"
  by pat_completeness auto
termination
  by (relation "measure (\<lambda>(key, i, xs). length xs - i)") (auto simp: min_child_def swap_def)

declare sift_up.simps [simp del] sift_down.simps [simp del]

definition push_heap :: "('a \<Rightarrow> 'k::linorder) \<Rightarrow> 'a list \<Rightarrow> 'a list" where
  "push_heap key xs = sift_up key (length xs - 1) xs"

definition pop_heap :: "('a \<Rightarrow> 'k::linorder) \<Rightarrow> 'a list \<Rightarrow> 'a list" where
  "pop_heap key xs =
     (if length xs \<le> 1 then xs else sift_down key 0 ((butlast xs)[0 := last xs]) @ [hd xs])"

definition make_heap :: "('a \<Rightarrow> 'k::linorder) \<Rightarrow> 'a list \<Rightarrow> 'a list" where
  "make_heap key xs = fold (sift_down key) (rev [0..<length xs div 2]) xs"

text \<open>
  \<open>heap_from key j xs\<close>: every parent from position \<open>j\<close> on is at most its children. The
  heap order is the case \<open>j = 0\<close>.
\<close>

definition heap_from :: "('a \<Rightarrow> 'k::linorder) \<Rightarrow> nat \<Rightarrow> 'a list \<Rightarrow> bool" where
  "heap_from key j xs \<longleftrightarrow>
     (\<forall>c < length xs. 0 < c \<and> j \<le> par c \<longrightarrow> key (xs ! par c) \<le> key (xs ! c))"

abbreviation is_heap :: "('a \<Rightarrow> 'k::linorder) \<Rightarrow> 'a list \<Rightarrow> bool" where
  "is_heap key xs \<equiv> heap_from key 0 xs"

subsection \<open>The elements are kept\<close>

lemma length_swap [simp]: "length (swap i j xs) = length xs"
  by (simp add: swap_def)

lemma nth_swap:
  "i < length xs \<Longrightarrow> j < length xs \<Longrightarrow>
    swap i j xs ! k = (if k = j then xs ! i else if k = i then xs ! j else xs ! k)"
  by (simp add: swap_def nth_list_update)

lemma mset_swap_pos [simp]: "i < length xs \<Longrightarrow> j < length xs \<Longrightarrow> mset (swap i j xs) = mset xs"
  unfolding swap_def by (rule mset_swap)

lemma par_less: "0 < i \<Longrightarrow> par i < i"
  by (simp add: par_def)

lemma min_child_range: "2 * i + 1 < length xs \<Longrightarrow> min_child key i xs < length xs"
  "i < min_child key i xs" "par (min_child key i xs) = i"
  by (auto simp: min_child_def par_def)

lemma mset_sift_up: "i < length xs \<Longrightarrow> mset (sift_up key i xs) = mset xs"
proof (induction key i xs rule: sift_up.induct)
  case (1 key i xs)
  then show ?case
    using par_less [of i] by (subst sift_up.simps) (auto dest: less_trans)
qed

lemma mset_sift_down: "mset (sift_down key i xs) = mset xs"
proof (induction key i xs rule: sift_down.induct)
  case (1 key i xs)
  then show ?case
    using min_child_range [where i = i and xs = xs and key = key] by (subst sift_down.simps) auto
qed

lemma length_sift_down [simp]: "length (sift_down key i xs) = length xs"
  using mset_eq_length [OF mset_sift_down] .

lemma mset_push_heap [simp]: "mset (push_heap key (xs @ [x])) = add_mset x (mset xs)"
  by (simp add: push_heap_def mset_sift_up)

lemma mset_make_heap [simp]: "mset (make_heap key xs) = mset xs"
proof -
  have "mset (fold (sift_down key) js ys) = mset ys" for js ys
    by (induction js arbitrary: ys) (simp_all add: mset_sift_down)
  then show ?thesis by (simp add: make_heap_def)
qed

subsection \<open>The order is restored\<close>

lemma sift_up_heap:
  assumes "i < length xs"
    and "\<And>c. c < length xs \<Longrightarrow> 0 < c \<Longrightarrow> c \<noteq> i \<Longrightarrow> key (xs ! par c) \<le> key (xs ! c)"
    and "\<And>c. c < length xs \<Longrightarrow> 0 < c \<Longrightarrow> par c = i \<Longrightarrow> 0 < i \<Longrightarrow> key (xs ! par i) \<le> key (xs ! c)"
  shows "is_heap key (sift_up key i xs)"
  using assms
proof (induction key i xs rule: sift_up.induct)
  case (1 key i xs)
  show ?case
  proof (cases "0 < i \<and> key (xs ! i) < key (xs ! par i)")
    case False
    then have "key (xs ! par c) \<le> key (xs ! c)" if "c < length xs" "0 < c" for c
      using that "1.prems"(2) by (cases "c = i") (auto simp: not_less)
    with False show ?thesis by (subst sift_up.simps) (auto simp: heap_from_def)
  next
    case True
    define p where "p = par i"
    define ys where "ys = swap i p xs"
    have p: "p < i" "p < length xs" using True par_less [of i] "1.prems"(1) by (auto simp: p_def)
    have ys: "ys ! k = (if k = p then xs ! i else if k = i then xs ! p else xs ! k)" for k
      using nth_swap [OF "1.prems"(1) p(2)] by (simp add: ys_def)
    have lt: "key (xs ! i) < key (xs ! p)" using True by (simp add: p_def)
    have edges: "key (ys ! par c) \<le> key (ys ! c)" if c: "c < length ys" "0 < c" "c \<noteq> p" for c
    proof -
      have c': "c < length xs" using c by (simp add: ys_def)
      have "par c \<noteq> c" using par_less [OF c(2)] by simp
      consider "c = i" | "c \<noteq> i" "par c = i" | "c \<noteq> i" "par c = p" | "c \<noteq> i" "par c \<noteq> i" "par c \<noteq> p"
        by blast
      then show ?thesis
      proof cases
        case 1 then show ?thesis using lt p by (simp add: ys p_def [symmetric])
      next
        case 2
        have "key (xs ! p) \<le> key (xs ! c)"
          using "1.prems"(3) [OF c' c(2) 2(2)] True by (simp add: p_def)
        with 2 c p show ?thesis by (auto simp: ys)
      next
        case 3
        have "key (xs ! p) \<le> key (xs ! c)" using "1.prems"(2) [OF c' c(2) 3(1)] 3(2) by simp
        with 3 c p lt show ?thesis by (auto simp: ys)
      next
        case 4
        then show ?thesis using "1.prems"(2) [OF c' c(2)] c by (auto simp: ys)
      qed
    qed
    have grand: "key (ys ! par p) \<le> key (ys ! c)"
      if c: "c < length ys" "0 < c" "par c = p" "0 < p" for c
    proof -
      have pp: "par p < p" using par_less [OF c(4)] .
      have up: "key (xs ! par p) \<le> key (xs ! p)" using "1.prems"(2) [of p] p c by auto
      have "c \<noteq> p" using par_less [OF c(2)] c(3) by auto
      show ?thesis
      proof (cases "c = i")
        case True then show ?thesis using up pp p by (auto simp: ys)
      next
        case False
        have "key (xs ! p) \<le> key (xs ! c)" using "1.prems"(2) [of c] c False by (auto simp: ys_def)
        with False \<open>c \<noteq> p\<close> pp p up show ?thesis by (auto simp: ys)
      qed
    qed
    have "is_heap key (sift_up key p ys)"
      unfolding p_def ys_def
      by (rule "1.IH" [OF True]; use edges grand p in \<open>simp add: ys_def p_def\<close>)
    with True show ?thesis by (subst sift_up.simps) (simp add: p_def ys_def)
  qed
qed

lemma push_heap_heap: "is_heap key xs \<Longrightarrow> is_heap key (push_heap key (xs @ [x]))"
  unfolding push_heap_def
proof (rule sift_up_heap)
  fix c assume h: "is_heap key xs"
    and c: "c < length (xs @ [x])" "0 < c" "c \<noteq> length (xs @ [x]) - 1"
  then have "c < length xs" "par c < length xs" using par_less [of c] by auto
  then show "key ((xs @ [x]) ! par c) \<le> key ((xs @ [x]) ! c)"
    using h c by (auto simp: heap_from_def nth_append)
qed (auto simp: par_def)

lemma sift_down_heap:
  assumes "j \<le> i"
    and "\<And>c. c < length xs \<Longrightarrow> 0 < c \<Longrightarrow> j \<le> par c \<Longrightarrow> par c \<noteq> i \<Longrightarrow> key (xs ! par c) \<le> key (xs ! c)"
    and "\<And>c. c < length xs \<Longrightarrow> 0 < c \<Longrightarrow> par c = i \<Longrightarrow> 0 < i \<Longrightarrow> j \<le> par i \<Longrightarrow>
      key (xs ! par i) \<le> key (xs ! c)"
  shows "heap_from key j (sift_down key i xs)"
  using assms
proof (induction key i xs rule: sift_down.induct)
  case (1 key i xs)
  define m where "m = min_child key i xs"
  have kids: "c = 2 * i + 1 \<or> c = 2 * i + 2" if "par c = i" "0 < c" for c
    using that by (auto simp: par_def)
  have least: "key (xs ! m) \<le> key (xs ! c)" if "par c = i" "0 < c" "c < length xs" for c
    using kids [OF that(1,2)] that(3) by (auto simp: m_def min_child_def)
  show ?case
  proof (cases "2 * i + 1 < length xs \<and> key (xs ! m) < key (xs ! i)")
    case False
    have "key (xs ! par c) \<le> key (xs ! c)" if c: "c < length xs" "0 < c" "j \<le> par c" for c
    proof (cases "par c = i")
      case True
      then have "2 * i + 1 < length xs" using kids [OF True c(2)] c by auto
      then have "key (xs ! i) \<le> key (xs ! m)" using False by simp
      then show ?thesis using least [OF True c(2,1)] True by simp
    qed (use "1.prems"(2) [OF c] in blast)
    with False show ?thesis by (subst sift_down.simps) (auto simp: heap_from_def m_def)
  next
    case True
    define ys where "ys = swap i m xs"
    have m: "m < length xs" "i < m" "par m = i" "0 < m"
      using True min_child_range [where i = i and xs = xs and key = key] by (auto simp: m_def)
    then have i: "i < length xs" by simp
    have ys: "ys ! k = (if k = m then xs ! i else if k = i then xs ! m else xs ! k)" for k
      using nth_swap [OF i m(1)] by (simp add: ys_def)
    have edges: "key (ys ! par c) \<le> key (ys ! c)"
      if c: "c < length ys" "0 < c" "j \<le> par c" "par c \<noteq> m" for c
    proof -
      have c': "c < length xs" using c by (simp add: ys_def)
      consider "par c = i" | "par c \<noteq> i" "c = i" | "par c \<noteq> i" "c \<noteq> i" by blast
      then show ?thesis
      proof cases
        case 1
        have "c \<noteq> i" using 1 par_less [OF c(2)] by auto
        then show ?thesis using 1 m True least [OF 1 c(2) c'] by (auto simp: ys)
      next
        case 2
        then show ?thesis
          using "1.prems"(3) [OF m(1,4,3)] c m by (auto simp: ys)
      next
        case 3
        then have "c \<noteq> m" using m by auto
        then show ?thesis using 3 c "1.prems"(2) [OF c' c(2,3)] by (auto simp: ys)
      qed
    qed
    have grand: "key (ys ! par m) \<le> key (ys ! c)"
      if c: "c < length ys" "0 < c" "par c = m" for c
    proof -
      have "c \<noteq> m" "c \<noteq> i" using par_less [OF c(2)] c(3) m(2) by auto
      moreover have "key (xs ! m) \<le> key (xs ! c)"
        using "1.prems"(2) [of c] c m "1.prems"(1) by (auto simp: ys_def)
      ultimately show ?thesis using m by (auto simp: ys)
    qed
    have "heap_from key j (sift_down key m ys)"
      unfolding m_def ys_def
      by (rule "1.IH" [OF True [unfolded m_def]];
          use edges grand m "1.prems"(1) in \<open>simp add: ys_def m_def\<close>)
    with True show ?thesis by (subst sift_down.simps) (simp add: m_def ys_def)
  qed
qed

lemma sift_down_heap_suc: "heap_from key (Suc j) xs \<Longrightarrow> heap_from key j (sift_down key j xs)"
  by (rule sift_down_heap) (auto simp: heap_from_def par_def)

lemma make_heap_heap: "is_heap key (make_heap key xs)"
proof -
  have "is_heap key (fold (sift_down key) (rev [0..<n]) ys)" if "heap_from key n ys" for n ys
    using that
  proof (induction n arbitrary: ys)
    case 0 then show ?case by simp
  next
    case (Suc n)
    then show ?case using sift_down_heap_suc [OF Suc.prems] by simp
  qed
  moreover have "heap_from key (length xs div 2) xs" by (auto simp: heap_from_def par_def)
  ultimately show ?thesis by (simp add: make_heap_def)
qed

lemma heap_front_least:
  assumes h: "is_heap key xs" and x: "x \<in> set xs"
  shows "key (xs ! 0) \<le> key x"
proof -
  have "i < length xs \<Longrightarrow> key (xs ! 0) \<le> key (xs ! i)" for i
  proof (induction i rule: less_induct)
    case (less i)
    show ?case
    proof (cases "i = 0")
      case False
      then have "key (xs ! 0) \<le> key (xs ! par i)" using less par_less [of i] by auto
      also have "\<dots> \<le> key (xs ! i)" using h False less.prems by (simp add: heap_from_def)
      finally show ?thesis .
    qed simp
  qed
  then show ?thesis using x by (metis in_set_conv_nth)
qed

lemma pop_heap_spec:
  assumes h: "is_heap key xs" and ne: "xs \<noteq> []"
  shows "is_heap key (butlast (pop_heap key xs))" "last (pop_heap key xs) = hd xs"
    "mset (butlast (pop_heap key xs)) = mset xs - {#hd xs#}" "pop_heap key xs \<noteq> []"
proof -
  have *: "is_heap key (butlast (pop_heap key xs)) \<and> last (pop_heap key xs) = hd xs \<and>
    mset (butlast (pop_heap key xs)) = mset xs - {#hd xs#} \<and> pop_heap key xs \<noteq> []"
  proof (cases "length xs \<le> 1")
    case True
    then obtain a where "xs = [a]" using ne by (cases xs) auto
    then show ?thesis by (simp add: pop_heap_def heap_from_def)
  next
    case False
    obtain a us where us: "xs = a # us" using ne by (cases xs) auto
    then obtain b ys where "us = ys @ [b]" using False by (cases us rule: rev_cases) auto
    with us have xs: "xs = a # ys @ [b]" by simp
    define zs where "zs = (butlast xs)[0 := last xs]"
    have zs: "zs = b # ys" by (simp add: zs_def xs)
    have "heap_from key (Suc 0) zs"
      unfolding heap_from_def
    proof (intro allI impI)
      fix c assume c: "c < length zs" "0 < c \<and> Suc 0 \<le> par c"
      then have "key (xs ! par c) \<le> key (xs ! c)"
        using h unfolding heap_from_def zs_def by simp
      moreover have "zs ! k = xs ! k" if "0 < k" "k < length zs" for k
        using that by (cases k) (auto simp: zs xs nth_append)
      ultimately show "key (zs ! par c) \<le> key (zs ! c)" using c par_less [of c] by simp
    qed
    then have "is_heap key (sift_down key 0 zs)" by (rule sift_down_heap_suc)
    moreover have "pop_heap key xs = sift_down key 0 zs @ [a]"
      using False by (simp add: pop_heap_def zs_def xs)
    moreover have "mset (sift_down key 0 zs) = mset xs - {#a#}" by (simp add: mset_sift_down zs xs)
    ultimately show ?thesis by (simp add: xs)
  qed
  then show "is_heap key (butlast (pop_heap key xs))" "last (pop_heap key xs) = hd xs"
    "mset (butlast (pop_heap key xs)) = mset xs - {#hd xs#}" "pop_heap key xs \<noteq> []" by auto
qed

end
