(* ===== verification/MinQueue.thy ===== *)
theory MinQueue
  imports Prelude
begin

text \<open>
  The contract of a least-first queue, as the clients of
  \<^verbatim>\<open>buffer/BestFitQueue.h\<close> (the runs of a chunk) and of
  \<^verbatim>\<open>timer/delay_queue/DelayQueue.h\<close> (the buckets of a timing wheel) rely on it: the front
  is an element of least key, popping removes exactly the front. The client lemmas say what
  follows for a caller that empties the queue.
\<close>

fun drain :: "('q \<Rightarrow> 'a res) \<Rightarrow> ('q \<Rightarrow> 'q res) \<Rightarrow> nat \<Rightarrow> 'q \<Rightarrow> 'a list res" where
  "drain front del 0 q = Inr []"
| "drain front del (Suc n) q =
     rbind (front q) (\<lambda>x. rbind (del q) (\<lambda>q'. rbind (drain front del n q') (\<lambda>xs. Inr (x # xs))))"

locale min_queue =
  fixes emp :: 'q
    and ins :: "'a \<Rightarrow> 'q \<Rightarrow> 'q"
    and front :: "'q \<Rightarrow> 'a res"
    and del :: "'q \<Rightarrow> 'q res"
    and elems :: "'q \<Rightarrow> 'a multiset"
    and ok :: "'q \<Rightarrow> bool"
    and key :: "'a \<Rightarrow> 'k::linorder"
  assumes ok_emp: "ok emp" and elems_emp: "elems emp = {#}"
    and ok_ins: "ok q \<Longrightarrow> ok (ins x q)"
    and elems_ins: "ok q \<Longrightarrow> elems (ins x q) = add_mset x (elems q)"
    and front_empty: "elems q = {#} \<Longrightarrow> front q = Inl OutOfRange"
    and front_least: "ok q \<Longrightarrow> elems q \<noteq> {#} \<Longrightarrow>
      \<exists>x. front q = Inr x \<and> x \<in># elems q \<and> (\<forall>y \<in># elems q. key x \<le> key y)"
    and del_front: "ok q \<Longrightarrow> front q = Inr x \<Longrightarrow>
      \<exists>q'. del q = Inr q' \<and> ok q' \<and> elems q' = elems q - {#x#}"
begin

lemma front_Inr:
  assumes "ok q" "front q = Inr x"
  shows "x \<in># elems q" "y \<in># elems q \<Longrightarrow> key x \<le> key y" "elems q \<noteq> {#}"
proof -
  show ne: "elems q \<noteq> {#}" using front_empty [of q] assms(2) by auto
  show "x \<in># elems q" using front_least [OF assms(1) ne] assms(2) by auto
  show "y \<in># elems q \<Longrightarrow> key x \<le> key y" using front_least [OF assms(1) ne] assms(2) by auto
qed

lemma drain_all:
  "ok q \<Longrightarrow> size (elems q) = n \<Longrightarrow>
    \<exists>xs. drain front del n q = Inr xs \<and> mset xs = elems q \<and> sorted (map key xs)"
proof (induction n arbitrary: q)
  case 0
  then show ?case by simp
next
  case (Suc n)
  then have ne: "elems q \<noteq> {#}" by auto
  obtain x where x: "front q = Inr x" "x \<in># elems q" "\<forall>y \<in># elems q. key x \<le> key y"
    using front_least [OF Suc.prems(1) ne] by blast
  obtain q' where q': "del q = Inr q'" "ok q'" "elems q' = elems q - {#x#}"
    using del_front [OF Suc.prems(1) x(1)] by blast
  have "size (elems q') = n" using Suc.prems(2) x(2) q'(3) by (simp add: size_Diff_singleton)
  then obtain xs where xs: "drain front del n q' = Inr xs" "mset xs = elems q'" "sorted (map key xs)"
    using Suc.IH [OF q'(2)] by blast
  have "mset (x # xs) = elems q" using xs(2) q'(3) x(2) by simp
  moreover have "key x \<le> key y" if "y \<in> set xs" for y
  proof -
    have "y \<in># elems q'" using that xs(2) by (metis set_mset_mset)
    then have "y \<in># elems q" using q'(3) by (metis in_diffD)
    then show ?thesis using x(3) by blast
  qed
  ultimately show ?case using x(1) q'(1) xs by auto
qed

end

end
