(* ===== verification/BestFitQueue.thy ===== *)
theory BestFitQueue
  imports StdHeap MinQueue
begin

text \<open>
  \<^verbatim>\<open>buffer/BestFitQueue.h\<close>: the queue of equally classed free runs of a chunk. It is a
  vector kept in heap order with \<^verbatim>\<open>std::greater\<close>, so the least value (the run of least
  offset) is on top. \<open>top\<close> and \<open>pop\<close> of an empty vector are undefined in C++ and fail here.
  \<open>keyed_queue\<close> interprets the queue contract on heap vectors for any key.
\<close>

definition hv_front :: "'a list \<Rightarrow> 'a res" where
  "hv_front q = (if q = [] then Inl OutOfRange else Inr (q ! 0))"

definition hv_pop :: "('a \<Rightarrow> 'k::linorder) \<Rightarrow> 'a list \<Rightarrow> 'a list res" where
  "hv_pop key q = (if q = [] then Inl OutOfRange else Inr (butlast (pop_heap key q)))"

definition hv_push :: "('a \<Rightarrow> 'k::linorder) \<Rightarrow> 'a \<Rightarrow> 'a list \<Rightarrow> 'a list" where
  "hv_push key x q = push_heap key (q @ [x])"

interpretation keyed_queue: min_queue "[]" "hv_push key" hv_front "hv_pop key" mset "is_heap key" key
  for key :: "'a \<Rightarrow> 'k::linorder"
proof unfold_locales
  fix q :: "'a list" and x
  show "is_heap key []" by (simp add: heap_from_def)
  show "mset [] = ({#} :: 'a multiset)" by simp
  show "is_heap key q \<Longrightarrow> is_heap key (hv_push key x q)" by (simp add: hv_push_def push_heap_heap)
  show "mset (hv_push key x q) = add_mset x (mset q)" by (simp add: hv_push_def)
  show "mset q = {#} \<Longrightarrow> hv_front q = Inl OutOfRange" by (simp add: hv_front_def)
  show "\<exists>x. hv_front q = Inr x \<and> x \<in># mset q \<and> (\<forall>y \<in># mset q. key x \<le> key y)"
    if "is_heap key q" "mset q \<noteq> {#}"
    using that heap_front_least [OF that(1)] by (auto simp: hv_front_def)
  show "\<exists>q'. hv_pop key q = Inr q' \<and> is_heap key q' \<and> mset q' = mset q - {#x#}"
    if "is_heap key q" "hv_front q = Inr x"
    using that pop_heap_spec(1,3) [OF that(1)]
    by (auto simp: hv_pop_def hv_front_def hd_conv_nth split: if_splits)
qed

subsection \<open>The class\<close>

type_synonym 'a best_fit = "'a list"

definition bq_new :: "'a best_fit" where "bq_new = []"

definition bq_of_range :: "'a::linorder list \<Rightarrow> 'a best_fit" where
  "bq_of_range xs = make_heap id xs"

definition bq_empty :: "'a best_fit \<Rightarrow> bool" where "bq_empty q \<longleftrightarrow> q = []"

definition bq_size :: "'a best_fit \<Rightarrow> nat" where "bq_size q = length q"

definition bq_top :: "'a best_fit \<Rightarrow> 'a res" where "bq_top q = hv_front q"

definition bq_push :: "'a::linorder \<Rightarrow> 'a best_fit \<Rightarrow> 'a best_fit" where
  "bq_push x q = push_heap id (q @ [x])"

definition bq_pop :: "'a::linorder best_fit \<Rightarrow> 'a best_fit res" where
  "bq_pop q = hv_pop id q"

definition bq_remove :: "'a::linorder \<Rightarrow> 'a best_fit \<Rightarrow> 'a best_fit" where
  "bq_remove x q = (if x \<in> set q then make_heap id (remove1 x q) else q)"

abbreviation bq_ok :: "'a::linorder best_fit \<Rightarrow> bool" where "bq_ok q \<equiv> is_heap id q"

interpretation bestfit: min_queue bq_new bq_push bq_top bq_pop mset bq_ok id
proof -
  have ops: "bq_new = []" "bq_push = hv_push id" "bq_top = hv_front" "bq_pop = hv_pop id"
    by (rule ext | simp add: bq_new_def bq_push_def hv_push_def bq_top_def bq_pop_def)+
  show "min_queue bq_new bq_push bq_top bq_pop mset bq_ok id"
    unfolding ops by (rule keyed_queue.min_queue_axioms)
qed

lemma bq_remove_mset [simp]: "mset (bq_remove x q) = mset q - {#x#}"
  by (auto simp: bq_remove_def diff_single_trivial)

lemma bq_remove_ok: "bq_ok q \<Longrightarrow> bq_ok (bq_remove x q)"
  by (simp add: bq_remove_def make_heap_heap)

lemmas bq_facts = bestfit.ok_ins bestfit.elems_ins bq_remove_ok bq_remove_mset bestfit.ok_emp

lemma bq_push_set [simp]: "set (bq_push x q) = insert x (set q)"
  by (metis bq_push_def mset_push_heap set_mset_add_mset_insert set_mset_mset)

lemma bq_remove_set: "distinct q \<Longrightarrow> set (bq_remove x q) = set q - {x}"
  by (metis bq_remove_mset distinct_count_atmost_1 mset_remove1 set_mset_mset set_remove1_eq)

lemma bq_distinct_mset: "mset p = mset q \<Longrightarrow> distinct p \<longleftrightarrow> distinct q"
  by (metis mset_eq_imp_distinct_iff)

subsection \<open>Sequences of operations\<close>

datatype 'a bq_op = Push 'a | Pop | Remove 'a

fun bq_step :: "'a::linorder bq_op \<Rightarrow> 'a best_fit \<Rightarrow> 'a best_fit res" where
  "bq_step (Push x) q = Inr (bq_push x q)"
| "bq_step Pop q = bq_pop q"
| "bq_step (Remove x) q = Inr (bq_remove x q)"

fun bq_run :: "'a::linorder bq_op list \<Rightarrow> 'a best_fit \<Rightarrow> 'a best_fit res" where
  "bq_run [] q = Inr q"
| "bq_run (x # xs) q = rbind (bq_step x q) (bq_run xs)"

text \<open>The same operations on the bag of values: a pop takes the least.\<close>

fun bag_step :: "'a::linorder bq_op \<Rightarrow> 'a multiset \<Rightarrow> 'a multiset res" where
  "bag_step (Push x) M = Inr (add_mset x M)"
| "bag_step Pop M = (if M = {#} then Inl OutOfRange else Inr (M - {#Min (set_mset M)#}))"
| "bag_step (Remove x) M = Inr (M - {#x#})"

fun bag_run :: "'a::linorder bq_op list \<Rightarrow> 'a multiset \<Rightarrow> 'a multiset res" where
  "bag_run [] M = Inr M"
| "bag_run (x # xs) M = rbind (bag_step x M) (bag_run xs)"

lemma bq_top_Min: "bq_ok q \<Longrightarrow> q \<noteq> [] \<Longrightarrow> bq_top q = Inr (Min (set q))"
proof -
  assume "bq_ok q" "q \<noteq> []"
  then obtain x where "bq_top q = Inr x" "x \<in># mset q" "\<forall>y \<in># mset q. id x \<le> id y"
    using bestfit.front_least [of q] by auto
  then show ?thesis by (auto intro!: Min_eqI [symmetric])
qed

lemma bq_pop_Inr: "bq_pop q = Inr q' \<Longrightarrow> bq_ok q \<Longrightarrow>
  q \<noteq> [] \<and> bq_ok q' \<and> mset q' = mset q - {#Min (set q)#}"
  using bestfit.del_front [of q "Min (set q)"] bq_top_Min [of q]
  by (cases "q = []") (auto simp: bq_pop_def hv_pop_def)

lemma bq_step_ok: "bq_ok q \<Longrightarrow> bq_step x q = Inr q' \<Longrightarrow> bq_ok q'"
  using bq_pop_Inr [of q q'] by (cases x) (auto intro: bq_facts)

lemma bq_step_bag: "bq_ok q \<Longrightarrow> map_sum id mset (bq_step x q) = bag_step x (mset q)"
proof (cases x)
  case Pop
  assume ok: "bq_ok q"
  show ?thesis
  proof (cases "q = []")
    case False
    then obtain q' where "bq_pop q = Inr q'" by (auto simp: bq_pop_def hv_pop_def)
    then show ?thesis using bq_pop_Inr [OF _ ok] False by (auto simp: Pop)
  qed (simp add: Pop bq_pop_def hv_pop_def)
qed (auto simp: bestfit.elems_ins)

lemma bq_run_bag: "bq_ok q \<Longrightarrow> map_sum id mset (bq_run xs q) = bag_run xs (mset q)"
proof (induction xs arbitrary: q)
  case (Cons x xs)
  show ?case
  proof (cases "bq_step x q")
    case (Inl e)
    then have "bag_step x (mset q) = Inl e" using bq_step_bag [OF Cons.prems, of x] by simp
    with Inl show ?thesis by simp
  next
    case (Inr q')
    then have "bag_step x (mset q) = Inr (mset q')" using bq_step_bag [OF Cons.prems, of x] by simp
    with Inr show ?thesis using Cons.IH [OF bq_step_ok [OF Cons.prems Inr]] by simp
  qed
qed simp

lemma bq_run_ok: "bq_ok q \<Longrightarrow> bq_run xs q = Inr q' \<Longrightarrow> bq_ok q'"
  by (induction xs arbitrary: q) (auto intro: bq_step_ok)

subsection \<open>Properties\<close>

text \<open>C4. Whatever sequence of pushes, pops and removals is run on a new queue, it does to the
  vector what it does to the bag of its values, where a pop takes the least one (and fails on
  an empty queue), and \<^verbatim>\<open>top\<close> is then the least value.\<close>

theorem bestfit_refines_bag:
  "map_sum id mset (bq_run ops bq_new) = bag_run ops {#} \<and>
   (\<forall>q. bq_run ops bq_new = Inr q \<and> \<not> bq_empty q \<longrightarrow> bq_top q = Inr (Min (set q)))"
  using bq_run_bag [OF bestfit.ok_emp, of ops] bq_run_ok [OF bestfit.ok_emp, of ops] bq_top_Min
  by (auto simp: bestfit.elems_emp bq_empty_def)

theorem bestfit_refines_bag_witness:
  "\<exists>q. bq_run [Push 5, Push 3, Push 9, Pop, Remove (9::int)] bq_new = Inr q \<and> mset q = {#5#} \<and>
     bq_top q = Inr (Min (set q))"
proof -
  let ?ops = "[Push 5, Push 3, Push 9, Pop, Remove (9::int)]"
  have m: "Min {9, 3, 5 :: int} = 3" by simp
  have "bag_run ?ops {#} = Inr {#5#}"
    by (simp add: m add_mset_commute insert_commute)
  then have "map_sum id mset (bq_run ?ops bq_new) = Inr {#5#}" using bestfit_refines_bag [of ?ops] by metis
  then obtain q where q: "bq_run ?ops bq_new = Inr q" "mset q = {#5#}"
    by (cases "bq_run ?ops bq_new") (simp_all del: bq_run.simps rbind_Inr_iff)
  then have "\<not> bq_empty q" by (auto simp: bq_empty_def)
  then show ?thesis using q bestfit_refines_bag [of ?ops] by blast
qed

end
