(* ===== verification/Chunk.thy ===== *)
theory Chunk
  imports RunHandle BestFitQueue SizeClass
begin

text \<open>
  \<^verbatim>\<open>buffer/PoolChunk.h\<close> and \<^verbatim>\<open>buffer/PoolChunk.cpp\<close>, the runs of a chunk: a chunk is 2048
  pages of 8192 bytes; \<open>c_runsAvailMap\<close> maps the first and the last page of every free run to
  its handle, \<open>c_runsAvail\<close> files the handles by page class in one best-fit queue per class.
  The arena a chunk belongs to is read only for its size classes, which are the argument
  \<open>sc\<close>. A queue pointer is its index in \<open>c_runsAvail\<close>. The loops of \<^verbatim>\<open>collapsePrev\<close> and
  \<^verbatim>\<open>collapseNext\<close> have fuel: each round takes one free run out of the map, and there are at
  most as many runs as pages.
\<close>

record chunk =
  c_runsAvailMap :: "int \<rightharpoonup> int"
  c_runsAvail :: "int best_fit list"
  c_subpages :: "nat option list"
  c_cachedBuffers :: "ptr list"
  c_pageSize :: int
  c_pageShifts :: int
  c_chunkSize :: int
  c_memory :: "nat option"
  c_offset :: int
  c_freeBytes :: int
  c_unpool :: bool

definition newRunsAvailQueue :: "int \<Rightarrow> int best_fit list res" where
  "newRunsAvailQueue sz = assert_that (0 \<le> sz) (Inr (replicate (nat sz) bq_new))"

definition newPoolSubpageArray :: "int \<Rightarrow> nat option list res" where
  "newPoolSubpageArray sz = assert_that (0 \<le> sz) (Inr (replicate (nat sz) None))"

text \<open>\<^verbatim>\<open>unordered_map::insert\<close> keeps an entry that is already there.\<close>

definition insertAvailRun0 :: "int \<Rightarrow> int \<Rightarrow> chunk \<Rightarrow> chunk" where
  "insertAvailRun0 runOffset handle c =
     (if c_runsAvailMap c runOffset = None
      then c\<lparr>c_runsAvailMap := (c_runsAvailMap c)(runOffset \<mapsto> handle)\<rparr> else c)"

definition insertAvailRun :: "size_class \<Rightarrow> int \<Rightarrow> int \<Rightarrow> int \<Rightarrow> chunk \<Rightarrow> chunk res" where
  "insertAvailRun sc runOffset pages handle c =
     rbind (page2pageIdxFloor sc pages) (\<lambda>pageIdxFloor.
     rbind (at_vec (c_runsAvail c) pageIdxFloor) (\<lambda>sinQueue.
     rbind (set_vec (c_runsAvail c) pageIdxFloor (bq_push handle sinQueue)) (\<lambda>qs.
     let c1 = insertAvailRun0 runOffset handle (c\<lparr>c_runsAvail := qs\<rparr>) in
     Inr (if pages > 1 then insertAvailRun0 (tailPage runOffset pages) handle c1 else c1))))"

definition erase_avail :: "int \<Rightarrow> chunk \<Rightarrow> chunk" where
  "erase_avail k c = c\<lparr>c_runsAvailMap := (c_runsAvailMap c)(k := None)\<rparr>"

text \<open>The overload of \<^verbatim>\<open>removeAvailRun\<close> on a queue, and the one that finds the queue.\<close>

definition removeAvailRun_at :: "int \<Rightarrow> int \<Rightarrow> chunk \<Rightarrow> chunk res" where
  "removeAvailRun_at queue handle c =
     rbind (at_vec (c_runsAvail c) queue) (\<lambda>q.
     rbind (set_vec (c_runsAvail c) queue (bq_remove handle q)) (\<lambda>qs.
     let runOffset = calculateRunOffset handle;
         pages = calculateRunPages handle;
         c1 = erase_avail runOffset (c\<lparr>c_runsAvail := qs\<rparr>) in
     Inr (if pages > 1 then erase_avail (tailPage runOffset pages) c1 else c1)))"

definition removeAvailRun :: "size_class \<Rightarrow> int \<Rightarrow> chunk \<Rightarrow> chunk res" where
  "removeAvailRun sc handle c =
     rbind (page2pageIdxFloor sc (calculateRunPages handle)) (\<lambda>pageIdxFloor.
     removeAvailRun_at pageIdxFloor handle c)"

definition PoolChunk ::
  "size_class \<Rightarrow> nat option \<Rightarrow> int \<Rightarrow> int \<Rightarrow> int \<Rightarrow> int \<Rightarrow> int \<Rightarrow> chunk res" where
  "PoolChunk sc memory pageSize pageShifts chunkSize maxPageIdx offset =
     rbind (newRunsAvailQueue maxPageIdx) (\<lambda>qs.
     let pages = shr chunkSize pageShifts in
     rbind (newPoolSubpageArray pages) (\<lambda>subs.
     let initHandler = shl64 pages SIZE_SHIFT;
         c = \<lparr>c_runsAvailMap = Map.empty, c_runsAvail = qs, c_subpages = subs,
              c_cachedBuffers = [], c_pageSize = pageSize, c_pageShifts = pageShifts,
              c_chunkSize = chunkSize, c_memory = memory, c_offset = offset,
              c_freeBytes = chunkSize, c_unpool = False\<rparr> in
     insertAvailRun sc 0 pages initHandler c))"

definition PoolChunk_unpooled :: "nat option \<Rightarrow> int \<Rightarrow> int \<Rightarrow> chunk" where
  "PoolChunk_unpooled memory sz offset =
     \<lparr>c_runsAvailMap = Map.empty, c_runsAvail = [], c_subpages = [], c_cachedBuffers = [],
      c_pageSize = 0, c_pageShifts = 0, c_chunkSize = sz, c_memory = memory,
      c_offset = offset, c_freeBytes = 0, c_unpool = True\<rparr>"

definition usage :: "chunk \<Rightarrow> int res" where
  "usage c =
     (if c_freeBytes c = 0 then Inr 100
      else if c_chunkSize c = 0 then Inl DivByZero
      else let freeBytePercentage = i32 (i64 (c_freeBytes c * 100) div c_chunkSize c) in
           Inr (if freeBytePercentage = 0 then 99 else 100 - freeBytePercentage))"

function first_nonempty :: "int best_fit list \<Rightarrow> int \<Rightarrow> int \<Rightarrow> int res" where
  "first_nonempty qs n i =
     (if i < n
      then rbind (at_vec qs i) (\<lambda>q. if \<not> bq_empty q then Inr i else first_nonempty qs n (i + 1))
      else Inr (- 1))"
  by pat_completeness auto
termination
  by (relation "measure (\<lambda>(qs, n, i). nat (n - i))") auto

declare first_nonempty.simps [simp del]

definition runBestFit :: "size_class \<Rightarrow> int \<Rightarrow> chunk \<Rightarrow> int res" where
  "runBestFit sc pageIdx c =
     (if c_freeBytes c = c_chunkSize c then Inr (m_nPSizes sc - 1)
      else first_nonempty (c_runsAvail c) (m_nPSizes sc) pageIdx)"

definition splitLargeRun :: "size_class \<Rightarrow> int \<Rightarrow> int \<Rightarrow> chunk \<Rightarrow> (int \<times> chunk) res" where
  "splitLargeRun sc handle needPages c =
     assert_that (needPages > 0)
     (let totalPages = calculateRunPages handle in
      assert_that (needPages \<le> totalPages)
      (let remainPages = totalPages - needPages in
       if remainPages > 0 then
         (let runOffset = calculateRunOffset handle;
              availOffset = runOffset + needPages;
              availRun = toRunHandle availOffset remainPages 0 in
          rbind (insertAvailRun sc availOffset remainPages availRun c) (\<lambda>c'.
          Inr (toRunHandle runOffset needPages 1, c')))
       else Inr (mark_used handle, c)))"

definition allocateRun :: "size_class \<Rightarrow> int \<Rightarrow> chunk \<Rightarrow> (int \<times> chunk) res" where
  "allocateRun sc runSz c =
     (let pages = shr runSz (c_pageShifts c) in
      rbind (page2pageIdx sc pages) (\<lambda>pageIdx.
      rbind (runBestFit sc pageIdx c) (\<lambda>runAvailIdx.
      if runAvailIdx = - 1 then Inr (- 1, c)
      else
        rbind (at_vec (c_runsAvail c) runAvailIdx) (\<lambda>bestFitQueue.
        assert_that (\<not> bq_empty bestFitQueue)
        (rbind (bq_top bestFitQueue) (\<lambda>handle.
         assert_that (\<not> isUsed handle)
         (rbind (bq_pop bestFitQueue) (\<lambda>popped.
          rbind (set_vec (c_runsAvail c) runAvailIdx popped) (\<lambda>qs.
          rbind (removeAvailRun_at runAvailIdx handle (c\<lparr>c_runsAvail := qs\<rparr>)) (\<lambda>c1.
          rbind (if handle \<noteq> - 1 then splitLargeRun sc handle pages c1 else Inr (handle, c1))
            (\<lambda>(handle', c2).
          Inr (handle', c2\<lparr>c_freeBytes :=
             i32 (c_freeBytes c2 - calculateRunSize (c_pageShifts c2) handle')\<rparr>))))))))))))"

definition getAvailRunByOffset :: "int \<Rightarrow> chunk \<Rightarrow> int" where
  "getAvailRunByOffset runOffset c =
     (case c_runsAvailMap c runOffset of Some h \<Rightarrow> h | None \<Rightarrow> - 1)"

primrec collapsePrev :: "nat \<Rightarrow> size_class \<Rightarrow> int \<Rightarrow> chunk \<Rightarrow> (int \<times> chunk) res" where
  "collapsePrev 0 sc handle c = Inl Diverges"
| "collapsePrev (Suc n) sc handle c =
     (let runOffset = calculateRunOffset handle;
          runPages = calculateRunPages handle;
          prevRun = getAvailRunByOffset (runOffset - 1) c in
      if prevRun = - 1 then Inr (handle, c)
      else
        let prevOffset = calculateRunOffset prevRun;
            prevPages = calculateRunPages prevRun in
        if prevRun \<noteq> handle \<and> prevPages + prevOffset = runOffset
        then rbind (removeAvailRun sc prevRun c) (\<lambda>c'.
             collapsePrev n sc (toRunHandle prevOffset (prevPages + runPages) 0) c')
        else Inr (handle, c))"

primrec collapseNext :: "nat \<Rightarrow> size_class \<Rightarrow> int \<Rightarrow> chunk \<Rightarrow> (int \<times> chunk) res" where
  "collapseNext 0 sc handle c = Inl Diverges"
| "collapseNext (Suc n) sc handle c =
     (let runOffset = calculateRunOffset handle;
          runPages = calculateRunPages handle;
          nextRun = getAvailRunByOffset (runOffset + runPages) c in
      if nextRun = - 1 then Inr (handle, c)
      else
        let nextOffset = calculateRunOffset nextRun;
            nextPages = calculateRunPages nextRun in
        if nextRun \<noteq> handle \<and> runPages + runOffset = nextOffset
        then rbind (removeAvailRun sc nextRun c) (\<lambda>c'.
             collapseNext n sc (toRunHandle runOffset (nextPages + runPages) 0) c')
        else Inr (handle, c))"

definition collapse_fuel :: "chunk \<Rightarrow> nat" where
  "collapse_fuel c = Suc (Suc (length (c_subpages c)))"

definition collapseRuns :: "size_class \<Rightarrow> int \<Rightarrow> chunk \<Rightarrow> (int \<times> chunk) res" where
  "collapseRuns sc handle c =
     rbind (collapsePrev (collapse_fuel c) sc handle c) (\<lambda>(h, c').
     collapseNext (collapse_fuel c) sc h c')"

abbreviation DEFAULT_MAX_CACHED_BYTES_PER_CHUNK :: int where
  "DEFAULT_MAX_CACHED_BYTES_PER_CHUNK \<equiv> 1023"

text \<open>The second half of \<^verbatim>\<open>PoolChunk::free\<close>, common to runs and emptied subpages.\<close>

definition freeRun :: "size_class \<Rightarrow> int \<Rightarrow> ptr option \<Rightarrow> chunk \<Rightarrow> chunk res" where
  "freeRun sc handle buffer c =
     (let pages = calculateRunPages handle in
      rbind (collapseRuns sc handle c) (\<lambda>(concateRun0, c1).
      let concateRun = clear_flags concateRun0 in
      rbind (insertAvailRun sc (calculateRunOffset concateRun) (calculateRunPages concateRun)
               concateRun c1) (\<lambda>c2.
      let c3 = c2\<lparr>c_freeBytes := i32 (c_freeBytes c2 + shl32 pages (c_pageShifts c2))\<rparr> in
      Inr (case buffer of
             Some b \<Rightarrow> if int (length (c_cachedBuffers c3)) < DEFAULT_MAX_CACHED_BYTES_PER_CHUNK
                       then c3\<lparr>c_cachedBuffers := c_cachedBuffers c3 @ [b]\<rparr> else c3
           | None \<Rightarrow> c3))))"

text \<open>
  \<^verbatim>\<open>calculateRunSize(int sizeIdx)\<close>: the run a subpage of small elements is cut from. The
  first loop grows the run page by page until it holds whole elements only (or the most the
  bitmap can name), the second takes pages back. Both have fuel: the first ends when the run
  reaches \<open>maxElements * elemSize\<close> bytes, the second when it is empty.
\<close>

fun grow_run :: "nat \<Rightarrow> int \<Rightarrow> int \<Rightarrow> int \<Rightarrow> int \<Rightarrow> (int \<times> int) res" where
  "grow_run 0 pageSize elemSize maxElements runSz = Inl Diverges"
| "grow_run (Suc n) pageSize elemSize maxElements runSz =
     (let runSz' = i32 (runSz + pageSize); nElements = runSz' div elemSize in
      if nElements < maxElements \<and> runSz' \<noteq> nElements * elemSize
      then grow_run n pageSize elemSize maxElements runSz' else Inr (runSz', nElements))"

fun shrink_run :: "nat \<Rightarrow> int \<Rightarrow> int \<Rightarrow> int \<Rightarrow> int \<Rightarrow> int \<Rightarrow> (int \<times> int) res" where
  "shrink_run 0 pageSize elemSize maxElements runSz nElements = Inl Diverges"
| "shrink_run (Suc n) pageSize elemSize maxElements runSz nElements =
     (if nElements > maxElements
      then shrink_run n pageSize elemSize maxElements (runSz - pageSize) ((runSz - pageSize) div elemSize)
      else Inr (runSz, nElements))"

definition calculateRunSize_idx :: "size_class \<Rightarrow> int \<Rightarrow> chunk \<Rightarrow> int res" where
  "calculateRunSize_idx sc sizeIdx c =
     (let maxElements = shl32 1 (c_pageShifts c - 4) in
      rbind (sizeIdx2size sc sizeIdx) (\<lambda>elemSize.
      if elemSize = 0 then Inl DivByZero
      else
        rbind (grow_run (Suc (nat (maxElements * elemSize))) (c_pageSize c) elemSize maxElements 0)
          (\<lambda>(runSz, nElements).
        rbind (shrink_run (Suc (nat runSz)) (c_pageSize c) elemSize maxElements runSz nElements)
          (\<lambda>(runSz, nElements).
        assert_that (nElements > 0)
        (assert_that (runSz \<le> c_chunkSize c)
        (assert_that (runSz \<ge> elemSize) (Inr runSz)))))))"

end
