(* ===== verification/ChunkRuns.thy ===== *)
theory ChunkRuns
  imports Chunk SizeClassSpec
begin

text \<open>
  The free runs of a chunk as a set of handles, the representation of that set by the map
  and the queues of \<^verbatim>\<open>PoolChunk\<close>, and what each operation on runs does to it. The lemmas
  are proved once for any page classes that satisfy the contract \<open>page_index\<close> and hold for
  the code's classes by its interpretation.
\<close>

subsection \<open>Sets of free runs\<close>

abbreviation off :: "int \<Rightarrow> int" where "off \<equiv> calculateRunOffset"
abbreviation pg :: "int \<Rightarrow> int" where "pg \<equiv> calculateRunPages"

definition in_chunk :: "int \<Rightarrow> int \<Rightarrow> bool" where
  "in_chunk N h \<longleftrightarrow> 0 \<le> h \<and> 0 \<le> off h \<and> 1 \<le> pg h \<and> off h + pg h \<le> N"

definition apart :: "int \<Rightarrow> int \<Rightarrow> bool" where
  "apart h g \<longleftrightarrow> off h + pg h < off g \<or> off g + pg g < off h"

definition run_set :: "int \<Rightarrow> int set \<Rightarrow> bool" where
  "run_set N F \<longleftrightarrow> (\<forall>h \<in> F. in_chunk N h \<and> \<not> isUsed h \<and> \<not> isSubpage h) \<and>
     (\<forall>h \<in> F. \<forall>g \<in> F. h = g \<or> apart h g)"

definition span :: "int \<Rightarrow> int set" where "span h = {off h ..< off h + pg h}"

definition free_pages :: "int set \<Rightarrow> int set" where "free_pages F = (\<Union>h \<in> F. span h)"

lemma run_setD:
  assumes "run_set N F" "h \<in> F"
  shows "0 \<le> h" "0 \<le> off h" "1 \<le> pg h" "off h + pg h \<le> N" "\<not> isUsed h" "\<not> isSubpage h"
  using assms by (auto simp: run_set_def in_chunk_def)

lemma run_set_apart: "run_set N F \<Longrightarrow> h \<in> F \<Longrightarrow> g \<in> F \<Longrightarrow> h \<noteq> g \<Longrightarrow> apart h g"
  by (auto simp: run_set_def)

lemma apart_sym: "apart h g \<longleftrightarrow> apart g h"
  by (auto simp: apart_def)

lemma run_set_insert:
  "run_set N (insert h F) \<longleftrightarrow> run_set N F \<and> in_chunk N h \<and> \<not> isUsed h \<and> \<not> isSubpage h \<and>
     (\<forall>g \<in> F. h = g \<or> apart h g)"
proof
  assume "run_set N (insert h F)"
  then show "run_set N F \<and> in_chunk N h \<and> \<not> isUsed h \<and> \<not> isSubpage h \<and> (\<forall>g \<in> F. h = g \<or> apart h g)"
    unfolding run_set_def by simp
next
  assume R: "run_set N F \<and> in_chunk N h \<and> \<not> isUsed h \<and> \<not> isSubpage h \<and> (\<forall>g \<in> F. h = g \<or> apart h g)"
  have "g = g' \<or> apart g g'" if "g \<in> insert h F" "g' \<in> insert h F" for g g'
  proof (cases "g = h \<or> g' = h")
    case True
    then show ?thesis using that R apart_sym [of g h] by auto
  next
    case False
    then show ?thesis using that R run_set_apart [of N F g g'] by auto
  qed
  then show "run_set N (insert h F)" using R unfolding run_set_def by simp
qed

lemma run_set_mono: "run_set N F \<Longrightarrow> G \<subseteq> F \<Longrightarrow> run_set N G"
  unfolding run_set_def by blast

lemma apart_disjoint: "apart h g \<Longrightarrow> span h \<inter> span g = {}"
  by (auto simp: apart_def span_def)

lemma free_pages_sub: "run_set N F \<Longrightarrow> free_pages F \<subseteq> {0..<N}"
  using run_setD by (fastforce simp: free_pages_def span_def)

lemma free_pages_minus: "run_set N F \<Longrightarrow> h \<in> F \<Longrightarrow> free_pages (F - {h}) = free_pages F - span h"
  using apart_disjoint [OF run_set_apart [of N F h]] by (auto simp: free_pages_def)

lemma free_pages_insert [simp]: "free_pages (insert h F) = span h \<union> free_pages F"
  by (simp add: free_pages_def)

lemma span_sub: "h \<in> F \<Longrightarrow> span h \<subseteq> free_pages F"
  by (auto simp: free_pages_def)

lemma run_set_full:
  assumes F: "run_set N F" and full: "free_pages F = {0..<N}" and N: "1 \<le> N"
  shows "\<exists>h. F = {h} \<and> off h = 0 \<and> pg h = N"
proof -
  have "0 \<in> free_pages F" using full N by simp
  then obtain h where h: "h \<in> F" "off h \<le> 0" "0 < off h + pg h"
    by (auto simp: free_pages_def span_def)
  then have o0: "off h = 0" using run_setD [OF F h(1)] by simp
  have pN: "pg h = N"
  proof (rule ccontr)
    assume "pg h \<noteq> N"
    then have "pg h \<in> free_pages F" using run_setD [OF F h(1)] o0 full by auto
    then obtain g where g: "g \<in> F" "off g \<le> pg h" "pg h < off g + pg g"
      by (auto simp: free_pages_def span_def)
    have "h \<noteq> g" using g o0 by auto
    from run_set_apart [OF F h(1) g(1) this] show False
      using g run_setD [OF F g(1)] h(3) o0 unfolding apart_def by linarith
  qed
  have "g = h" if g: "g \<in> F" for g
    using run_set_apart [OF F h(1) g] run_setD [OF F g] o0 pN unfolding apart_def by linarith
  then show ?thesis using h(1) o0 pN by blast
qed

subsection \<open>The representation\<close>

definition runs_rep :: "size_class \<Rightarrow> chunk \<Rightarrow> int set \<Rightarrow> bool" where
  "runs_rep sc c F \<longleftrightarrow>
     length (c_runsAvail c) = nat (m_nPSizes sc) \<and>
     (\<forall>k h. c_runsAvailMap c k = Some h \<longleftrightarrow> h \<in> F \<and> (k = off h \<or> k = tailPage (off h) (pg h))) \<and>
     (\<forall>i q. at_vec (c_runsAvail c) i = Inr q \<longrightarrow>
        bq_ok q \<and> distinct q \<and> set q = {h \<in> F. page2pageIdxFloor sc (pg h) = Inr i})"

definition sized :: "int \<Rightarrow> chunk \<Rightarrow> bool" where
  "sized N c \<longleftrightarrow> 0 \<le> c_pageShifts c \<and> c_pageSize c = 2 ^ nat (c_pageShifts c) \<and>
     c_chunkSize c = N * 2 ^ nat (c_pageShifts c) \<and> c_chunkSize c \<le> INT_MAX"

definition counted :: "chunk \<Rightarrow> int set \<Rightarrow> bool" where
  "counted c F \<longleftrightarrow> c_freeBytes c = int (card (free_pages F)) * 2 ^ nat (c_pageShifts c)"

lemma runs_repD:
  assumes "runs_rep sc c F"
  shows "length (c_runsAvail c) = nat (m_nPSizes sc)"
    "c_runsAvailMap c k = Some h \<longleftrightarrow> h \<in> F \<and> (k = off h \<or> k = tailPage (off h) (pg h))"
    "at_vec (c_runsAvail c) i = Inr q \<Longrightarrow> bq_ok q"
    "at_vec (c_runsAvail c) i = Inr q \<Longrightarrow> distinct q"
    "at_vec (c_runsAvail c) i = Inr q \<Longrightarrow> set q = {h \<in> F. page2pageIdxFloor sc (pg h) = Inr i}"
  using assms unfolding runs_rep_def by blast+

lemma runs_repI:
  assumes "length qs = nat (m_nPSizes sc)"
    and "\<And>k h. m k = Some h \<longleftrightarrow> h \<in> F \<and> (k = off h \<or> k = tailPage (off h) (pg h))"
    and "\<And>i q. at_vec qs i = Inr q \<Longrightarrow> bq_ok q"
    and "\<And>i q. at_vec qs i = Inr q \<Longrightarrow> distinct q"
    and "\<And>i q. at_vec qs i = Inr q \<Longrightarrow> set q = {h \<in> F. page2pageIdxFloor sc (pg h) = Inr i}"
  shows "runs_rep sc (c\<lparr>c_runsAvailMap := m, c_runsAvail := qs\<rparr>) F"
  using assms by (simp add: runs_rep_def)

text \<open>What is left when the first \<open>p\<close> pages of the free run \<open>h\<close> are taken.\<close>

definition rest_run :: "int \<Rightarrow> int \<Rightarrow> int" where
  "rest_run h p = toRunHandle (off h + p) (pg h - p) 0"

definition after_split :: "int \<Rightarrow> int \<Rightarrow> int set \<Rightarrow> int set" where
  "after_split h p F = (if p < pg h then insert (rest_run h p) (F - {h}) else F - {h})"

definition used_run :: "int \<Rightarrow> int \<Rightarrow> int" where
  "used_run h p = (if p < pg h then toRunHandle (off h) p 1 else mark_used h)"

definition take_bytes :: "int \<Rightarrow> chunk \<Rightarrow> chunk" where
  "take_bytes p c = c\<lparr>c_freeBytes := c_freeBytes c - p * 2 ^ nat (c_pageShifts c)\<rparr>"

text \<open>
  A run to be freed lies clear of the free runs. \<open>clear_of\<close> allows it to touch them, which
  is when the two loops of \<^verbatim>\<open>collapseRuns\<close> find a neighbour.
\<close>

definition clear_of :: "int \<Rightarrow> int set \<Rightarrow> bool" where
  "clear_of h F \<longleftrightarrow> (\<forall>g \<in> F. off h + pg h \<le> off g \<or> off g + pg g \<le> off h)"

subsection \<open>The page classes a chunk relies on\<close>

locale page_index =
  fixes sc :: size_class and N :: int
  assumes pages: "1 \<le> N" "N < 16384"
    and classes: "0 \<le> m_nPSizes sc"
    and up: "1 \<le> p \<Longrightarrow> p \<le> N \<Longrightarrow> \<exists>i. page2pageIdx sc p = Inr i \<and> 0 \<le> i \<and> i < m_nPSizes sc"
    and down: "1 \<le> p \<Longrightarrow> p \<le> N \<Longrightarrow> \<exists>j. page2pageIdxFloor sc p = Inr j \<and> 0 \<le> j \<and> j < m_nPSizes sc"
    and fits: "1 \<le> p \<Longrightarrow> p \<le> N \<Longrightarrow> 1 \<le> r \<Longrightarrow> r \<le> N \<Longrightarrow> page2pageIdx sc p = Inr i \<Longrightarrow>
      page2pageIdxFloor sc r = Inr j \<Longrightarrow> i \<le> j \<Longrightarrow> p \<le> r"
    and whole: "page2pageIdxFloor sc N = Inr (m_nPSizes sc - 1)"
begin

lemma in_chunk_fields: "in_chunk N h \<Longrightarrow> run_fields (off h) (pg h)"
  using pages by (auto simp: in_chunk_def run_fields_def)

lemma fields: "0 \<le> s \<Longrightarrow> 0 \<le> p \<Longrightarrow> s + p \<le> N \<Longrightarrow> run_fields s p"
  using pages by (simp add: run_fields_def)

lemma map_insert:
  assumes F: "run_set N (insert h F)" "h \<notin> F" and rep: "runs_rep sc c F"
    and k: "off h \<le> k" "k \<le> off h + pg h"
  shows "c_runsAvailMap c k = None"
proof (rule ccontr)
  assume "c_runsAvailMap c k \<noteq> None"
  then obtain g where "c_runsAvailMap c k = Some g" by blast
  then have g: "g \<in> F" "k = off g \<or> k = tailPage (off g) (pg g)"
    using runs_repD(2) [OF rep] by auto
  have "h \<noteq> g" using g(1) F(2) by auto
  then have "apart h g" using run_set_apart [OF F(1)] g(1) by simp
  then show False
    using g k run_setD(3) [OF F(1), of g] by (auto simp: tailPage_def apart_def)
qed

lemma insertAvailRun_rep:
  assumes F: "run_set N (insert h F)" "h \<notin> F" and rep: "runs_rep sc c F"
  shows "\<exists>m qs. insertAvailRun sc (off h) (pg h) h c = Inr (c\<lparr>c_runsAvailMap := m, c_runsAvail := qs\<rparr>) \<and>
      runs_rep sc (c\<lparr>c_runsAvailMap := m, c_runsAvail := qs\<rparr>) (insert h F)"
proof -
  have p: "1 \<le> pg h" "pg h \<le> N" using F(1) by (auto simp: run_set_insert in_chunk_def)
  obtain j where j: "page2pageIdxFloor sc (pg h) = Inr j" "0 \<le> j" "j < m_nPSizes sc"
    using down [OF p] by blast
  have len: "length (c_runsAvail c) = nat (m_nPSizes sc)" by (rule runs_repD(1) [OF rep])
  define q where "q = c_runsAvail c ! nat j"
  define qs where "qs = (c_runsAvail c)[nat j := bq_push h q]"
  define t where "t = tailPage (off h) (pg h)"
  define m where "m = (c_runsAvailMap c)(off h \<mapsto> h, t \<mapsto> h)"
  have jn: "nat j < length (c_runsAvail c)" using j len by simp
  have q: "at_vec (c_runsAvail c) j = Inr q" using j jn by (simp add: q_def)
  note Q = runs_repD(3-5) [OF rep q]
  have none: "c_runsAvailMap c (off h) = None" "c_runsAvailMap c t = None"
    by (rule map_insert [OF F rep]; use p in \<open>simp add: t_def tailPage_def\<close>)+
  have "insertAvailRun sc (off h) (pg h) h c = Inr (c\<lparr>c_runsAvailMap := m, c_runsAvail := qs\<rparr>)"
  proof (cases "1 < pg h")
    case True
    then have "t \<noteq> off h" by (simp add: t_def tailPage_def)
    then show ?thesis using none True j q jn
      by (simp add: insertAvailRun_def set_vec_def insertAvailRun0_def Let_def qs_def m_def t_def [symmetric])
  next
    case False
    then have "t = off h" using p by (simp add: t_def tailPage_def)
    then show ?thesis using none False j q jn
      by (simp add: insertAvailRun_def set_vec_def insertAvailRun0_def Let_def qs_def m_def)
  qed
  moreover have "runs_rep sc (c\<lparr>c_runsAvailMap := m, c_runsAvail := qs\<rparr>) (insert h F)"
  proof (rule runs_repI)
    show "length qs = nat (m_nPSizes sc)" by (simp add: qs_def len)
    fix k g
    have old: "g \<in> F \<Longrightarrow> k = off g \<or> k = tailPage (off g) (pg g) \<Longrightarrow> k \<noteq> off h \<and> k \<noteq> t"
      using none runs_repD(2) [OF rep, of k g] by auto
    show "m k = Some g \<longleftrightarrow> g \<in> insert h F \<and> (k = off g \<or> k = tailPage (off g) (pg g))"
      using runs_repD(2) [OF rep, of k g] old F(2) unfolding m_def t_def [symmetric]
      by (cases "g = h") (auto simp: t_def)
  next
    fix i q' assume i: "at_vec qs i = Inr q'"
    have fresh: "h \<notin> set q" using Q(3) F(2) by simp
    have r: "bq_ok (bq_push h q)" "distinct (bq_push h q)" "set (bq_push h q) = insert h (set q)"
    proof -
      show "bq_ok (bq_push h q)" by (rule bestfit.ok_ins [OF Q(1)])
      have "mset (bq_push h q) = mset (h # q)" using bestfit.elems_ins [OF Q(1)] by simp
      then show "distinct (bq_push h q)" using bq_distinct_mset [of _ "h # q"] Q(2) fresh by simp
      show "set (bq_push h q) = insert h (set q)" by simp
    qed
    have other: "at_vec (c_runsAvail c) i = Inr q'" if "i \<noteq> j"
      using i that j(2) by (auto simp: qs_def nth_list_update nat_eq_iff)
    have new: "q' = bq_push h q" if "i = j" using i that jn j(2) by (simp add: qs_def)
    show "bq_ok q'" using runs_repD(3) [OF rep other] new r by (cases "i = j") auto
    show "distinct q'" using runs_repD(4) [OF rep other] new r by (cases "i = j") auto
    show "set q' = {g \<in> insert h F. page2pageIdxFloor sc (pg g) = Inr i}"
      using runs_repD(5) [OF rep other] new r Q(3) j(1) by (cases "i = j") auto
  qed
  ultimately show ?thesis by blast
qed

lemma removeAvailRun_at_rep:
  assumes F: "run_set N F" "h \<in> F" and rep: "runs_rep sc c F"
    and j: "page2pageIdxFloor sc (pg h) = Inr j" "0 \<le> j" "j < m_nPSizes sc"
    and q: "at_vec (c_runsAvail c) j = Inr q"
    and q': "bq_ok q'" "distinct q'" "set q' - {h} = set q - {h}"
  shows "\<exists>m qs. removeAvailRun_at j h (c\<lparr>c_runsAvail := (c_runsAvail c)[nat j := q']\<rparr>)
      = Inr (c\<lparr>c_runsAvailMap := m, c_runsAvail := qs\<rparr>) \<and>
      runs_rep sc (c\<lparr>c_runsAvailMap := m, c_runsAvail := qs\<rparr>) (F - {h})"
proof -
  have p: "1 \<le> pg h" using run_setD [OF F] by simp
  have len: "length (c_runsAvail c) = nat (m_nPSizes sc)" by (rule runs_repD(1) [OF rep])
  then have jn: "nat j < length (c_runsAvail c)" using j by simp
  define r where "r = bq_remove h q'"
  define qs where "qs = (c_runsAvail c)[nat j := r]"
  define t where "t = tailPage (off h) (pg h)"
  define m where "m = (c_runsAvailMap c)(off h := None, t := None)"
  have step: "removeAvailRun_at j h (c\<lparr>c_runsAvail := (c_runsAvail c)[nat j := q']\<rparr>)
      = Inr (c\<lparr>c_runsAvailMap := m, c_runsAvail := qs\<rparr>)"
  proof (cases "1 < pg h")
    case True
    then show ?thesis using j jn
      by (simp add: removeAvailRun_at_def set_vec_def at_vec_def erase_avail_def Let_def qs_def m_def r_def t_def)
  next
    case False
    then have "t = off h" using p by (simp add: t_def tailPage_def)
    then show ?thesis using j jn False
      by (simp add: removeAvailRun_at_def set_vec_def at_vec_def erase_avail_def Let_def qs_def m_def r_def)
  qed
  have "runs_rep sc (c\<lparr>c_runsAvailMap := m, c_runsAvail := qs\<rparr>) (F - {h})"
  proof (rule runs_repI)
    show "length qs = nat (m_nPSizes sc)" by (simp add: qs_def len)
    fix k g
    have "g = h" if k: "k = off h \<or> k = t" "k = off g \<or> k = tailPage (off g) (pg g)" and g: "g \<in> F"
    proof (rule ccontr)
      assume "g \<noteq> h"
      then have "apart g h" by (rule run_set_apart [OF F(1) g F(2)])
      then show False using k run_setD [OF F(1) g] p unfolding t_def tailPage_def apart_def by linarith
    qed
    then show "m k = Some g \<longleftrightarrow> g \<in> F - {h} \<and> (k = off g \<or> k = tailPage (off g) (pg g))"
      using runs_repD(2) [OF rep, of k g] unfolding m_def by (auto simp: t_def)
  next
    fix i q0 assume i: "at_vec qs i = Inr q0"
    have r: "bq_ok r" "distinct r" "set r = set q - {h}"
    proof -
      show "bq_ok r" by (simp add: r_def bq_remove_ok q'(1))
      have "mset r = mset (remove1 h q')" by (simp add: r_def)
      then show "distinct r" using bq_distinct_mset [of r "remove1 h q'"] q'(2) by simp
      show "set r = set q - {h}" using bq_remove_set [OF q'(2), of h] q'(3) by (simp add: r_def)
    qed
    have old: "at_vec (c_runsAvail c) i = Inr q0" if "i \<noteq> j"
      using i that j(2) by (auto simp: qs_def nth_list_update nat_eq_iff)
    have new: "q0 = r" if "i = j" using i that jn j(2) by (simp add: qs_def)
    show "bq_ok q0" using runs_repD(3) [OF rep old] new r by (cases "i = j") auto
    show "distinct q0" using runs_repD(4) [OF rep old] new r by (cases "i = j") auto
    show "set q0 = {g \<in> F - {h}. page2pageIdxFloor sc (pg g) = Inr i}"
      using runs_repD(5) [OF rep old] new r runs_repD(5) [OF rep q] j(1) by (cases "i = j") auto
  qed
  with step show ?thesis by blast
qed

lemma removeAvailRun_rep:
  assumes F: "run_set N F" "h \<in> F" and rep: "runs_rep sc c F"
  shows "\<exists>m qs. removeAvailRun sc h c = Inr (c\<lparr>c_runsAvailMap := m, c_runsAvail := qs\<rparr>) \<and>
      runs_rep sc (c\<lparr>c_runsAvailMap := m, c_runsAvail := qs\<rparr>) (F - {h})"
proof -
  obtain j where j: "page2pageIdxFloor sc (pg h) = Inr j" "0 \<le> j" "j < m_nPSizes sc"
    using down [of "pg h"] run_setD [OF F] by auto
  define q where "q = c_runsAvail c ! nat j"
  have q: "at_vec (c_runsAvail c) j = Inr q" using j runs_repD(1) [OF rep] by (simp add: q_def)
  have "(c_runsAvail c)[nat j := q] = c_runsAvail c" by (simp add: q_def)
  then have "removeAvailRun sc h c = removeAvailRun_at j h (c\<lparr>c_runsAvail := (c_runsAvail c)[nat j := q]\<rparr>)"
    using j by (simp add: removeAvailRun_def)
  with removeAvailRun_at_rep [OF F rep j q runs_repD(3,4) [OF rep q] refl] show ?thesis by simp
qed

subsection \<open>Allocation\<close>

lemma first_nonempty_spec:
  assumes "int (length qs) = n" "0 \<le> i"
  shows "\<exists>k. first_nonempty qs n i = Inr k \<and>
     (k = - 1 \<and> (\<forall>j. i \<le> j \<and> j < n \<longrightarrow> qs ! nat j = []) \<or>
      i \<le> k \<and> k < n \<and> qs ! nat k \<noteq> [] \<and> (\<forall>j. i \<le> j \<and> j < k \<longrightarrow> qs ! nat j = []))"
  using assms
proof (induction qs n i rule: first_nonempty.induct)
  case (1 qs n i)
  show ?case
  proof (cases "i < n \<and> qs ! nat i = []")
    case True
    then have q: "at_vec qs i = Inr []" using 1 by simp
    then obtain k where k: "first_nonempty qs n (i + 1) = Inr k"
      "k = - 1 \<and> (\<forall>j. i + 1 \<le> j \<and> j < n \<longrightarrow> qs ! nat j = []) \<or>
       i + 1 \<le> k \<and> k < n \<and> qs ! nat k \<noteq> [] \<and> (\<forall>j. i + 1 \<le> j \<and> j < k \<longrightarrow> qs ! nat j = [])"
      using 1 True by (auto simp: bq_empty_def)
    have "first_nonempty qs n i = Inr k" using q True k(1)
      by (subst first_nonempty.simps) (simp add: bq_empty_def)
    moreover have "qs ! nat j = []" if "i \<le> j" "i + 1 \<le> j \<Longrightarrow> qs ! nat j = []" for j
      using that True by (cases "i = j") auto
    ultimately show ?thesis using k(2) by (intro exI [of _ k]) (metis add1_zle_eq less_le)
  next
    case False
    then show ?thesis using "1.prems"
      by (subst first_nonempty.simps) (auto simp: at_vec_def bq_empty_def)
  qed
qed

lemma used_run_fields:
  assumes "in_chunk N h" "1 \<le> p" "p \<le> pg h" "\<not> isSubpage h"
  shows "off (used_run h p) = off h" "pg (used_run h p) = p" "isUsed (used_run h p)"
    "\<not> isSubpage (used_run h p)" "0 \<le> used_run h p"
  using assms toRunHandle_fields [OF fields [of "off h" p], of 1] mark_used_fields [of h]
  by (auto simp: used_run_def in_chunk_def)

lemma rest_run_fields:
  assumes "in_chunk N h" "1 \<le> p" "p < pg h"
  shows "off (rest_run h p) = off h + p" "pg (rest_run h p) = pg h - p"
    "\<not> isUsed (rest_run h p)" "\<not> isSubpage (rest_run h p)" "in_chunk N (rest_run h p)"
  using assms toRunHandle_fields [OF fields [of "off h + p" "pg h - p"], of 0]
  by (auto simp: rest_run_def in_chunk_def)

lemma after_split_run_set:
  assumes F: "run_set N F" "h \<in> F" and p: "1 \<le> p" "p \<le> pg h"
  shows "run_set N (after_split h p F)" "p < pg h \<Longrightarrow> rest_run h p \<notin> F - {h}"
    "free_pages (after_split h p F) = free_pages F - {off h ..< off h + p}"
proof -
  have h: "in_chunk N h" using F by (auto simp: run_set_def)
  have sub: "run_set N (F - {h})" by (rule run_set_mono [OF F(1)]) blast
  have ap: "apart h g" if "g \<in> F - {h}" for g using run_set_apart [OF F, of g] that by auto
  show "run_set N (after_split h p F)"
    using sub ap rest_run_fields [OF h p(1)] p
    by (fastforce simp: after_split_def run_set_insert apart_def)
  show "rest_run h p \<notin> F - {h}" if "p < pg h"
    using ap rest_run_fields(1,2) [OF h p(1) that] p by (fastforce simp: apart_def)
  have "free_pages (F - {h}) = free_pages F - span h" by (rule free_pages_minus [OF F])
  moreover have "span h \<subseteq> free_pages F" by (rule span_sub [OF F(2)])
  ultimately show "free_pages (after_split h p F) = free_pages F - {off h ..< off h + p}"
    using p rest_run_fields(1,2) [OF h p(1)] by (auto simp: after_split_def span_def)
qed

lemma splitLargeRun_rep:
  assumes F: "run_set N F" "h \<in> F" and rep: "runs_rep sc c (F - {h})" and p: "1 \<le> p" "p \<le> pg h"
  shows "\<exists>m qs. splitLargeRun sc h p c
      = Inr (used_run h p, c\<lparr>c_runsAvailMap := m, c_runsAvail := qs\<rparr>) \<and>
      runs_rep sc (c\<lparr>c_runsAvailMap := m, c_runsAvail := qs\<rparr>) (after_split h p F)"
proof -
  have h: "in_chunk N h" using F by (auto simp: run_set_def)
  show ?thesis
  proof (cases "p < pg h")
    case True
    have "run_set N (insert (rest_run h p) (F - {h}))"
      using after_split_run_set(1) [OF F p] True by (simp add: after_split_def)
    from insertAvailRun_rep [OF this after_split_run_set(2) [OF F p True] rep] show ?thesis
      using True p rest_run_fields(1,2) [OF h p(1) True]
      by (auto simp: splitLargeRun_def Let_def after_split_def used_run_def rest_run_def [symmetric])
  next
    case False
    then have "p = pg h" using p by simp
    moreover have "c\<lparr>c_runsAvailMap := c_runsAvailMap c, c_runsAvail := c_runsAvail c\<rparr> = c" by simp
    ultimately show ?thesis
      using rep p
      by (intro exI [of _ "c_runsAvailMap c"] exI [of _ "c_runsAvail c"])
        (simp add: splitLargeRun_def Let_def after_split_def used_run_def)
  qed
qed

lemma runBestFit_spec:
  assumes F: "run_set N F" and rep: "runs_rep sc c F" and c: "sized N c" "counted c F"
    and p: "1 \<le> p" "p \<le> N" and i: "page2pageIdx sc p = Inr i"
  shows "\<exists>k. runBestFit sc i c = Inr k \<and>
     (k = - 1 \<and> (\<forall>h \<in> F. \<exists>j. page2pageIdxFloor sc (pg h) = Inr j \<and> j < i) \<or>
      0 \<le> k \<and> k < m_nPSizes sc \<and> c_runsAvail c ! nat k \<noteq> [] \<and>
      (\<forall>h \<in> F. page2pageIdxFloor sc (pg h) = Inr k \<longrightarrow> p \<le> pg h))"
proof -
  have i0: "0 \<le> i" "i < m_nPSizes sc" using up [OF p] i by auto
  have len: "int (length (c_runsAvail c)) = m_nPSizes sc" using runs_repD(1) [OF rep] classes by simp
  have filed: "\<exists>j. page2pageIdxFloor sc (pg h) = Inr j \<and> 0 \<le> j \<and> j < m_nPSizes sc \<and>
      c_runsAvail c ! nat j \<noteq> []" if h: "h \<in> F" for h
  proof -
    obtain j where j: "page2pageIdxFloor sc (pg h) = Inr j" "0 \<le> j" "j < m_nPSizes sc"
      using down [of "pg h"] run_setD [OF F h] by auto
    then have "at_vec (c_runsAvail c) j = Inr (c_runsAvail c ! nat j)" using len by simp
    from runs_repD(5) [OF rep this] have "set (c_runsAvail c ! nat j) \<noteq> {}" using h j by auto
    then show ?thesis using j by auto
  qed
  have ok: "p \<le> pg h" if "h \<in> F" "page2pageIdxFloor sc (pg h) = Inr k" "i \<le> k" for h k
    using fits [OF p _ _ i that(2,3)] run_setD [OF F that(1)] by simp
  show ?thesis
  proof (cases "c_freeBytes c = c_chunkSize c")
    case True
    then have "int (card (free_pages F)) = N" using c by (auto simp: counted_def sized_def)
    then have "free_pages F = {0..<N}"
      using card_subset_eq [OF _ free_pages_sub [OF F]] by simp
    then obtain h where "F = {h}" "pg h = N" using run_set_full [OF F _ pages(1)] by blast
    then show ?thesis
      using True filed [of h] whole p by (auto simp: runBestFit_def)
  next
    case False
    obtain k where k: "first_nonempty (c_runsAvail c) (m_nPSizes sc) i = Inr k"
      "k = - 1 \<and> (\<forall>j. i \<le> j \<and> j < m_nPSizes sc \<longrightarrow> c_runsAvail c ! nat j = []) \<or>
      i \<le> k \<and> k < m_nPSizes sc \<and> c_runsAvail c ! nat k \<noteq> [] \<and>
      (\<forall>j. i \<le> j \<and> j < k \<longrightarrow> c_runsAvail c ! nat j = [])"
      using first_nonempty_spec [OF len i0(1)] by blast
    from k(2) show ?thesis
    proof (elim disjE conjE)
      assume "k = - 1" and none: "\<forall>j. i \<le> j \<and> j < m_nPSizes sc \<longrightarrow> c_runsAvail c ! nat j = []"
      moreover have "\<exists>j. page2pageIdxFloor sc (pg h) = Inr j \<and> j < i" if "h \<in> F" for h
        using filed [OF that] none by (metis not_le)
      ultimately show ?thesis using False k(1) by (auto simp: runBestFit_def)
    next
      assume "i \<le> k" "k < m_nPSizes sc" "c_runsAvail c ! nat k \<noteq> []"
      then show ?thesis using False k(1) ok i0 by (auto simp: runBestFit_def)
    qed
  qed
qed

lemma page_bytes:
  assumes "sized N c" "0 \<le> p" "p \<le> N"
  shows "0 \<le> p * 2 ^ nat (c_pageShifts c)" "p * 2 ^ nat (c_pageShifts c) \<le> INT_MAX"
    "shr (p * c_pageSize c) (c_pageShifts c) = p"
proof -
  have "p * 2 ^ nat (c_pageShifts c) \<le> N * 2 ^ nat (c_pageShifts c)"
    using assms by (intro mult_right_mono) auto
  then show "p * 2 ^ nat (c_pageShifts c) \<le> INT_MAX" using assms(1) unfolding sized_def by linarith
  show "0 \<le> p * 2 ^ nat (c_pageShifts c)" using assms by simp
  show "shr (p * c_pageSize c) (c_pageShifts c) = p" using assms by (simp add: sized_def shr_eq)
qed

lemma handle_bytes:
  assumes "sized N c" "0 \<le> pg h" "pg h \<le> N"
  shows "calculateRunSize (c_pageShifts c) h = pg h * 2 ^ nat (c_pageShifts c)"
    "shl32 (pg h) (c_pageShifts c) = pg h * 2 ^ nat (c_pageShifts c)"
  using page_bytes [OF assms] assms(2) by (simp_all add: calculateRunSize_def shl32_eq)

lemma counted_range:
  assumes "run_set N F" "sized N c" "counted c F"
  shows "0 \<le> c_freeBytes c" "c_freeBytes c \<le> c_chunkSize c" "c_freeBytes c \<le> INT_MAX"
proof -
  have "card (free_pages F) \<le> card {0..<N}"
    by (rule card_mono) (use free_pages_sub [OF assms(1)] in auto)
  then have "int (card (free_pages F)) \<le> N" using pages by simp
  then have "int (card (free_pages F)) * 2 ^ nat (c_pageShifts c) \<le> N * 2 ^ nat (c_pageShifts c)"
    by (intro mult_right_mono) auto
  then show "c_freeBytes c \<le> c_chunkSize c" "c_freeBytes c \<le> INT_MAX"
    using assms unfolding counted_def sized_def by linarith+
  show "0 \<le> c_freeBytes c" using assms by (simp add: counted_def)
qed

lemma allocateRun_rep:
  assumes F: "run_set N F" and rep: "runs_rep sc c F" and c: "sized N c" "counted c F"
    and p: "1 \<le> p" "p \<le> N"
  shows "(\<exists>h m qs. h \<in> F \<and> p \<le> pg h \<and> allocateRun sc (p * c_pageSize c) c =
        Inr (used_run h p, take_bytes p (c\<lparr>c_runsAvailMap := m, c_runsAvail := qs\<rparr>)) \<and>
        runs_rep sc (take_bytes p (c\<lparr>c_runsAvailMap := m, c_runsAvail := qs\<rparr>)) (after_split h p F)) \<or>
     allocateRun sc (p * c_pageSize c) c = Inr (- 1, c) \<and>
       (\<forall>h \<in> F. \<exists>i j. page2pageIdx sc p = Inr i \<and> page2pageIdxFloor sc (pg h) = Inr j \<and> j < i)"
proof -
  obtain i where i: "page2pageIdx sc p = Inr i" using up [OF p] by blast
  have pp: "shr (p * c_pageSize c) (c_pageShifts c) = p" using page_bytes(3) [OF c(1)] p by simp
  obtain k where k: "runBestFit sc i c = Inr k"
    "k = - 1 \<and> (\<forall>h \<in> F. \<exists>j. page2pageIdxFloor sc (pg h) = Inr j \<and> j < i) \<or>
      0 \<le> k \<and> k < m_nPSizes sc \<and> c_runsAvail c ! nat k \<noteq> [] \<and>
      (\<forall>h \<in> F. page2pageIdxFloor sc (pg h) = Inr k \<longrightarrow> p \<le> pg h)"
    using runBestFit_spec [OF F rep c p i] by blast
  from k(2) show ?thesis
  proof (elim disjE conjE)
    assume "k = - 1" "\<forall>h \<in> F. \<exists>j. page2pageIdxFloor sc (pg h) = Inr j \<and> j < i"
    then show ?thesis using i k(1) pp by (auto simp: allocateRun_def)
  next
    assume K: "0 \<le> k" "k < m_nPSizes sc" "c_runsAvail c ! nat k \<noteq> []"
      and big: "\<forall>h \<in> F. page2pageIdxFloor sc (pg h) = Inr k \<longrightarrow> p \<le> pg h"
    define q where "q = c_runsAvail c ! nat k"
    have kn: "nat k < length (c_runsAvail c)" using K runs_repD(1) [OF rep] by simp
    have q: "at_vec (c_runsAvail c) k = Inr q" using K kn by (simp add: q_def)
    note Q = runs_repD(3-5) [OF rep q]
    have ne: "q \<noteq> []" using K(3) by (simp add: q_def)
    obtain h where h: "bq_top q = Inr h" "h \<in> set q"
      using bestfit.front_least [OF Q(1)] ne by auto
    obtain q' where q': "bq_pop q = Inr q'" "bq_ok q'" "mset q' = mset q - {#h#}"
      using bestfit.del_front [OF Q(1) h(1)] by blast
    have hF: "h \<in> F" "page2pageIdxFloor sc (pg h) = Inr k" using h(2) Q(3) by auto
    have pr: "p \<le> pg h" using big hF by auto
    have "mset q' = mset (remove1 h q)" using q'(3) by simp
    then have d': "distinct q'" "set q' - {h} = set q - {h}"
      using bq_distinct_mset [of q' "remove1 h q"] Q(2) mset_eq_setD [of q' "remove1 h q"] by auto
    define c0 where "c0 = c\<lparr>c_runsAvail := (c_runsAvail c)[nat k := q']\<rparr>"
    obtain m1 qs1 where c1: "removeAvailRun_at k h c0 = Inr (c\<lparr>c_runsAvailMap := m1, c_runsAvail := qs1\<rparr>)"
      "runs_rep sc (c\<lparr>c_runsAvailMap := m1, c_runsAvail := qs1\<rparr>) (F - {h})"
      using removeAvailRun_at_rep [OF F hF(1) rep hF(2) K(1,2) q q'(2) d'] by (auto simp: c0_def)
    obtain m2 qs2 where c2: "splitLargeRun sc h p (c\<lparr>c_runsAvailMap := m1, c_runsAvail := qs1\<rparr>) =
        Inr (used_run h p, c\<lparr>c_runsAvailMap := m2, c_runsAvail := qs2\<rparr>)"
      "runs_rep sc (c\<lparr>c_runsAvailMap := m2, c_runsAvail := qs2\<rparr>) (after_split h p F)"
      using splitLargeRun_rep [OF F hF(1) c1(2) p(1) pr] by auto
    have H: "in_chunk N h" "\<not> isUsed h" "\<not> isSubpage h" using F hF by (auto simp: run_set_def)
    have sz: "calculateRunSize (c_pageShifts c) (used_run h p) = p * 2 ^ nat (c_pageShifts c)"
      using handle_bytes(1) [OF c(1), of "used_run h p"] used_run_fields(2) [OF H(1) p(1) pr H(3)] p by simp
    have "i32 (c_freeBytes c - p * 2 ^ nat (c_pageShifts c)) = c_freeBytes c - p * 2 ^ nat (c_pageShifts c)"
      using counted_range [OF F c] page_bytes(1,2) [OF c(1), of p] p by (intro i32_id; linarith)
    moreover have "h \<noteq> - 1" using H by (auto simp: in_chunk_def)
    ultimately have "allocateRun sc (p * c_pageSize c) c =
        Inr (used_run h p, take_bytes p (c\<lparr>c_runsAvailMap := m2, c_runsAvail := qs2\<rparr>))"
      using i k(1) K q h(1) ne q'(1) c1(1) c2(1) kn sz H(2)
      by (simp add: allocateRun_def pp bq_empty_def set_vec_def c0_def take_bytes_def)
    moreover have "runs_rep sc (take_bytes p (c\<lparr>c_runsAvailMap := m2, c_runsAvail := qs2\<rparr>)) (after_split h p F)"
      using c2(2) by (simp add: runs_rep_def take_bytes_def)
    ultimately show ?thesis using hF(1) pr by blast
  qed
qed

subsection \<open>Coalescing\<close>

lemma availRun:
  assumes rep: "runs_rep sc c F" and F: "run_set N F"
  shows "getAvailRunByOffset k c = - 1 \<and> (\<forall>g \<in> F. k \<noteq> off g \<and> k \<noteq> tailPage (off g) (pg g)) \<or>
     (\<exists>g \<in> F. getAvailRunByOffset k c = g \<and> g \<noteq> - 1 \<and> (k = off g \<or> k = tailPage (off g) (pg g)))"
proof (cases "c_runsAvailMap c k")
  case None
  then have "\<forall>g \<in> F. k \<noteq> off g \<and> k \<noteq> tailPage (off g) (pg g)"
    using runs_repD(2) [OF rep, of k] by auto
  then show ?thesis using None by (simp add: getAvailRunByOffset_def)
next
  case (Some g)
  then have "g \<in> F" "k = off g \<or> k = tailPage (off g) (pg g)" using runs_repD(2) [OF rep] by auto
  moreover have "g \<noteq> - 1" using run_setD(1) [OF F \<open>g \<in> F\<close>] by auto
  ultimately show ?thesis using Some by (auto simp: getAvailRunByOffset_def)
qed

text \<open>One loop: either nothing touches and the handle is returned as it is, or the one
  neighbour is merged and the loop stops in its second round.\<close>

lemma collapsePrev_rep:
  assumes h: "in_chunk N h" and F: "run_set N F" and cl: "clear_of h F" and rep: "runs_rep sc c F"
  shows "\<exists>h' G m qs. collapsePrev (Suc (Suc n)) sc h c = Inr (h', c\<lparr>c_runsAvailMap := m, c_runsAvail := qs\<rparr>) \<and>
     runs_rep sc (c\<lparr>c_runsAvailMap := m, c_runsAvail := qs\<rparr>) G \<and> G \<subseteq> F \<and> in_chunk N h' \<and> clear_of h' G \<and>
     off h' + pg h' = off h + pg h \<and> (\<forall>g \<in> G. off g + pg g \<noteq> off h') \<and>
     span h' \<union> free_pages G = span h \<union> free_pages F"
proof -
  have ends: "off h = 0 + off h" "1 \<le> pg h" using h by (auto simp: in_chunk_def)
  show ?thesis
  proof (cases "\<exists>g \<in> F. off g + pg g = off h")
    case False
    have "getAvailRunByOffset (off h - 1) c = - 1 \<or>
        (\<exists>g \<in> F. getAvailRunByOffset (off h - 1) c = g \<and> pg g + off g \<noteq> off h)"
      using availRun [OF rep F, of "off h - 1"] False by (metis add.commute)
    then have "collapsePrev (Suc (Suc n)) sc h c = Inr (h, c)" by (auto simp: Let_def)
    moreover have "c\<lparr>c_runsAvailMap := c_runsAvailMap c, c_runsAvail := c_runsAvail c\<rparr> = c" by simp
    ultimately show ?thesis using h cl rep False
      by (intro exI [of _ h] exI [of _ F] exI [of _ "c_runsAvailMap c"] exI [of _ "c_runsAvail c"]) auto
  next
    case True
    then obtain g where g: "g \<in> F" "off g + pg g = off h" by blast
    note G = run_setD [OF F g(1)]
    have hit: "getAvailRunByOffset (off h - 1) c = g"
    proof -
      have "c_runsAvailMap c (off h - 1) = Some g"
        using runs_repD(2) [OF rep, of "off h - 1" g] g by (auto simp: tailPage_def)
      then show ?thesis by (simp add: getAvailRunByOffset_def)
    qed
    have "g \<noteq> - 1" "g \<noteq> h" using G g by auto
    obtain m qs where c1: "removeAvailRun sc g c = Inr (c\<lparr>c_runsAvailMap := m, c_runsAvail := qs\<rparr>)"
      "runs_rep sc (c\<lparr>c_runsAvailMap := m, c_runsAvail := qs\<rparr>) (F - {g})"
      using removeAvailRun_rep [OF F g(1) rep] by blast
    define h' where "h' = toRunHandle (off g) (pg g + pg h) 0"
    have fl: "run_fields (off g) (pg g + pg h)"
      using G g h by (intro fields) (auto simp: in_chunk_def)
    note H = toRunHandle_fields [OF fl, of 0, folded h'_def]
    have ap: "apart g f" if "f \<in> F - {g}" for f using run_set_apart [OF F g(1), of f] that by auto
    have F': "run_set N (F - {g})" by (rule run_set_mono [OF F]) blast
    have "off f + pg f \<noteq> off g" if "f \<in> F - {g}" for f
      using ap [OF that] G(3) run_setD(3) [OF F, of f] that unfolding apart_def by auto
    then have far: "\<forall>f \<in> F - {g}. off f + pg f \<noteq> off h'" using H by simp
    have "getAvailRunByOffset (off h' - 1) (c\<lparr>c_runsAvailMap := m, c_runsAvail := qs\<rparr>) = - 1 \<or>
        (\<exists>f \<in> F - {g}. getAvailRunByOffset (off h' - 1) (c\<lparr>c_runsAvailMap := m, c_runsAvail := qs\<rparr>) = f \<and>
          pg f + off f \<noteq> off h')"
      using availRun [OF c1(2) F', of "off h' - 1"] far by (metis add.commute)
    then have "collapsePrev (Suc n) sc h' (c\<lparr>c_runsAvailMap := m, c_runsAvail := qs\<rparr>) =
        Inr (h', c\<lparr>c_runsAvailMap := m, c_runsAvail := qs\<rparr>)" by (auto simp: Let_def)
    then have "collapsePrev (Suc (Suc n)) sc h c = Inr (h', c\<lparr>c_runsAvailMap := m, c_runsAvail := qs\<rparr>)"
      unfolding collapsePrev.simps(2) [of "Suc n"] Let_def hit
      using \<open>g \<noteq> - 1\<close> \<open>g \<noteq> h\<close> g(2) c1(1) by (simp add: add.commute h'_def del: collapsePrev.simps)
    moreover have "in_chunk N h'" using H G g h by (auto simp: in_chunk_def)
    moreover have "clear_of h' (F - {g})"
      unfolding clear_of_def
    proof
      fix f assume f: "f \<in> F - {g}"
      have "off h + pg h \<le> off f \<or> off f + pg f \<le> off h" using cl f by (simp add: clear_of_def)
      then show "off h' + pg h' \<le> off f \<or> off f + pg f \<le> off h'"
        using ap [OF f] H g(2) ends(2) G(3) run_setD(3) [OF F, of f] f unfolding apart_def by auto
    qed
    moreover have "off h' + pg h' = off h + pg h" using H g(2) by simp
    moreover have "span h' \<union> free_pages (F - {g}) = span h \<union> free_pages F"
    proof -
      have "free_pages F = span g \<union> free_pages (F - {g})"
        using free_pages_insert [of g "F - {g}"] g(1) by (simp add: insert_absorb)
      moreover have "span h' = span g \<union> span h" using H g(2) G(3) ends(2) by (auto simp: span_def)
      ultimately show ?thesis by auto
    qed
    ultimately show ?thesis using c1(2) far by blast
  qed
qed

lemma collapseNext_rep:
  assumes h: "in_chunk N h" and F: "run_set N F" and cl: "clear_of h F" and rep: "runs_rep sc c F"
    and prev: "\<forall>g \<in> F. off g + pg g \<noteq> off h"
  shows "\<exists>h' G m qs. collapseNext (Suc (Suc n)) sc h c = Inr (h', c\<lparr>c_runsAvailMap := m, c_runsAvail := qs\<rparr>) \<and>
     runs_rep sc (c\<lparr>c_runsAvailMap := m, c_runsAvail := qs\<rparr>) G \<and> G \<subseteq> F \<and> in_chunk N h' \<and>
     (\<forall>g \<in> G. apart h' g) \<and> span h' \<union> free_pages G = span h \<union> free_pages F"
proof -
  have p1: "1 \<le> pg h" using h by (auto simp: in_chunk_def)
  show ?thesis
  proof (cases "\<exists>g \<in> F. off g = off h + pg h")
    case False
    have "getAvailRunByOffset (off h + pg h) c = - 1 \<or>
        (\<exists>g \<in> F. getAvailRunByOffset (off h + pg h) c = g \<and> pg h + off h \<noteq> off g)"
      using availRun [OF rep F, of "off h + pg h"] False by (metis add.commute)
    then have "collapseNext (Suc (Suc n)) sc h c = Inr (h, c)" by (auto simp: Let_def)
    moreover have "c\<lparr>c_runsAvailMap := c_runsAvailMap c, c_runsAvail := c_runsAvail c\<rparr> = c" by simp
    moreover have "\<forall>g \<in> F. apart h g"
      using cl prev False unfolding clear_of_def apart_def by (metis order_le_less)
    ultimately show ?thesis using h rep
      by (intro exI [of _ h] exI [of _ F] exI [of _ "c_runsAvailMap c"] exI [of _ "c_runsAvail c"]) auto
  next
    case True
    then obtain g where g: "g \<in> F" "off g = off h + pg h" by blast
    note G = run_setD [OF F g(1)]
    have hit: "getAvailRunByOffset (off h + pg h) c = g"
    proof -
      have "c_runsAvailMap c (off h + pg h) = Some g"
        using runs_repD(2) [OF rep, of "off h + pg h" g] g by auto
      then show ?thesis by (simp add: getAvailRunByOffset_def)
    qed
    have "g \<noteq> - 1" "g \<noteq> h" using G g p1 by auto
    obtain m qs where c1: "removeAvailRun sc g c = Inr (c\<lparr>c_runsAvailMap := m, c_runsAvail := qs\<rparr>)"
      "runs_rep sc (c\<lparr>c_runsAvailMap := m, c_runsAvail := qs\<rparr>) (F - {g})"
      using removeAvailRun_rep [OF F g(1) rep] by blast
    define h' where "h' = toRunHandle (off h) (pg g + pg h) 0"
    have fl: "run_fields (off h) (pg g + pg h)"
      using G g h by (intro fields) (auto simp: in_chunk_def)
    note H = toRunHandle_fields [OF fl, of 0, folded h'_def]
    have ap: "apart g f" if "f \<in> F - {g}" for f using run_set_apart [OF F g(1), of f] that by auto
    have F': "run_set N (F - {g})" by (rule run_set_mono [OF F]) blast
    have "off f \<noteq> off h' + pg h'" if "f \<in> F - {g}" for f
      using ap [OF that] G(3) run_setD(3) [OF F, of f] H g(2) that unfolding apart_def by auto
    then have far: "\<forall>f \<in> F - {g}. off f \<noteq> off h' + pg h'" by blast
    have "getAvailRunByOffset (off h' + pg h') (c\<lparr>c_runsAvailMap := m, c_runsAvail := qs\<rparr>) = - 1 \<or>
        (\<exists>f \<in> F - {g}. getAvailRunByOffset (off h' + pg h') (c\<lparr>c_runsAvailMap := m, c_runsAvail := qs\<rparr>) = f \<and>
          pg h' + off h' \<noteq> off f)"
      using availRun [OF c1(2) F', of "off h' + pg h'"] far by (metis add.commute)
    then have "collapseNext (Suc n) sc h' (c\<lparr>c_runsAvailMap := m, c_runsAvail := qs\<rparr>) =
        Inr (h', c\<lparr>c_runsAvailMap := m, c_runsAvail := qs\<rparr>)" by (auto simp: Let_def)
    then have "collapseNext (Suc (Suc n)) sc h c = Inr (h', c\<lparr>c_runsAvailMap := m, c_runsAvail := qs\<rparr>)"
      unfolding collapseNext.simps(2) [of "Suc n"] Let_def hit
      using \<open>g \<noteq> - 1\<close> \<open>g \<noteq> h\<close> g(2) c1(1) by (simp add: add.commute h'_def del: collapseNext.simps)
    moreover have "in_chunk N h'" using H G g h by (auto simp: in_chunk_def)
    moreover have "\<forall>f \<in> F - {g}. apart h' f"
    proof
      fix f assume f: "f \<in> F - {g}"
      then have "off f + pg f \<noteq> off h" "off h + pg h \<le> off f \<or> off f + pg f \<le> off h"
        using prev cl by (auto simp: clear_of_def)
      then show "apart h' f"
        using ap [OF f] H g(2) p1 G(3) run_setD(3) [OF F, of f] f unfolding apart_def by auto
    qed
    moreover have "span h' \<union> free_pages (F - {g}) = span h \<union> free_pages F"
    proof -
      have "free_pages F = span g \<union> free_pages (F - {g})"
        using free_pages_insert [of g "F - {g}"] g(1) by (simp add: insert_absorb)
      moreover have "span h' = span g \<union> span h" using H g(2) G(3) p1 by (auto simp: span_def)
      ultimately show ?thesis by auto
    qed
    ultimately show ?thesis using c1(2) by blast
  qed
qed

lemma span_clear: "clear_of h F \<Longrightarrow> span h \<inter> free_pages F = {}"
  by (fastforce simp: clear_of_def span_def free_pages_def)

lemma freeRun_rep:
  assumes h: "in_chunk N h" and F: "run_set N F" and cl: "clear_of h F" and rep: "runs_rep sc c F"
    and c: "sized N c" "counted c F"
  shows "\<exists>F' m qs bs. freeRun sc h buffer c = Inr (c\<lparr>c_runsAvailMap := m, c_runsAvail := qs,
      c_freeBytes := c_freeBytes c + pg h * 2 ^ nat (c_pageShifts c), c_cachedBuffers := bs\<rparr>) \<and>
    runs_rep sc (c\<lparr>c_runsAvailMap := m, c_runsAvail := qs,
      c_freeBytes := c_freeBytes c + pg h * 2 ^ nat (c_pageShifts c), c_cachedBuffers := bs\<rparr>) F' \<and>
    run_set N F' \<and> free_pages F' = span h \<union> free_pages F"
proof -
  define fu where "fu = length (c_subpages c)"
  obtain h1 G1 m1 qs1 where 1: "collapsePrev (Suc (Suc fu)) sc h c =
      Inr (h1, c\<lparr>c_runsAvailMap := m1, c_runsAvail := qs1\<rparr>)"
    and r1: "runs_rep sc (c\<lparr>c_runsAvailMap := m1, c_runsAvail := qs1\<rparr>) G1" and G1: "G1 \<subseteq> F"
    and h1: "in_chunk N h1" "clear_of h1 G1" "\<forall>g \<in> G1. off g + pg g \<noteq> off h1"
    and s1: "span h1 \<union> free_pages G1 = span h \<union> free_pages F"
    using collapsePrev_rep [OF h F cl rep, of fu] by auto
  have F1: "run_set N G1" by (rule run_set_mono [OF F G1])
  obtain h2 G2 m2 qs2 where 2: "collapseNext (Suc (Suc fu)) sc h1 (c\<lparr>c_runsAvailMap := m1, c_runsAvail := qs1\<rparr>) =
      Inr (h2, c\<lparr>c_runsAvailMap := m2, c_runsAvail := qs2\<rparr>)"
    and r2: "runs_rep sc (c\<lparr>c_runsAvailMap := m2, c_runsAvail := qs2\<rparr>) G2" and G2: "G2 \<subseteq> G1"
    and h2: "in_chunk N h2" "\<forall>g \<in> G2. apart h2 g"
    and s2: "span h2 \<union> free_pages G2 = span h1 \<union> free_pages G1"
    using collapseNext_rep [OF h1(1) F1 h1(2) r1 h1(3), of fu] by auto
  have F2: "run_set N G2" by (rule run_set_mono [OF F1 G2])
  define r where "r = clear_flags h2"
  have r: "off r = off h2" "pg r = pg h2" "\<not> isUsed r" "\<not> isSubpage r" "in_chunk N r" "span r = span h2"
    using clear_flags_fields [of h2] h2(1) by (auto simp: r_def in_chunk_def span_def)
  have ap: "apart r g" if "g \<in> G2" for g using h2(2) that r(1,2) by (simp add: apart_def)
  then have ins: "run_set N (insert r G2)" using F2 r by (auto simp: run_set_insert)
  have "r \<notin> G2" using ap [of r] r(5) by (auto simp: apart_def in_chunk_def)
  then obtain m3 qs3 where 3: "insertAvailRun sc (off r) (pg r) r (c\<lparr>c_runsAvailMap := m2, c_runsAvail := qs2\<rparr>)
      = Inr (c\<lparr>c_runsAvailMap := m3, c_runsAvail := qs3\<rparr>)"
    and r3: "runs_rep sc (c\<lparr>c_runsAvailMap := m3, c_runsAvail := qs3\<rparr>) (insert r G2)"
    using insertAvailRun_rep [OF ins _ r2] by auto
  have sp: "free_pages (insert r G2) = span h \<union> free_pages F" using s1 s2 r(6) by simp
  have hp: "0 \<le> pg h" "pg h \<le> N" using h by (auto simp: in_chunk_def)
  have le: "c_freeBytes c + pg h * 2 ^ nat (c_pageShifts c) \<le> INT_MAX"
  proof -
    have fin: "finite (free_pages F)" using free_pages_sub [OF F] by (rule finite_subset) simp
    have "int (card (span h \<union> free_pages F)) = pg h + int (card (free_pages F))"
      using span_clear [OF cl] hp fin by (subst card_Un_disjoint) (auto simp: span_def)
    moreover have "card (span h \<union> free_pages F) \<le> card {0..<N}"
      using free_pages_sub [OF ins] sp by (intro card_mono) auto
    ultimately have "pg h + int (card (free_pages F)) \<le> N" using pages by simp
    then have "(pg h + int (card (free_pages F))) * 2 ^ nat (c_pageShifts c) \<le> N * 2 ^ nat (c_pageShifts c)"
      by (intro mult_right_mono) auto
    then show ?thesis using c unfolding counted_def sized_def by (simp only: distrib_right) linarith
  qed
  have b: "i32 (c_freeBytes c + shl32 (pg h) (c_pageShifts c)) =
      c_freeBytes c + pg h * 2 ^ nat (c_pageShifts c)"
    using handle_bytes(2) [OF c(1) hp] le page_bytes(1) [OF c(1) hp] counted_range(1) [OF F c]
    by (simp only:) (intro i32_id; linarith)
  define bs where "bs = (case buffer of None \<Rightarrow> c_cachedBuffers c
    | Some b \<Rightarrow> if int (length (c_cachedBuffers c)) < 1023 then c_cachedBuffers c @ [b] else c_cachedBuffers c)"
  have "freeRun sc h buffer c = Inr (c\<lparr>c_runsAvailMap := m3, c_runsAvail := qs3,
      c_freeBytes := c_freeBytes c + pg h * 2 ^ nat (c_pageShifts c), c_cachedBuffers := bs\<rparr>)"
    using 1 2 3 b
    by (simp add: freeRun_def collapseRuns_def collapse_fuel_def Let_def fu_def [symmetric] r_def [symmetric]
        bs_def del: collapsePrev.simps collapseNext.simps split: option.splits)
  moreover have "runs_rep sc (c\<lparr>c_runsAvailMap := m3, c_runsAvail := qs3,
      c_freeBytes := c_freeBytes c + pg h * 2 ^ nat (c_pageShifts c), c_cachedBuffers := bs\<rparr>) (insert r G2)"
    using r3 by (simp add: runs_rep_def)
  ultimately show ?thesis using ins sp by blast
qed

end

subsection \<open>The default classes satisfy the contract\<close>

interpretation default_pages: page_index default_sizes 2048
proof
  show "(1::int) \<le> 2048" "(2048::int) < 16384" "0 \<le> m_nPSizes default_sizes" by simp_all
  fix p r i j :: int
  show "\<exists>i. page2pageIdx default_sizes p = Inr i \<and> 0 \<le> i \<and> i < m_nPSizes default_sizes"
    if "1 \<le> p" "p \<le> 2048"
    using page2pageIdx_default [OF that] page_class_range [OF that] by auto
  show "\<exists>j. page2pageIdxFloor default_sizes p = Inr j \<and> 0 \<le> j \<and> j < m_nPSizes default_sizes"
    if "1 \<le> p" "p \<le> 2048"
    using page_classes_range [OF that] by auto
  show "p \<le> r" if "1 \<le> p" "p \<le> 2048" "1 \<le> r" "r \<le> 2048" "page2pageIdx default_sizes p = Inr i"
    "page2pageIdxFloor default_sizes r = Inr j" "i \<le> j"
    using page_classes_fit [OF that(1-4)] that(5-7) by auto
  have "size_of 13 39 = 2048 * 2 ^ 13" by (simp add: size_of_def)
  then show "page2pageIdxFloor default_sizes 2048 = Inr (m_nPSizes default_sizes - 1)"
    using page2pageIdxFloor_default [of 2048] class_of_size_of [of 39 13] by simp
qed

end
