(* ===== verification/ChunkSpec.thy ===== *)
theory ChunkSpec
  imports ChunkRuns
begin

text \<open>
  What a pooled chunk promises about its runs, over every sequence of allocations and
  releases: \<open>chunk_reach c L\<close> says that the chunk \<open>c\<close> is reached from a new one with the
  handles \<open>L\<close> live. A run may be given back under another handle for the same pages, as an
  emptied subpage does.
\<close>

abbreviation new_chunk :: "nat option \<Rightarrow> chunk res" where
  "new_chunk memory \<equiv> PoolChunk default_sizes memory 8192 13 16777216 (m_nPSizes default_sizes) 0"

inductive chunk_reach :: "chunk \<Rightarrow> int set \<Rightarrow> bool" where
  start: "new_chunk memory = Inr c \<Longrightarrow> chunk_reach c {}"
| alloc: "chunk_reach c L \<Longrightarrow> 1 \<le> p \<Longrightarrow> p \<le> 2048 \<Longrightarrow>
    allocateRun default_sizes (p * 8192) c = Inr (h, c') \<Longrightarrow> h \<noteq> - 1 \<Longrightarrow> chunk_reach c' (insert h L)"
| full: "chunk_reach c L \<Longrightarrow> 1 \<le> p \<Longrightarrow> p \<le> 2048 \<Longrightarrow>
    allocateRun default_sizes (p * 8192) c = Inr (- 1, c') \<Longrightarrow> chunk_reach c' L"
| release: "chunk_reach c L \<Longrightarrow> h \<in> L \<Longrightarrow> 0 \<le> g \<Longrightarrow> off g = off h \<Longrightarrow> pg g = pg h \<Longrightarrow>
    freeRun default_sizes g buffer c = Inr c' \<Longrightarrow> chunk_reach c' (L - {h})"

definition chunk_inv :: "chunk \<Rightarrow> int set \<Rightarrow> int set \<Rightarrow> bool" where
  "chunk_inv c L F \<longleftrightarrow> run_set 2048 F \<and> runs_rep default_sizes c F \<and> sized 2048 c \<and>
     c_pageShifts c = 13 \<and> counted c F \<and>
     (\<forall>h \<in> L. in_chunk 2048 h \<and> isUsed h \<and> \<not> isSubpage h) \<and>
     (\<forall>h \<in> L. \<forall>g \<in> L. h \<noteq> g \<longrightarrow> span h \<inter> span g = {}) \<and>
     free_pages L \<inter> free_pages F = {} \<and> free_pages L \<union> free_pages F = {0..<2048}"

lemma span_card: "in_chunk N h \<Longrightarrow> int (card (span h)) = pg h"
  by (simp add: span_def in_chunk_def)

lemma span_nonempty: "in_chunk N h \<Longrightarrow> span h \<noteq> {}"
  by (simp add: span_def in_chunk_def)

lemma disjoint_spans_apart:
  "in_chunk N h \<Longrightarrow> in_chunk N g \<Longrightarrow> span h \<inter> span g = {} \<Longrightarrow> off h + pg h \<le> off g \<or> off g + pg g \<le> off h"
proof (rule ccontr)
  assume a: "in_chunk N h" "in_chunk N g" "span h \<inter> span g = {}"
    and "\<not> (off h + pg h \<le> off g \<or> off g + pg g \<le> off h)"
  then have "max (off h) (off g) \<in> span h \<inter> span g"
    by (auto simp: span_def in_chunk_def)
  then show False using a(3) by simp
qed

lemma chunk_inv_clear:
  assumes "chunk_inv c L F" "h \<in> L"
  shows "clear_of h F"
  unfolding clear_of_def
proof
  fix g assume g: "g \<in> F"
  have "span h \<subseteq> free_pages L" "span g \<subseteq> free_pages F" using assms(2) g by (simp_all add: span_sub)
  then have "span h \<inter> span g = {}" using assms(1) by (auto simp: chunk_inv_def)
  moreover have "in_chunk 2048 h" "in_chunk 2048 g"
    using assms g by (auto simp: chunk_inv_def run_set_def)
  ultimately show "off h + pg h \<le> off g \<or> off g + pg g \<le> off h"
    by (intro disjoint_spans_apart)
qed

lemma new_chunk_inv:
  assumes "new_chunk memory = Inr c"
  shows "chunk_inv c {} {shl64 2048 34}"
proof -
  let ?h = "shl64 2048 34"
  have h: "?h = toRunHandle 0 2048 0"
    by (simp add: toRunHandle_def shl64_eq shl64_def i64_def)
  have H: "off ?h = 0" "pg ?h = 2048" "\<not> isUsed ?h" "\<not> isSubpage ?h" "0 \<le> ?h"
    using toRunHandle_fields [of 0 2048 0] by (simp_all add: h run_fields_def)
  define c0 where "c0 = \<lparr>c_runsAvailMap = Map.empty, c_runsAvail = replicate 40 bq_new,
    c_subpages = replicate 2048 None, c_cachedBuffers = [], c_pageSize = 8192, c_pageShifts = 13,
    c_chunkSize = 16777216, c_memory = memory, c_offset = 0, c_freeBytes = 16777216, c_unpool = False\<rparr>"
  have c: "insertAvailRun default_sizes 0 2048 ?h c0 = Inr c"
    using assms by (simp add: PoolChunk_def newRunsAvailQueue_def newPoolSubpageArray_def shr_eq Let_def
        c0_def assert_that_def)
  have rep0: "runs_rep default_sizes c0 {}"
    by (auto simp: runs_rep_def c0_def at_vec_def bestfit.ok_emp bq_new_def heap_from_def)
  have F: "run_set 2048 (insert ?h {})" using H by (simp add: run_set_def in_chunk_def)
  obtain m qs where c': "c = c0\<lparr>c_runsAvailMap := m, c_runsAvail := qs\<rparr>" "runs_rep default_sizes c {?h}"
    using default_pages.insertAvailRun_rep [OF F _ rep0] H c by auto
  moreover have "free_pages {?h} = {0..<2048}" using H by (simp add: free_pages_def span_def)
  ultimately show ?thesis
    using F by (simp add: chunk_inv_def c0_def sized_def counted_def free_pages_def)
qed

lemma alloc_step:
  assumes I: "chunk_inv c L F" and p: "1 \<le> p" "p \<le> 2048"
  shows "(\<exists>h c'. allocateRun default_sizes (p * 8192) c = Inr (h, c') \<and> 0 \<le> h \<and> pg h = p \<and>
       h \<notin> L \<and> (\<exists>F'. chunk_inv c' (insert h L) F')) \<or>
     allocateRun default_sizes (p * 8192) c = Inr (- 1, c) \<and>
       (\<forall>h \<in> F. \<exists>i j. page2pageIdx default_sizes p = Inr i \<and>
          page2pageIdxFloor default_sizes (pg h) = Inr j \<and> j < i)"
proof -
  have F: "run_set 2048 F" and rep: "runs_rep default_sizes c F" and c: "sized 2048 c" "counted c F"
    and ps: "c_pageShifts c = 13" using I by (auto simp: chunk_inv_def)
  have sz: "c_pageSize c = 8192" using c ps by (simp add: sized_def)
  from default_pages.allocateRun_rep [OF F rep c p] show ?thesis
  proof (elim disjE exE conjE)
    fix h m qs
    assume h: "h \<in> F" "p \<le> pg h" and a: "allocateRun default_sizes (p * c_pageSize c) c =
        Inr (used_run h p, take_bytes p (c\<lparr>c_runsAvailMap := m, c_runsAvail := qs\<rparr>))"
      and r: "runs_rep default_sizes (take_bytes p (c\<lparr>c_runsAvailMap := m, c_runsAvail := qs\<rparr>)) (after_split h p F)"
    define c' where "c' = take_bytes p (c\<lparr>c_runsAvailMap := m, c_runsAvail := qs\<rparr>)"
    define u where "u = used_run h p"
    have H: "in_chunk 2048 h" "\<not> isSubpage h" using F h by (auto simp: run_set_def)
    note U = default_pages.used_run_fields [OF H(1) p(1) h(2) H(2), folded u_def]
    have su: "span u = {off h ..< off h + p}" using U by (simp add: span_def)
    have sub: "span u \<subseteq> free_pages F" using span_sub [OF h(1)] su h(2) by (auto simp: span_def)
    have uin: "in_chunk 2048 u" using U H(1) p h(2) by (auto simp: in_chunk_def)
    note A = default_pages.after_split_run_set [OF F h(1) p(1) h(2)]
    have fin: "finite (free_pages F)" using free_pages_sub [OF F] by (rule finite_subset) simp
    have new: "span u \<inter> span g = {}" if "g \<in> L" for g
      using sub span_sub [OF that] I by (auto simp: chunk_inv_def)
    have "u \<notin> L" using new [of u] span_nonempty [OF uin] by auto
    have "int (card (free_pages F - span u)) = int (card (free_pages F)) - p"
    proof -
      have "card (span u) \<le> card (free_pages F)" using fin sub by (rule card_mono)
      then show ?thesis using card_Diff_subset [OF finite_subset [OF sub fin] sub] span_card [OF uin] U(2)
        by (simp add: of_nat_diff)
    qed
    then have cnt: "int (card (free_pages (after_split h p F))) = int (card (free_pages F)) - p"
      by (simp only: A(3) su)
    then have "counted c' (after_split h p F)"
      using c(2) cnt by (simp add: counted_def c'_def take_bytes_def left_diff_distrib)
    moreover have "sized 2048 c'" "c_pageShifts c' = 13" using c(1) ps
      by (auto simp: sized_def c'_def take_bytes_def)
    moreover have "free_pages (insert u L) \<inter> free_pages (after_split h p F) = {}"
      "free_pages (insert u L) \<union> free_pages (after_split h p F) = {0..<2048}"
      using I sub unfolding A(3) su [symmetric] by (auto simp: chunk_inv_def)
    moreover have "\<forall>f \<in> insert u L. in_chunk 2048 f \<and> isUsed f \<and> \<not> isSubpage f"
      "\<forall>f \<in> insert u L. \<forall>g \<in> insert u L. f \<noteq> g \<longrightarrow> span f \<inter> span g = {}"
      using I new U uin by (auto simp: chunk_inv_def)
    ultimately have "chunk_inv c' (insert u L) (after_split h p F)"
      using A(1) r unfolding chunk_inv_def c'_def by blast
    then show ?thesis using a U \<open>u \<notin> L\<close> sz by (auto simp: u_def c'_def)
  next
    assume "allocateRun default_sizes (p * c_pageSize c) c = Inr (- 1, c)"
      "\<forall>h \<in> F. \<exists>i j. page2pageIdx default_sizes p = Inr i \<and>
         page2pageIdxFloor default_sizes (pg h) = Inr j \<and> j < i"
    then show ?thesis using sz by simp
  qed
qed

lemma release_step:
  assumes I: "chunk_inv c L F" and h: "h \<in> L" and g: "0 \<le> g" "off g = off h" "pg g = pg h"
  shows "\<exists>c' F'. freeRun default_sizes g buffer c = Inr c' \<and> chunk_inv c' (L - {h}) F' \<and>
     c_freeBytes c' = c_freeBytes c + pg h * 8192"
proof -
  have F: "run_set 2048 F" and rep: "runs_rep default_sizes c F" and c: "sized 2048 c" "counted c F"
    and ps: "c_pageShifts c = 13" using I by (auto simp: chunk_inv_def)
  have hin: "in_chunk 2048 h" using I h by (simp add: chunk_inv_def)
  have gin: "in_chunk 2048 g" "span g = span h" using g hin by (simp_all add: in_chunk_def span_def)
  have "clear_of g F" using chunk_inv_clear [OF I h] g by (simp add: clear_of_def)
  from default_pages.freeRun_rep [OF gin(1) F this rep c, of buffer]
  obtain F' m qs bs where f: "freeRun default_sizes g buffer c = Inr (c\<lparr>c_runsAvailMap := m, c_runsAvail := qs,
      c_freeBytes := c_freeBytes c + pg g * 2 ^ nat (c_pageShifts c), c_cachedBuffers := bs\<rparr>)"
    "runs_rep default_sizes (c\<lparr>c_runsAvailMap := m, c_runsAvail := qs,
      c_freeBytes := c_freeBytes c + pg g * 2 ^ nat (c_pageShifts c), c_cachedBuffers := bs\<rparr>) F'"
    "run_set 2048 F'" "free_pages F' = span g \<union> free_pages F" by blast
  define c' where "c' = c\<lparr>c_runsAvailMap := m, c_runsAvail := qs,
      c_freeBytes := c_freeBytes c + pg g * 2 ^ nat (c_pageShifts c), c_cachedBuffers := bs\<rparr>"
  have disj: "span h \<inter> free_pages F = {}" using I span_sub [OF h] by (auto simp: chunk_inv_def)
  have fin: "finite (free_pages F)" using free_pages_sub [OF F] by (rule finite_subset) simp
  have "int (card (free_pages F')) = int (card (free_pages F)) + pg h"
    using f(4) gin(2) disj fin span_card [OF hin] by (simp add: card_Un_disjoint span_def)
  then have "counted c' F'" using c(2) g ps by (simp add: counted_def c'_def distrib_right)
  moreover have "sized 2048 c'" "c_pageShifts c' = 13" using c(1) ps by (auto simp: sized_def c'_def)
  moreover have "free_pages (L - {h}) = free_pages L - span h"
  proof -
    have "span k \<inter> span h = {}" if "k \<in> L - {h}" for k
      using I h that unfolding chunk_inv_def by blast
    then show ?thesis by (auto simp: free_pages_def)
  qed
  then have "free_pages (L - {h}) \<inter> free_pages F' = {}" "free_pages (L - {h}) \<union> free_pages F' = {0..<2048}"
    using I f(4) gin(2) span_sub [OF h] by (auto simp: chunk_inv_def)
  moreover have "\<forall>k \<in> L - {h}. in_chunk 2048 k \<and> isUsed k \<and> \<not> isSubpage k"
    "\<forall>k \<in> L - {h}. \<forall>l \<in> L - {h}. k \<noteq> l \<longrightarrow> span k \<inter> span l = {}"
    using I by (auto simp: chunk_inv_def)
  ultimately have "chunk_inv c' (L - {h}) F'" using f(2,3) unfolding chunk_inv_def c'_def by blast
  then show ?thesis using f(1) g(3) ps by (auto simp: c'_def)
qed

lemma chunk_reach_inv: "chunk_reach c L \<Longrightarrow> \<exists>F. chunk_inv c L F"
proof (induction rule: chunk_reach.induct)
  case (start memory c)
  then show ?case using new_chunk_inv by blast
next
  case (alloc c L p h c')
  then show ?case using alloc_step [OF _ alloc(2,3)] by fastforce
next
  case (full c L p c')
  then show ?case using alloc_step [OF _ full(2,3)] by fastforce
next
  case (release c L h g buffer c')
  then show ?case using release_step [OF _ release(2-5)] by (metis sum.inject(2))
qed

lemma live_finite: "chunk_inv c L F \<Longrightarrow> finite L"
proof -
  assume I: "chunk_inv c L F"
  have "inj_on off L"
  proof (rule inj_onI)
    fix h g assume hg: "h \<in> L" "g \<in> L" "off h = off g"
    then have "off h \<in> span h" "off h \<in> span g" using I by (auto simp: chunk_inv_def span_def in_chunk_def)
    then show "h = g" using I hg by (auto simp: chunk_inv_def)
  qed
  moreover have "off ` L \<subseteq> {0..2048}" using I by (auto simp: chunk_inv_def in_chunk_def)
  ultimately show ?thesis by (meson finite_atLeastAtMost_int finite_imageD finite_subset)
qed

lemma live_bytes:
  assumes I: "chunk_inv c L F"
  shows "c_freeBytes c = 16777216 - 8192 * (\<Sum>h \<in> L. pg h)"
proof -
  have "int (card (free_pages L)) = (\<Sum>h \<in> L. int (card (span h)))"
    unfolding free_pages_def
    by (subst card_UN_disjoint) (use I live_finite [OF I] in \<open>auto simp: chunk_inv_def span_def\<close>)
  also have "\<dots> = (\<Sum>h \<in> L. pg h)"
    by (intro sum.cong) (use I span_card in \<open>auto simp: chunk_inv_def\<close>)
  finally have L: "int (card (free_pages L)) = (\<Sum>h \<in> L. pg h)" .
  have all: "free_pages L \<inter> free_pages F = {}" "free_pages L \<union> free_pages F = {0..<2048}"
    using I by (auto simp: chunk_inv_def)
  have "finite (free_pages L)" "finite (free_pages F)"
    using all(2) by (metis finite_Un finite_atLeastLessThan_int)+
  then have "card (free_pages L) + card (free_pages F) = card {0..<2048::int}"
    using card_Un_disjoint [OF _ _ all(1)] all(2) by simp
  then have "int (card (free_pages F)) = 2048 - (\<Sum>h \<in> L. pg h)" using L by simp
  then show ?thesis using I by (simp add: chunk_inv_def counted_def)
qed

subsection \<open>Windows of free pages\<close>

lemma window_in_run:
  assumes F: "run_set N F" and W: "{a ..< a + n} \<subseteq> free_pages F" and n: "1 \<le> n"
  shows "\<exists>h \<in> F. n \<le> pg h"
proof -
  have "a \<in> free_pages F" using W n by auto
  then obtain h where h: "h \<in> F" "off h \<le> a" "a < off h + pg h"
    by (auto simp: free_pages_def span_def)
  have "a + n \<le> off h + pg h"
  proof (rule ccontr)
    assume "\<not> a + n \<le> off h + pg h"
    then have "off h + pg h \<in> free_pages F" using h W by auto
    then obtain g where g: "g \<in> F" "off g \<le> off h + pg h" "off h + pg h < off g + pg g"
      by (auto simp: free_pages_def span_def)
    have "h \<noteq> g" using g by auto
    from run_set_apart [OF F h(1) g(1) this] show False
      using g h run_setD(3) [OF F g(1)] unfolding apart_def by linarith
  qed
  then show ?thesis using h by (intro bexI [of _ h]) auto
qed

lemma page_floor_tight:
  assumes p: "1 \<le> p" "p \<le> 2048" and r: "1 \<le> r" "r \<le> 2048" and i: "page2pageIdx default_sizes p = Inr i"
    and z: "pageIdx2size default_sizes i = Inr z" "z \<le> r * 8192"
    and j: "page2pageIdxFloor default_sizes r = Inr j"
  shows "i \<le> j"
proof -
  note P = page_class_range [OF p] and R = page_class_range [OF r]
  have ci: "i = class_of 13 (p * 2 ^ 13)" using i page2pageIdx_default [OF p] by simp
  have zi: "z = size_of 13 i" using z(1) P(3,4) ci pageIdx2size_default [of i] by simp
  define c where "c = class_of 13 (r * 2 ^ 13)"
  have rc: "r * 2 ^ 13 \<le> size_of 13 c" unfolding c_def by (rule class_of_fits) (use R(1,2) in auto)
  have ji: "j = (if size_of 13 c > r * 2 ^ 13 then c - 1 else c)"
    using j page2pageIdxFloor_default [OF r, folded c_def] by (simp split: if_splits)
  have c0: "0 \<le> c" using R(3) by (simp add: c_def)
  show ?thesis
  proof (rule ccontr)
    assume "\<not> i \<le> j"
    then have "(if size_of 13 c > r * 2 ^ 13 then c \<le> i else c + 1 \<le> i)" using ji by (auto split: if_splits)
    moreover have "size_of 13 i \<le> r * 2 ^ 13" using z(2) zi by simp
    ultimately show False
      using rc c0 size_of_mono [of c i 13] size_of_strict_mono [of c i 13] by (auto split: if_splits)
  qed
qed

lemma new_chunk_ok: "\<exists>c. new_chunk memory = Inr c"
proof -
  define c0 where "c0 = \<lparr>c_runsAvailMap = Map.empty, c_runsAvail = replicate 40 bq_new,
    c_subpages = replicate 2048 None, c_cachedBuffers = [], c_pageSize = 8192, c_pageShifts = 13,
    c_chunkSize = 16777216, c_memory = memory, c_offset = 0, c_freeBytes = 16777216, c_unpool = False\<rparr>"
  have "page2pageIdxFloor default_sizes 2048 = Inr 39" using default_pages.whole by simp
  then have "\<exists>c. insertAvailRun default_sizes 0 2048 (shl64 2048 34) c0 = Inr c"
    by (simp add: insertAvailRun_def at_vec_def set_vec_def c0_def Let_def)
  then show ?thesis
    by (simp add: PoolChunk_def newRunsAvailQueue_def newPoolSubpageArray_def shr_eq Let_def
        c0_def assert_that_def)
qed

lemma chunk_reach_one: "\<exists>c h. chunk_reach c {h} \<and> pg h = 5 \<and> 0 \<le> h"
proof -
  obtain c where c: "new_chunk None = Inr c" using new_chunk_ok by blast
  have r: "chunk_reach c {}" by (rule chunk_reach.start [OF c])
  have five: "page2pageIdx default_sizes 5 = Inr 4"
    using page2pageIdx_default [of 5] class_of_size_of [of 4 13] by (simp add: size_of_def)
  have "pg (shl64 2048 34) = 2048"
    using toRunHandle_fields(2) [of 0 2048 0] by (simp add: toRunHandle_def run_fields_def shl64_eq)
  then obtain h c' where h: "allocateRun default_sizes (5 * 8192) c = Inr (h, c')" "0 \<le> h" "pg h = 5"
    using alloc_step [OF new_chunk_inv [OF c], of 5] default_pages.whole five by auto
  have "h \<noteq> - 1" using h(2) by auto
  from chunk_reach.alloc [OF r _ _ h(1) this] show ?thesis using h by auto
qed

subsection \<open>Properties\<close>

lemma live_run_facts:
  assumes "chunk_reach c L"
  shows "\<forall>h \<in> L. 0 \<le> calculateRunOffset h \<and> 1 \<le> calculateRunPages h \<and>
      calculateRunOffset h + calculateRunPages h \<le> 2048 \<and> isUsed h"
    and "\<forall>h \<in> L. \<forall>g \<in> L. h \<noteq> g \<longrightarrow> calculateRunOffset h + calculateRunPages h \<le> calculateRunOffset g \<or>
      calculateRunOffset g + calculateRunPages g \<le> calculateRunOffset h"
    and "c_freeBytes c = c_chunkSize c - 8192 * (\<Sum>h \<in> L. calculateRunPages h)"
proof -
  obtain F where I: "chunk_inv c L F" using chunk_reach_inv [OF assms] by blast
  show "\<forall>h \<in> L. 0 \<le> off h \<and> 1 \<le> pg h \<and> off h + pg h \<le> 2048 \<and> isUsed h"
    using I by (auto simp: chunk_inv_def in_chunk_def)
  show "\<forall>h \<in> L. \<forall>g \<in> L. h \<noteq> g \<longrightarrow> off h + pg h \<le> off g \<or> off g + pg g \<le> off h"
  proof (intro ballI impI)
    fix h g assume "h \<in> L" "g \<in> L" "h \<noteq> g"
    then show "off h + pg h \<le> off g \<or> off g + pg g \<le> off h"
      using I by (intro disjoint_spans_apart) (auto simp: chunk_inv_def)
  qed
  have "c_chunkSize c = 16777216" using I by (simp add: chunk_inv_def sized_def)
  then show "c_freeBytes c = c_chunkSize c - 8192 * (\<Sum>h \<in> L. pg h)" using live_bytes [OF I] by simp
qed

text \<open>C1. Over every sequence of allocations and releases the live runs of a chunk lie inside
  its 2048 pages and never overlap, and \<^verbatim>\<open>m_freeBytes\<close> is the size of the chunk less the bytes
  of the live runs.\<close>

theorem chunk_runs_partition:
  assumes "chunk_reach c L"
  shows "(\<forall>h \<in> L. 0 \<le> calculateRunOffset h \<and> 1 \<le> calculateRunPages h \<and>
      calculateRunOffset h + calculateRunPages h \<le> 2048 \<and> isUsed h) \<and>
    (\<forall>h \<in> L. \<forall>g \<in> L. h \<noteq> g \<longrightarrow> calculateRunOffset h + calculateRunPages h \<le> calculateRunOffset g \<or>
      calculateRunOffset g + calculateRunPages g \<le> calculateRunOffset h) \<and>
    c_freeBytes c = c_chunkSize c - 8192 * (\<Sum>h \<in> L. calculateRunPages h)"
  using live_run_facts [OF assms] by blast

theorem chunk_runs_partition_witness:
  "\<exists>c h. chunk_reach c {h} \<and> calculateRunPages h = 5 \<and>
     c_freeBytes c = c_chunkSize c - 8192 * (\<Sum>g \<in> {h}. calculateRunPages g)"
  using chunk_reach_one chunk_runs_partition by blast

text \<open>C13. An allocation in a reachable chunk never trips an assertion: it returns a handle of
  exactly the requested pages, not live before, and takes their bytes off \<^verbatim>\<open>m_freeBytes\<close>, or it
  returns -1 and leaves the chunk as it was.\<close>

theorem allocateRun_sound:
  assumes "chunk_reach c L" "1 \<le> p" "p \<le> 2048"
  shows "\<exists>h c'. allocateRun default_sizes (p * 8192) c = Inr (h, c') \<and>
    (h = - 1 \<and> c' = c \<or>
     0 \<le> h \<and> calculateRunPages h = p \<and> h \<notin> L \<and> chunk_reach c' (insert h L) \<and>
     c_freeBytes c' = c_freeBytes c - p * 8192)"
proof -
  obtain F where I: "chunk_inv c L F" using chunk_reach_inv [OF assms(1)] by blast
  from alloc_step [OF I assms(2,3)] show ?thesis
  proof (elim disjE exE conjE)
    fix h c' F'
    assume a: "allocateRun default_sizes (p * 8192) c = Inr (h, c')" "0 \<le> h" "pg h = p" "h \<notin> L"
      and I': "chunk_inv c' (insert h L) F'"
    have "h \<noteq> - 1" using a(2) by auto
    then have "chunk_reach c' (insert h L)" using chunk_reach.alloc [OF assms a(1)] by simp
    moreover have "c_freeBytes c' = c_freeBytes c - p * 8192"
      using live_bytes [OF I] live_bytes [OF I'] live_finite [OF I] a(3,4) by simp
    ultimately show ?thesis using a by auto
  qed auto
qed

theorem allocateRun_sound_witness:
  "\<exists>c h0 h c'. chunk_reach c {h0} \<and> allocateRun default_sizes (7 * 8192) c = Inr (h, c') \<and>
    (h = - 1 \<and> c' = c \<or>
     0 \<le> h \<and> calculateRunPages h = 7 \<and> h \<notin> {h0} \<and> chunk_reach c' (insert h {h0}) \<and>
     c_freeBytes c' = c_freeBytes c - 7 * 8192)"
proof -
  obtain c h0 where "chunk_reach c {h0}" using chunk_reach_one by blast
  then show ?thesis using allocateRun_sound [of c "{h0}" 7] by simp blast
qed

text \<open>C12. Best fit finds space: when some window of free pages as long as the page class of the
  request exists anywhere in the chunk, the allocation succeeds.\<close>

theorem allocateRun_finds_space:
  assumes r: "chunk_reach c L" and p: "1 \<le> p" "p \<le> 2048"
    and i: "page2pageIdx default_sizes p = Inr i" "pageIdx2size default_sizes i = Inr z"
    and w: "0 \<le> a" "a + z div 8192 \<le> 2048"
      "\<forall>h \<in> L. calculateRunOffset h + calculateRunPages h \<le> a \<or> a + z div 8192 \<le> calculateRunOffset h"
  shows "\<exists>h c'. allocateRun default_sizes (p * 8192) c = Inr (h, c') \<and> h \<noteq> - 1"
proof -
  obtain F where I: "chunk_inv c L F" using chunk_reach_inv [OF r] by blast
  have F: "run_set 2048 F" and all: "free_pages L \<union> free_pages F = {0..<2048}"
    using I by (auto simp: chunk_inv_def)
  have pz: "p * 8192 \<le> z" "z mod 8192 = 0"
  proof -
    show "p * 8192 \<le> z" using page_classes_fit [OF p p] i by auto
    have ci: "i = class_of 13 (p * 2 ^ 13)" using i(1) page2pageIdx_default [OF p] by simp
    have "z = size_of 13 i" using i(2) page_class_range(3,4) [OF p] ci pageIdx2size_default [of i] by simp
    moreover have "0 \<le> i" using page_class_range(3) [OF p] ci by simp
    ultimately show "z mod 8192 = 0" using size_of_13_multiple by simp
  qed
  then have n: "1 \<le> z div 8192" using p by (simp add: int_le_div)
  have "{a ..< a + z div 8192} \<inter> free_pages L = {}"
    using w(3) by (fastforce simp: free_pages_def span_def)
  then have "{a ..< a + z div 8192} \<subseteq> free_pages F" using w(1,2) all by auto
  then obtain h where h: "h \<in> F" "z div 8192 \<le> pg h" using window_in_run [OF F _ n] by blast
  have "z \<le> pg h * 8192" using h(2) pz(2) by auto
  moreover have "1 \<le> pg h" "pg h \<le> 2048" using run_setD [OF F h(1)] by auto
  ultimately have "\<not> (\<exists>j. page2pageIdxFloor default_sizes (pg h) = Inr j \<and> j < i)"
    using page_floor_tight [OF p _ _ i] by fastforce
  then show ?thesis using alloc_step [OF I p] i(1) h(1) by fastforce
qed

theorem allocateRun_finds_space_witness:
  "\<exists>c h c'. chunk_reach c {} \<and> allocateRun default_sizes (5 * 8192) c = Inr (h, c') \<and> h \<noteq> - 1"
proof -
  obtain c where c: "chunk_reach c {}" using new_chunk_ok chunk_reach.start by blast
  have five: "page2pageIdx default_sizes 5 = Inr 4" "pageIdx2size default_sizes 4 = Inr 40960"
    using page2pageIdx_default [of 5] class_of_size_of [of 4 13] by (simp_all add: size_of_def)
  show ?thesis using allocateRun_finds_space [OF c _ _ five, of 100] c by auto
qed

text \<open>C14. Releasing a live run, under its own handle or another handle for the same pages,
  never fails: the two collapsing loops end, the handle is no longer live, and its bytes are
  back in \<^verbatim>\<open>m_freeBytes\<close>.\<close>

theorem freeRun_total:
  assumes "chunk_reach c L" "h \<in> L" "0 \<le> g" "calculateRunOffset g = calculateRunOffset h"
    "calculateRunPages g = calculateRunPages h"
  shows "\<exists>c'. freeRun default_sizes g buffer c = Inr c' \<and> chunk_reach c' (L - {h}) \<and>
     c_freeBytes c' = c_freeBytes c + calculateRunPages h * 8192"
proof -
  obtain F where I: "chunk_inv c L F" using chunk_reach_inv [OF assms(1)] by blast
  from release_step [OF I assms(2-5), of buffer] show ?thesis using chunk_reach.release [OF assms] by blast
qed

theorem freeRun_total_witness:
  "\<exists>c h c'. chunk_reach c {h} \<and> freeRun default_sizes h None c = Inr c' \<and> chunk_reach c' ({h} - {h}) \<and>
     c_freeBytes c' = c_freeBytes c + calculateRunPages h * 8192"
proof -
  obtain c h where "chunk_reach c {h}" "0 \<le> h" using chunk_reach_one by blast
  then show ?thesis using freeRun_total [of c "{h}" h h None] by blast
qed

lemma empty_chunk_whole:
  assumes "chunk_reach c {}"
  shows "c_freeBytes c = c_chunkSize c"
    and "\<exists>h c'. allocateRun default_sizes (2048 * 8192) c = Inr (h, c') \<and>
      calculateRunOffset h = 0 \<and> calculateRunPages h = 2048"
proof -
  obtain F where I: "chunk_inv c {} F" using chunk_reach_inv [OF assms] by blast
  have F: "run_set 2048 F" and all: "free_pages F = {0..<2048}"
    using I by (auto simp: chunk_inv_def free_pages_def)
  have "c_chunkSize c = 16777216" using I by (simp add: chunk_inv_def sized_def)
  then show "c_freeBytes c = c_chunkSize c" using live_bytes [OF I] by simp
  obtain f where f: "F = {f}" "off f = 0" "pg f = 2048" using run_set_full [OF F all] by auto
  have i: "page2pageIdx default_sizes 2048 = Inr 39"
    using page2pageIdx_default [of 2048] class_of_size_of [of 39 13] by (simp add: size_of_def)
  obtain h c' where h: "allocateRun default_sizes (2048 * 8192) c = Inr (h, c')" "pg h = 2048"
    "\<exists>F'. chunk_inv c' (insert h {}) F'"
    using alloc_step [OF I, of 2048] f default_pages.whole i by auto
  then have "off h = 0" by (auto simp: chunk_inv_def in_chunk_def)
  then show "\<exists>h c'. allocateRun default_sizes (2048 * 8192) c = Inr (h, c') \<and> off h = 0 \<and> pg h = 2048"
    using h by blast
qed

text \<open>C15. Coalescing is complete: once every run of a chunk has been given back, in whatever
  order, the chunk is one free run again and all its 2048 pages can be allocated as one run
  from page 0.\<close>

theorem chunk_coalesces:
  assumes "chunk_reach c {}"
  shows "c_freeBytes c = c_chunkSize c \<and>
    (\<exists>h c'. allocateRun default_sizes (2048 * 8192) c = Inr (h, c') \<and>
      calculateRunOffset h = 0 \<and> calculateRunPages h = 2048)"
  using empty_chunk_whole [OF assms] by blast

theorem chunk_coalesces_witness:
  "\<exists>c h c'. chunk_reach c {} \<and> allocateRun default_sizes (2048 * 8192) c = Inr (h, c') \<and>
      calculateRunOffset h = 0 \<and> calculateRunPages h = 2048"
proof -
  obtain c where "chunk_reach c {}" using new_chunk_ok chunk_reach.start by blast
  then show ?thesis using chunk_coalesces by blast
qed

end
