(* ===== verification/Ring.thy ===== *)
theory Ring
  imports Prelude
begin

text \<open>
  Doubly linked rings with a sentinel, the shape of the pool lists of \<^verbatim>\<open>PoolSubpage\<close> and of the
  task lists of the timer. \<open>nx\<close> and \<open>pv\<close> are the two pointer fields as partial functions of
  the address; \<open>ring nx pv h xs\<close> says that from the sentinel \<open>h\<close> the links run through \<open>xs\<close>
  and back. A component shows what its pointer writes do to the two functions and gets the
  effect on the list from here.
\<close>

fun path :: "(nat \<rightharpoonup> nat) \<Rightarrow> (nat \<rightharpoonup> nat) \<Rightarrow> nat \<Rightarrow> nat list \<Rightarrow> nat \<Rightarrow> bool" where
  "path nx pv x [] z \<longleftrightarrow> nx x = Some z \<and> pv z = Some x"
| "path nx pv x (y # ys) z \<longleftrightarrow> nx x = Some y \<and> pv y = Some x \<and> path nx pv y ys z"

definition ring :: "(nat \<rightharpoonup> nat) \<Rightarrow> (nat \<rightharpoonup> nat) \<Rightarrow> nat \<Rightarrow> nat list \<Rightarrow> bool" where
  "ring nx pv h xs \<longleftrightarrow> path nx pv h xs h \<and> distinct (h # xs)"

lemma path_append: "path nx pv x (ys @ a # zs) z \<longleftrightarrow> path nx pv x ys a \<and> path nx pv a zs z"
  by (induction ys arbitrary: x) auto

lemma path_cong:
  "(\<And>a. a \<in> set (x # ys) \<Longrightarrow> nx a = nx' a) \<Longrightarrow> (\<And>a. a \<in> set (ys @ [z]) \<Longrightarrow> pv a = pv' a) \<Longrightarrow>
    path nx pv x ys z \<longleftrightarrow> path nx' pv' x ys z"
proof (induction ys arbitrary: x)
  case (Cons y ys)
  have "path nx pv y ys z \<longleftrightarrow> path nx' pv' y ys z"
    by (rule Cons.IH) (use Cons.prems in auto)
  then show ?case using Cons.prems(1) [of x] Cons.prems(2) [of y] by simp
qed simp

lemma path_first: "path nx pv x ys z \<Longrightarrow> nx x = Some (hd (ys @ [z])) \<and> pv (hd (ys @ [z])) = Some x"
  by (cases ys) auto

lemma path_last: "path nx pv x ys z \<Longrightarrow> pv z = Some (last (x # ys)) \<and> nx (last (x # ys)) = Some z"
  by (induction ys arbitrary: x) auto

lemma ring_empty: "nx h = Some h \<Longrightarrow> pv h = Some h \<Longrightarrow> ring nx pv h []"
  by (simp add: ring_def)

lemma ring_empty_iff: "ring nx pv h xs \<Longrightarrow> nx h = Some h \<longleftrightarrow> xs = []"
  by (cases xs) (auto simp: ring_def)

lemma ring_next: "ring nx pv h (x # xs) \<Longrightarrow> nx h = Some x"
  by (simp add: ring_def)

lemma ring_insert_first:
  assumes r: "ring nx pv h xs" and a: "a \<notin> set (h # xs)"
  shows "nx h = Some (hd (xs @ [h]))"
    "ring (nx(a := nx h, h := Some a)) (pv(a := Some h, hd (xs @ [h]) := Some a)) h (a # xs)"
proof -
  have p: "path nx pv h xs h" and d: "distinct (h # xs)" using r by (auto simp: ring_def)
  show n: "nx h = Some (hd (xs @ [h]))" using path_first [OF p] by simp
  show "ring (nx(a := nx h, h := Some a)) (pv(a := Some h, hd (xs @ [h]) := Some a)) h (a # xs)"
  proof (cases xs)
    case Nil
    then show ?thesis using a n by (simp add: ring_def)
  next
    case (Cons y ys)
    have "path nx pv y ys h" using p Cons by simp
    then have "path (nx(a := Some y, h := Some a)) (pv(a := Some h, y := Some a)) y ys h"
      by (subst path_cong [where nx' = nx and pv' = pv]) (use a d Cons in auto)
    then show ?thesis using a d n Cons by (auto simp: ring_def)
  qed
qed

lemma ring_insert_last:
  assumes r: "ring nx pv h xs" and a: "a \<notin> set (h # xs)"
  shows "pv h = Some (last (h # xs))"
    "ring (nx(a := Some h, last (h # xs) := Some a)) (pv(a := pv h, h := Some a)) h (xs @ [a])"
proof -
  have p: "path nx pv h xs h" and d: "distinct (h # xs)" using r by (auto simp: ring_def)
  show l: "pv h = Some (last (h # xs))" using path_last [OF p] by simp
  show "ring (nx(a := Some h, last (h # xs) := Some a)) (pv(a := pv h, h := Some a)) h (xs @ [a])"
  proof (cases xs rule: rev_cases)
    case Nil
    then show ?thesis using a l by (simp add: ring_def)
  next
    case (snoc ys y)
    have "path nx pv h ys y" using p snoc by (simp add: path_append)
    then have "path (nx(a := Some h, y := Some a)) (pv(a := Some y, h := Some a)) h ys y"
      by (subst path_cong [where nx' = nx and pv' = pv]) (use a d snoc in auto)
    then show ?thesis using a d l snoc by (auto simp: ring_def path_append)
  qed
qed

lemma ring_remove:
  assumes r: "ring nx pv h (ys @ a # zs)"
  shows "pv a = Some (last (h # ys))" "nx a = Some (hd (zs @ [h]))"
    "ring (nx(last (h # ys) := nx a, a := None)) (pv(hd (zs @ [h]) := pv a, a := None)) h (ys @ zs)"
proof -
  have p: "path nx pv h ys a" "path nx pv a zs h" and d: "distinct (h # ys @ a # zs)"
    using r by (auto simp: ring_def path_append)
  show P: "pv a = Some (last (h # ys))" using path_last [OF p(1)] by simp
  show N: "nx a = Some (hd (zs @ [h]))" using path_first [OF p(2)] by simp
  define nx' where "nx' = nx(last (h # ys) := nx a, a := None)"
  define pv' where "pv' = pv(hd (zs @ [h]) := pv a, a := None)"
  have hz: "hd (zs @ [h]) \<notin> set ys" using d by (cases zs) auto
  have "path nx' pv' h (ys @ zs) h"
  proof (cases ys rule: rev_cases)
    case Nil
    have l: "last (h # ys) = h" using Nil by simp
    show ?thesis
    proof (cases zs)
      case Nil2: Nil
      then show ?thesis using Nil N P d by (simp add: nx'_def pv'_def)
    next
      case (Cons z zs')
      have "path nx pv z zs' h" using p(2) Cons by simp
      then have "path nx' pv' z zs' h"
        by (subst path_cong [where nx' = nx and pv' = pv]) (use d Cons Nil in \<open>auto simp: nx'_def pv'_def\<close>)
      then show ?thesis using Nil Cons N P d by (auto simp: nx'_def pv'_def)
    qed
  next
    case (snoc ys' y)
    have "path nx pv h ys' y" using p(1) snoc by (simp add: path_append)
    then have q1: "path nx' pv' h ys' y"
      by (subst path_cong [where nx' = nx and pv' = pv])
        (use d snoc hz in \<open>auto simp: nx'_def pv'_def\<close>)
    have "path nx' pv' y zs h"
    proof (cases zs)
      case Nil
      then show ?thesis using snoc N P d by (simp add: nx'_def pv'_def)
    next
      case (Cons z zs')
      have "path nx pv z zs' h" using p(2) Cons by simp
      then have "path nx' pv' z zs' h"
        by (subst path_cong [where nx' = nx and pv' = pv]) (use d Cons snoc in \<open>auto simp: nx'_def pv'_def\<close>)
      then show ?thesis using snoc Cons N P d by (auto simp: nx'_def pv'_def)
    qed
    then show ?thesis using q1 snoc by (simp add: path_append)
  qed
  then show "ring nx' pv' h (ys @ zs)" using d by (simp add: ring_def)
qed

end
