(* ===== verification/Subpage.thy ===== *)
theory Subpage
  imports RunHandle Ring
begin

text \<open>
  \<^verbatim>\<open>buffer/PoolSubpage.h\<close> and \<^verbatim>\<open>buffer/PoolSubpage.cpp\<close>: a run cut into equal elements, with a
  bitmap of the elements in use. Subpages with free elements of one size class hang in a ring
  of the arena (\<open>s_prev\<close>, \<open>s_next\<close>), whose sentinel is a subpage of its own. A subpage pointer is
  an address in a store; the words of the bitmap are 64-bit words, and \<open>bits >>= 1\<close> on the
  signed copy is the arithmetic shift.
\<close>

record subpage =
  s_chunk :: "nat option"
  s_pageShifts :: int
  s_runOffset :: int
  s_runSize :: int
  s_bitmap :: "64 word list"
  s_maxNumElems :: int
  s_bitmapLength :: int
  s_nextAvail :: int
  s_numAvail :: int
  s_prev :: "nat option"
  s_next :: "nat option"
  s_dontRelease :: bool
  s_elemSize :: int

type_synonym sub_store = "nat \<rightharpoonup> subpage"

definition PoolSubpage_head :: subpage where
  "PoolSubpage_head = \<lparr>s_chunk = None, s_pageShifts = - 1, s_runOffset = - 1, s_runSize = - 1,
     s_bitmap = [], s_maxNumElems = 0, s_bitmapLength = 0, s_nextAvail = 0, s_numAvail = 0,
     s_prev = None, s_next = None, s_dontRelease = True, s_elemSize = - 1\<rparr>"

definition addToPool :: "nat \<Rightarrow> nat \<Rightarrow> sub_store \<Rightarrow> sub_store res" where
  "addToPool head a st =
     rbind (deref st (Some a)) (\<lambda>s.
     assert_that (s_prev s = None \<and> s_next s = None)
     (rbind (store_upd st (Some a) (\<lambda>s. s\<lparr>s_prev := Some head\<rparr>)) (\<lambda>st1.
      rbind (deref st1 (Some head)) (\<lambda>hd.
      rbind (store_upd st1 (Some a) (\<lambda>s. s\<lparr>s_next := s_next hd\<rparr>)) (\<lambda>st2.
      rbind (store_upd st2 (s_next hd) (\<lambda>s. s\<lparr>s_prev := Some a\<rparr>)) (\<lambda>st3.
      store_upd st3 (Some head) (\<lambda>s. s\<lparr>s_next := Some a\<rparr>)))))))"

definition removeFromPool :: "nat \<Rightarrow> sub_store \<Rightarrow> sub_store res" where
  "removeFromPool a st =
     rbind (deref st (Some a)) (\<lambda>s.
     assert_that (s_prev s \<noteq> None \<and> s_next s \<noteq> None)
     (rbind (store_upd st (s_prev s) (\<lambda>p. p\<lparr>s_next := s_next s\<rparr>)) (\<lambda>st1.
      rbind (store_upd st1 (s_next s) (\<lambda>n. n\<lparr>s_prev := s_prev s\<rparr>)) (\<lambda>st2.
      store_upd st2 (Some a) (\<lambda>s. s\<lparr>s_prev := None, s_next := None\<rparr>)))))"

text \<open>The constructor of a subpage proper; \<open>a\<close> is the address \<^verbatim>\<open>new\<close> returns. A division by a
  zero element size is guarded by the code; with one, the fields it leaves unset are not
  modelled and keep the values of the sentinel.\<close>

definition PoolSubpage ::
  "nat \<Rightarrow> nat \<Rightarrow> nat option \<Rightarrow> int \<Rightarrow> int \<Rightarrow> int \<Rightarrow> int \<Rightarrow> sub_store \<Rightarrow> sub_store res" where
  "PoolSubpage a head chunk pageShifts runOffset rsz elemSize st =
     (let base = PoolSubpage_head\<lparr>s_chunk := chunk, s_pageShifts := pageShifts, s_runSize := rsz,
            s_runOffset := runOffset, s_elemSize := elemSize,
            s_bitmap := replicate (nat (shr rsz (6 + 4))) 0, s_dontRelease := True\<rparr>;
          s = (if elemSize \<noteq> 0
               then let maxNumElems = rsz div elemSize;
                        len = shr maxNumElems 6 in
                    base\<lparr>s_maxNumElems := maxNumElems, s_numAvail := maxNumElems, s_nextAvail := 0,
                         s_bitmapLength := (if maxNumElems AND 63 \<noteq> 0 then len + 1 else len)\<rparr>
               else base) in
      addToPool head a (st(a \<mapsto> s)))"

fun find_clear :: "nat \<Rightarrow> int \<Rightarrow> int \<Rightarrow> nat \<Rightarrow> 64 word \<Rightarrow> int" where
  "find_clear 0 maxNumElems baseVal j bits = - 1"
| "find_clear (Suc n) maxNumElems baseVal j bits =
     (if bits AND 1 = 0
      then (let val = baseVal OR int j in if val < maxNumElems then val else - 1)
      else find_clear n maxNumElems baseVal (Suc j) (signed_drop_bit 1 bits))"

definition findNextAvail0 :: "subpage \<Rightarrow> int \<Rightarrow> 64 word \<Rightarrow> int" where
  "findNextAvail0 s i bits = find_clear 64 (s_maxNumElems s) (shl32 i 6) 0 bits"

fun scan_words :: "nat \<Rightarrow> subpage \<Rightarrow> int \<Rightarrow> int res" where
  "scan_words 0 s i = Inr (- 1)"
| "scan_words (Suc n) s i =
     rbind (at_vec (s_bitmap s) i) (\<lambda>bits.
     if NOT bits \<noteq> 0 then Inr (findNextAvail0 s i bits) else scan_words n s (i + 1))"

definition findNextAvail :: "subpage \<Rightarrow> int res" where
  "findNextAvail s = scan_words (nat (s_bitmapLength s)) s 0"

definition setNextAvail :: "int \<Rightarrow> subpage \<Rightarrow> subpage" where
  "setNextAvail bitmapIdx s = s\<lparr>s_nextAvail := bitmapIdx\<rparr>"

definition getNextAvail :: "subpage \<Rightarrow> (int \<times> subpage) res" where
  "getNextAvail s =
     (if s_nextAvail s \<ge> 0 then Inr (s_nextAvail s, s\<lparr>s_nextAvail := - 1\<rparr>)
      else rbind (findNextAvail s) (\<lambda>i. Inr (i, s)))"

text \<open>The part of \<^verbatim>\<open>allocate\<close> and \<^verbatim>\<open>free\<close> on the fields of the subpage itself: the bitmap bit
  is asserted and flipped, and the count is changed.\<close>

definition take_elem :: "subpage \<Rightarrow> (int \<times> subpage) res" where
  "take_elem s =
     rbind (getNextAvail s) (\<lambda>(bitmapIdx, s1).
     let q = shr bitmapIdx 6; r = nat (bitmapIdx AND 63) in
     rbind (at_vec (s_bitmap s1) q) (\<lambda>w.
     assert_that (signed_drop_bit r w AND 1 = 0)
     (rbind (set_vec (s_bitmap s1) q (w OR push_bit r 1)) (\<lambda>bm.
      Inr (bitmapIdx, s1\<lparr>s_bitmap := bm, s_numAvail := s_numAvail s1 - 1\<rparr>)))))"

definition give_elem :: "int \<Rightarrow> subpage \<Rightarrow> subpage res" where
  "give_elem bitmapIdx s =
     (let q = shr bitmapIdx 6; r = nat (bitmapIdx AND 63) in
      rbind (at_vec (s_bitmap s) q) (\<lambda>w.
      assert_that (signed_drop_bit r w AND 1 \<noteq> 0)
      (rbind (set_vec (s_bitmap s) q (w XOR push_bit r 1)) (\<lambda>bm.
       let s1 = setNextAvail bitmapIdx (s\<lparr>s_bitmap := bm\<rparr>) in
       Inr (s1\<lparr>s_numAvail := s_numAvail s1 + 1\<rparr>)))))"

definition toHandle :: "subpage \<Rightarrow> int \<Rightarrow> int" where
  "toHandle s bitmapIdx = subpageHandle (s_runSize s) (s_pageShifts s) (s_runOffset s) bitmapIdx"

definition sub_allocate :: "nat \<Rightarrow> sub_store \<Rightarrow> (int \<times> sub_store) res" where
  "sub_allocate a st =
     rbind (deref st (Some a)) (\<lambda>s.
     if s_numAvail s = 0 \<or> \<not> s_dontRelease s then Inr (- 1, st)
     else
       rbind (take_elem s) (\<lambda>(bitmapIdx, s').
       let st1 = st(a \<mapsto> s') in
       rbind (if s_numAvail s' = 0 then removeFromPool a st1 else Inr st1) (\<lambda>st2.
       Inr (toHandle s' bitmapIdx, st2))))"

definition sub_free :: "nat \<Rightarrow> nat \<Rightarrow> int \<Rightarrow> sub_store \<Rightarrow> (bool \<times> sub_store) res" where
  "sub_free a head bitmapIdx st =
     rbind (deref st (Some a)) (\<lambda>s.
     if s_elemSize s = 0 then Inr (True, st)
     else
       rbind (give_elem bitmapIdx s) (\<lambda>s'.
       let st1 = st(a \<mapsto> s') in
       if s_numAvail s = 0 then rbind (addToPool head a st1) (\<lambda>st2. Inr (True, st2))
       else if s_numAvail s' \<noteq> s_maxNumElems s' then Inr (True, st1)
       else if s_prev s' = s_next s' then Inr (True, st1)
       else
         rbind (store_upd st1 (Some a) (\<lambda>s. s\<lparr>s_dontRelease := False\<rparr>)) (\<lambda>st2.
         rbind (removeFromPool a st2) (\<lambda>st3. Inr (False, st3)))))"

subsection \<open>The bitmap\<close>

definition elem_used :: "subpage \<Rightarrow> int \<Rightarrow> bool" where
  "elem_used s i \<longleftrightarrow> bit (s_bitmap s ! nat (i div 64)) (nat (i mod 64))"

definition used_elems :: "subpage \<Rightarrow> int set" where
  "used_elems s = {i. 0 \<le> i \<and> i < s_maxNumElems s \<and> elem_used s i}"

definition sub_ok :: "subpage \<Rightarrow> bool" where
  "sub_ok s \<longleftrightarrow> 0 < s_elemSize s \<and> 0 < s_maxNumElems s \<and>
     s_bitmapLength s = (s_maxNumElems s + 63) div 64 \<and>
     s_bitmapLength s \<le> int (length (s_bitmap s)) \<and> s_bitmapLength s < 2 ^ 20 \<and>
     s_numAvail s = s_maxNumElems s - int (card (used_elems s)) \<and>
     (s_nextAvail s = - 1 \<or> 0 \<le> s_nextAvail s \<and> s_nextAvail s < s_maxNumElems s \<and>
        \<not> elem_used s (s_nextAvail s))"

lemma word_bit_and_1: "(w :: 64 word) AND 1 = 0 \<longleftrightarrow> \<not> bit w 0"
  by (simp add: and_one_eq bit_0 even_iff_mod_2_eq_zero)

lemma shifted_bit: "r < 64 \<Longrightarrow> signed_drop_bit r (w :: 64 word) AND 1 = 0 \<longleftrightarrow> \<not> bit w r"
  unfolding word_bit_and_1 by (simp add: bit_signed_drop_bit_iff del: bit_0)

lemma find_clear_spec:
  assumes "j + n = 64" "\<And>k. k < n \<Longrightarrow> bit bits k = bit w (j + k)"
    and base: "baseVal = i * 64" "0 \<le> i"
    and ex: "j \<le> k" "k < 64" "\<not> bit w k" "i * 64 + int k < m"
  shows "\<exists>l. find_clear n m baseVal j bits = i * 64 + int l \<and> l < 64 \<and> \<not> bit w l \<and> i * 64 + int l < m"
  using assms(1,2) ex(1)
proof (induction n arbitrary: j bits)
  case 0
  then show ?case using ex(2) by simp
next
  case (Suc n)
  have b0: "bits AND 1 = 0 \<longleftrightarrow> \<not> bit w j" using Suc.prems(2) [of 0] by (simp add: word_bit_and_1 del: bit_0)
  show ?case
  proof (cases "bit w j")
    case False
    have "baseVal OR int j = i * 64 + int j"
      unfolding base(1) by (rule or_nonneg_plus [of _ 6]) (use Suc.prems in auto)
    then show ?thesis using False b0 Suc.prems(1,3) ex(4) by (intro exI [of _ j]) (simp add: Let_def)
  next
    case True
    have sh: "bit (signed_drop_bit 1 bits) k = bit w (Suc j + k)" if "k < n" for k
      using that Suc.prems(1) Suc.prems(2) [of "Suc k"] by (simp add: bit_signed_drop_bit_iff)
    have "Suc j \<le> k" using True ex(3) Suc.prems(3) by (metis le_antisym not_less_eq_eq)
    then show ?thesis using Suc.IH [of "Suc j" "signed_drop_bit 1 bits"] Suc.prems(1) sh b0 True by simp
  qed
qed

lemma full_word: "NOT (w :: 64 word) = 0 \<Longrightarrow> k < 64 \<Longrightarrow> bit w k"
proof -
  assume n: "NOT w = 0" and k: "k < 64"
  have "bit (NOT w) k = (\<not> bit w k)" using k by (simp add: bit_not_iff)
  then show "bit w k" using n by simp
qed

lemma div_64: "i * 64 \<le> (e::int) \<Longrightarrow> e < (i + 1) * 64 \<Longrightarrow> e div 64 = i"
  using int_le_div [of 64 i e] int_div_less [of 64 e "i + 1"] by linarith

text \<open>The scan finds a free element when there is one among the words it reads.\<close>

lemma scan_words_spec:
  assumes "i + int n = s_bitmapLength s" "0 \<le> i" "s_bitmapLength s \<le> int (length (s_bitmap s))"
    "s_bitmapLength s < 2 ^ 20"
    "s_bitmapLength s = (s_maxNumElems s + 63) div 64"
    and e: "i * 64 \<le> e" "e < s_maxNumElems s" "\<not> elem_used s e" "e < s_bitmapLength s * 64"
  shows "\<exists>f. scan_words n s i = Inr f \<and> 0 \<le> f \<and> f < s_maxNumElems s \<and> \<not> elem_used s f"
  using assms(1,2) e(1)
proof (induction n arbitrary: i)
  case 0
  then show ?case using e(4) by auto
next
  case (Suc n)
  define w where "w = s_bitmap s ! nat i"
  have i: "i < s_bitmapLength s" using Suc.prems(1) by simp
  then have w: "at_vec (s_bitmap s) i = Inr w" using Suc.prems(2) assms(3) by (simp add: w_def)
  show ?case
  proof (cases "NOT w = 0")
    case True
    have "\<not> e < (i + 1) * 64"
    proof
      assume lt: "e < (i + 1) * 64"
      have "e div 64 = i" by (rule div_64 [OF Suc.prems(3) lt])
      moreover have "nat (e mod 64) < 64" by (simp add: nat_less_iff)
      ultimately show False using full_word [OF True, of "nat (e mod 64)"] e(3) by (simp add: elem_used_def w_def)
    qed
    then have "\<exists>f. scan_words n s (i + 1) = Inr f \<and> 0 \<le> f \<and> f < s_maxNumElems s \<and> \<not> elem_used s f"
      using Suc.IH [of "i + 1"] Suc.prems by simp
    then show ?thesis using w True by simp
  next
    case False
    then obtain k0 where "bit (NOT w) k0" using bit_eq_iff [of "NOT w" 0] by auto
    then have k0: "k0 < 64" "\<not> bit w k0" by (auto simp: bit_not_iff dest: bit_imp_le_length)
    have "\<exists>k. k < 64 \<and> \<not> bit w k \<and> i * 64 + int k < s_maxNumElems s"
    proof (cases "i + 1 = s_bitmapLength s")
      case True
      then have "e div 64 = i" using div_64 [OF Suc.prems(3)] e(4) by simp
      then have "\<not> bit w (nat (e mod 64))" "i * 64 + int (nat (e mod 64)) = e"
        using e(3) by (auto simp: elem_used_def w_def)
      then show ?thesis using e(2) by (intro exI [of _ "nat (e mod 64)"]) (simp add: nat_less_iff)
    next
      case False
      then have "i + 2 \<le> (s_maxNumElems s + 63) div 64" using i assms(5) by simp
      then have "i * 64 + int k0 < s_maxNumElems s" using k0(1) by (simp add: int_le_div)
      then show ?thesis using k0 by blast
    qed
    then obtain k where k: "k < 64" "\<not> bit w k" "i * 64 + int k < s_maxNumElems s" by blast
    have base: "shl32 i 6 = i * 64" using i Suc.prems(2) assms(4) by (subst shl32_eq) auto
    obtain l where l: "findNextAvail0 s i w = i * 64 + int l" "l < 64" "\<not> bit w l"
        "i * 64 + int l < s_maxNumElems s"
      unfolding findNextAvail0_def
      using find_clear_spec [of 0 64 w w "shl32 i 6" i k "s_maxNumElems s"] base Suc.prems(2) k by auto
    have "(i * 64 + int l) div 64 = i" "(i * 64 + int l) mod 64 = int l" using l(2) by auto
    then have "\<not> elem_used s (i * 64 + int l)" using l(3) by (simp add: elem_used_def w_def)
    then show ?thesis using w False l Suc.prems(2) by simp
  qed
qed

lemma used_finite [simp]: "finite (used_elems s)"
  by (rule finite_subset [of _ "{0..<s_maxNumElems s}"]) (auto simp: used_elems_def)

lemma free_elem_exists:
  assumes "sub_ok s" "0 < s_numAvail s"
  shows "\<exists>e. 0 \<le> e \<and> e < s_maxNumElems s \<and> \<not> elem_used s e"
proof (rule ccontr)
  assume "\<not> ?thesis"
  then have "used_elems s = {0..<s_maxNumElems s}" by (auto simp: used_elems_def)
  then show False using assms by (simp add: sub_ok_def)
qed

lemma ceil_64: "(m::int) \<le> (m + 63) div 64 * 64"
proof -
  define q where "q = (m + 63) div 64"
  define r where "r = (m + 63) mod 64"
  have "m + 63 = q * 64 + r" "r < 64" by (simp_all add: q_def r_def)
  then show ?thesis unfolding q_def [symmetric] by linarith
qed

lemma getNextAvail_spec:
  assumes ok: "sub_ok s" and n: "0 < s_numAvail s"
  shows "\<exists>i. getNextAvail s = Inr (i, s\<lparr>s_nextAvail := - 1\<rparr>) \<and> 0 \<le> i \<and> i < s_maxNumElems s \<and> \<not> elem_used s i"
proof (cases "s_nextAvail s \<ge> 0")
  case True
  then show ?thesis using ok by (auto simp: getNextAvail_def sub_ok_def)
next
  case False
  then have m: "s_nextAvail s = - 1" using ok by (auto simp: sub_ok_def)
  then have same: "s\<lparr>s_nextAvail := - 1\<rparr> = s" by simp
  obtain e where e: "0 \<le> e" "e < s_maxNumElems s" "\<not> elem_used s e" using free_elem_exists [OF ok n] by blast
  have b: "s_bitmapLength s = (s_maxNumElems s + 63) div 64" "0 < s_maxNumElems s"
    "s_bitmapLength s \<le> int (length (s_bitmap s))" "s_bitmapLength s < 2 ^ 20"
    using ok by (auto simp: sub_ok_def)
  have "e < s_bitmapLength s * 64" using e(2) ceil_64 [of "s_maxNumElems s"] b(1) by simp
  moreover have "0 + int (nat (s_bitmapLength s)) = s_bitmapLength s" using b(1,2) by simp
  ultimately obtain f where "findNextAvail s = Inr f" "0 \<le> f" "f < s_maxNumElems s" "\<not> elem_used s f"
    using scan_words_spec [of 0 "nat (s_bitmapLength s)" s e] b e by (auto simp: findNextAvail_def)
  then show ?thesis using m same by (auto simp: getNextAvail_def)
qed

lemma div_ceil_64: "i < m \<Longrightarrow> i div 64 < (m + 63) div (64::int)"
proof -
  assume "i < m"
  then have "(i + 64) div 64 \<le> (m + 63) div 64" by (intro zdiv_mono1) auto
  then show ?thesis by simp
qed

lemma bit_pos:
  assumes "0 \<le> i" "i < m" "s_bitmapLength s = (m + 63) div 64" "s_bitmapLength s \<le> int (length (s_bitmap s))"
  shows "0 \<le> i div 64 \<and> nat (i div 64) < length (s_bitmap s)"
proof -
  have z: "0 \<le> i div 64" using assms(1) by (simp add: pos_imp_zdiv_nonneg_iff)
  have "i div 64 < s_bitmapLength s" using div_ceil_64 [OF assms(2)] assms(3) by simp
  then show ?thesis using z assms(4) by (auto simp: nat_less_iff)
qed

lemma div_int_nonneg: "0 \<le> (a::int) \<Longrightarrow> 0 \<le> a div 64"
  by (simp add: pos_imp_zdiv_nonneg_iff)

lemma same_bit: "0 \<le> i \<Longrightarrow> 0 \<le> j \<Longrightarrow> nat (i div 64) = nat (j div 64) \<Longrightarrow> nat (i mod 64) = nat (j mod 64) \<Longrightarrow> i = (j::int)"
proof -
  assume a: "0 \<le> i" "0 \<le> j" "nat (i div 64) = nat (j div 64)" "nat (i mod 64) = nat (j mod 64)"
  have n: "0 \<le> i div 64" "0 \<le> j div 64" "0 \<le> i mod 64" "0 \<le> j mod 64"
    by (rule div_int_nonneg [OF a(1)], rule div_int_nonneg [OF a(2)], simp_all only: pos_mod_sign zero_less_numeral)
  have "i div 64 = j div 64" by (rule eq_nat_nat_iff [OF n(1,2), THEN iffD1, OF a(3)])
  moreover have "i mod 64 = j mod 64" by (rule eq_nat_nat_iff [OF n(3,4), THEN iffD1, OF a(4)])
  ultimately show ?thesis by (metis div_mult_mod_eq)
qed

lemma elem_used_set:
  assumes r: "0 \<le> i div 64" "nat (i div 64) < length (s_bitmap s)" and ij: "0 \<le> i" "0 \<le> j"
  defines "q \<equiv> nat (i div 64)" and "k \<equiv> nat (i mod 64)"
  shows "elem_used (s\<lparr>s_bitmap := (s_bitmap s)[q := s_bitmap s ! q OR push_bit k 1]\<rparr>) j \<longleftrightarrow> j = i \<or> elem_used s j"
    "elem_used s i \<Longrightarrow> elem_used (s\<lparr>s_bitmap := (s_bitmap s)[q := s_bitmap s ! q XOR push_bit k 1]\<rparr>) j
      \<longleftrightarrow> j \<noteq> i \<and> elem_used s j"
proof -
  define qj where "qj = nat (j div 64)"
  define kj where "kj = nat (j mod 64)"
  have k: "k < 64" by (simp add: k_def nat_less_iff)
  have j64: "kj < 64" by (simp add: kj_def nat_less_iff)
  have same: "q = qj \<and> k = kj \<longleftrightarrow> j = i"
    using same_bit [OF ij] unfolding q_def k_def qj_def kj_def by blast
  have q: "q < length (s_bitmap s)" using r by (simp only: q_def)
  have b: "bit (push_bit k 1 :: 64 word) kj \<longleftrightarrow> kj = k"
    using j64 k by (auto simp: bit_exp_iff)
  have ui: "elem_used s i \<longleftrightarrow> bit (s_bitmap s ! q) k" by (simp only: elem_used_def q_def k_def)
  have uj: "elem_used x j \<longleftrightarrow> bit (s_bitmap x ! qj) kj" for x by (simp only: elem_used_def qj_def kj_def)
  show "elem_used (s\<lparr>s_bitmap := (s_bitmap s)[q := s_bitmap s ! q OR push_bit k 1]\<rparr>) j \<longleftrightarrow> j = i \<or> elem_used s j"
    unfolding uj using same q b by (auto simp: nth_list_update bit_or_iff)
  show "elem_used (s\<lparr>s_bitmap := (s_bitmap s)[q := s_bitmap s ! q XOR push_bit k 1]\<rparr>) j
      \<longleftrightarrow> j \<noteq> i \<and> elem_used s j" if "elem_used s i"
    using that same q b unfolding uj ui by (auto simp: nth_list_update bit_xor_iff)
qed

text \<open>What taking and giving an element leave alone.\<close>

definition kept :: "subpage \<Rightarrow> subpage \<Rightarrow> bool" where
  "kept s s' \<longleftrightarrow> s' = s\<lparr>s_bitmap := s_bitmap s', s_numAvail := s_numAvail s', s_nextAvail := s_nextAvail s'\<rparr>"

lemma keptD:
  assumes "kept s s'"
  shows "s_maxNumElems s' = s_maxNumElems s" "s_prev s' = s_prev s" "s_next s' = s_next s"
    "s_dontRelease s' = s_dontRelease s" "s_elemSize s' = s_elemSize s" "s_runSize s' = s_runSize s"
    "s_pageShifts s' = s_pageShifts s" "s_runOffset s' = s_runOffset s" "s_chunk s' = s_chunk s"
    "s_bitmapLength s' = s_bitmapLength s"
  by (subst assms [unfolded kept_def]; simp)+

lemma take_elem_spec:
  assumes ok: "sub_ok s" and n: "0 < s_numAvail s"
  shows "\<exists>i s'. take_elem s = Inr (i, s') \<and> 0 \<le> i \<and> i < s_maxNumElems s \<and> i \<notin> used_elems s \<and>
     used_elems s' = insert i (used_elems s) \<and> sub_ok s' \<and> s_numAvail s' = s_numAvail s - 1 \<and> kept s s'"
proof -
  obtain i where i: "getNextAvail s = Inr (i, s\<lparr>s_nextAvail := - 1\<rparr>)" "0 \<le> i" "i < s_maxNumElems s"
    "\<not> elem_used s i" using getNextAvail_spec [OF ok n] by blast
  define q where "q = nat (i div 64)"
  define k where "k = nat (i mod 64)"
  define bm where "bm = (s_bitmap s)[q := s_bitmap s ! q OR push_bit k 1]"
  define s' where "s' = s\<lparr>s_bitmap := bm, s_numAvail := s_numAvail s - 1, s_nextAvail := - 1\<rparr>"
  have q: "0 \<le> i div 64" "q < length (s_bitmap s)"
    using bit_pos [OF i(2,3), of s] ok by (auto simp: sub_ok_def q_def)
  have w: "signed_drop_bit k (s_bitmap s ! q) AND 1 = 0"
    using i(4) shifted_bit [of k "s_bitmap s ! q"] by (simp add: elem_used_def q_def k_def nat_less_iff)
  have idx: "shr i 6 = i div 64" "i AND 63 = i mod 64" by (simp_all add: shr_eq and_mask_mod)
  have "take_elem s = Inr (i, s')"
    using i(1) q w by (simp add: take_elem_def idx Let_def at_vec_def set_vec_def q_def [symmetric]
        k_def [symmetric] bm_def s'_def nat_less_iff [symmetric])
  moreover have u: "elem_used s' j \<longleftrightarrow> j = i \<or> elem_used s j" if "0 \<le> j" for j
    using elem_used_set(1) [of i s j] q i(2) that by (simp add: elem_used_def s'_def bm_def q_def k_def)
  then have us: "used_elems s' = insert i (used_elems s)"
    using i by (auto simp: used_elems_def s'_def)
  moreover have ni: "i \<notin> used_elems s" using i(4) by (simp add: used_elems_def)
  moreover have "sub_ok s'" using ok us ni by (simp add: sub_ok_def s'_def bm_def)
  moreover have "kept s s'" by (simp add: kept_def s'_def)
  ultimately show ?thesis using i(2,3) by (intro exI [of _ i] exI [of _ s']) (simp add: s'_def)
qed

lemma give_elem_spec:
  assumes ok: "sub_ok s" and i: "i \<in> used_elems s"
  shows "\<exists>s'. give_elem i s = Inr s' \<and> used_elems s' = used_elems s - {i} \<and> sub_ok s' \<and>
     s_numAvail s' = s_numAvail s + 1 \<and> kept s s'"
proof -
  have i': "0 \<le> i" "i < s_maxNumElems s" "elem_used s i" using i by (auto simp: used_elems_def)
  define q where "q = nat (i div 64)"
  define k where "k = nat (i mod 64)"
  define bm where "bm = (s_bitmap s)[q := s_bitmap s ! q XOR push_bit k 1]"
  define s' where "s' = s\<lparr>s_bitmap := bm, s_numAvail := s_numAvail s + 1, s_nextAvail := i\<rparr>"
  have q: "0 \<le> i div 64" "q < length (s_bitmap s)"
    using bit_pos [OF i'(1,2), of s] ok by (auto simp: sub_ok_def q_def)
  have w: "signed_drop_bit k (s_bitmap s ! q) AND 1 \<noteq> 0"
    using i'(3) shifted_bit [of k "s_bitmap s ! q"] by (simp add: elem_used_def q_def k_def nat_less_iff)
  have idx: "shr i 6 = i div 64" "i AND 63 = i mod 64" by (simp_all add: shr_eq and_mask_mod)
  have "give_elem i s = Inr s'"
    using q w by (simp add: give_elem_def idx Let_def at_vec_def set_vec_def q_def [symmetric] setNextAvail_def
        k_def [symmetric] bm_def s'_def nat_less_iff [symmetric])
  moreover have u: "elem_used s' j \<longleftrightarrow> j \<noteq> i \<and> elem_used s j" if "0 \<le> j" for j
    using elem_used_set(2) [of i s j] q i' that by (simp add: elem_used_def s'_def bm_def q_def k_def)
  then have us: "used_elems s' = used_elems s - {i}"
    by (auto simp: used_elems_def s'_def)
  moreover have "card (used_elems s - {i}) = card (used_elems s) - 1" "0 < card (used_elems s)"
    using i by (simp_all add: card_gt_0_iff) blast
  then have "sub_ok s'" using ok us u [of i] i' by (simp add: sub_ok_def s'_def bm_def)
  moreover have "kept s s'" by (simp add: kept_def s'_def)
  ultimately show ?thesis by (intro exI [of _ s']) (simp add: s'_def)
qed

lemma give_elem_twice:
  assumes ok: "sub_ok s" and i: "0 \<le> i" "i < s_maxNumElems s" "i \<notin> used_elems s"
  shows "give_elem i s = Inl AssertFailed"
proof -
  have q: "0 \<le> i div 64" "nat (i div 64) < length (s_bitmap s)"
    using bit_pos [OF i(1,2), of s] ok by (auto simp: sub_ok_def)
  have "signed_drop_bit (nat (i mod 64)) (s_bitmap s ! nat (i div 64)) AND 1 = 0"
    using i shifted_bit [of "nat (i mod 64)" "s_bitmap s ! nat (i div 64)"]
    by (simp add: used_elems_def elem_used_def nat_less_iff)
  then show ?thesis using q by (simp add: give_elem_def Let_def shr_eq and_mask_mod at_vec_def)
qed

end
