(* ===== verification/SubpageSpec.thy ===== *)
theory SubpageSpec
  imports Subpage
begin

text \<open>
  What a subpage promises: elements are handed out once, exactly until they are given back,
  and the ring of the arena holds the subpages that still have a free element.
\<close>

subsection \<open>The links\<close>

definition nxt :: "sub_store \<Rightarrow> nat \<rightharpoonup> nat" where "nxt st a = Option.bind (st a) s_next"
definition prv :: "sub_store \<Rightarrow> nat \<rightharpoonup> nat" where "prv st a = Option.bind (st a) s_prev"

lemma nxt_upd [simp]: "nxt (st(a \<mapsto> s)) = (nxt st)(a := s_next s)"
  and prv_upd [simp]: "prv (st(a \<mapsto> s)) = (prv st)(a := s_prev s)"
  by (auto simp: nxt_def prv_def)

text \<open>A subpage without its links.\<close>

definition payload :: "subpage \<Rightarrow> subpage" where
  "payload s = s\<lparr>s_prev := None, s_next := None\<rparr>"

lemma payload_links [simp]:
  "payload (s\<lparr>s_prev := p\<rparr>) = payload s" "payload (s\<lparr>s_next := p\<rparr>) = payload s"
  "payload (s\<lparr>s_prev := p, s_next := q\<rparr>) = payload s"
  by (simp_all add: payload_def)

lemma payload_eqD:
  assumes "payload s = payload s'"
  shows "s_numAvail s = s_numAvail s'" "s_dontRelease s = s_dontRelease s'" "sub_ok s = sub_ok s'"
    "used_elems s = used_elems s'" "s_maxNumElems s = s_maxNumElems s'" "s_elemSize s = s_elemSize s'"
    "toHandle s i = toHandle s' i"
proof -
  have "sub_ok (payload s) = sub_ok s" "used_elems (payload s) = used_elems s" "s_numAvail (payload s) = s_numAvail s"
    "s_dontRelease (payload s) = s_dontRelease s" "s_maxNumElems (payload s) = s_maxNumElems s"
    "s_elemSize (payload s) = s_elemSize s" "toHandle (payload s) i = toHandle s i" for s
    by (simp_all add: payload_def sub_ok_def used_elems_def elem_used_def toHandle_def)
  then show "s_numAvail s = s_numAvail s'" "s_dontRelease s = s_dontRelease s'" "sub_ok s = sub_ok s'"
    "used_elems s = used_elems s'" "s_maxNumElems s = s_maxNumElems s'" "s_elemSize s = s_elemSize s'"
    "toHandle s i = toHandle s' i"
    using assms by metis+
qed

definition same_payloads :: "sub_store \<Rightarrow> sub_store \<Rightarrow> bool" where
  "same_payloads st st' \<longleftrightarrow> (\<forall>a. map_option payload (st' a) = map_option payload (st a))"

lemma addToPool_ring:
  assumes r: "ring (nxt st) (prv st) h xs" and a: "a \<notin> set (h # xs)"
    and s: "st a = Some s" "s_prev s = None" "s_next s = None"
  shows "\<exists>st'. addToPool h a st = Inr st' \<and> ring (nxt st') (prv st') h (a # xs) \<and> same_payloads st st'"
proof -
  note R = ring_insert_first [OF r a]
  obtain hd where hd: "st h = Some hd" "s_next hd = Some (List.hd (xs @ [h]))"
    using R(1) by (auto simp: nxt_def bind_eq_Some_conv)
  define n where "n = List.hd (xs @ [h])"
  have na: "n \<noteq> a" using a by (cases xs) (auto simp: n_def)
  have "\<exists>nd. st n = Some nd"
  proof -
    have "prv st n = Some h" using r path_first [of "nxt st" "prv st" h xs h] by (auto simp: ring_def n_def)
    then show ?thesis by (auto simp: prv_def bind_eq_Some_conv)
  qed
  then obtain nd where nd: "st n = Some nd" by blast
  have ah: "a \<noteq> h" using a by simp
  define st2 where "st2 = st(a \<mapsto> s\<lparr>s_prev := Some h, s_next := Some n\<rparr>)"
  define st3 where "st3 = st2(n \<mapsto> nd\<lparr>s_prev := Some a\<rparr>)"
  obtain hd3 where hd3: "st3 h = Some hd3" "s_prev hd3 = (if n = h then Some a else s_prev hd)"
    "payload hd3 = payload hd" "s_next hd3 = Some n"
    using hd nd ah by (cases "n = h") (auto simp: st3_def st2_def n_def)
  define st4 where "st4 = st3(h \<mapsto> hd3\<lparr>s_next := Some a\<rparr>)"
  have run: "addToPool h a st = Inr st4"
    using s hd nd na ah hd3(1)
    by (simp add: addToPool_def deref_def store_upd_def assert_that_def n_def [symmetric] st2_def [symmetric]
        st3_def [symmetric] st4_def [symmetric] fun_upd_same fun_upd_upd fun_upd_other)
      (simp add: st2_def st3_def st4_def fun_upd_upd)
  have "nxt st4 = (nxt st)(a := nxt st h, h := Some a)"
    using hd nd na ah by (auto simp: st4_def st3_def st2_def nxt_def n_def fun_eq_iff)
  moreover have "prv st4 = (prv st)(a := Some h, n := Some a)"
    using hd nd na ah hd3 by (auto simp: st4_def st3_def st2_def prv_def fun_eq_iff)
  moreover have "same_payloads st st4"
    using s hd nd hd3 by (auto simp: same_payloads_def st4_def st3_def st2_def)
  ultimately show ?thesis using run R(2) by (auto simp: n_def)
qed

lemma removeFromPool_ring:
  assumes r: "ring (nxt st) (prv st) h (ys @ a # zs)"
  shows "\<exists>st'. removeFromPool a st = Inr st' \<and> ring (nxt st') (prv st') h (ys @ zs) \<and>
    same_payloads st st' \<and> nxt st' a = None \<and> prv st' a = None"
proof -
  note R = ring_remove [OF r]
  have d: "distinct (h # ys @ a # zs)" using r by (simp add: ring_def)
  define p where "p = last (h # ys)"
  define n where "n = hd (zs @ [h])"
  have ap: "a \<noteq> p" "a \<noteq> n" using d by (cases ys rule: rev_cases; cases zs; auto simp: p_def n_def)+
  obtain s where s: "st a = Some s" "s_prev s = Some p" "s_next s = Some n"
    using R(1,2) by (auto simp: nxt_def prv_def p_def n_def bind_eq_Some_conv)
  have pth: "path (nxt st) (prv st) h ys a" "path (nxt st) (prv st) a zs h"
    using r by (auto simp: ring_def path_append)
  obtain pd where pd: "st p = Some pd"
    using path_last [OF pth(1)] by (auto simp: nxt_def p_def bind_eq_Some_conv)
  obtain nd where nd: "st n = Some nd"
    using path_first [OF pth(2)] by (auto simp: prv_def n_def bind_eq_Some_conv)
  define st1 where "st1 = st(p \<mapsto> pd\<lparr>s_next := Some n\<rparr>)"
  obtain nd1 where nd1: "st1 n = Some nd1" "payload nd1 = payload nd"
      "s_next nd1 = (if n = p then Some n else s_next nd)"
    using nd pd by (cases "n = p") (auto simp: st1_def)
  define st2 where "st2 = st1(n \<mapsto> nd1\<lparr>s_prev := Some p\<rparr>)"
  have a2: "st2 a = Some s" using ap s by (simp add: st2_def st1_def)
  define st3 where "st3 = st2(a \<mapsto> s\<lparr>s_prev := None, s_next := None\<rparr>)"
  have run: "removeFromPool a st = Inr st3"
    using s pd nd1(1) a2 unfolding removeFromPool_def
    by (simp add: deref_def store_upd_def assert_that_def st1_def [symmetric] st2_def [symmetric] st3_def [symmetric])
  have "nxt st3 = (nxt st)(p := nxt st a, a := None)"
    using s pd nd nd1 ap by (auto simp: st3_def st2_def st1_def nxt_def fun_eq_iff)
  moreover have "prv st3 = (prv st)(n := prv st a, a := None)"
    using s pd nd nd1 ap by (auto simp: st3_def st2_def st1_def prv_def fun_eq_iff)
  moreover have "same_payloads st st3"
    using s pd nd nd1 ap by (auto simp: same_payloads_def st3_def st2_def st1_def)
  ultimately show ?thesis using run R(3) by (auto simp: p_def n_def)
qed

subsection \<open>The pool of one size class\<close>

definition pool_ok :: "sub_store \<Rightarrow> nat \<Rightarrow> nat list \<Rightarrow> bool" where
  "pool_ok st h xs \<longleftrightarrow> ring (nxt st) (prv st) h xs \<and>
     (\<forall>a \<in> set xs. \<exists>s. st a = Some s \<and> sub_ok s \<and> 0 < s_numAvail s \<and> s_dontRelease s)"

lemma pool_okD: "pool_ok st h xs \<Longrightarrow> a \<in> set xs \<Longrightarrow>
    \<exists>s. st a = Some s \<and> sub_ok s \<and> 0 < s_numAvail s \<and> s_dontRelease s"
  by (simp add: pool_ok_def)

lemma same_payloadsD: "same_payloads st st' \<Longrightarrow> st a = Some s \<Longrightarrow> \<exists>s'. st' a = Some s' \<and> payload s' = payload s"
  unfolding same_payloads_def by (metis map_option_eq_Some)

lemma pool_ok_payloads:
  assumes "same_payloads st st'" "ring (nxt st') (prv st') h ys"
    "\<forall>a \<in> set ys. \<exists>s. st a = Some s \<and> sub_ok s \<and> 0 < s_numAvail s \<and> s_dontRelease s"
  shows "pool_ok st' h ys"
  unfolding pool_ok_def
proof (intro conjI ballI)
  fix a assume "a \<in> set ys"
  then obtain s where s: "st a = Some s" "sub_ok s" "0 < s_numAvail s" "s_dontRelease s" using assms(3) by blast
  obtain s' where "st' a = Some s'" "payload s' = payload s" using same_payloadsD [OF assms(1) s(1)] by blast
  then show "\<exists>s. st' a = Some s \<and> sub_ok s \<and> 0 < s_numAvail s \<and> s_dontRelease s"
    using s payload_eqD [of s' s] by simp
qed (rule assms(2))

text \<open>All subpages but \<open>a\<close> are unchanged up to their links.\<close>

definition others_kept :: "nat \<Rightarrow> sub_store \<Rightarrow> sub_store \<Rightarrow> bool" where
  "others_kept a st st' \<longleftrightarrow> (\<forall>b. b \<noteq> a \<longrightarrow> map_option payload (st' b) = map_option payload (st b))"

lemma same_payloads_others: "same_payloads (st(a \<mapsto> s)) st' \<Longrightarrow> others_kept a st st'"
  by (auto simp: same_payloads_def others_kept_def)

lemma kept_links: "kept s s' \<Longrightarrow> st a = Some s \<Longrightarrow> nxt (st(a \<mapsto> s')) = nxt st \<and> prv (st(a \<mapsto> s')) = prv st"
  using keptD(2,3) [of s s'] by (auto simp: nxt_def prv_def fun_eq_iff)

lemma sub_allocate_pool:
  assumes P: "pool_ok st h (ys @ a # zs)"
  shows "\<exists>s i st' s'. st a = Some s \<and> sub_allocate a st = Inr (toHandle s i, st') \<and> 0 \<le> i \<and> i < s_maxNumElems s \<and>
    i \<notin> used_elems s \<and> st' a = Some s' \<and> used_elems s' = insert i (used_elems s) \<and> sub_ok s' \<and>
    s_numAvail s' = s_numAvail s - 1 \<and> s_maxNumElems s' = s_maxNumElems s \<and>
    pool_ok st' h (if s_numAvail s = 1 then ys @ zs else ys @ a # zs) \<and> others_kept a st st'"
proof -
  obtain s where s: "st a = Some s" "sub_ok s" "0 < s_numAvail s" "s_dontRelease s"
    using pool_okD [OF P, of a] by auto
  obtain i t where t: "take_elem s = Inr (i, t)" "0 \<le> i" "i < s_maxNumElems s" "i \<notin> used_elems s"
    "used_elems t = insert i (used_elems s)" "sub_ok t" "s_numAvail t = s_numAvail s - 1" "kept s t"
    using take_elem_spec [OF s(2,3)] by blast
  define st1 where "st1 = st(a \<mapsto> t)"
  have r: "ring (nxt st1) (prv st1) h (ys @ a # zs)"
    using P kept_links [of s t st a, OF t(8) s(1)] by (simp add: pool_ok_def st1_def)
  have d: "a \<notin> set ys \<union> set zs" using r by (auto simp: ring_def)
  have good: "\<exists>s. st1 b = Some s \<and> sub_ok s \<and> 0 < s_numAvail s \<and> s_dontRelease s" if "b \<in> set ys \<union> set zs" for b
    using pool_okD [OF P, of b] that d by (auto simp: st1_def)
  have H: "toHandle t i = toHandle s i" using keptD [OF t(8)] by (simp add: toHandle_def)
  show ?thesis
  proof (cases "s_numAvail s = 1")
    case True
    obtain st2 where 2: "removeFromPool a st1 = Inr st2" "ring (nxt st2) (prv st2) h (ys @ zs)"
      "same_payloads st1 st2" using removeFromPool_ring [OF r] by blast
    have "pool_ok st2 h (ys @ zs)" by (rule pool_ok_payloads [OF 2(3,2)]) (use good in auto)
    moreover obtain s' where s': "st2 a = Some s'" "payload s' = payload t"
      using same_payloadsD [OF 2(3), of a t] by (auto simp: st1_def)
    moreover have "others_kept a st st2" using 2(3) same_payloads_others by (simp add: st1_def)
    moreover have "sub_allocate a st = Inr (toHandle s i, st2)"
      using s t 2(1) True H by (simp add: sub_allocate_def deref_def st1_def Let_def)
    ultimately show ?thesis using True s(1) t keptD(1) [OF t(8)] payload_eqD [OF s'(2)] by auto
  next
    case False
    have "pool_ok st1 h (ys @ a # zs)"
      unfolding pool_ok_def using r good s t keptD(4) [OF t(8)] False by (auto simp: st1_def)
    moreover have "others_kept a st st1" by (simp add: others_kept_def st1_def)
    moreover have "sub_allocate a st = Inr (toHandle s i, st1)"
      using s t False H by (simp add: sub_allocate_def deref_def st1_def Let_def)
    ultimately show ?thesis using False s(1) t keptD(1) [OF t(8)] by (auto simp: st1_def)
  qed
qed

text \<open>Freeing an element: a full subpage comes back to the front of the pool; one that becomes
  empty leaves it, unless it is the only one left.\<close>

lemma sub_free_full:
  assumes P: "pool_ok st h xs" and a: "a \<notin> set (h # xs)"
    and s: "st a = Some s" "sub_ok s" "s_numAvail s = 0" "s_dontRelease s" "s_prev s = None" "s_next s = None"
    and i: "i \<in> used_elems s"
  shows "\<exists>st' s'. sub_free a h i st = Inr (True, st') \<and> st' a = Some s' \<and> sub_ok s' \<and>
    used_elems s' = used_elems s - {i} \<and> s_numAvail s' = 1 \<and> pool_ok st' h (a # xs) \<and> others_kept a st st'"
proof -
  obtain t where t: "give_elem i s = Inr t" "used_elems t = used_elems s - {i}" "sub_ok t"
    "s_numAvail t = s_numAvail s + 1" "kept s t" using give_elem_spec [OF s(2) i] by blast
  define st1 where "st1 = st(a \<mapsto> t)"
  have r: "ring (nxt st1) (prv st1) h xs"
    using P kept_links [of s t st a, OF t(5) s(1)] by (simp add: pool_ok_def st1_def)
  have "st1 a = Some t" "s_prev t = None" "s_next t = None" using keptD [OF t(5)] s by (simp_all add: st1_def)
  then obtain st2 where 2: "addToPool h a st1 = Inr st2" "ring (nxt st2) (prv st2) h (a # xs)" "same_payloads st1 st2"
    using addToPool_ring [OF r a] by blast
  have good: "\<exists>s. st1 b = Some s \<and> sub_ok s \<and> 0 < s_numAvail s \<and> s_dontRelease s" if "b \<in> set (a # xs)" for b
    using pool_okD [OF P, of b] that a t s keptD(4) [OF t(5)] by (cases "b = a") (auto simp: st1_def)
  have "pool_ok st2 h (a # xs)" by (rule pool_ok_payloads [OF 2(3,2)]) (use good in blast)
  moreover obtain s' where s': "st2 a = Some s'" "payload s' = payload t"
    using same_payloadsD [OF 2(3), of a t] by (auto simp: st1_def)
  moreover have "others_kept a st st2" using 2(3) same_payloads_others by (simp add: st1_def)
  moreover have "s_elemSize s \<noteq> 0" using s(2) by (simp add: sub_ok_def)
  then have "sub_free a h i st = Inr (True, st2)"
    using s t(1) 2(1) by (simp add: sub_free_def deref_def st1_def Let_def)
  ultimately show ?thesis using t s(3) payload_eqD [OF s'(2)] by auto
qed

lemma sub_free_pooled:
  assumes P: "pool_ok st h (ys @ a # zs)" and s: "st a = Some s" and i: "i \<in> used_elems s"
  defines "gone \<equiv> s_numAvail s + 1 = s_maxNumElems s \<and> ys @ zs \<noteq> []"
  shows "\<exists>st' s'. sub_free a h i st = Inr (\<not> gone, st') \<and> st' a = Some s' \<and> sub_ok s' \<and>
    used_elems s' = used_elems s - {i} \<and> s_numAvail s' = s_numAvail s + 1 \<and> s_dontRelease s' = (\<not> gone) \<and>
    pool_ok st' h (if gone then ys @ zs else ys @ a # zs) \<and> others_kept a st st'"
proof -
  have s': "sub_ok s" "0 < s_numAvail s" "s_dontRelease s" using pool_okD [OF P, of a] s by auto
  obtain t where t: "give_elem i s = Inr t" "used_elems t = used_elems s - {i}" "sub_ok t"
    "s_numAvail t = s_numAvail s + 1" "kept s t" using give_elem_spec [OF s'(1) i] by blast
  define st1 where "st1 = st(a \<mapsto> t)"
  have links: "nxt st1 = nxt st" "prv st1 = prv st"
    using kept_links [of s t st a, OF t(5) s] by (simp_all add: st1_def)
  have r0: "ring (nxt st) (prv st) h (ys @ a # zs)" using P by (simp add: pool_ok_def)
  have r: "ring (nxt st1) (prv st1) h (ys @ a # zs)" using r0 links by simp
  have d: "a \<notin> set ys \<union> set zs" "distinct (h # ys @ a # zs)" using r by (auto simp: ring_def)
  have good: "\<exists>s. st1 b = Some s \<and> sub_ok s \<and> 0 < s_numAvail s \<and> s_dontRelease s" if "b \<in> set ys \<union> set zs" for b
    using pool_okD [OF P, of b] that d by (auto simp: st1_def)
  have pn: "s_prev t = s_prev s" "s_next t = s_next s" "s_maxNumElems t = s_maxNumElems s" "s_dontRelease t"
    using keptD [OF t(5)] s'(3) by auto
  have single: "s_prev s = s_next s \<longleftrightarrow> ys @ zs = []"
  proof -
    have "s_prev s = Some (last (h # ys))" "s_next s = Some (hd (zs @ [h]))"
      using ring_remove(1,2) [OF r0] s by (auto simp: nxt_def prv_def)
    moreover have "last (h # ys) = hd (zs @ [h]) \<longleftrightarrow> ys @ zs = []"
      using d(2) by (cases ys rule: rev_cases; cases zs; auto)
    ultimately show ?thesis by auto
  qed
  have es: "s_elemSize s \<noteq> 0" using s'(1) by (simp add: sub_ok_def)
  have keep: "pool_ok st1 h (ys @ a # zs)"
    unfolding pool_ok_def using r good t s' pn by (auto simp: st1_def)
  show ?thesis
  proof (cases gone)
    case False
    have "sub_free a h i st = Inr (True, st1)"
      using s t(1,4) pn False single s'(2) es
      by (auto simp: sub_free_def deref_def st1_def [symmetric] Let_def gone_def)
    moreover have "others_kept a st st1" by (simp add: others_kept_def st1_def)
    ultimately show ?thesis using False keep t pn by (auto simp: st1_def)
  next
    case True
    define u where "u = t\<lparr>s_dontRelease := False\<rparr>"
    define st2 where "st2 = st1(a \<mapsto> u)"
    have "nxt st2 = nxt st1" "prv st2 = prv st1" by (auto simp: st2_def st1_def u_def)
    then have r2: "ring (nxt st2) (prv st2) h (ys @ a # zs)" using r by simp
    obtain st3 where 3: "removeFromPool a st2 = Inr st3" "ring (nxt st3) (prv st3) h (ys @ zs)"
      "same_payloads st2 st3" using removeFromPool_ring [OF r2] by blast
    have "pool_ok st3 h (ys @ zs)" by (rule pool_ok_payloads [OF 3(3,2)]) (use good d in \<open>auto simp: st2_def\<close>)
    moreover obtain v where v: "st3 a = Some v" "payload v = payload u"
      using same_payloadsD [OF 3(3), of a u] by (auto simp: st2_def)
    moreover have "sub_ok u" "used_elems u = used_elems t" "s_numAvail u = s_numAvail t" "\<not> s_dontRelease u"
      using t(3) by (simp_all add: u_def sub_ok_def used_elems_def elem_used_def)
    moreover have "others_kept a st st3"
      using 3(3) by (auto simp: same_payloads_def others_kept_def st2_def st1_def)
    moreover have "sub_free a h i st = Inr (False, st3)"
      using s t(1,4) pn True single s'(2) es 3(1)
      by (simp add: sub_free_def deref_def store_upd_def st1_def [symmetric] Let_def gone_def)
        (simp add: st1_def st2_def u_def)
    ultimately show ?thesis using True t payload_eqD [OF v(2)] by auto
  qed
qed

subsection \<open>A new subpage\<close>

lemma new_bitmap_length:
  fixes e rsz :: int
  assumes "16 \<le> e" "e \<le> rsz" "rsz mod 1024 = 0"
  shows "(rsz div e + 63) div 64 \<le> rsz div 1024"
proof -
  define q where "q = rsz div 1024"
  have k: "rsz = 1024 * q"
    unfolding q_def using assms(3) mult_div_mod_eq [of 1024 rsz] by linarith
  have e: "rsz div 16 = 64 * q" "rsz div 1024 = q" by (simp_all add: k)
  have "rsz div e \<le> rsz div 16" using assms by (intro zdiv_mono2) auto
  then have le: "rsz div e + 63 \<le> 64 * q + 63" by (simp only: e)
  have "(rsz div e + 63) div 64 \<le> (64 * q + 63) div 64" by (rule zdiv_mono1 [OF le]) simp
  also have "\<dots> = q" by (rule div_64) auto
  finally show ?thesis by (simp only: e)
qed

lemma ceil_code: "0 \<le> (m::int) \<Longrightarrow> (if m AND 63 \<noteq> 0 then shr m 6 + 1 else shr m 6) = (m + 63) div 64"
proof -
  assume "0 \<le> m"
  define q where "q = m div 64"
  define r where "r = m mod 64"
  have m: "m = q * 64 + r" "0 \<le> r" "r < 64" by (simp_all add: q_def r_def)
  have "(m + 63) div 64 = (q * 64 + (r + 63)) div 64" using m(1) by (simp add: add.assoc)
  also have "\<dots> = q + (r + 63) div 64" by simp
  also have "\<dots> = (if r \<noteq> 0 then q + 1 else q)"
  proof (cases "r = 0")
    case False
    then have "(r + 63) div 64 = 1" using m by (intro div_64) auto
    then show ?thesis using False by simp
  qed simp
  finally show ?thesis by (simp add: shr_eq and_mask_mod q_def r_def)
qed

lemma new_subpage_pool:
  assumes P: "pool_ok st h xs" and a: "a \<notin> set (h # xs)"
    and e: "16 \<le> e" "e \<le> rsz" "rsz mod 1024 = 0" "rsz < 2 ^ 30"
  shows "\<exists>st' s. PoolSubpage a h chunk pageShifts runOffset rsz e st = Inr st' \<and> st' a = Some s \<and>
    s_maxNumElems s = rsz div e \<and> used_elems s = {} \<and> s_runOffset s = runOffset \<and> s_runSize s = rsz \<and>
    s_pageShifts s = pageShifts \<and> s_elemSize s = e \<and> pool_ok st' h (a # xs) \<and> others_kept a st st'"
proof -
  define m where "m = rsz div e"
  define s where "s = PoolSubpage_head\<lparr>s_chunk := chunk, s_pageShifts := pageShifts, s_runSize := rsz,
    s_runOffset := runOffset, s_elemSize := e, s_bitmap := replicate (nat (rsz div 1024)) 0, s_dontRelease := True,
    s_maxNumElems := m, s_numAvail := m, s_nextAvail := 0, s_bitmapLength := (m + 63) div 64\<rparr>"
  have m0: "0 < m" using e by (simp add: m_def pos_imp_zdiv_pos_iff)
  have len: "(m + 63) div 64 \<le> rsz div 1024" using new_bitmap_length [OF e(1-3)] by (simp only: m_def)
  have clear: "\<not> elem_used s i" if "0 \<le> i" "i < m" for i
  proof -
    have "i div 64 < rsz div 1024" using div_ceil_64 [OF that(2)] len by (rule less_le_trans)
    then have "nat (i div 64) < nat (rsz div 1024)" using div_int_nonneg [OF that(1)] by (simp only: nat_mono_iff)
    then show ?thesis by (simp add: elem_used_def s_def)
  qed
  have used: "used_elems s = {}" using clear by (auto simp: used_elems_def s_def)
  have "rsz div 1024 < 2 ^ 20" using e(4) by (simp add: int_div_less)
  moreover have "0 \<le> rsz div 1024" using e by (simp add: pos_imp_zdiv_nonneg_iff)
  ultimately have ok: "sub_ok s"
    using used m0 len e clear [of 0] by (simp add: sub_ok_def s_def)
  define st1 where "st1 = st(a \<mapsto> s)"
  have build: "PoolSubpage a h chunk pageShifts runOffset rsz e st = addToPool h a st1"
  proof -
    have "(if m AND 63 \<noteq> 0 then shr m 6 + 1 else shr m 6) = (m + 63) div 64" using m0 by (intro ceil_code) simp
    then show ?thesis using e(1)
      by (simp add: PoolSubpage_def Let_def st1_def s_def m_def [symmetric] shr_eq [of rsz])
  qed
  have out: "b \<in> set (h # xs) \<Longrightarrow> st1 b = st b" for b using a by (auto simp: st1_def)
  have pth: "path (nxt st) (prv st) h xs h" and dis: "distinct (h # xs)"
    using P by (simp_all add: pool_ok_def ring_def)
  have "path (nxt st) (prv st) h xs h = path (nxt st1) (prv st1) h xs h"
    by (rule path_cong) (use out in \<open>auto simp: nxt_def prv_def\<close>)
  then have r: "ring (nxt st1) (prv st1) h xs" using pth dis by (simp add: ring_def)
  have "st1 a = Some s" "s_prev s = None" "s_next s = None" by (simp_all add: st1_def s_def PoolSubpage_head_def)
  then obtain st2 where 2: "addToPool h a st1 = Inr st2" "ring (nxt st2) (prv st2) h (a # xs)" "same_payloads st1 st2"
    using addToPool_ring [OF r a] by blast
  have good: "\<exists>s. st1 b = Some s \<and> sub_ok s \<and> 0 < s_numAvail s \<and> s_dontRelease s" if "b \<in> set (a # xs)" for b
    using pool_okD [OF P, of b] that a ok m0 by (cases "b = a") (auto simp: st1_def s_def)
  have "pool_ok st2 h (a # xs)" by (rule pool_ok_payloads [OF 2(3,2)]) (use good in blast)
  moreover obtain v where v: "st2 a = Some v" "payload v = payload s"
    using same_payloadsD [OF 2(3), of a s] by (auto simp: st1_def)
  moreover have "s_runOffset v = s_runOffset s" "s_runSize v = s_runSize s" "s_pageShifts v = s_pageShifts s"
    using arg_cong [OF v(2), of s_runOffset] arg_cong [OF v(2), of s_runSize] arg_cong [OF v(2), of s_pageShifts]
    by (simp_all add: payload_def)
  moreover have "others_kept a st st2" using 2(3) same_payloads_others by (simp add: st1_def)
  ultimately show ?thesis using build 2(1) used payload_eqD [OF v(2)] by (auto simp: s_def m_def)
qed

text \<open>A concrete pool: the sentinel at address 0 and a page cut into four elements at address 1.\<close>

lemma head_pool: "pool_ok [0 \<mapsto> PoolSubpage_head\<lparr>s_prev := Some 0, s_next := Some 0\<rparr>] 0 []"
  by (simp add: pool_ok_def ring_def nxt_def prv_def)

lemma pool_example:
  "\<exists>st s. pool_ok st 0 [1] \<and> st 1 = Some s \<and> s_maxNumElems s = 4 \<and> used_elems s = {}"
proof -
  have "(1::nat) \<notin> set [0]" by simp
  from new_subpage_pool [OF head_pool this, of 2048 8192 None 13 7] show ?thesis by auto
qed

lemma pool_example_used:
  "\<exists>st s i. pool_ok st 0 ([] @ 1 # []) \<and> st 1 = Some s \<and> i \<in> used_elems s \<and> s_numAvail s = 3 \<and> s_maxNumElems s = 4"
proof -
  obtain st s where 0: "pool_ok st 0 ([] @ 1 # [])" "st 1 = Some s" "s_maxNumElems s = 4" "used_elems s = {}"
    using pool_example by auto
  then have n: "s_numAvail s = 4" using pool_okD [OF 0(1), of 1] by (auto simp: sub_ok_def)
  obtain i st' s' where "st' 1 = Some s'" "used_elems s' = insert i (used_elems s)" "sub_ok s'"
    "s_numAvail s' = s_numAvail s - 1" "s_maxNumElems s' = 4" "pool_ok st' 0 ([] @ 1 # [])"
    using sub_allocate_pool [OF 0(1)] 0(2,3) n by auto
  moreover have "i \<in> used_elems s'" "s_numAvail s' = 3" using calculation n by simp_all
  ultimately show ?thesis by blast
qed

subsection \<open>Properties\<close>

text \<open>C17. Allocating from a pooled subpage hands out an element index that is in range and not
  in use, marks exactly that element, and keeps the ring to the subpages with free elements:
  the subpage leaves it exactly when its last element is taken. No other subpage changes but
  for its links.\<close>

theorem sub_allocate_fresh:
  assumes "pool_ok st h (ys @ a # zs)" "st a = Some s"
  shows "\<exists>i st' s'. sub_allocate a st = Inr (toHandle s i, st') \<and> 0 \<le> i \<and> i < s_maxNumElems s \<and>
    i \<notin> used_elems s \<and> st' a = Some s' \<and> used_elems s' = insert i (used_elems s) \<and>
    pool_ok st' h (if s_numAvail s = 1 then ys @ zs else ys @ a # zs) \<and> others_kept a st st'"
  using sub_allocate_pool [OF assms(1)] assms(2) by fastforce

theorem sub_allocate_fresh_witness:
  "\<exists>st s i st' s'. s_maxNumElems s = 4 \<and> used_elems s = {} \<and> sub_allocate 1 st = Inr (toHandle s i, st') \<and>
    0 \<le> i \<and> i < 4 \<and> st' 1 = Some s' \<and> used_elems s' = {i}"
proof -
  obtain st s where s: "pool_ok st 0 ([] @ 1 # [])" "st 1 = Some s" "s_maxNumElems s = 4" "used_elems s = {}"
    using pool_example by auto
  from sub_allocate_fresh [OF s(1,2)]
  obtain i st' s' where "sub_allocate 1 st = Inr (toHandle s i, st')" "0 \<le> i" "i < 4" "st' 1 = Some s'"
    "used_elems s' = {i}" using s(3,4) by auto
  then show ?thesis using s(3,4) by blast
qed



text \<open>Freeing an element twice is caught: for an element that is not in use \<^verbatim>\<open>free\<close> stops at
  its assertion and no state is changed.\<close>

lemma sub_free_twice:
  assumes "pool_ok st h xs" "a \<in> set xs" "st a = Some s" "0 \<le> i" "i < s_maxNumElems s" "i \<notin> used_elems s"
  shows "sub_free a h i st = Inl AssertFailed"
proof -
  have "sub_ok s" using pool_okD [OF assms(1,2)] assms(3) by auto
  then have "give_elem i s = Inl AssertFailed" "s_elemSize s \<noteq> 0"
    using give_elem_twice assms(4-6) by (auto simp: sub_ok_def)
  then show ?thesis using assms(3) by (simp add: sub_free_def deref_def)
qed

lemma sub_free_twice_witness: "\<exists>st s. st 1 = Some s \<and> s_maxNumElems s = 4 \<and> sub_free 1 0 2 st = Inl AssertFailed"
proof -
  obtain st s where s: "pool_ok st 0 [1]" "st 1 = Some s" "s_maxNumElems s = 4" "used_elems s = {}"
    using pool_example by blast
  from sub_free_twice [OF s(1) _ s(2), of 2] show ?thesis using s by auto
qed

end
