(* ===== verification/PoolWorld.thy ===== *)
theory PoolWorld
  imports Chunk Subpage
begin

text \<open>
  The state of one arena with the thread cache of the thread that uses it, and the operations
  of \<^verbatim>\<open>PoolChunk\<close> that reach outside the runs of the chunk: subpages (through the arena's
  rings), the initialisation of a \<^verbatim>\<open>PoolByteBuf\<close>, and release. Chunks, subpages and memory
  blocks are addresses in stores; a pointer into a block is the block and an offset. A buffer
  is passed by value and returned changed. Locks are not modelled: an operation is one step.
\<close>

record byte_buf =
  b_maxCapacity :: int
  b_chunk :: "nat option"
  b_handle :: int
  b_memory :: "nat option"
  b_offset :: int
  b_length :: int
  b_maxLength :: int
  b_cache :: bool
  b_tmpBuf :: "ptr option"
  b_readerIndex :: int
  b_writerIndex :: int

datatype list_name = Q100 | Q75 | Q50 | Q25 | Q00 | QInit

datatype size_class_type = SMALL | NORMAL

record chunk_list =
  cl_prevList :: "list_name option"
  cl_nextList :: "list_name option"
  cl_minUsage :: int
  cl_maxUsage :: int
  cl_maxCapacity :: int
  cl_head :: "nat option"
  cl_freeMinThreshold :: int
  cl_freeMaxThreshold :: int

record pooled =
  pc_chunk :: chunk
  pc_prev :: "nat option"
  pc_next :: "nat option"
  pc_parent :: "list_name option"

record cache_entry =
  e_chunk :: nat
  e_buffer :: "ptr option"
  e_handle :: int
  e_normCapacity :: int

record region_cache =
  rc_size :: int
  rc_type :: size_class_type
  rc_allocations :: int
  rc_queue :: "cache_entry list"

text \<open>A block of memory from \<^verbatim>\<open>new char[]\<close>: its size, and the bytes written so far.\<close>

type_synonym mem_block = "int \<times> (int \<rightharpoonup> char)"

record pool =
  w_sizes :: size_class
  w_chunks :: "nat \<rightharpoonup> pooled"
  w_subs :: sub_store
  w_heads :: "nat list"
  w_lists :: "list_name \<Rightarrow> chunk_list"
  w_mem :: "nat \<rightharpoonup> mem_block"
  w_fresh :: nat
  w_small :: "region_cache list"
  w_normal :: "region_cache list"
  w_allocations :: int
  w_threshold :: int
  w_numThreadCaches :: int
  w_activeBytesHuge :: int
  w_counts :: "string \<Rightarrow> int"
  w_recycled :: "byte_buf list"

definition put_chunk :: "nat \<Rightarrow> (pooled \<Rightarrow> pooled) \<Rightarrow> pool \<Rightarrow> pool res" where
  "put_chunk a f w = rbind (store_upd (w_chunks w) (Some a) f) (\<lambda>m. Inr (w\<lparr>w_chunks := m\<rparr>))"

definition get_chunk :: "pool \<Rightarrow> nat \<Rightarrow> pooled res" where
  "get_chunk w a = deref (w_chunks w) (Some a)"

definition bump :: "string \<Rightarrow> pool \<Rightarrow> pool" where
  "bump k w = w\<lparr>w_counts := (w_counts w)(k := w_counts w k + 1)\<rparr>"

subsection \<open>\<^verbatim>\<open>PoolByteBuf\<close>: construction and initialisation\<close>

definition PoolByteBuf :: "int \<Rightarrow> byte_buf res" where
  "PoolByteBuf maxCapacity = assert_that (maxCapacity \<ge> 0)
     (Inr \<lparr>b_maxCapacity = maxCapacity, b_chunk = None, b_handle = 0, b_memory = None, b_offset = 0,
        b_length = 0, b_maxLength = 0, b_cache = False, b_tmpBuf = None, b_readerIndex = 0, b_writerIndex = 0\<rparr>)"

definition init0 ::
  "nat \<Rightarrow> chunk \<Rightarrow> ptr option \<Rightarrow> int \<Rightarrow> int \<Rightarrow> int \<Rightarrow> int \<Rightarrow> bool \<Rightarrow> byte_buf \<Rightarrow> byte_buf res" where
  "init0 ca c buffer handle offset len maxLength cache b =
     assert_that (handle \<ge> 0)
     (let b1 = b\<lparr>b_chunk := Some ca, b_memory := c_memory c, b_cache := cache, b_handle := handle,
                 b_offset := offset, b_length := len, b_maxLength := maxLength\<rparr> in
      case buffer of
        Some p \<Rightarrow> Inr (b1\<lparr>b_tmpBuf := Some p\<rparr>)
      | None \<Rightarrow> (case c_memory c of
            Some blk \<Rightarrow> Inr (b1\<lparr>b_tmpBuf := Some (blk, offset)\<rparr>)
          | None \<Rightarrow> Inl NullDeref))"

definition buf_init ::
  "nat \<Rightarrow> chunk \<Rightarrow> ptr option \<Rightarrow> int \<Rightarrow> int \<Rightarrow> int \<Rightarrow> int \<Rightarrow> bool \<Rightarrow> byte_buf \<Rightarrow> byte_buf res" where
  "buf_init ca c buffer handle offset len maxLength cache b =
     init0 ca c buffer handle offset len maxLength cache b"

definition initUnpool :: "nat \<Rightarrow> chunk \<Rightarrow> int \<Rightarrow> byte_buf \<Rightarrow> byte_buf res" where
  "initUnpool ca c len b = init0 ca c None 0 (c_offset c) len len False b"

subsection \<open>\<^verbatim>\<open>PoolChunk\<close> beyond its runs\<close>

definition findSubpagePoolHead :: "pool \<Rightarrow> int \<Rightarrow> nat res" where
  "findSubpagePoolHead w sizeIdx = at_vec (w_heads w) sizeIdx"

definition initBufWithSubpage ::
  "pool \<Rightarrow> nat \<Rightarrow> ptr option \<Rightarrow> int \<Rightarrow> int \<Rightarrow> bool \<Rightarrow> byte_buf \<Rightarrow> byte_buf res" where
  "initBufWithSubpage w ca buffer handle reqCapacity cache b =
     rbind (get_chunk w ca) (\<lambda>pc.
     let c = pc_chunk pc;
         runOffset = calculateRunOffset handle;
         bitmapIdx = calculateBitmapIdx handle in
     rbind (at_vec (c_subpages c) runOffset) (\<lambda>sp.
     rbind (deref (w_subs w) sp) (\<lambda>s.
     assert_that (s_dontRelease s \<and> reqCapacity \<le> s_elemSize s)
     (buf_init ca c buffer handle
        (shl32 runOffset (c_pageShifts c) + bitmapIdx * s_elemSize s + c_offset c)
        reqCapacity (s_elemSize s) cache b))))"

definition initBuf ::
  "pool \<Rightarrow> nat \<Rightarrow> ptr option \<Rightarrow> int \<Rightarrow> int \<Rightarrow> bool \<Rightarrow> byte_buf \<Rightarrow> byte_buf res" where
  "initBuf w ca buffer handle reqCapacity cache b =
     rbind (get_chunk w ca) (\<lambda>pc.
     let c = pc_chunk pc in
     if isRun handle
     then buf_init ca c buffer handle (shl32 (calculateRunOffset handle) (c_pageShifts c))
            reqCapacity (runSize (c_pageShifts c) handle) True b
     else initBufWithSubpage w ca buffer handle reqCapacity cache b)"

definition allocateSubpage :: "int \<Rightarrow> nat \<Rightarrow> pool \<Rightarrow> (int \<times> pool) res" where
  "allocateSubpage sizeIdx ca w =
     rbind (findSubpagePoolHead w sizeIdx) (\<lambda>head.
     rbind (get_chunk w ca) (\<lambda>pc.
     let c = pc_chunk pc in
     rbind (calculateRunSize_idx (w_sizes w) sizeIdx c) (\<lambda>runSz.
     rbind (allocateRun (w_sizes w) runSz c) (\<lambda>(runHandle, c1).
     rbind (put_chunk ca (\<lambda>p. p\<lparr>pc_chunk := c1\<rparr>) w) (\<lambda>w1.
     if runHandle < 0 then Inr (- 1, w1)
     else
       let runOffset = calculateRunOffset runHandle in
       rbind (at_vec (c_subpages c1) runOffset) (\<lambda>old.
       assert_that (old = None)
       (rbind (sizeIdx2size (w_sizes w) sizeIdx) (\<lambda>elemSize.
        let a = w_fresh w1 in
        rbind (PoolSubpage a head (Some ca) (c_pageShifts c1) runOffset
                 (calculateRunSize (c_pageShifts c1) runHandle) elemSize (w_subs w1)) (\<lambda>st.
        rbind (set_vec (c_subpages c1) runOffset (Some a)) (\<lambda>subs.
        rbind (put_chunk ca (\<lambda>p. p\<lparr>pc_chunk := c1\<lparr>c_subpages := subs\<rparr>\<rparr>)
                 (w1\<lparr>w_fresh := Suc a\<rparr>)) (\<lambda>w2.
        rbind (sub_allocate a st) (\<lambda>(h, st').
        Inr (h, w2\<lparr>w_subs := st'\<rparr>)))))))))))))"

text \<open>\<open>pop_back\<close> of the cached buffers: the pointer that the new buffer gets as its \<open>tmpBuf\<close>.\<close>

definition take_cached :: "nat \<Rightarrow> pool \<Rightarrow> (ptr option \<times> pool) res" where
  "take_cached ca w =
     rbind (get_chunk w ca) (\<lambda>pc.
     let bs = c_cachedBuffers (pc_chunk pc) in
     if bs = [] then Inr (None, w)
     else rbind (put_chunk ca (\<lambda>p. p\<lparr>pc_chunk := (pc_chunk p)\<lparr>c_cachedBuffers := butlast bs\<rparr>\<rparr>) w) (\<lambda>w'.
          Inr (Some (last bs), w')))"

definition chunk_allocate ::
  "int \<Rightarrow> int \<Rightarrow> bool \<Rightarrow> nat \<Rightarrow> byte_buf \<Rightarrow> pool \<Rightarrow> (bool \<times> byte_buf \<times> pool) res" where
  "chunk_allocate reqCapacity sizeIdx cache ca b w =
     rbind
       (if sizeIdx \<le> m_smallMaxSizeIdx (w_sizes w)
        then rbind (allocateSubpage sizeIdx ca w) (\<lambda>(handle, w1).
             if handle < 0 then Inr (handle, w1)
             else assert_that (isSubpage handle) (Inr (handle, w1)))
        else rbind (sizeIdx2size (w_sizes w) sizeIdx) (\<lambda>runSz.
             rbind (get_chunk w ca) (\<lambda>pc.
             rbind (allocateRun (w_sizes w) runSz (pc_chunk pc)) (\<lambda>(handle, c1).
             rbind (put_chunk ca (\<lambda>p. p\<lparr>pc_chunk := c1\<rparr>) w) (\<lambda>w1. Inr (handle, w1))))))
       (\<lambda>(handle, w1).
     if handle < 0 then Inr (False, b, w1)
     else
       rbind (take_cached ca w1) (\<lambda>(buffer, w2).
       rbind (initBuf w2 ca buffer handle reqCapacity cache b) (\<lambda>b'.
       Inr (True, b', w2))))"

definition chunk_free_run :: "int \<Rightarrow> ptr option \<Rightarrow> nat \<Rightarrow> pool \<Rightarrow> pool res" where
  "chunk_free_run handle buffer ca w =
     rbind (get_chunk w ca) (\<lambda>pc.
     rbind (freeRun (w_sizes w) handle buffer (pc_chunk pc)) (\<lambda>c1.
     put_chunk ca (\<lambda>p. p\<lparr>pc_chunk := c1\<rparr>) w))"

definition chunk_free :: "int \<Rightarrow> int \<Rightarrow> ptr option \<Rightarrow> nat \<Rightarrow> pool \<Rightarrow> pool res" where
  "chunk_free handle normCapacity buffer ca w =
     (if isSubpage handle then
        rbind (size2sizeIdx (w_sizes w) normCapacity) (\<lambda>sizeIdx.
        rbind (findSubpagePoolHead w sizeIdx) (\<lambda>head.
        rbind (get_chunk w ca) (\<lambda>pc.
        let sIdx = calculateRunOffset handle in
        rbind (at_vec (c_subpages (pc_chunk pc)) sIdx) (\<lambda>sp.
        case sp of
          None \<Rightarrow> Inl AssertFailed
        | Some a \<Rightarrow>
            rbind (deref (w_subs w) (Some a)) (\<lambda>s.
            assert_that (s_dontRelease s)
            (rbind (sub_free a head (calculateBitmapIdx handle) (w_subs w)) (\<lambda>(kept, st).
             let w1 = w\<lparr>w_subs := st\<rparr> in
             if kept then Inr w1
             else
               rbind (deref st (Some a)) (\<lambda>s'.
               assert_that (\<not> s_dontRelease s')
               (rbind (set_vec (c_subpages (pc_chunk pc)) sIdx None) (\<lambda>subs.
                rbind (put_chunk ca (\<lambda>p. p\<lparr>pc_chunk := (pc_chunk p)\<lparr>c_subpages := subs\<rparr>\<rparr>) w1) (\<lambda>w2.
                chunk_free_run handle buffer ca w2)))))))))))
      else chunk_free_run handle buffer ca w)"

end
