(* ===== verification/Arena.thy ===== *)
theory Arena
  imports PoolWorld
begin

text \<open>
  \<^verbatim>\<open>buffer/PoolChunkList\<close>, \<^verbatim>\<open>buffer/PoolThreadCache\<close> and \<^verbatim>\<open>buffer/PoolArena\<close>: the chunks of an
  arena in six lists by usage, the caches of freed regions of a thread, and allocation and
  release through both. A chunk list is its name; the chunks of a list are linked by \<open>pc_prev\<close>
  and \<open>pc_next\<close>. The loops along the lists have fuel: a list has at most as many chunks as
  addresses were given out, a chain of lists at most six members. The computation of the
  thresholds in \<^verbatim>\<open>double\<close> is exact rational arithmetic here, which differs from it by less than
  what separates any of the values from an integer; a conversion out of the \<^verbatim>\<open>int\<close> range gives
  the least \<^verbatim>\<open>int\<close>, as x86-64 does.
\<close>

subsection \<open>Chunk lists\<close>

definition double_to_int :: "int \<Rightarrow> int" where
  "double_to_int x = (if INT_MIN \<le> x \<and> x \<le> INT_MAX then x else INT_MIN)"

definition free_threshold :: "int \<Rightarrow> int \<Rightarrow> int" where
  "free_threshold chunkSize pct =
     (if pct = 100 then 0
      else double_to_int (trunc_div (chunkSize * ((100 - pct) * 100000000 + 99999999)) 10000000000))"

definition calculateMaxCapacity :: "int \<Rightarrow> int \<Rightarrow> int \<times> int" where
  "calculateMaxCapacity minUsage chunkSize =
     (let m = max 0 minUsage in (m, if m = 100 then 0 else i32 (chunkSize * (100 - m) div 100)))"

definition PoolChunkList ::
  "list_name option \<Rightarrow> int \<Rightarrow> int \<Rightarrow> int \<Rightarrow> chunk_list res" where
  "PoolChunkList nextList minUsage maxUsage chunkSize =
     assert_that (minUsage \<le> maxUsage)
     (let (m, cap) = calculateMaxCapacity minUsage chunkSize in
      Inr \<lparr>cl_prevList = None, cl_nextList = nextList, cl_minUsage = m, cl_maxUsage = maxUsage,
           cl_maxCapacity = cap, cl_head = None,
           cl_freeMinThreshold = free_threshold chunkSize maxUsage,
           cl_freeMaxThreshold = (if minUsage = 100 then 0 else free_threshold chunkSize m)\<rparr>)"

definition set_prevList :: "list_name option \<Rightarrow> chunk_list \<Rightarrow> chunk_list res" where
  "set_prevList p l = assert_that (cl_prevList l = None) (Inr (l\<lparr>cl_prevList := p\<rparr>))"

definition list_minUsage :: "chunk_list \<Rightarrow> int" where "list_minUsage l = max 1 (cl_minUsage l)"
definition list_maxUsage :: "chunk_list \<Rightarrow> int" where "list_maxUsage l = min (cl_maxUsage l) 100"

definition set_head :: "list_name \<Rightarrow> nat option \<Rightarrow> pool \<Rightarrow> pool" where
  "set_head q h w = w\<lparr>w_lists := (w_lists w)(q := (w_lists w q)\<lparr>cl_head := h\<rparr>)\<rparr>"

definition list_add0 :: "list_name \<Rightarrow> nat \<Rightarrow> pool \<Rightarrow> pool res" where
  "list_add0 q a w =
     rbind (put_chunk a (\<lambda>p. p\<lparr>pc_parent := Some q\<rparr>) w) (\<lambda>w1.
     case cl_head (w_lists w q) of
       None \<Rightarrow> put_chunk a (\<lambda>p. p\<lparr>pc_prev := None, pc_next := None\<rparr>) (set_head q (Some a) w1)
     | Some h \<Rightarrow>
         rbind (put_chunk a (\<lambda>p. p\<lparr>pc_prev := None, pc_next := Some h\<rparr>) w1) (\<lambda>w2.
         rbind (put_chunk h (\<lambda>p. p\<lparr>pc_prev := Some a\<rparr>) w2) (\<lambda>w3.
         Inr (set_head q (Some a) w3))))"

definition list_remove :: "list_name \<Rightarrow> nat \<Rightarrow> pool \<Rightarrow> pool res" where
  "list_remove q a w =
     rbind (get_chunk w a) (\<lambda>pc.
     if cl_head (w_lists w q) = Some a then
       let w1 = set_head q (pc_next pc) w in
       (case pc_next pc of None \<Rightarrow> Inr w1 | Some h \<Rightarrow> put_chunk h (\<lambda>p. p\<lparr>pc_prev := None\<rparr>) w1)
     else
       (case pc_prev pc of
          None \<Rightarrow> Inl NullDeref
        | Some b \<Rightarrow>
            rbind (put_chunk b (\<lambda>p. p\<lparr>pc_next := pc_next pc\<rparr>) w) (\<lambda>w1.
            case pc_next pc of None \<Rightarrow> Inr w1
            | Some n \<Rightarrow> put_chunk n (\<lambda>p. p\<lparr>pc_prev := pc_prev pc\<rparr>) w1)))"

fun list_add :: "nat \<Rightarrow> list_name option \<Rightarrow> nat \<Rightarrow> pool \<Rightarrow> pool res" where
  "list_add 0 q a w = Inl Diverges"
| "list_add (Suc n) None a w = Inl NullDeref"
| "list_add (Suc n) (Some q) a w =
     rbind (get_chunk w a) (\<lambda>pc.
     if c_freeBytes (pc_chunk pc) \<le> cl_freeMinThreshold (w_lists w q)
     then list_add n (cl_nextList (w_lists w q)) a w
     else list_add0 q a w)"

fun list_move :: "nat \<Rightarrow> list_name \<Rightarrow> nat \<Rightarrow> pool \<Rightarrow> (bool \<times> pool) res"
  and list_move0 :: "nat \<Rightarrow> list_name \<Rightarrow> nat \<Rightarrow> pool \<Rightarrow> (bool \<times> pool) res" where
  "list_move 0 q a w = Inl Diverges"
| "list_move (Suc n) q a w =
     rbind (get_chunk w a) (\<lambda>pc.
     rbind (usage (pc_chunk pc)) (\<lambda>u.
     assert_that (u < cl_maxUsage (w_lists w q))
     (if c_freeBytes (pc_chunk pc) > cl_freeMaxThreshold (w_lists w q)
      then list_move0 n q a w
      else rbind (list_add0 q a w) (\<lambda>w1. Inr (True, w1)))))"
| "list_move0 0 q a w = Inl Diverges"
| "list_move0 (Suc n) q a w =
     (case cl_prevList (w_lists w q) of
        None \<Rightarrow>
          rbind (get_chunk w a) (\<lambda>pc.
          rbind (usage (pc_chunk pc)) (\<lambda>u. assert_that (u = 0) (Inr (False, w))))
      | Some p \<Rightarrow> list_move n p a w)"

abbreviation lists_fuel :: nat where "lists_fuel \<equiv> 14"

fun list_try ::
  "nat \<Rightarrow> list_name \<Rightarrow> nat option \<Rightarrow> int \<Rightarrow> int \<Rightarrow> bool \<Rightarrow> byte_buf \<Rightarrow> pool \<Rightarrow> (bool \<times> byte_buf \<times> pool) res"
where
  "list_try 0 q cur reqCapacity sizeIdx cache b w = Inl Diverges"
| "list_try (Suc n) q None reqCapacity sizeIdx cache b w = Inr (False, b, w)"
| "list_try (Suc n) q (Some a) reqCapacity sizeIdx cache b w =
     rbind (chunk_allocate reqCapacity sizeIdx cache a b w) (\<lambda>(done, b1, w1).
     rbind (get_chunk w1 a) (\<lambda>pc.
     if done then
       (if c_freeBytes (pc_chunk pc) \<le> cl_freeMinThreshold (w_lists w1 q)
        then rbind (list_remove q a w1) (\<lambda>w2.
             rbind (list_add lists_fuel (cl_nextList (w_lists w2 q)) a w2) (\<lambda>w3. Inr (True, b1, w3)))
        else Inr (True, b1, w1))
     else list_try n q (pc_next pc) reqCapacity sizeIdx cache b1 w1))"

definition list_allocate ::
  "list_name \<Rightarrow> int \<Rightarrow> int \<Rightarrow> bool \<Rightarrow> byte_buf \<Rightarrow> pool \<Rightarrow> (bool \<times> byte_buf \<times> pool) res" where
  "list_allocate q reqCapacity sizeIdx cache b w =
     rbind (sizeIdx2size (w_sizes w) sizeIdx) (\<lambda>normCapacity.
     if normCapacity > cl_maxCapacity (w_lists w q) then Inr (False, b, w)
     else list_try (Suc (w_fresh w)) q (cl_head (w_lists w q)) reqCapacity sizeIdx cache b w)"

definition list_free ::
  "list_name \<Rightarrow> nat \<Rightarrow> int \<Rightarrow> int \<Rightarrow> ptr option \<Rightarrow> pool \<Rightarrow> (bool \<times> pool) res" where
  "list_free q a handle normCapacity buffer w =
     rbind (chunk_free handle normCapacity buffer a w) (\<lambda>w1.
     rbind (get_chunk w1 a) (\<lambda>pc.
     if c_freeBytes (pc_chunk pc) > cl_freeMaxThreshold (w_lists w1 q)
     then rbind (list_remove q a w1) (\<lambda>w2. list_move0 lists_fuel q a w2)
     else Inr (True, w1)))"

subsection \<open>\<^verbatim>\<open>PoolArena\<close>: construction, chunks and release\<close>

definition newSubpagePoolHead :: "nat \<Rightarrow> subpage" where
  "newSubpagePoolHead a = PoolSubpage_head\<lparr>s_next := Some a, s_prev := Some a\<rparr>"

definition empty_lists :: "list_name \<Rightarrow> chunk_list" where
  "empty_lists = (\<lambda>_. \<lparr>cl_prevList = None, cl_nextList = None, cl_minUsage = 0, cl_maxUsage = 0,
     cl_maxCapacity = 0, cl_head = None, cl_freeMinThreshold = 0, cl_freeMaxThreshold = 0\<rparr>)"

definition arena_lists :: "int \<Rightarrow> (list_name \<Rightarrow> chunk_list) res" where
  "arena_lists chunkSize =
     rbind (PoolChunkList None 100 INT_MAX chunkSize) (\<lambda>q100.
     rbind (PoolChunkList (Some Q100) 75 100 chunkSize) (\<lambda>q75.
     rbind (PoolChunkList (Some Q75) 50 100 chunkSize) (\<lambda>q50.
     rbind (PoolChunkList (Some Q50) 25 75 chunkSize) (\<lambda>q25.
     rbind (PoolChunkList (Some Q25) 1 50 chunkSize) (\<lambda>q00.
     rbind (PoolChunkList (Some Q00) INT_MIN 25 chunkSize) (\<lambda>qInit.
     rbind (set_prevList (Some Q75) q100) (\<lambda>q100.
     rbind (set_prevList (Some Q50) q75) (\<lambda>q75.
     rbind (set_prevList (Some Q25) q50) (\<lambda>q50.
     rbind (set_prevList (Some Q00) q25) (\<lambda>q25.
     rbind (set_prevList None q00) (\<lambda>q00.
     rbind (set_prevList (Some QInit) qInit) (\<lambda>qInit.
     Inr (empty_lists(Q100 := q100, Q75 := q75, Q50 := q50, Q25 := q25, Q00 := q00, QInit := qInit))))))))))))))"

definition PoolArena :: "int \<Rightarrow> int \<Rightarrow> int \<Rightarrow> pool res" where
  "PoolArena pageSize pageShifts chunkSize =
     rbind (SizeClass pageSize pageShifts chunkSize) (\<lambda>sc.
     rbind (arena_lists chunkSize) (\<lambda>ls.
     let n = nat (m_nSubpages sc) in
     Inr \<lparr>w_sizes = sc, w_chunks = Map.empty,
          w_subs = map_of (map (\<lambda>a. (a, newSubpagePoolHead a)) [0..<n]), w_heads = [0..<n],
          w_lists = ls, w_mem = Map.empty, w_fresh = n, w_small = [], w_normal = [],
          w_allocations = 0, w_threshold = 0, w_numThreadCaches = 0, w_activeBytesHuge = 0,
          w_counts = (\<lambda>_. 0), w_recycled = []\<rparr>))"

definition defaultAllocate :: "int \<Rightarrow> pool \<Rightarrow> (nat \<times> pool) res" where
  "defaultAllocate capacity w =
     (if capacity < 0 then Inl Thrown
      else Inr (w_fresh w, w\<lparr>w_mem := (w_mem w)(w_fresh w \<mapsto> (capacity, Map.empty)), w_fresh := Suc (w_fresh w)\<rparr>))"

definition add_chunk :: "chunk \<Rightarrow> pool \<Rightarrow> nat \<times> pool" where
  "add_chunk c w =
     (w_fresh w, w\<lparr>w_chunks := (w_chunks w)(w_fresh w \<mapsto>
        \<lparr>pc_chunk = c, pc_prev = None, pc_next = None, pc_parent = None\<rparr>), w_fresh := Suc (w_fresh w)\<rparr>)"

definition newChunk :: "int \<Rightarrow> int \<Rightarrow> int \<Rightarrow> int \<Rightarrow> pool \<Rightarrow> (nat \<times> pool) res" where
  "newChunk pageSize maxPageIdx pageShifts chunkSize w =
     rbind (defaultAllocate chunkSize w) (\<lambda>(m, w1).
     rbind (PoolChunk (w_sizes w1) (Some m) pageSize pageShifts chunkSize maxPageIdx 0) (\<lambda>c.
     Inr (add_chunk c w1)))"

definition newUnpoolChunk :: "int \<Rightarrow> pool \<Rightarrow> (nat \<times> pool) res" where
  "newUnpoolChunk capacity w =
     rbind (defaultAllocate capacity w) (\<lambda>(m, w1). Inr (add_chunk (PoolChunk_unpooled (Some m) capacity 0) w1))"

text \<open>\<^verbatim>\<open>delete chunk\<close>: the memory and the subpages go with it.\<close>

definition destroyChunk :: "nat \<Rightarrow> pool \<Rightarrow> pool res" where
  "destroyChunk a w =
     rbind (get_chunk w a) (\<lambda>pc.
     let c = pc_chunk pc in
     Inr (w\<lparr>w_chunks := (w_chunks w)(a := None),
            w_mem := (case c_memory c of None \<Rightarrow> w_mem w | Some m \<Rightarrow> (w_mem w)(m := None)),
            w_subs := (\<lambda>s. if Some s \<in> set (c_subpages c) then None else w_subs w s)\<rparr>))"

definition getSizeClassType :: "int \<Rightarrow> size_class_type" where
  "getSizeClassType handle = (if isSubpage handle then SMALL else NORMAL)"

definition freeChunk ::
  "nat \<Rightarrow> int \<Rightarrow> int \<Rightarrow> size_class_type \<Rightarrow> ptr option \<Rightarrow> pool \<Rightarrow> pool res" where
  "freeChunk a handle normCapacity sct buffer w =
     (let w0 = bump (case sct of NORMAL \<Rightarrow> ''deallocationNormal'' | SMALL \<Rightarrow> ''deallocationSmall'') w in
      rbind (get_chunk w0 a) (\<lambda>pc.
      case pc_parent pc of
        None \<Rightarrow> Inl NullDeref
      | Some q \<Rightarrow>
          rbind (list_free q a handle normCapacity buffer w0) (\<lambda>(kept, w1).
          if kept then Inr w1 else destroyChunk a w1)))"

subsection \<open>\<^verbatim>\<open>MemoryRegionCache\<close> and \<^verbatim>\<open>PoolThreadCache\<close>\<close>

definition MemoryRegionCache :: "int \<Rightarrow> size_class_type \<Rightarrow> region_cache" where
  "MemoryRegionCache sz t =
     \<lparr>rc_size = nextPowerofTwo sz, rc_type = t, rc_allocations = 0, rc_queue = []\<rparr>"

definition newEntry :: "nat \<Rightarrow> ptr option \<Rightarrow> int \<Rightarrow> int \<Rightarrow> cache_entry" where
  "newEntry a buffer handle normCapacity =
     \<lparr>e_chunk = a, e_buffer = buffer, e_handle = handle, e_normCapacity = normCapacity\<rparr>"

definition region_add :: "nat \<Rightarrow> ptr option \<Rightarrow> int \<Rightarrow> int \<Rightarrow> region_cache \<Rightarrow> region_cache" where
  "region_add a buffer handle normCapacity rc =
     rc\<lparr>rc_queue := rc_queue rc @ [newEntry a buffer handle normCapacity]\<rparr>"

definition region_initBuf ::
  "pool \<Rightarrow> region_cache \<Rightarrow> cache_entry \<Rightarrow> byte_buf \<Rightarrow> int \<Rightarrow> byte_buf res" where
  "region_initBuf w rc e b reqCapacity =
     (case rc_type rc of
        SMALL \<Rightarrow> initBufWithSubpage w (e_chunk e) (e_buffer e) (e_handle e) reqCapacity True b
      | NORMAL \<Rightarrow> initBuf w (e_chunk e) (e_buffer e) (e_handle e) reqCapacity True b)"

definition region_allocate ::
  "pool \<Rightarrow> byte_buf \<Rightarrow> int \<Rightarrow> region_cache \<Rightarrow> (bool \<times> byte_buf \<times> region_cache) res" where
  "region_allocate w b reqCapacity rc =
     (case rc_queue rc of
        [] \<Rightarrow> Inr (False, b, rc)
      | e # es \<Rightarrow>
          rbind (region_initBuf w (rc\<lparr>rc_queue := es\<rparr>) e b reqCapacity) (\<lambda>b'.
          Inr (True, b', rc\<lparr>rc_queue := es, rc_allocations := rc_allocations rc + 1\<rparr>)))"

definition freeEntry :: "size_class_type \<Rightarrow> cache_entry \<Rightarrow> pool \<Rightarrow> pool res" where
  "freeEntry t e w = freeChunk (e_chunk e) (e_handle e) (e_normCapacity e) t (e_buffer e) w"

fun free_entries :: "size_class_type \<Rightarrow> cache_entry list \<Rightarrow> int \<Rightarrow> int \<Rightarrow> pool \<Rightarrow> (int \<times> cache_entry list \<times> pool) res" where
  "free_entries t [] freeNum numFreed w = Inr (numFreed, [], w)"
| "free_entries t (e # es) freeNum numFreed w =
     (if numFreed < freeNum
      then rbind (freeEntry t e w) (\<lambda>w1. free_entries t es freeNum (numFreed + 1) w1)
      else Inr (numFreed, e # es, w))"

definition region_free :: "int \<Rightarrow> region_cache \<Rightarrow> pool \<Rightarrow> (int \<times> region_cache \<times> pool) res" where
  "region_free freeNum rc w =
     rbind (free_entries (rc_type rc) (rc_queue rc) freeNum 0 w) (\<lambda>(n, es, w1).
     Inr (n, rc\<lparr>rc_queue := es\<rparr>, w1))"

definition region_free_all :: "region_cache \<Rightarrow> pool \<Rightarrow> (int \<times> region_cache \<times> pool) res" where
  "region_free_all rc w = region_free INT_MAX rc w"

text \<open>\<^verbatim>\<open>PoolThreadCache::free(vector&)\<close>: release of everything cached; nothing calls it yet.\<close>

fun free_caches :: "region_cache list \<Rightarrow> pool \<Rightarrow> (int \<times> region_cache list \<times> pool) res" where
  "free_caches [] w = Inr (0, [], w)"
| "free_caches (rc # rcs) w =
     rbind (region_free_all rc w) (\<lambda>(n, rc', w1).
     rbind (free_caches rcs w1) (\<lambda>(n', rcs', w2). Inr (n + n', rc' # rcs', w2)))"

definition region_trim :: "region_cache \<Rightarrow> pool \<Rightarrow> (region_cache \<times> pool) res" where
  "region_trim rc w =
     (let toFreeNum = rc_size rc - rc_allocations rc;
          rc0 = rc\<lparr>rc_allocations := 0\<rparr> in
      if toFreeNum > 0 then rbind (region_free toFreeNum rc0 w) (\<lambda>(_, rc1, w1). Inr (rc1, w1))
      else Inr (rc0, w))"

fun trim_caches :: "region_cache list \<Rightarrow> pool \<Rightarrow> (region_cache list \<times> pool) res" where
  "trim_caches [] w = Inr ([], w)"
| "trim_caches (rc # rcs) w =
     rbind (region_trim rc w) (\<lambda>(rc', w1).
     rbind (trim_caches rcs w1) (\<lambda>(rcs', w2). Inr (rc' # rcs', w2)))"

definition createSubpageCaches :: "int \<Rightarrow> int \<Rightarrow> region_cache list" where
  "createSubpageCaches cacheSize numCaches =
     (if cacheSize > 0 \<and> numCaches > 0 then replicate (nat numCaches) (MemoryRegionCache cacheSize SMALL) else [])"

fun normal_caches :: "nat \<Rightarrow> size_class \<Rightarrow> int \<Rightarrow> int \<Rightarrow> int \<Rightarrow> region_cache list res" where
  "normal_caches 0 sc i maxCacheSize cacheSize = Inl Diverges"
| "normal_caches (Suc n) sc i maxCacheSize cacheSize =
     (if i < m_nSizes sc
      then rbind (sizeIdx2size sc i) (\<lambda>sz.
           if sz \<le> maxCacheSize
           then rbind (normal_caches n sc (i + 1) maxCacheSize cacheSize) (\<lambda>rcs.
                Inr (MemoryRegionCache cacheSize NORMAL # rcs))
           else Inr [])
      else Inr [])"

definition createNormalCaches :: "int \<Rightarrow> int \<Rightarrow> pool \<Rightarrow> region_cache list res" where
  "createNormalCaches cacheSize maxCacheCapacity w =
     (if cacheSize > 0 \<and> maxCacheCapacity > 0
      then normal_caches (Suc (nat (m_nSizes (w_sizes w)))) (w_sizes w) (m_nSubpages (w_sizes w))
             (min (m_chunkSize (w_sizes w)) maxCacheCapacity) cacheSize
      else Inr [])"

definition PoolThreadCache :: "int \<Rightarrow> int \<Rightarrow> int \<Rightarrow> int \<Rightarrow> pool \<Rightarrow> pool res" where
  "PoolThreadCache smallCacheSize normalCacheSize maxCacheCapaicy threshold w =
     assert_that (maxCacheCapaicy \<ge> 0)
     (rbind (createNormalCaches normalCacheSize maxCacheCapaicy w) (\<lambda>norm.
      let small = createSubpageCaches smallCacheSize (m_nSubpages (w_sizes w));
          w1 = w\<lparr>w_small := small, w_normal := norm, w_allocations := 0, w_threshold := threshold,
                 w_numThreadCaches := w_numThreadCaches w + 1\<rparr> in
      if (small \<noteq> [] \<or> norm \<noteq> []) \<and> threshold < 1 then Inl Thrown else Inr w1))"

definition thread_cache_free :: "pool \<Rightarrow> pool" where
  "thread_cache_free w = w\<lparr>w_numThreadCaches := w_numThreadCaches w - 1\<rparr>"

text \<open>\<^verbatim>\<open>cache(vector, idx)\<close>: the comparison is unsigned, so a negative index is out of range too.\<close>

definition cache_at :: "region_cache list \<Rightarrow> int \<Rightarrow> nat option" where
  "cache_at rcs i = (if rcs = [] \<or> i < 0 \<or> i \<ge> int (length rcs) then None else Some (nat i))"

definition cacheForSmall :: "int \<Rightarrow> pool \<Rightarrow> nat option" where
  "cacheForSmall sizeIdx w = cache_at (w_small w) sizeIdx"

definition cacheForNormal :: "int \<Rightarrow> pool \<Rightarrow> nat option" where
  "cacheForNormal sizeIdx w = cache_at (w_normal w) (sizeIdx - m_nSubpages (w_sizes w))"

definition thread_trim :: "pool \<Rightarrow> pool res" where
  "thread_trim w =
     rbind (trim_caches (w_small w) w) (\<lambda>(small, w1).
     rbind (trim_caches (w_normal w1) (w1\<lparr>w_small := small\<rparr>)) (\<lambda>(norm, w2).
     Inr (w2\<lparr>w_normal := norm\<rparr>)))"

definition count_cached :: "pool \<Rightarrow> pool res" where
  "count_cached w =
     (if w_allocations w + 1 \<ge> w_threshold w then thread_trim (w\<lparr>w_allocations := 0\<rparr>)
      else Inr (w\<lparr>w_allocations := w_allocations w + 1\<rparr>))"

definition region_at :: "size_class_type \<Rightarrow> nat \<Rightarrow> pool \<Rightarrow> region_cache" where
  "region_at t k w = (case t of SMALL \<Rightarrow> w_small w ! k | NORMAL \<Rightarrow> w_normal w ! k)"

definition set_region :: "size_class_type \<Rightarrow> nat \<Rightarrow> region_cache \<Rightarrow> pool \<Rightarrow> pool" where
  "set_region t k rc w = (case t of
      SMALL \<Rightarrow> w\<lparr>w_small := (w_small w)[k := rc]\<rparr> | NORMAL \<Rightarrow> w\<lparr>w_normal := (w_normal w)[k := rc]\<rparr>)"

text \<open>\<^verbatim>\<open>PoolThreadCache::allocate\<close>: a miss counts towards the next sweep too.\<close>

definition cache_allocate ::
  "size_class_type \<Rightarrow> nat option \<Rightarrow> int \<Rightarrow> byte_buf \<Rightarrow> pool \<Rightarrow> (bool \<times> byte_buf \<times> pool) res" where
  "cache_allocate t cache reqCapacity b w =
     (case cache of
        None \<Rightarrow> Inr (False, b, w)
      | Some k \<Rightarrow>
          rbind (region_allocate w b reqCapacity (region_at t k w)) (\<lambda>(allocated, b', rc).
          rbind (count_cached (set_region t k rc w)) (\<lambda>w'. Inr (allocated, b', w'))))"

definition cache_allocateSmall :: "int \<Rightarrow> int \<Rightarrow> byte_buf \<Rightarrow> pool \<Rightarrow> (bool \<times> byte_buf \<times> pool) res" where
  "cache_allocateSmall reqCapacity sizeIdx b w = cache_allocate SMALL (cacheForSmall sizeIdx w) reqCapacity b w"

definition cache_allocateNormal :: "int \<Rightarrow> int \<Rightarrow> byte_buf \<Rightarrow> pool \<Rightarrow> (bool \<times> byte_buf \<times> pool) res" where
  "cache_allocateNormal reqCapacity sizeIdx b w = cache_allocate NORMAL (cacheForNormal sizeIdx w) reqCapacity b w"

definition genCache :: "int \<Rightarrow> size_class_type \<Rightarrow> pool \<Rightarrow> nat option" where
  "genCache sizeIdx t w = (case t of NORMAL \<Rightarrow> cacheForNormal sizeIdx w | SMALL \<Rightarrow> cacheForSmall sizeIdx w)"

definition cache_add :: "nat \<Rightarrow> ptr option \<Rightarrow> int \<Rightarrow> int \<Rightarrow> size_class_type \<Rightarrow> pool \<Rightarrow> (bool \<times> pool) res" where
  "cache_add a buffer handle normCapacity t w =
     rbind (size2sizeIdx (w_sizes w) normCapacity) (\<lambda>sizeIdx.
     case genCache sizeIdx t w of
       None \<Rightarrow> Inr (False, w)
     | Some k \<Rightarrow> Inr (True, set_region t k (region_add a buffer handle normCapacity (region_at t k w)) w))"

subsection \<open>\<^verbatim>\<open>PoolArena\<close>: allocation\<close>

definition allocateNormal :: "int \<Rightarrow> int \<Rightarrow> byte_buf \<Rightarrow> pool \<Rightarrow> (byte_buf \<times> pool) res" where
  "allocateNormal reqCapacity sizeIdx b w =
     rbind (list_allocate Q50 reqCapacity sizeIdx True b w) (\<lambda>(d1, b, w).
     if d1 then Inr (b, w) else
     rbind (list_allocate Q25 reqCapacity sizeIdx True b w) (\<lambda>(d2, b, w).
     if d2 then Inr (b, w) else
     rbind (list_allocate Q00 reqCapacity sizeIdx True b w) (\<lambda>(d3, b, w).
     if d3 then Inr (b, w) else
     rbind (list_allocate QInit reqCapacity sizeIdx True b w) (\<lambda>(d4, b, w).
     if d4 then Inr (b, w) else
     rbind (list_allocate Q75 reqCapacity sizeIdx True b w) (\<lambda>(d5, b, w).
     if d5 then Inr (b, w) else
     (let sc = w_sizes w in
      rbind (newChunk (m_pageSize sc) (m_nPSizes sc) (m_pageShifts sc) (m_chunkSize sc) w) (\<lambda>(a, w1).
      rbind (chunk_allocate reqCapacity sizeIdx True a b w1) (\<lambda>(ret, b1, w2).
      assert_that ret
      (rbind (list_add lists_fuel (Some QInit) a w2) (\<lambda>w3. Inr (b1, w3)))))))))))"

definition tcacheAllocateSmall :: "int \<Rightarrow> int \<Rightarrow> byte_buf \<Rightarrow> pool \<Rightarrow> (byte_buf \<times> pool) res" where
  "tcacheAllocateSmall reqCapacity sizeIdx b w =
     rbind (cache_allocateSmall reqCapacity sizeIdx b w) (\<lambda>(hit, b, w).
     if hit then Inr (b, w) else
     rbind (at_vec (w_heads w) sizeIdx) (\<lambda>head.
     rbind (deref (w_subs w) (Some head)) (\<lambda>hd.
     if s_next hd = Some head
     then rbind (allocateNormal reqCapacity sizeIdx b w) (\<lambda>(b, w). Inr (b, bump ''allocationSmall'' w))
     else
       rbind (deref (w_subs w) (s_next hd)) (\<lambda>s.
       rbind (sizeIdx2size (w_sizes w) sizeIdx) (\<lambda>sz.
       assert_that (s_dontRelease s \<and> s_elemSize s = sz)
       (rbind (sub_allocate (the (s_next hd)) (w_subs w)) (\<lambda>(handle, st).
        assert_that (handle \<ge> 0)
        (case s_chunk s of
           None \<Rightarrow> Inl NullDeref
         | Some ca \<Rightarrow>
             rbind (initBufWithSubpage (w\<lparr>w_subs := st\<rparr>) ca None handle reqCapacity True b) (\<lambda>b.
             Inr (b, bump ''allocationSmall'' (w\<lparr>w_subs := st\<rparr>)))))))))))"

definition tcacheAllocateNormal :: "int \<Rightarrow> int \<Rightarrow> byte_buf \<Rightarrow> pool \<Rightarrow> (byte_buf \<times> pool) res" where
  "tcacheAllocateNormal reqCapacity sizeIdx b w =
     rbind (cache_allocateNormal reqCapacity sizeIdx b w) (\<lambda>(hit, b, w).
     if hit then Inr (b, w) else
     rbind (allocateNormal reqCapacity sizeIdx b w) (\<lambda>(b, w). Inr (b, bump ''allocationsNormal'' w)))"

definition allocateHuge :: "int \<Rightarrow> byte_buf \<Rightarrow> pool \<Rightarrow> (byte_buf \<times> pool) res" where
  "allocateHuge reqCapacity b w =
     rbind (newUnpoolChunk reqCapacity w) (\<lambda>(a, w1).
     rbind (get_chunk w1 a) (\<lambda>pc.
     let w2 = w1\<lparr>w_activeBytesHuge := w_activeBytesHuge w1 + c_chunkSize (pc_chunk pc)\<rparr> in
     rbind (initUnpool a (pc_chunk pc) reqCapacity b) (\<lambda>b.
     Inr (b, bump ''allocationHuge'' w2))))"

definition arena_allocate_buf :: "int \<Rightarrow> byte_buf \<Rightarrow> pool \<Rightarrow> (byte_buf \<times> pool) res" where
  "arena_allocate_buf reqCapacity b w =
     rbind (size2sizeIdx (w_sizes w) reqCapacity) (\<lambda>sizeIdx.
     if sizeIdx \<le> m_smallMaxSizeIdx (w_sizes w) then tcacheAllocateSmall reqCapacity sizeIdx b w
     else if sizeIdx < m_nSizes (w_sizes w) then tcacheAllocateNormal reqCapacity sizeIdx b w
     else rbind (normalizeSize (w_sizes w) reqCapacity) (\<lambda>normCapacity. allocateHuge normCapacity b w))"

definition arena_free ::
  "nat \<Rightarrow> ptr option \<Rightarrow> int \<Rightarrow> int \<Rightarrow> bool \<Rightarrow> pool \<Rightarrow> pool res" where
  "arena_free a buffer handle normCapacity cache w =
     rbind (get_chunk w a) (\<lambda>pc.
     if c_unpool (pc_chunk pc) then
       let sz = c_chunkSize (pc_chunk pc) in
       rbind (destroyChunk a w) (\<lambda>w1.
       Inr (bump ''deallocationHuge'' (w1\<lparr>w_activeBytesHuge := w_activeBytesHuge w1 - sz\<rparr>)))
     else
       let t = getSizeClassType handle in
       rbind (if cache then cache_add a buffer handle normCapacity t w else Inr (False, w)) (\<lambda>(cached, w1).
       if cached then Inr w1 else freeChunk a handle normCapacity t buffer w1))"

end
