(* ===== verification/ByteBuf.thy ===== *)
theory ByteBuf
  imports Arena
begin

text \<open>
  \<^verbatim>\<open>buffer/PoolByteBuf\<close> on the arena: indices, reads and writes of the memory block, growth in
  place or by reallocation, release and reuse through the recycler. Writes go to \<open>b_memory\<close> at
  \<open>b_offset\<close>, reads come from \<open>b_tmpBuf\<close>, as in the code.
\<close>

subsection \<open>Memory\<close>

definition read_mem :: "pool \<Rightarrow> ptr \<Rightarrow> int \<Rightarrow> char list res" where
  "read_mem w p n =
     (case w_mem w (fst p) of
        None \<Rightarrow> Inl NullDeref
      | Some (sz, f) \<Rightarrow>
          if 0 \<le> n \<and> 0 \<le> snd p \<and> snd p + n \<le> sz
          then (if list_all (\<lambda>i. f (snd p + i) \<noteq> None) [0..n - 1]
                then Inr (map (\<lambda>i. the (f (snd p + i))) [0..n - 1]) else Inl Uninitialised)
          else Inl OutOfRange)"

definition write_bytes :: "(int \<rightharpoonup> char) \<Rightarrow> int \<Rightarrow> char list \<Rightarrow> (int \<rightharpoonup> char)" where
  "write_bytes f a cs = (\<lambda>i. if a \<le> i \<and> i < a + int (length cs) then Some (cs ! nat (i - a)) else f i)"

definition write_mem :: "ptr \<Rightarrow> char list \<Rightarrow> pool \<Rightarrow> pool res" where
  "write_mem p cs w =
     (case w_mem w (fst p) of
        None \<Rightarrow> Inl NullDeref
      | Some (sz, f) \<Rightarrow>
          if 0 \<le> snd p \<and> snd p + int (length cs) \<le> sz
          then Inr (w\<lparr>w_mem := (w_mem w)(fst p \<mapsto> (sz, write_bytes f (snd p) cs))\<rparr>)
          else Inl OutOfRange)"

text \<open>\<^verbatim>\<open>DefaultArena::memoryCopy\<close>; bytes never written are copied as such.\<close>

definition memoryCopy :: "ptr option \<Rightarrow> ptr option \<Rightarrow> int \<Rightarrow> pool \<Rightarrow> pool res" where
  "memoryCopy src dst len w =
     (if len = 0 then Inr w
      else
        (case (src, dst) of
           (Some (sb, so), Some (db, d)) \<Rightarrow>
             (case (w_mem w sb, w_mem w db) of
                (Some (ssz, f), Some (dsz, g)) \<Rightarrow>
                  if 0 \<le> so \<and> so + len \<le> ssz \<and> 0 \<le> d \<and> d + len \<le> dsz
                  then Inr (w\<lparr>w_mem := (w_mem w)(db \<mapsto>
                         (dsz, \<lambda>i. if d \<le> i \<and> i < d + len then f (so + (i - d)) else g i))\<rparr>)
                  else Inl OutOfRange
              | _ \<Rightarrow> Inl NullDeref)
         | _ \<Rightarrow> Inl NullDeref))"

subsection \<open>Indices\<close>

definition idx :: "byte_buf \<Rightarrow> int \<Rightarrow> int" where "idx b index = b_offset b + index"

definition capacity :: "byte_buf \<Rightarrow> int" where "capacity b = b_length b"

definition readableBytes :: "byte_buf \<Rightarrow> int" where "readableBytes b = b_writerIndex b - b_readerIndex b"

definition writableBytes :: "byte_buf \<Rightarrow> int" where "writableBytes b = capacity b - b_writerIndex b"

definition maxWritableBytes :: "byte_buf \<Rightarrow> int" where
  "maxWritableBytes b = b_maxCapacity b - writableBytes b"

definition setMaxCapacity :: "int \<Rightarrow> byte_buf \<Rightarrow> byte_buf" where
  "setMaxCapacity maxCapacity b = b\<lparr>b_maxCapacity := maxCapacity\<rparr>"

definition setIndex0 :: "int \<Rightarrow> int \<Rightarrow> byte_buf \<Rightarrow> byte_buf" where
  "setIndex0 readerIndex writerIndex b = b\<lparr>b_readerIndex := readerIndex, b_writerIndex := writerIndex\<rparr>"

definition reuse :: "int \<Rightarrow> byte_buf \<Rightarrow> byte_buf" where
  "reuse maxCapacity b = setIndex0 0 0 (setMaxCapacity maxCapacity b)"

definition buf_clear :: "byte_buf \<Rightarrow> byte_buf" where
  "buf_clear b = b\<lparr>b_readerIndex := 0, b_writerIndex := 0\<rparr>"

definition checkIndexBounds :: "int \<Rightarrow> int \<Rightarrow> int \<Rightarrow> 'a res \<Rightarrow> 'a res" where
  "checkIndexBounds readerIdx writerIdx cap r =
     (if readerIdx < 0 \<or> readerIdx > writerIdx \<or> writerIdx > cap then Inl Thrown else r)"

definition setReaderIdx :: "int \<Rightarrow> byte_buf \<Rightarrow> byte_buf res" where
  "setReaderIdx readerIdx b =
     checkIndexBounds readerIdx (b_writerIndex b) (capacity b) (Inr (b\<lparr>b_readerIndex := readerIdx\<rparr>))"

definition checkReadableBytes :: "byte_buf \<Rightarrow> int \<Rightarrow> 'a res \<Rightarrow> 'a res" where
  "checkReadableBytes src len r = assert_that (len \<le> readableBytes src) r"

definition checkNewCapacity :: "int \<Rightarrow> byte_buf \<Rightarrow> 'a res \<Rightarrow> 'a res" where
  "checkNewCapacity newCapacity b r =
     (if newCapacity < 0 \<or> newCapacity > b_maxCapacity b then Inl Thrown else r)"

definition trimIndicesToCapacity :: "int \<Rightarrow> byte_buf \<Rightarrow> byte_buf" where
  "trimIndicesToCapacity newCapacity b =
     (if b_writerIndex b > newCapacity
      then b\<lparr>b_readerIndex := min (b_readerIndex b) newCapacity, b_writerIndex := newCapacity\<rparr> else b)"

definition newInternalBuffer :: "byte_buf \<Rightarrow> ptr option" where
  "newInternalBuffer b = map_option (\<lambda>m. (m, 0)) (b_memory b)"

definition internalBuffer :: "byte_buf \<Rightarrow> ptr option \<times> byte_buf" where
  "internalBuffer b = (case b_tmpBuf b of
      None \<Rightarrow> (newInternalBuffer b, b\<lparr>b_tmpBuf := newInternalBuffer b\<rparr>) | Some p \<Rightarrow> (Some p, b))"

definition internalBuffer0 :: "int \<Rightarrow> byte_buf \<Rightarrow> (ptr \<times> byte_buf) res" where
  "internalBuffer0 index b = (case b_memory b of None \<Rightarrow> Inl NullDeref
     | Some m \<Rightarrow> Inr ((m, idx b index), b\<lparr>b_tmpBuf := Some (m, idx b index)\<rparr>))"

definition internalBuffer_at :: "int \<Rightarrow> int \<Rightarrow> byte_buf \<Rightarrow> (ptr \<times> byte_buf) res" where
  "internalBuffer_at index len b = assert_that (index + len \<le> b_length b) (internalBuffer0 index b)"

definition duplicateInternalBuffer :: "int \<Rightarrow> int \<Rightarrow> byte_buf \<Rightarrow> (ptr \<times> byte_buf) res" where
  "duplicateInternalBuffer index len b = assert_that (index + len \<le> b_length b) (internalBuffer0 index b)"

subsection \<open>Reading\<close>

definition peek :: "byte_buf \<Rightarrow> ptr res" where
  "peek b = (case b_tmpBuf b of None \<Rightarrow> Inl NullDeref | Some p \<Rightarrow> Inr (fst p, snd p + b_readerIndex b))"

definition getByte :: "pool \<Rightarrow> int \<Rightarrow> byte_buf \<Rightarrow> char res" where
  "getByte w index b = (case b_memory b of None \<Rightarrow> Inl NullDeref
     | Some m \<Rightarrow> rbind (read_mem w (m, idx b index) 1) (\<lambda>cs. Inr (hd cs)))"

definition retrieveAll :: "byte_buf \<Rightarrow> byte_buf" where
  "retrieveAll b = b\<lparr>b_readerIndex := 0, b_writerIndex := 0\<rparr>"

text \<open>The length is a \<^verbatim>\<open>size_t\<close>: a negative number of readable bytes compares as a huge one.\<close>

definition u64 :: "int \<Rightarrow> int" where "u64 x = take_bit 64 x"

definition retrieve :: "int \<Rightarrow> byte_buf \<Rightarrow> byte_buf res" where
  "retrieve len b = assert_that (len \<le> u64 (readableBytes b))
     (Inr (if len < u64 (readableBytes b) then b\<lparr>b_readerIndex := b_readerIndex b + len\<rparr> else retrieveAll b))"

definition retrieveAsString :: "pool \<Rightarrow> int \<Rightarrow> byte_buf \<Rightarrow> (char list \<times> byte_buf) res" where
  "retrieveAsString w len b = assert_that (len \<le> u64 (readableBytes b))
     (rbind (peek b) (\<lambda>p.
      rbind (read_mem w p len) (\<lambda>result.
      rbind (retrieve len b) (\<lambda>b'. Inr (result, b')))))"

definition retrieveAllAsString :: "pool \<Rightarrow> byte_buf \<Rightarrow> (char list \<times> byte_buf) res" where
  "retrieveAllAsString w b = retrieveAsString w (readableBytes b) b"

subsection \<open>Growing\<close>

text \<open>\<^verbatim>\<open>PoolByteBufAllocator::calculateNewCapacity\<close>. The doubling loop starts at 64 and runs for
  a minimum below 4 MiB, so 17 rounds are enough.\<close>

abbreviation CALCULATE_THRESHOLD :: int where "CALCULATE_THRESHOLD \<equiv> 4194304"

fun double_up :: "nat \<Rightarrow> int \<Rightarrow> int \<Rightarrow> int res" where
  "double_up 0 minNewCapacity newCapacity = Inl Diverges"
| "double_up (Suc n) minNewCapacity newCapacity =
     (if newCapacity < minNewCapacity then double_up n minNewCapacity (shl32 newCapacity 1) else Inr newCapacity)"

definition calculateNewCapacity :: "int \<Rightarrow> int \<Rightarrow> int res" where
  "calculateNewCapacity minNewCapacity maxCapacity =
     assert_that (minNewCapacity \<ge> 0)
     (if minNewCapacity > maxCapacity then Inl Thrown
      else if minNewCapacity = CALCULATE_THRESHOLD then Inr CALCULATE_THRESHOLD
      else if minNewCapacity > CALCULATE_THRESHOLD then
        (let newCapacity = minNewCapacity div CALCULATE_THRESHOLD * CALCULATE_THRESHOLD in
         Inr (if newCapacity > maxCapacity - CALCULATE_THRESHOLD then maxCapacity
              else newCapacity + CALCULATE_THRESHOLD))
      else rbind (double_up 17 minNewCapacity 64) (\<lambda>newCapacity. Inr (min newCapacity maxCapacity)))"

text \<open>\<^verbatim>\<open>PoolArena::reallocate\<close>.\<close>

definition mem_ptr :: "byte_buf \<Rightarrow> ptr option" where
  "mem_ptr b = map_option (\<lambda>m. (m, b_offset b)) (b_memory b)"

definition reallocate :: "int \<Rightarrow> bool \<Rightarrow> byte_buf \<Rightarrow> pool \<Rightarrow> (byte_buf \<times> pool) res" where
  "reallocate newCapacity freeOldMemory b w =
     assert_that (newCapacity \<ge> 0 \<and> newCapacity \<le> b_maxCapacity b)
     (let oldCapacity = b_length b in
      if oldCapacity = newCapacity then Inr (b, w)
      else
        rbind (arena_allocate_buf newCapacity b w) (\<lambda>(b1, w1).
        let b2 = (if newCapacity > oldCapacity then b1 else trimIndicesToCapacity newCapacity b1);
            bytesTocoy = (if newCapacity > oldCapacity then oldCapacity else newCapacity) in
        rbind (memoryCopy (mem_ptr b) (mem_ptr b2) bytesTocoy w1) (\<lambda>w2.
        if freeOldMemory
        then (case b_chunk b of
                None \<Rightarrow> Inl NullDeref
              | Some a \<Rightarrow> rbind (arena_free a (b_tmpBuf b) (b_handle b) (b_maxLength b) (b_cache b2) w2)
                            (\<lambda>w3. Inr (b2, w3)))
        else Inr (b2, w2))))"

definition set_capacity :: "int \<Rightarrow> byte_buf \<Rightarrow> pool \<Rightarrow> (byte_buf \<times> pool) res" where
  "set_capacity newCapacity b w =
     (if newCapacity = b_length b then Inr (b, w)
      else
        assert_that (newCapacity \<ge> 0 \<and> newCapacity \<le> b_maxCapacity b)
        (if newCapacity > b_length b \<and> newCapacity \<le> b_maxLength b
         then Inr (b\<lparr>b_length := newCapacity\<rparr>, w)
         else if \<not> newCapacity > b_length b \<and> newCapacity > shr (b_maxLength b) 1 \<and>
                 (b_maxLength b > 512 \<or> newCapacity > b_maxLength b - 16)
         then Inr (trimIndicesToCapacity newCapacity (b\<lparr>b_length := newCapacity\<rparr>), w)
         else if b_chunk b = None then Inl NullDeref
         else reallocate newCapacity True b w))"

definition ensureWritable :: "int \<Rightarrow> byte_buf \<Rightarrow> pool \<Rightarrow> (byte_buf \<times> pool) res" where
  "ensureWritable minWritableBytes b w =
     assert_that (minWritableBytes \<ge> 0)
     (let targetCapacity = i32 (b_writerIndex b + minWritableBytes) in
      assert_that (targetCapacity \<ge> 0 \<and> targetCapacity \<le> b_maxCapacity b)
      (if targetCapacity > capacity b
       then rbind (if writableBytes b \<ge> minWritableBytes
                   then Inr (b_writerIndex b + writableBytes b)
                   else calculateNewCapacity targetCapacity (b_maxCapacity b)) (\<lambda>newCapacity.
            set_capacity newCapacity b w)
       else Inr (b, w)))"

definition setBytes :: "int \<Rightarrow> char list \<Rightarrow> int \<Rightarrow> int \<Rightarrow> byte_buf \<Rightarrow> pool \<Rightarrow> pool res" where
  "setBytes index src srcIndex len b w =
     (case b_memory b of None \<Rightarrow> Inl NullDeref
      | Some m \<Rightarrow>
          if 0 \<le> srcIndex \<and> 0 \<le> len \<and> srcIndex + len \<le> int (length src)
          then write_mem (m, idx b index) (take (nat len) (drop (nat srcIndex) src)) w
          else Inl OutOfRange)"

definition writeBytes_at ::
  "char list \<Rightarrow> int \<Rightarrow> int \<Rightarrow> byte_buf \<Rightarrow> pool \<Rightarrow> (byte_buf \<times> pool) res" where
  "writeBytes_at data srcIndex len b w =
     rbind (ensureWritable len b w) (\<lambda>(b1, w1).
     rbind (setBytes (b_writerIndex b1) data srcIndex len b1 w1) (\<lambda>w2.
     Inr (b1\<lparr>b_writerIndex := b_writerIndex b1 + len\<rparr>, w2)))"

definition writeBytes :: "char list \<Rightarrow> int \<Rightarrow> byte_buf \<Rightarrow> pool \<Rightarrow> (byte_buf \<times> pool) res" where
  "writeBytes data len b w = writeBytes_at data 0 len b w"

subsection \<open>Life cycle\<close>

text \<open>\<^verbatim>\<open>Recycler\<close>: a stack of objects to use again, last in first out.\<close>

definition recycler_get :: "'a res \<Rightarrow> 'a list \<Rightarrow> ('a \<times> 'a list) res" where
  "recycler_get newObject tStack = (case tStack of
      [] \<Rightarrow> rbind newObject (\<lambda>x. Inr (x, [])) | x # xs \<Rightarrow> Inr (x, xs))"

definition recycler_recycle :: "'a \<Rightarrow> 'a list \<Rightarrow> 'a list" where
  "recycler_recycle x tStack = x # tStack"

definition newInstance :: "int \<Rightarrow> pool \<Rightarrow> (byte_buf \<times> pool) res" where
  "newInstance maxCapacity w =
     rbind (recycler_get (PoolByteBuf 0) (w_recycled w)) (\<lambda>(b, st).
     Inr (reuse maxCapacity b, w\<lparr>w_recycled := st\<rparr>))"

definition arena_allocate :: "int \<Rightarrow> int \<Rightarrow> pool \<Rightarrow> (byte_buf \<times> pool) res" where
  "arena_allocate reqCapacity maxCapacity w =
     rbind (newInstance maxCapacity w) (\<lambda>(b, w1). arena_allocate_buf reqCapacity b w1)"

definition deallocate :: "byte_buf \<Rightarrow> pool \<Rightarrow> (byte_buf \<times> pool) res" where
  "deallocate b w =
     (if b_handle b \<ge> 0 then
        (case b_chunk b of
           None \<Rightarrow> Inl NullDeref
         | Some a \<Rightarrow>
             rbind (arena_free a (b_tmpBuf b) (b_handle b) (b_maxLength b) (b_cache b) w) (\<lambda>w1.
             let b1 = b\<lparr>b_handle := - 1, b_memory := None, b_tmpBuf := None, b_chunk := None\<rparr> in
             Inr (b1, w1\<lparr>w_recycled := recycler_recycle b1 (w_recycled w1)\<rparr>)))
      else Inr (b, w))"

end
