(* ===== verification/Allocator.thy ===== *)
theory Allocator
  imports ByteBuf
begin

text \<open>
  \<^verbatim>\<open>buffer/PoolByteBufAllocator\<close> and \<^verbatim>\<open>buffer/Buffer\<close>: the singleton that owns the arenas, the
  choice of an arena for the calling thread, and the handle type of the network code. The
  allocator is seen by one thread: an arena carries the cache of that thread, and
  \<open>al_threadCache\<close> is the arena it was given. The number of processors (\<^verbatim>\<open>DEFAULT_NUM_ARENA\<close>)
  and \<^verbatim>\<open>readv\<close> are parameters.
\<close>

record allocator =
  al_arenas :: "pool option list"
  al_smallCacheSize :: int
  al_normalCacheSize :: int
  al_chunkSize :: int
  al_threadCache :: "nat option"

abbreviation MIN_PAGE_SIZE :: int where "MIN_PAGE_SIZE \<equiv> 4096"
abbreviation MAX_CHUNK_SIZE :: int where "MAX_CHUNK_SIZE \<equiv> 1073741824"

definition validateAndCalculatePageShifts :: "int \<Rightarrow> int res" where
  "validateAndCalculatePageShifts pageSize =
     (if pageSize < MIN_PAGE_SIZE then Inl Thrown
      else if pageSize AND (pageSize - 1) \<noteq> 0 then Inl Thrown
      else Inr (log2 pageSize))"

fun double_chunk :: "nat \<Rightarrow> int \<Rightarrow> int res" where
  "double_chunk 0 chunkSize = Inr chunkSize"
| "double_chunk (Suc i) chunkSize =
     (if chunkSize > MAX_CHUNK_SIZE div 2 then Inl Thrown else double_chunk i (shl32 chunkSize 1))"

definition validateAndCalculateChunkSize :: "int \<Rightarrow> int \<Rightarrow> int res" where
  "validateAndCalculateChunkSize pageSize maxOrder =
     assert_that (maxOrder < 14) (double_chunk (nat maxOrder) pageSize)"

definition newArenaArray :: "int \<Rightarrow> pool option list" where
  "newArenaArray n = replicate (nat n) None"

fun fill_arenas :: "pool res \<Rightarrow> pool option list \<Rightarrow> pool option list res" where
  "fill_arenas arena [] = Inr []"
| "fill_arenas arena (_ # as) =
     rbind arena (\<lambda>a. rbind (fill_arenas arena as) (\<lambda>as'. Inr (Some a # as')))"

definition poolByteBufAllocatorInit :: "int \<Rightarrow> int \<Rightarrow> int \<Rightarrow> int \<Rightarrow> int \<Rightarrow> allocator res" where
  "poolByteBufAllocatorInit nArena pageSize maxOrder smallCacheSize normalCacheSize =
     rbind (validateAndCalculateChunkSize pageSize maxOrder) (\<lambda>chunkSize.
     rbind (validateAndCalculatePageShifts pageSize) (\<lambda>pageShifts.
     rbind (if nArena > 0
            then fill_arenas (PoolArena pageSize pageShifts chunkSize) (newArenaArray nArena)
            else Inr []) (\<lambda>arenas.
     Inr \<lparr>al_arenas = arenas, al_smallCacheSize = smallCacheSize, al_normalCacheSize = normalCacheSize,
          al_chunkSize = chunkSize, al_threadCache = None\<rparr>)))"

text \<open>\<^verbatim>\<open>m_arenas[0]\<close> is read before the test for an empty vector. The loop keeps the first of the
  arenas with the fewest thread caches.\<close>

definition arena_at :: "pool option list \<Rightarrow> nat \<Rightarrow> pool res" where
  "arena_at as i = rbind (at_vec as (int i)) (\<lambda>a. case a of None \<Rightarrow> Inl NullDeref | Some w \<Rightarrow> Inr w)"

fun least_from :: "pool option list \<Rightarrow> nat list \<Rightarrow> nat \<Rightarrow> nat res" where
  "least_from as [] minArena = Inr minArena"
| "least_from as (i # is) minArena =
     rbind (arena_at as i) (\<lambda>arena.
     rbind (arena_at as minArena) (\<lambda>m.
     least_from as is (if w_numThreadCaches arena < w_numThreadCaches m then i else minArena)))"

definition leastUsedArena :: "pool option list \<Rightarrow> nat option res" where
  "leastUsedArena arenas =
     rbind (at_vec arenas 0) (\<lambda>_.
     if arenas = [] then Inr None
     else rbind (least_from arenas [0..<length arenas] 0) (\<lambda>i. Inr (Some i)))"

definition initThreadLocalCache :: "allocator \<Rightarrow> allocator res" where
  "initThreadLocalCache al =
     rbind (leastUsedArena (al_arenas al)) (\<lambda>k. case k of
         None \<Rightarrow> Inr al
       | Some i \<Rightarrow>
           rbind (arena_at (al_arenas al) i) (\<lambda>w.
           rbind (PoolThreadCache (al_smallCacheSize al) (al_normalCacheSize al) 32768 8192 w) (\<lambda>w'.
           Inr (al\<lparr>al_arenas := (al_arenas al)[i := Some w'], al_threadCache := Some i\<rparr>))))"

definition ALLOCATOR :: "int \<Rightarrow> allocator option \<Rightarrow> allocator res" where
  "ALLOCATOR numArena default_alloc =
     rbind (case default_alloc of
              None \<Rightarrow> poolByteBufAllocatorInit numArena 8192 11 256 64
            | Some al \<Rightarrow> Inr al) (\<lambda>al.
     if al_threadCache al = None then initThreadLocalCache al else Inr al)"

definition validate :: "int \<Rightarrow> int \<Rightarrow> 'a res \<Rightarrow> 'a res" where
  "validate initialCapacity maxCapacity r =
     assert_that (initialCapacity \<ge> 0) (if initialCapacity > maxCapacity then Inl Thrown else r)"

definition threadCache :: "allocator \<Rightarrow> nat res" where
  "threadCache al = (case al_threadCache al of None \<Rightarrow> Inl AssertFailed | Some i \<Rightarrow> Inr i)"

definition newPoolBuffer :: "int \<Rightarrow> int \<Rightarrow> allocator \<Rightarrow> (byte_buf \<times> allocator) res" where
  "newPoolBuffer initCapacity maxCapacity al =
     (case al_threadCache al of
        None \<Rightarrow> Inl NullDeref
      | Some i \<Rightarrow>
          rbind (arena_at (al_arenas al) i) (\<lambda>w.
          rbind (arena_allocate initCapacity maxCapacity w) (\<lambda>(b, w').
          Inr (b, al\<lparr>al_arenas := (al_arenas al)[i := Some w']\<rparr>))))"

definition poolBuffer_max :: "int \<Rightarrow> int \<Rightarrow> allocator \<Rightarrow> (byte_buf option \<times> allocator) res" where
  "poolBuffer_max initCapacity maxCapacity al =
     (if initCapacity = 0 \<and> maxCapacity = 0 then Inr (None, al)
      else assert_that (initCapacity \<ge> 0 \<and> initCapacity \<le> maxCapacity)
        (rbind (newPoolBuffer initCapacity maxCapacity al) (\<lambda>(b, al'). Inr (Some b, al'))))"

definition poolBuffer :: "int \<Rightarrow> allocator \<Rightarrow> (byte_buf option \<times> allocator) res" where
  "poolBuffer initCapacity al = poolBuffer_max initCapacity INT_MAX al"

definition poolBuffer_default :: "allocator \<Rightarrow> (byte_buf option \<times> allocator) res" where
  "poolBuffer_default al = poolBuffer_max 256 INT_MAX al"

subsection \<open>\<^verbatim>\<open>Buffer\<close>\<close>

type_synonym buffer = "byte_buf option"

definition on_buf :: "buffer \<Rightarrow> (byte_buf \<Rightarrow> 'a res) \<Rightarrow> 'a res" where
  "on_buf b f = (case b of None \<Rightarrow> Inl NullDeref | Some x \<Rightarrow> f x)"

definition Buffer_null :: buffer where "Buffer_null = None"

definition Buffer :: "int \<Rightarrow> int \<Rightarrow> allocator option \<Rightarrow> (buffer \<times> allocator) res" where
  "Buffer numArena n al =
     assert_that (n \<ge> 0) (rbind (ALLOCATOR numArena al) (\<lambda>al'. poolBuffer n al'))"

definition Buffer_destroy :: "buffer \<Rightarrow> pool \<Rightarrow> pool res" where
  "Buffer_destroy b w = (case b of None \<Rightarrow> Inr w | Some x \<Rightarrow> rbind (deallocate x w) (\<lambda>(_, w'). Inr w'))"

definition buffer_readableBytes :: "buffer \<Rightarrow> int res" where
  "buffer_readableBytes b = on_buf b (\<lambda>x. Inr (readableBytes x))"

definition buffer_writableBytes :: "buffer \<Rightarrow> int res" where
  "buffer_writableBytes b = on_buf b (\<lambda>x. Inr (writableBytes x))"

definition buffer_swap :: "buffer \<Rightarrow> buffer \<Rightarrow> buffer \<times> buffer" where
  "buffer_swap b other = (other, b)"

definition buffer_peek :: "buffer \<Rightarrow> ptr res" where "buffer_peek b = on_buf b peek"

definition buffer_begin :: "buffer \<Rightarrow> ptr res" where
  "buffer_begin b = on_buf b (\<lambda>x. case b_tmpBuf x of None \<Rightarrow> Inl NullDeref | Some p \<Rightarrow> Inr p)"

definition buffer_capacity :: "buffer \<Rightarrow> int res" where
  "buffer_capacity b = on_buf b (\<lambda>x. Inr (capacity x))"

definition buffer_retrieve :: "int \<Rightarrow> buffer \<Rightarrow> buffer res" where
  "buffer_retrieve len b = on_buf b (\<lambda>x. rbind (retrieve len x) (\<lambda>x'. Inr (Some x')))"

definition buffer_retrieveAll :: "buffer \<Rightarrow> buffer res" where
  "buffer_retrieveAll b = on_buf b (\<lambda>x. Inr (Some (retrieveAll x)))"

definition buffer_retrieveAllAsString :: "pool \<Rightarrow> buffer \<Rightarrow> (char list \<times> buffer) res" where
  "buffer_retrieveAllAsString w b = on_buf b (\<lambda>x. rbind (retrieveAllAsString w x) (\<lambda>(s, x'). Inr (s, Some x')))"

text \<open>The wrapper of \<^verbatim>\<open>retrieveAsString\<close> calls it and then runs off its end.\<close>

definition buffer_retrieveAsString :: "pool \<Rightarrow> int \<Rightarrow> buffer \<Rightarrow> (char list \<times> buffer) res" where
  "buffer_retrieveAsString w len b = on_buf b (\<lambda>x. rbind (retrieveAsString w len x) (\<lambda>_. Inl NoReturn))"

definition buffer_writeBytes :: "char list \<Rightarrow> int \<Rightarrow> buffer \<Rightarrow> pool \<Rightarrow> (buffer \<times> pool) res" where
  "buffer_writeBytes data len b w =
     on_buf b (\<lambda>x. rbind (writeBytes data len x w) (\<lambda>(x', w'). Inr (Some x', w')))"

definition buffer_writeString :: "char list \<Rightarrow> buffer \<Rightarrow> pool \<Rightarrow> (buffer \<times> pool) res" where
  "buffer_writeString str b w =
     on_buf b (\<lambda>x. rbind (writeBytes str (i32 (int (length str))) x w) (\<lambda>(x', w'). Inr (Some x', w')))"

definition beginWrite :: "buffer \<Rightarrow> ptr res" where
  "beginWrite b = rbind (buffer_begin b) (\<lambda>p. on_buf b (\<lambda>x. Inr (fst p, snd p + b_writerIndex x)))"

text \<open>\<^verbatim>\<open>std::search\<close> for a pattern: the first place where it starts, or the end.\<close>

fun search :: "'a list \<Rightarrow> 'a list \<Rightarrow> nat" where
  "search [] pat = 0"
| "search (x # xs) pat = (if take (length pat) (x # xs) = pat then 0 else Suc (search xs pat))"

abbreviation kCRLF :: "char list" where "kCRLF \<equiv> [CHR 0x0D, CHR 0x0A]"

definition search_crlf :: "pool \<Rightarrow> ptr \<Rightarrow> ptr \<Rightarrow> ptr option res" where
  "search_crlf w start stop =
     rbind (read_mem w start (snd stop - snd start)) (\<lambda>cs.
     let crlf = (fst start, snd start + int (search cs kCRLF)) in
     Inr (if crlf = stop then None else Some crlf))"

definition findCRLF :: "pool \<Rightarrow> buffer \<Rightarrow> ptr option res" where
  "findCRLF w b = rbind (buffer_peek b) (\<lambda>p. rbind (beginWrite b) (\<lambda>e. search_crlf w p e))"

definition findCRLF_from :: "pool \<Rightarrow> ptr \<Rightarrow> buffer \<Rightarrow> ptr option res" where
  "findCRLF_from w start b = rbind (buffer_peek b) (\<lambda>p. rbind (beginWrite b) (\<lambda>e.
     assert_that (snd p \<le> snd start \<and> snd start \<le> snd e) (search_crlf w start e)))"

definition retrieveUntil :: "ptr \<Rightarrow> buffer \<Rightarrow> buffer res" where
  "retrieveUntil stop b = rbind (buffer_peek b) (\<lambda>p. rbind (beginWrite b) (\<lambda>e.
     assert_that (snd p \<le> snd stop \<and> snd stop \<le> snd e) (buffer_retrieve (snd stop - snd p) b)))"

text \<open>\<^verbatim>\<open>readFd\<close>. \<open>readv\<close> gets the lengths of the vectors and returns the error number or the bytes
  read; the call fills the space behind the writer index first and then the 64 KiB array on the
  stack, whose part is appended.\<close>

definition readFd ::
  "(int list \<Rightarrow> int + char list) \<Rightarrow> buffer \<Rightarrow> pool \<Rightarrow> (int \<times> int option \<times> buffer \<times> pool) res" where
  "readFd readv b w = on_buf b (\<lambda>x.
     let writable = u64 (writableBytes x);
         lens = (if writable < 65536 then [writable, 65536] else [writable]) in
     rbind (beginWrite b) (\<lambda>p.
     case readv lens of
       Inl errno \<Rightarrow> Inr (- 1, Some errno, b, w)
     | Inr cs \<Rightarrow>
         let n = int (length cs) in
         rbind (write_mem p (take (nat writable) cs) w) (\<lambda>w1.
         if n \<le> writable
         then Inr (n, None, Some (x\<lparr>b_writerIndex := b_writerIndex x + n\<rparr>), w1)
         else
           rbind (writeBytes (drop (nat writable) cs) (n - writable) (x\<lparr>b_writerIndex := capacity x\<rparr>) w1)
             (\<lambda>(x', w2). Inr (n, None, Some x', w2)))))"

end
