(* ===== verification/ByteBufSpec.thy ===== *)
theory ByteBufSpec
  imports ByteBuf
begin

text \<open>
  What a pooled buffer promises. The arena gives memory out and takes it back but never writes
  it (\<open>mem_le\<close>), and never touches the indices of the buffer it serves (\<open>same_indices\<close>). So the
  unread bytes of a buffer are a queue: a write appends at its end, through every path of the
  growth of the buffer, and a read takes from its front.
\<close>

definition fresh_ok :: "pool \<Rightarrow> bool" where
  "fresh_ok w \<longleftrightarrow> (\<forall>m. w_mem w m \<noteq> None \<longrightarrow> m < w_fresh w)"

definition mem_le :: "pool \<Rightarrow> pool \<Rightarrow> bool" where
  "mem_le w w' \<longleftrightarrow> w_fresh w \<le> w_fresh w' \<and> (fresh_ok w \<longrightarrow> fresh_ok w') \<and>
     (\<forall>m < w_fresh w. w_mem w' m = w_mem w m \<or> w_mem w' m = None)"

definition same_indices :: "byte_buf \<Rightarrow> byte_buf \<Rightarrow> bool" where
  "same_indices b b' \<longleftrightarrow> b_readerIndex b' = b_readerIndex b \<and> b_writerIndex b' = b_writerIndex b \<and>
     b_maxCapacity b' = b_maxCapacity b"

named_theorems frame \<open>what an operation leaves of the memory and of the indices\<close>

lemma mem_le_refl [simp, intro]: "mem_le w w"
  by (simp add: mem_le_def fresh_ok_def)

lemma mem_le_same: "w_mem w' = w_mem w \<Longrightarrow> w_fresh w \<le> w_fresh w' \<Longrightarrow> mem_le w w'"
  unfolding mem_le_def fresh_ok_def by (metis order_less_le_trans)

lemma mem_le_trans [trans]: "mem_le u v \<Longrightarrow> mem_le v w \<Longrightarrow> mem_le u w"
  unfolding mem_le_def by (metis order_less_le_trans order_trans)

lemma same_indices_refl [simp, intro]: "same_indices b b"
  by (simp add: same_indices_def)

lemma same_indices_trans [trans]: "same_indices a b \<Longrightarrow> same_indices b c \<Longrightarrow> same_indices a c"
  by (simp add: same_indices_def)

lemma mem_le_update [simp]:
  "mem_le w (w\<lparr>w_chunks := x\<rparr>)" "mem_le w (w\<lparr>w_subs := y\<rparr>)" "mem_le w (w\<lparr>w_small := z\<rparr>)"
  "mem_le w (w\<lparr>w_normal := z\<rparr>)" "mem_le w (w\<lparr>w_lists := l\<rparr>)" "mem_le w (w\<lparr>w_allocations := i\<rparr>)"
  "mem_le w (w\<lparr>w_activeBytesHuge := i\<rparr>)" "mem_le w (bump k w)" "mem_le w (set_head q h w)"
  "mem_le w (set_region t n rc w)"
  by (auto simp: mem_le_def fresh_ok_def bump_def set_head_def set_region_def split: size_class_type.splits)

lemma mem_le_cong:
  assumes "w_mem u' = w_mem u" "w_fresh u' = w_fresh u" "w_mem v' = w_mem v" "w_fresh v' = w_fresh v"
  shows "mem_le u' v' = mem_le u v"
  by (simp add: mem_le_def fresh_ok_def assms)

subsection \<open>Chunks\<close>

lemma put_chunk_mem [frame]: "put_chunk a f w = Inr w' \<Longrightarrow> mem_le w w'"
  by (auto simp: put_chunk_def)

lemma init0_indices [frame]:
  "init0 ca c bf h off len ml cache b = Inr b' \<Longrightarrow> same_indices b b' \<and> b_length b' = len"
  by (auto simp: init0_def same_indices_def Let_def split: option.splits)

lemma initBufWithSubpage_indices [frame]:
  "initBufWithSubpage w ca bf h req cache b = Inr b' \<Longrightarrow> same_indices b b' \<and> b_length b' = req"
  by (auto simp: initBufWithSubpage_def buf_init_def Let_def dest!: init0_indices)

lemma initBuf_indices [frame]:
  "initBuf w ca bf h req cache b = Inr b' \<Longrightarrow> same_indices b b' \<and> b_length b' = req"
  by (auto simp: initBuf_def buf_init_def Let_def dest!: init0_indices initBufWithSubpage_indices
      split: if_splits)

lemma allocateSubpage_mem [frame]:
  assumes "allocateSubpage i ca w = Inr (h, w')" shows "mem_le w w'"
  using assms
  by (intro mem_le_same) (auto simp: allocateSubpage_def Let_def put_chunk_def split: if_splits)

lemma take_cached_mem [frame]: "take_cached ca w = Inr (bf, w') \<Longrightarrow> mem_le w w'"
  by (auto simp: take_cached_def Let_def dest!: put_chunk_mem split: if_splits)

lemma chunk_allocate_frame [frame]:
  assumes "chunk_allocate req i cache ca b w = Inr (d, b', w')"
  shows "mem_le w w' \<and> same_indices b b' \<and> (d \<longrightarrow> b_length b' = req)"
  using assms unfolding chunk_allocate_def
  by (auto split: if_splits dest!: allocateSubpage_mem put_chunk_mem take_cached_mem initBuf_indices
      intro: mem_le_trans)

lemma chunk_free_run_mem [frame]: "chunk_free_run h bf ca w = Inr w' \<Longrightarrow> mem_le w w'"
  by (auto simp: chunk_free_run_def dest!: put_chunk_mem)

lemma chunk_free_mem [frame]:
  assumes "chunk_free h n bf ca w = Inr w'" shows "mem_le w w'"
proof (cases "isSubpage h")
  case False
  then show ?thesis using assms by (simp add: chunk_free_def chunk_free_run_mem)
next
  case True
  then obtain kept st w2 where w2: "mem_le (w\<lparr>w_subs := st\<rparr>) w2" and
    "w' = w2 \<or> chunk_free_run h bf ca w2 = Inr w'"
    using assms
    by (fastforce simp: chunk_free_def Let_def split: option.splits if_splits dest: put_chunk_mem)
  moreover have "mem_le w w2" using mem_le_trans [OF mem_le_update(2) w2] .
  ultimately show ?thesis by (auto dest: chunk_free_run_mem intro: mem_le_trans)
qed

lemma destroyChunk_mem [frame]: "destroyChunk a w = Inr w' \<Longrightarrow> mem_le w w'"
  by (auto simp: destroyChunk_def Let_def mem_le_def fresh_ok_def split: option.splits if_splits)

subsection \<open>Chunk lists\<close>

lemma list_add0_mem [frame]: "list_add0 q a w = Inr w' \<Longrightarrow> mem_le w w'"
  unfolding list_add0_def put_chunk_def
  by (auto simp: mem_le_def fresh_ok_def set_head_def split: option.splits)

lemma list_remove_mem [frame]: "list_remove q a w = Inr w' \<Longrightarrow> mem_le w w'"
  unfolding list_remove_def put_chunk_def Let_def
  by (auto simp: mem_le_def fresh_ok_def set_head_def split: option.splits if_splits)

lemma list_add_mem [frame]: "list_add n q a w = Inr w' \<Longrightarrow> mem_le w w'"
proof (induction n q a w rule: list_add.induct)
  case (3 n q a w)
  then show ?case by (auto split: if_splits dest!: list_add0_mem)
qed auto

lemma list_move_mem [frame]:
  "list_move n q a w = Inr (k, w') \<Longrightarrow> mem_le w w'"
  "list_move0 n q a w = Inr (k, w') \<Longrightarrow> mem_le w w'"
proof (induction n q a w and n q a w arbitrary: k w' and k w' rule: list_move_list_move0.induct)
  case (2 n q a w)
  then show ?case by (auto split: if_splits dest!: list_add0_mem)
next
  case (4 n q a w)
  then show ?case by (auto split: option.splits)
qed auto

lemma list_try_frame [frame]:
  "list_try n q p req i cache b w = Inr (d, b', w') \<Longrightarrow>
     mem_le w w' \<and> same_indices b b' \<and> (d \<longrightarrow> b_length b' = req)"
proof (induction n q p req i cache b w arbitrary: d b' w' rule: list_try.induct)
  case (3 n q a req i cache b w)
  from "3.prems" obtain ok b1 w1 pc where
    1: "chunk_allocate req i cache a b w = Inr (ok, b1, w1)" and 2: "get_chunk w1 a = Inr pc" and
    3: "(if ok then
       (if c_freeBytes (pc_chunk pc) \<le> cl_freeMinThreshold (w_lists w1 q)
        then rbind (list_remove q a w1) (\<lambda>w2.
             rbind (list_add lists_fuel (cl_nextList (w_lists w2 q)) a w2) (\<lambda>w3. Inr (True, b1, w3)))
        else Inr (True, b1, w1))
     else list_try n q (pc_next pc) req i cache b1 w1) = Inr (d, b', w')"
    by auto
  note fr = chunk_allocate_frame [OF 1]
  show ?case
  proof (cases ok)
    case True
    then show ?thesis using 3 fr
      by (auto split: if_splits dest!: list_remove_mem list_add_mem intro: mem_le_trans)
  next
    case False
    then have "list_try n q (pc_next pc) req i cache b1 w1 = Inr (d, b', w')" using 3 by simp
    from "3.IH" [OF 1 refl refl 2 _ this] False fr show ?thesis
      by (auto intro: mem_le_trans same_indices_trans)
  qed
qed auto

lemma list_allocate_frame [frame]:
  "list_allocate q req i cache b w = Inr (d, b', w') \<Longrightarrow>
     mem_le w w' \<and> same_indices b b' \<and> (d \<longrightarrow> b_length b' = req)"
  by (auto simp: list_allocate_def split: if_splits dest!: list_try_frame)

lemma list_free_mem [frame]: "list_free q a h n bf w = Inr (k, w') \<Longrightarrow> mem_le w w'"
  unfolding list_free_def
  by (auto split: if_splits dest!: chunk_free_mem list_remove_mem list_move_mem intro: mem_le_trans)

lemma freeChunk_mem [frame]: "freeChunk a h n t bf w = Inr w' \<Longrightarrow> mem_le w w'"
  unfolding freeChunk_def Let_def
  by (auto split: option.splits if_splits dest!: list_free_mem destroyChunk_mem
      intro: mem_le_trans [OF mem_le_update(8)] mem_le_trans)

subsection \<open>Caches\<close>

lemma free_entries_mem [frame]: "free_entries t es n k w = Inr (j, es', w') \<Longrightarrow> mem_le w w'"
  by (induction t es n k w rule: free_entries.induct)
    (fastforce simp: freeEntry_def split: if_splits dest: freeChunk_mem intro: mem_le_trans)+

lemma region_trim_mem [frame]: "region_trim rc w = Inr (rc', w') \<Longrightarrow> mem_le w w'"
  by (auto simp: region_trim_def region_free_def Let_def split: if_splits dest!: free_entries_mem)

lemma trim_caches_mem [frame]: "trim_caches rcs w = Inr (rcs', w') \<Longrightarrow> mem_le w w'"
  by (induction rcs w arbitrary: rcs' w' rule: trim_caches.induct)
    (fastforce dest: region_trim_mem intro: mem_le_trans)+

lemma thread_trim_mem [frame]:
  assumes "thread_trim w = Inr w'" shows "mem_le w w'"
proof -
  obtain small w1 norm w2 where 1: "trim_caches (w_small w) w = Inr (small, w1)" and
    2: "trim_caches (w_normal w1) (w1\<lparr>w_small := small\<rparr>) = Inr (norm, w2)" and
    3: "w' = w2\<lparr>w_normal := norm\<rparr>"
    using assms by (auto simp: thread_trim_def)
  have "mem_le w (w1\<lparr>w_small := small\<rparr>)" by (rule mem_le_trans [OF trim_caches_mem [OF 1]]) simp
  also have "mem_le \<dots> w2" by (rule trim_caches_mem [OF 2])
  also have "mem_le w2 w'" by (simp add: 3)
  finally show ?thesis .
qed

lemma count_cached_mem [frame]: "count_cached w = Inr w' \<Longrightarrow> mem_le w w'"
  by (auto simp: count_cached_def split: if_splits dest!: thread_trim_mem
      intro: mem_le_trans [OF mem_le_update(6)])

lemma region_allocate_indices [frame]:
  "region_allocate w b req rc = Inr (d, b', rc') \<Longrightarrow> same_indices b b' \<and> (d \<longrightarrow> b_length b' = req)"
  by (auto simp: region_allocate_def region_initBuf_def split: list.splits size_class_type.splits
      dest!: initBuf_indices initBufWithSubpage_indices)

lemma cache_allocate_frame [frame]:
  "cache_allocate t k req b w = Inr (d, b', w') \<Longrightarrow>
     mem_le w w' \<and> same_indices b b' \<and> (d \<longrightarrow> b_length b' = req)"
  by (auto simp: cache_allocate_def split: option.splits dest!: region_allocate_indices count_cached_mem
      intro: mem_le_trans [OF mem_le_update(10)])

subsection \<open>Arena\<close>

lemma defaultAllocate_fresh:
  assumes "defaultAllocate n w = Inr (m, w')"
  shows "m = w_fresh w" "w_mem w' m = Some (n, Map.empty)" "mem_le w w'" "w_fresh w' = Suc m"
proof -
  have w': "m = w_fresh w" "w' = w\<lparr>w_mem := (w_mem w)(m \<mapsto> (n, Map.empty)), w_fresh := Suc m\<rparr>"
    using assms by (auto simp: defaultAllocate_def split: if_splits)
  show "m = w_fresh w" "w_mem w' m = Some (n, Map.empty)" "w_fresh w' = Suc m" by (simp_all add: w')
  show "mem_le w w'" unfolding w'(2) mem_le_def fresh_ok_def by (simp add: w'(1)) (metis less_SucI)
qed

lemma add_chunk_mem: "mem_le w (snd (add_chunk c w))"
  by (rule mem_le_same) (simp_all add: add_chunk_def)

lemma newChunk_mem [frame]: "newChunk ps mp sh cs w = Inr (a, w') \<Longrightarrow> mem_le w w'"
  by (auto simp: newChunk_def dest!: defaultAllocate_fresh(3) intro: mem_le_trans)
    (metis add_chunk_mem mem_le_trans snd_conv)

lemma newUnpoolChunk_mem [frame]: "newUnpoolChunk n w = Inr (a, w') \<Longrightarrow> mem_le w w'"
  by (auto simp: newUnpoolChunk_def dest!: defaultAllocate_fresh(3) intro: mem_le_trans)
    (metis add_chunk_mem mem_le_trans snd_conv)

lemma bump_mem [simp]: "mem_le w (bump k v) = mem_le w v" "w_mem (bump k v) = w_mem v"
  "w_fresh (bump k v) = w_fresh v"
  by (simp_all add: mem_le_def fresh_ok_def bump_def)

lemma mem_le_counters [simp]:
  "mem_le w (v\<lparr>w_activeBytesHuge := i\<rparr>) = mem_le w v" "mem_le w (set_region t n rc v) = mem_le w v"
  by (simp_all add: mem_le_def fresh_ok_def set_region_def split: size_class_type.splits)

lemma try_list_frame:
  assumes "rbind (list_allocate q req i True b w) (\<lambda>(d, b, w). if d then Inr (b, w) else k b w) = Inr (b', w')"
    and "\<And>b1 w1. k b1 w1 = Inr (b', w') \<Longrightarrow> mem_le w1 w' \<and> same_indices b1 b' \<and> b_length b' = req"
  shows "mem_le w w' \<and> same_indices b b' \<and> b_length b' = req"
proof -
  obtain d b1 w1 where l: "list_allocate q req i True b w = Inr (d, b1, w1)"
    and r: "(if d then Inr (b1, w1) else k b1 w1) = Inr (b', w')"
    using assms(1) by auto
  show ?thesis using list_allocate_frame [OF l] r assms(2) [of b1 w1]
    by (auto split: if_splits intro: mem_le_trans same_indices_trans)
qed

lemma allocateNormal_frame [frame]:
  assumes "allocateNormal req i b w = Inr (b', w')"
  shows "mem_le w w' \<and> same_indices b b' \<and> b_length b' = req"
  using assms unfolding allocateNormal_def Let_def
proof (elim try_list_frame)
  fix b0 w0
  assume "rbind (newChunk (m_pageSize (w_sizes w0)) (m_nPSizes (w_sizes w0)) (m_pageShifts (w_sizes w0))
      (m_chunkSize (w_sizes w0)) w0) (\<lambda>(a, w1). rbind (chunk_allocate req i True a b0 w1) (\<lambda>(ret, b1, w2).
      assert_that ret (rbind (list_add lists_fuel (Some QInit) a w2) (\<lambda>w3. Inr (b1, w3))))) = Inr (b', w')"
  then obtain a w1 w2 where 1: "newChunk (m_pageSize (w_sizes w0)) (m_nPSizes (w_sizes w0))
      (m_pageShifts (w_sizes w0)) (m_chunkSize (w_sizes w0)) w0 = Inr (a, w1)"
    and 2: "chunk_allocate req i True a b0 w1 = Inr (True, b', w2)"
    and 3: "list_add lists_fuel (Some QInit) a w2 = Inr w'" by auto
  show "mem_le w0 w' \<and> same_indices b0 b' \<and> b_length b' = req"
    using newChunk_mem [OF 1] chunk_allocate_frame [OF 2] list_add_mem [OF 3]
    by (auto intro: mem_le_trans)
qed

lemma cache_hit_frame:
  assumes "cache_allocate t k req b w = Inr (hit, b1, w1)"
    and "if hit then b' = b1 \<and> w' = w1
         else mem_le w1 w' \<and> same_indices b1 b' \<and> b_length b' = req"
  shows "mem_le w w' \<and> same_indices b b' \<and> b_length b' = req"
  using cache_allocate_frame [OF assms(1)] assms(2)
  by (auto split: if_splits intro: mem_le_trans same_indices_trans)

lemma tcacheAllocateSmall_frame [frame]:
  assumes "tcacheAllocateSmall req i b w = Inr (b', w')"
  shows "mem_le w w' \<and> same_indices b b' \<and> b_length b' = req"
  using assms unfolding tcacheAllocateSmall_def cache_allocateSmall_def
  apply clarsimp
  apply (erule cache_hit_frame)
  apply (auto split: if_splits option.splits dest!: allocateNormal_frame initBufWithSubpage_indices)
  done

lemma tcacheAllocateNormal_frame [frame]:
  assumes "tcacheAllocateNormal req i b w = Inr (b', w')"
  shows "mem_le w w' \<and> same_indices b b' \<and> b_length b' = req"
  using assms unfolding tcacheAllocateNormal_def cache_allocateNormal_def
  apply clarsimp
  apply (erule cache_hit_frame)
  apply (auto split: if_splits dest!: allocateNormal_frame)
  done

lemma allocateHuge_frame [frame]:
  assumes "allocateHuge req b w = Inr (b', w')"
  shows "mem_le w w' \<and> same_indices b b' \<and> b_length b' = req"
  using assms unfolding allocateHuge_def Let_def initUnpool_def
  apply (clarsimp simp del: init0_def)
  apply (drule init0_indices, drule newUnpoolChunk_mem)
  apply (simp add: mem_le_def fresh_ok_def)
  done

lemma arena_allocate_buf_frame [frame]:
  assumes "arena_allocate_buf req b w = Inr (b', w')"
  shows "mem_le w w' \<and> same_indices b b' \<and>
     (b_length b' = req \<or> normalizeSize (w_sizes w) req = Inr (b_length b'))"
  using assms unfolding arena_allocate_buf_def
  by (auto split: if_splits dest!: tcacheAllocateSmall_frame tcacheAllocateNormal_frame allocateHuge_frame)

lemma arena_free_mem [frame]:
  assumes "arena_free a bf h n cache w = Inr w'" shows "mem_le w w'"
  using assms unfolding arena_free_def Let_def cache_add_def
  by (auto dest!: destroyChunk_mem freeChunk_mem split: if_splits option.splits)

subsection \<open>The bytes of a buffer\<close>

definition byte_at :: "pool \<Rightarrow> byte_buf \<Rightarrow> int \<Rightarrow> char option" where
  "byte_at w b i = (case b_memory b of None \<Rightarrow> None
     | Some m \<Rightarrow> (case w_mem w m of None \<Rightarrow> None | Some (sz, f) \<Rightarrow> f (b_offset b + i)))"

definition unread :: "pool \<Rightarrow> byte_buf \<Rightarrow> char option list" where
  "unread w b = map (byte_at w b) [b_readerIndex b..b_writerIndex b - 1]"

text \<open>A buffer in order: its region is live and holds it, and it reads where it writes.\<close>

definition in_region :: "pool \<Rightarrow> byte_buf \<Rightarrow> bool" where
  "in_region w b \<longleftrightarrow> (case b_memory b of None \<Rightarrow> False | Some m \<Rightarrow>
     (case w_mem w m of None \<Rightarrow> False | Some (sz, f) \<Rightarrow>
        0 \<le> b_offset b \<and> b_offset b + b_length b \<le> sz \<and> b_tmpBuf b = Some (m, b_offset b)))"

definition buf_ok :: "pool \<Rightarrow> byte_buf \<Rightarrow> bool" where
  "buf_ok w b \<longleftrightarrow> in_region w b \<and> 0 \<le> b_readerIndex b \<and> b_readerIndex b \<le> b_writerIndex b \<and>
     b_writerIndex b \<le> b_length b \<and> b_length b \<le> INT_MAX \<and> b_maxCapacity b \<le> INT_MAX"

lemma unread_cong:
  assumes "b_readerIndex b' = b_readerIndex b" "b_writerIndex b' = b_writerIndex b"
    and "\<And>i. b_readerIndex b \<le> i \<Longrightarrow> i < b_writerIndex b \<Longrightarrow> byte_at w' b' i = byte_at w b i"
  shows "unread w' b' = unread w b"
  using assms by (simp add: unread_def)

lemma length_unread: "b_readerIndex b \<le> b_writerIndex b \<Longrightarrow>
    int (length (unread w b)) = readableBytes b"
  by (simp add: unread_def readableBytes_def)

lemma setBytes_bytes:
  assumes s: "setBytes i data 0 len b w = Inr w'"
  shows "byte_at w' b j = (if i \<le> j \<and> j < i + len then Some (data ! nat (j - i)) else byte_at w b j)"
    and "w_fresh w' = w_fresh w" and "0 \<le> len" and "len \<le> int (length data)"
    and "in_region w' b = in_region w b"
proof -
  obtain m where m: "b_memory b = Some m" using s by (auto simp: setBytes_def split: option.splits)
  have len: "0 \<le> len" "len \<le> int (length data)"
    using s m by (auto simp: setBytes_def split: if_splits)
  obtain sz f where f: "w_mem w m = Some (sz, f)"
    and w': "w' = w\<lparr>w_mem := (w_mem w)(m \<mapsto> (sz, write_bytes f (idx b i) (take (nat len) data)))\<rparr>"
    using s m len by (auto simp: setBytes_def write_mem_def split: option.splits if_splits)
  show "byte_at w' b j = (if i \<le> j \<and> j < i + len then Some (data ! nat (j - i)) else byte_at w b j)"
    using len by (auto simp: byte_at_def m f w' write_bytes_def idx_def)
  show "in_region w' b = in_region w b" by (auto simp: in_region_def m f w')
  show "0 \<le> len" "len \<le> int (length data)" by (fact len)+
  show "w_fresh w' = w_fresh w" by (simp add: w')
qed

lemma memoryCopy_bytes:
  assumes c: "memoryCopy (mem_ptr b) (mem_ptr b2) n w = Inr w'"
  shows "0 \<le> j \<Longrightarrow> j < n \<Longrightarrow> byte_at w' b2 j = byte_at w b j"
    and "n \<noteq> 0 \<Longrightarrow> \<exists>m. b_memory b = Some m \<and> w_mem w m \<noteq> None"
    and "n \<noteq> 0 \<Longrightarrow> \<exists>m. b_memory b2 = Some m \<and> w_mem w' m \<noteq> None"
    and "fresh_ok w \<Longrightarrow> fresh_ok w'"
  using c
  by (auto simp: memoryCopy_def mem_ptr_def byte_at_def fresh_ok_def split: if_splits option.splits prod.splits)

lemma byte_at_mem_le:
  assumes "mem_le w w'" "fresh_ok w" "b_memory b = Some m" "w_mem w m \<noteq> None" "w_mem w' m \<noteq> None"
  shows "byte_at w' b j = byte_at w b j"
proof -
  have "w_mem w' m = w_mem w m" using assms unfolding mem_le_def fresh_ok_def by metis
  then show ?thesis by (simp add: byte_at_def assms(3))
qed

lemma byte_at_fields:
  "b_memory b' = b_memory b \<Longrightarrow> b_offset b' = b_offset b \<Longrightarrow> byte_at w b' = byte_at w b"
  by (rule ext) (simp add: byte_at_def split: option.split)

lemma byte_at_update [simp]:
  "byte_at w (b\<lparr>b_length := x\<rparr>) = byte_at w b" "byte_at w (b\<lparr>b_writerIndex := x\<rparr>) = byte_at w b"
  "byte_at w (b\<lparr>b_readerIndex := x\<rparr>) = byte_at w b"
  by (rule byte_at_fields; simp)+

lemma in_region_update [simp]:
  "in_region w (b\<lparr>b_writerIndex := x\<rparr>) = in_region w b"
  "in_region w (b\<lparr>b_readerIndex := x\<rparr>) = in_region w b"
  by (simp_all add: in_region_def split: option.split)

lemma in_region_live: "in_region w b \<Longrightarrow> \<exists>m. b_memory b = Some m \<and> w_mem w m \<noteq> None"
  by (auto simp: in_region_def split: option.splits)

lemma reallocate_grows:
  assumes ok: "buf_ok w b" and fresh: "fresh_ok w" and r: "reallocate nc True b w = Inr (b', w')"
    and nc: "nc > b_length b" and r': "in_region w' b'"
  shows "unread w' b' = unread w b \<and> same_indices b b' \<and> fresh_ok w'"
proof -
  obtain a w1 w2 where 1: "arena_allocate_buf nc b w = Inr (b', w1)"
    and 2: "memoryCopy (mem_ptr b) (mem_ptr b') (b_length b) w1 = Inr w2"
    and 3: "arena_free a (b_tmpBuf b) (b_handle b) (b_maxLength b) (b_cache b') w2 = Inr w'"
    using r nc by (auto simp: reallocate_def Let_def split: option.splits)
  note f1 = arena_allocate_buf_frame [OF 1] and f3 = arena_free_mem [OF 3]
  have fr: "fresh_ok w1" "fresh_ok w2" "fresh_ok w'"
    using f1 f3 fresh memoryCopy_bytes(4) [OF 2] by (auto simp: mem_le_def)
  obtain m where m: "b_memory b = Some m" "w_mem w m \<noteq> None"
    using ok in_region_live [of w b] unfolding buf_ok_def by blast
  obtain m' where m': "b_memory b' = Some m'" "w_mem w' m' \<noteq> None" using in_region_live [OF r'] by blast
  have "unread w' b' = unread w b"
  proof (rule unread_cong)
    fix i assume i: "b_readerIndex b \<le> i" "i < b_writerIndex b"
    then have i': "0 \<le> i" "i < b_length b" using ok by (auto simp: buf_ok_def)
    then have n: "b_length b \<noteq> 0" by auto
    have "byte_at w' b' i = byte_at w2 b' i"
      using byte_at_mem_le [OF f3 fr(2) m'(1) _ m'(2)] memoryCopy_bytes(3) [OF 2 n] m'(1) by auto
    also have "\<dots> = byte_at w1 b i" by (rule memoryCopy_bytes(1) [OF 2 i'])
    also have "\<dots> = byte_at w b i"
      using byte_at_mem_le [OF _ fresh m(1) m(2)] memoryCopy_bytes(2) [OF 2 n] m(1) f1 by auto
    finally show "byte_at w' b' i = byte_at w b i" .
  qed (use f1 in \<open>auto simp: same_indices_def\<close>)
  then show ?thesis using f1 fr by simp
qed

lemma double_up_ge: "double_up n m c = Inr r \<Longrightarrow> m \<le> r"
  by (induction n m c rule: double_up.induct) (auto split: if_splits)

lemma calculateNewCapacity_ge: "calculateNewCapacity m mx = Inr r \<Longrightarrow> m \<le> r"
proof -
  assume c: "calculateNewCapacity m mx = Inr r"
  have "m < m div 4194304 * 4194304 + 4194304"
    using div_mult_mod_eq [of m 4194304] pos_mod_bound [of 4194304 m] by linarith
  then show ?thesis using c
    by (auto simp: calculateNewCapacity_def Let_def dest: double_up_ge split: if_splits)
qed

lemma i32_le: "INT_MIN \<le> x \<Longrightarrow> i32 x \<le> x"
proof -
  assume x: "INT_MIN \<le> x"
  then have "(x + 2147483648) mod 4294967296 \<le> x + 2147483648"
    by (intro zmod_le_nonneg_dividend) simp
  then show ?thesis by (simp add: i32_mod)
qed

lemma ensureWritable_unread:
  assumes ok: "buf_ok w b" and fresh: "fresh_ok w" and e: "ensureWritable n b w = Inr (b', w')"
    and r': "in_region w' b'"
  shows "unread w' b' = unread w b \<and> same_indices b b' \<and> fresh_ok w'"
proof -
  let ?t = "i32 (b_writerIndex b + n)"
  have t: "0 \<le> n" "0 \<le> ?t" "?t \<le> b_maxCapacity b" using e by (auto simp: ensureWritable_def Let_def)
  show ?thesis
  proof (cases "?t > capacity b")
    case False
    then show ?thesis using e fresh by (simp add: ensureWritable_def Let_def)
  next
    case True
    have "\<not> writableBytes b \<ge> n"
      using True i32_le [of "b_writerIndex b + n"] ok t(1) by (auto simp: writableBytes_def buf_ok_def)
    then obtain nc where c: "calculateNewCapacity ?t (b_maxCapacity b) = Inr nc"
      and s: "set_capacity nc b w = Inr (b', w')"
      using e True by (auto simp: ensureWritable_def Let_def)
    have nc: "nc > b_length b" using calculateNewCapacity_ge [OF c] True by (simp add: capacity_def)
    show ?thesis
    proof (cases "nc \<le> b_maxLength b")
      case True
      then have "b' = b\<lparr>b_length := nc\<rparr> \<and> w' = w" using s nc by (simp add: set_capacity_def)
      then show ?thesis using fresh
        by (auto intro!: unread_cong simp: same_indices_def)
    next
      case False
      then have "reallocate nc True b w = Inr (b', w')" using s nc
        by (auto simp: set_capacity_def split: if_splits)
      from reallocate_grows [OF ok fresh this nc r'] show ?thesis .
    qed
  qed
qed

lemma upto_append: "(a :: int) \<le> b \<Longrightarrow> b \<le> c \<Longrightarrow> [a..c - 1] = [a..b - 1] @ [b..c - 1]"
  using upto_split1 [of a b "c - 1"] by (cases "b = c") simp_all

lemma map_upto_nth:
  "0 \<le> n \<Longrightarrow> n \<le> int (length xs) \<Longrightarrow> map (\<lambda>i. xs ! nat (i - b)) [b..b + n - 1] = take (nat n) xs"
  by (rule nth_equalityI) auto

text \<open>Bytes set behind the writer index, which then moves behind them.\<close>

lemma setBytes_unread:
  assumes rw: "b_readerIndex b \<le> b_writerIndex b" and s: "setBytes (b_writerIndex b) data 0 n b w = Inr w'"
  shows "unread w' (b\<lparr>b_writerIndex := b_writerIndex b + n\<rparr>) = unread w b @ map Some (take (nat n) data)"
proof -
  let ?r = "b_readerIndex b" and ?k = "b_writerIndex b"
  note sb = setBytes_bytes [OF s]
  have "unread w' (b\<lparr>b_writerIndex := ?k + n\<rparr>) = map (byte_at w' b) [?r..?k - 1] @ map (byte_at w' b) [?k..?k + n - 1]"
    unfolding unread_def using upto_append [OF rw, of "?k + n"] sb(3) by simp
  also have "map (byte_at w' b) [?r..?k - 1] = unread w b"
    unfolding unread_def by (rule map_cong) (auto simp: sb(1))
  also have "map (byte_at w' b) [?k..?k + n - 1] = map Some (map (\<lambda>i. data ! nat (i - ?k)) [?k..?k + n - 1])"
    by (simp add: sb(1))
  finally show ?thesis using map_upto_nth [OF sb(3,4)] by simp
qed

lemma setBytes_fresh: "setBytes i data j n b w = Inr w' \<Longrightarrow> fresh_ok w \<Longrightarrow> fresh_ok w'"
  by (auto simp: fresh_ok_def setBytes_def write_mem_def split: option.splits if_splits)

lemma writeBytes_unread:
  assumes ok: "buf_ok w b" and fresh: "fresh_ok w" and wr: "writeBytes data n b w = Inr (b', w')"
    and r': "in_region w' b'"
  shows "unread w' b' = unread w b @ map Some (take (nat n) data) \<and> fresh_ok w' \<and>
     b_readerIndex b' = b_readerIndex b \<and> b_writerIndex b' = b_writerIndex b + n"
proof -
  obtain b1 w1 where 1: "ensureWritable n b w = Inr (b1, w1)"
    and 2: "setBytes (b_writerIndex b1) data 0 n b1 w1 = Inr w'"
    and 3: "b' = b1\<lparr>b_writerIndex := b_writerIndex b1 + n\<rparr>"
    using wr by (auto simp: writeBytes_def writeBytes_at_def)
  have "in_region w' b1" using r' by (simp add: 3)
  then have "in_region w1 b1" using setBytes_bytes(5) [OF 2] by simp
  from ensureWritable_unread [OF ok fresh 1 this]
  have u: "unread w1 b1 = unread w b" and si: "same_indices b b1" and fr: "fresh_ok w1" by auto
  have "b_readerIndex b1 \<le> b_writerIndex b1" using si ok by (auto simp: same_indices_def buf_ok_def)
  from setBytes_unread [OF this 2] show ?thesis
    using u si setBytes_fresh [OF 2 fr] by (simp add: 3 same_indices_def)
qed

text \<open>A write that fits into the capacity.\<close>

lemma ensureWritable_fits:
  assumes "buf_ok w b" "int n \<le> writableBytes b" "capacity b \<le> b_maxCapacity b"
  shows "ensureWritable (int n) b w = Inr (b, w)"
proof -
  have "0 \<le> b_writerIndex b" "b_writerIndex b + int n \<le> b_length b" "b_length b \<le> INT_MAX"
    using assms by (auto simp: buf_ok_def writableBytes_def capacity_def)
  then show ?thesis using assms(3) by (simp add: ensureWritable_def Let_def i32_id capacity_def)
qed

lemma writeBytes_fits:
  assumes ok: "buf_ok w b" and fresh: "fresh_ok w" and n: "int (length s) \<le> writableBytes b"
    and mx: "capacity b \<le> b_maxCapacity b"
  shows "\<exists>w'. writeBytes s (int (length s)) b w = Inr (b\<lparr>b_writerIndex := b_writerIndex b + int (length s)\<rparr>, w') \<and>
     buf_ok w' (b\<lparr>b_writerIndex := b_writerIndex b + int (length s)\<rparr>) \<and> fresh_ok w' \<and>
     unread w' (b\<lparr>b_writerIndex := b_writerIndex b + int (length s)\<rparr>) = unread w b @ map Some s"
proof -
  let ?b = "b\<lparr>b_writerIndex := b_writerIndex b + int (length s)\<rparr>"
  have rng: "0 \<le> b_writerIndex b" "b_writerIndex b + int (length s) \<le> b_length b" "b_length b \<le> INT_MAX"
    using ok n by (auto simp: buf_ok_def writableBytes_def capacity_def)
  note e = ensureWritable_fits [OF ok n mx]
  obtain m sz f where m: "b_memory b = Some m" "w_mem w m = Some (sz, f)"
    "0 \<le> b_offset b" "b_offset b + b_length b \<le> sz" "b_tmpBuf b = Some (m, b_offset b)"
    using ok by (auto simp: buf_ok_def in_region_def split: option.splits)
  obtain w' where s: "setBytes (b_writerIndex b) s 0 (int (length s)) b w = Inr w'"
    using m rng by (simp add: setBytes_def write_mem_def idx_def)
  have wr: "writeBytes s (int (length s)) b w = Inr (?b, w')"
    by (simp add: writeBytes_def writeBytes_at_def e s)
  have r: "in_region w' ?b" using setBytes_bytes(5) [OF s] ok by (simp add: buf_ok_def)
  then have "buf_ok w' ?b" using ok rng by (auto simp: buf_ok_def)
  then show ?thesis using wr writeBytes_unread [OF ok fresh wr r] by simp
qed


definition sample_buf :: byte_buf where
  "sample_buf = \<lparr>b_maxCapacity = 256, b_chunk = None, b_handle = 0, b_memory = Some 0, b_offset = 8,
     b_length = 16, b_maxLength = 16, b_cache = False, b_tmpBuf = Some (0, 8), b_readerIndex = 0,
     b_writerIndex = 2\<rparr>"

definition sample_pool :: pool where
  "sample_pool = \<lparr>w_sizes = default_sizes, w_chunks = Map.empty, w_subs = Map.empty, w_heads = [],
     w_lists = empty_lists, w_mem = [0 \<mapsto> (64, write_bytes Map.empty 8 ''ab'')], w_fresh = 1, w_small = [],
     w_normal = [], w_allocations = 0, w_threshold = 8192, w_numThreadCaches = 0, w_activeBytesHuge = 0,
     w_counts = (\<lambda>_. 0), w_recycled = []\<rparr>"

definition sample_written :: pool where
  "sample_written = sample_pool\<lparr>w_mem := [0 \<mapsto> (64, write_bytes (write_bytes Map.empty 8 ''ab'') 10 ''cd'')]\<rparr>"

lemma sample_ok: "buf_ok sample_pool sample_buf" "fresh_ok sample_pool"
  by (simp_all add: buf_ok_def in_region_def sample_buf_def sample_pool_def fresh_ok_def)

lemma sample_write:
  "writeBytes ''cd'' 2 sample_buf sample_pool = Inr (sample_buf\<lparr>b_writerIndex := 4\<rparr>, sample_written)"
  by (simp add: writeBytes_def writeBytes_at_def ensureWritable_def setBytes_def write_mem_def idx_def
      capacity_def sample_buf_def sample_pool_def sample_written_def i32_id)

lemma sample_written_in: "in_region sample_written (sample_buf\<lparr>b_writerIndex := 4\<rparr>)"
  by (simp add: in_region_def sample_buf_def sample_written_def)


subsection \<open>Reading\<close>

lemma read_mem_bytes:
  assumes m: "b_memory b = Some m" and live: "in_region w b" and n: "0 \<le> n"
    and r: "read_mem w (m, b_offset b + i) n = Inr cs"
  shows "map Some cs = map (byte_at w b) [i..i + n - 1]"
proof -
  obtain sz f where f: "w_mem w m = Some (sz, f)"
    using live by (auto simp: in_region_def m split: option.splits)
  have all: "list_all (\<lambda>k. f (b_offset b + i + k) \<noteq> None) [0..n - 1]"
    and cs: "cs = map (\<lambda>k. the (f (b_offset b + i + k))) [0..n - 1]"
    using r by (auto simp: read_mem_def f split: if_splits)
  have "map Some cs = map (\<lambda>k. f (b_offset b + i + k)) [0..n - 1]"
    unfolding cs using all by (auto simp: list_all_iff)
  also have "\<dots> = map (byte_at w b) [i..i + n - 1]"
    by (rule nth_equalityI) (auto simp: byte_at_def m f algebra_simps)
  finally show ?thesis .
qed

lemma read_mem_total:
  assumes m: "b_memory b = Some m" and live: "in_region w b"
    and i: "0 \<le> i" "0 \<le> n" "i + n \<le> b_length b"
    and known: "\<And>j. i \<le> j \<Longrightarrow> j < i + n \<Longrightarrow> byte_at w b j \<noteq> None"
  shows "\<exists>cs. read_mem w (m, b_offset b + i) n = Inr cs"
proof -
  obtain sz f where f: "w_mem w m = Some (sz, f)" and sz: "0 \<le> b_offset b" "b_offset b + b_length b \<le> sz"
    using live by (auto simp: in_region_def m split: option.splits)
  have "f (b_offset b + i + k) \<noteq> None" if "0 \<le> k" "k < n" for k
    using known [of "i + k"] that by (auto simp: byte_at_def m f add.assoc)
  then have "list_all (\<lambda>k. f (b_offset b + i + k) \<noteq> None) [0..n - 1]" by (auto simp: list_all_iff)
  then show ?thesis using i sz by (simp add: read_mem_def f)
qed

lemma u64_readable: "buf_ok w b \<Longrightarrow> u64 (readableBytes b) = readableBytes b"
  unfolding u64_def by (rule take_bit_int_eq_self) (auto simp: buf_ok_def readableBytes_def)

lemma unread_known: "i < b_writerIndex b \<Longrightarrow> b_readerIndex b \<le> i \<Longrightarrow> None \<notin> set (unread w b) \<Longrightarrow>
    byte_at w b i \<noteq> None"
  by (force simp: unread_def)

lemma retrieve_unread:
  assumes ok: "buf_ok w b" and n: "0 \<le> n" "n \<le> readableBytes b"
  shows "\<exists>b'. retrieve n b = Inr b' \<and> unread w b' = drop (nat n) (unread w b) \<and> buf_ok w b'"
proof -
  note u = u64_readable [OF ok]
  have rw: "b_readerIndex b \<le> b_writerIndex b" using ok by (simp add: buf_ok_def)
  show ?thesis
  proof (cases "n < readableBytes b")
    case True
    have "[b_readerIndex b..b_writerIndex b - 1]
        = [b_readerIndex b..b_readerIndex b + n - 1] @ [b_readerIndex b + n..b_writerIndex b - 1]"
      using n True by (intro upto_append) (auto simp: readableBytes_def)
    then have "unread w (b\<lparr>b_readerIndex := b_readerIndex b + n\<rparr>) = drop (nat n) (unread w b)"
      by (simp add: unread_def)
    then show ?thesis using ok n True u
      by (auto simp: retrieve_def buf_ok_def readableBytes_def)
  next
    case False
    then have "drop (nat n) (unread w b) = []"
      using length_unread [OF rw, of w] by auto
    moreover have "in_region w (retrieveAll b)"
      using ok by (simp add: retrieveAll_def buf_ok_def)
    ultimately show ?thesis using ok n False u
      by (auto simp: retrieve_def retrieveAll_def unread_def buf_ok_def)
  qed
qed

lemma buf_ok_ptr:
  assumes "buf_ok w b"
  shows "\<exists>m. b_memory b = Some m \<and> b_tmpBuf b = Some (m, b_offset b) \<and> in_region w b"
  using assms by (auto simp: buf_ok_def in_region_def split: option.splits)

lemma read_unread:
  assumes ok: "buf_ok w b" and u: "unread w b = map Some cs" and n: "n \<le> length cs"
    and m: "b_memory b = Some m"
  shows "read_mem w (m, b_offset b + b_readerIndex b) (int n) = Inr (take n cs)"
proof -
  have live: "in_region w b" using ok by (simp add: buf_ok_def)
  have rw: "b_readerIndex b \<le> b_writerIndex b" "0 \<le> b_readerIndex b" "b_writerIndex b \<le> b_length b"
    using ok by (auto simp: buf_ok_def)
  have len: "int (length cs) = b_writerIndex b - b_readerIndex b"
    using length_unread [OF rw(1), of w] u by (simp add: readableBytes_def)
  have known: "None \<notin> set (unread w b)" by (auto simp: u)
  have "\<exists>s. read_mem w (m, b_offset b + b_readerIndex b) (int n) = Inr s"
    using rw len n by (intro read_mem_total [OF m live] unread_known known) auto
  then obtain s where s: "read_mem w (m, b_offset b + b_readerIndex b) (int n) = Inr s" by blast
  have "map Some s = map (byte_at w b) [b_readerIndex b..b_readerIndex b + int n - 1]"
    by (rule read_mem_bytes [OF m live _ s]) simp
  also have "\<dots> = take n (unread w b)"
  proof -
    have "[b_readerIndex b..b_writerIndex b - 1] =
        [b_readerIndex b..b_readerIndex b + int n - 1] @ [b_readerIndex b + int n..b_writerIndex b - 1]"
      using n len by (intro upto_append) auto
    then show ?thesis by (simp add: unread_def)
  qed
  finally have "map Some s = map Some (take n cs)" by (simp add: u take_map)
  then have "s = take n cs" by (simp add: inj_map_eq_map)
  then show ?thesis using s by simp
qed

text \<open>A read takes from the front: for a buffer in order with its unread bytes written,
  \<^verbatim>\<open>retrieveAsString\<close> of at most the readable bytes returns exactly the first unread bytes, leaves
  the rest unread and the buffer in order; asked for more it stops at its assertion.\<close>

lemma retrieveAsString_takes:
  assumes ok: "buf_ok w b" and known: "None \<notin> set (unread w b)" and n: "0 \<le> n"
  shows "if n \<le> readableBytes b
    then \<exists>s b'. retrieveAsString w n b = Inr (s, b') \<and> unread w b = map Some s @ unread w b' \<and>
           int (length s) = n \<and> buf_ok w b'
    else retrieveAsString w n b = Inl AssertFailed"
proof (cases "n \<le> readableBytes b")
  case True
  have live: "in_region w b" using ok by (simp add: buf_ok_def)
  obtain m where m: "b_memory b = Some m" and t: "b_tmpBuf b = Some (m, b_offset b)"
    using live by (auto simp: in_region_def split: option.splits)
  let ?r = "b_readerIndex b"
  have rng: "0 \<le> ?r" "?r + n \<le> b_length b" "?r + n \<le> b_writerIndex b"
    using ok True by (auto simp: buf_ok_def readableBytes_def)
  have "\<exists>cs. read_mem w (m, b_offset b + ?r) n = Inr cs"
    using rng by (intro read_mem_total [OF m live rng(1) n rng(2)] unread_known known) auto
  then obtain s where s: "read_mem w (m, b_offset b + ?r) n = Inr s" by blast
  have s': "map Some s = map (byte_at w b) [?r..?r + n - 1]" by (rule read_mem_bytes [OF m live n s])
  have "[?r..b_writerIndex b - 1] = [?r..?r + n - 1] @ [?r + n..b_writerIndex b - 1]"
    using n rng(3) by (intro upto_append) auto
  then have "take (nat n) (unread w b) = map Some s" unfolding s' by (simp add: unread_def)
  moreover have "int (length s) = n" using arg_cong [OF s', of length] n by simp
  moreover obtain b' where "retrieve n b = Inr b'" "unread w b' = drop (nat n) (unread w b)" "buf_ok w b'"
    using retrieve_unread [OF ok n True] by blast
  ultimately have "retrieveAsString w n b = Inr (s, b') \<and> unread w b = map Some s @ unread w b' \<and>
      int (length s) = n \<and> buf_ok w b'"
    using True u64_readable [OF ok] s t by (simp add: retrieveAsString_def peek_def) (metis append_take_drop_id)
  then show ?thesis using True by auto
next
  case False
  then show ?thesis using u64_readable [OF ok] by (simp add: retrieveAsString_def)
qed

lemma sample_unread: "unread sample_pool sample_buf = map Some ''ab''"
  by (simp add: unread_def sample_buf_def sample_pool_def byte_at_def write_bytes_def upto.simps)

lemma retrieveAsString_takes_witness:
  "\<exists>s b'. retrieveAsString sample_pool 1 sample_buf = Inr (s, b') \<and>
     unread sample_pool sample_buf = map Some s @ unread sample_pool b' \<and> int (length s) = 1 \<and> buf_ok sample_pool b'"
proof -
  have "None \<notin> set (unread sample_pool sample_buf)" "readableBytes sample_buf = 2"
    by (simp_all only: sample_unread) (auto simp: readableBytes_def sample_buf_def)
  then show ?thesis using retrieveAsString_takes [OF sample_ok(1), of 1] by simp
qed

end
