(* ===== verification/AllocatorSpec.thy ===== *)
theory AllocatorSpec
  imports Allocator ByteBufSpec ChunkSpec
begin

text \<open>
  The promises of the allocator: the capacity a buffer grows to, the chunk size, the arena a
  thread is given; the queue of a region cache; and the reuse of cached pointers by
  \<^verbatim>\<open>PoolChunk::allocate\<close>, which does not keep the reading side of a buffer on its memory.
\<close>

subsection \<open>Sizes\<close>

lemma double_fits:
  fixes c :: int
  assumes "0 < c" "c * 2 ^ Suc n \<le> 1073741824"
  shows "shl32 c 1 = 2 * c" "c \<le> 536870912"
proof -
  have "c * 1 \<le> c * 2 ^ n" using assms(1) by (intro mult_left_mono) auto
  moreover have "c * 2 ^ Suc n = 2 * (c * 2 ^ n)" by simp
  ultimately show "c \<le> 536870912" using assms(2) by linarith
  then show "shl32 c 1 = 2 * c" using assms(1) by (simp add: shl32_eq)
qed

lemma double_up_bounds:
  assumes "0 < c" "m \<le> c * 2 ^ n" "c * 2 ^ n \<le> 1073741824"
  shows "\<exists>r. double_up (Suc n) m c = Inr r \<and> m \<le> r \<and> (r = c \<or> r < 2 * m)"
  using assms
proof (induction n arbitrary: c)
  case 0
  then show ?case by simp
next
  case (Suc n)
  show ?case
  proof (cases "c < m")
    case True
    have "2 * c * 2 ^ n = c * 2 ^ Suc n" by simp
    then have s: "shl32 c 1 = 2 * c" "2 * c * 2 ^ n \<le> 1073741824" "m \<le> 2 * c * 2 ^ n"
      using Suc.prems double_fits [of c n] by simp_all
    obtain r where r: "double_up (Suc n) m (2 * c) = Inr r" "m \<le> r" "r = 2 * c \<or> r < 2 * m"
      using Suc.IH [of "2 * c"] s Suc.prems(1) by auto
    moreover have "r < 2 * m" using r(3) True by auto
    ultimately show ?thesis using True s(1) by auto
  next
    case False
    then show ?thesis by simp
  qed
qed

text \<open>\<^verbatim>\<open>calculateNewCapacity\<close> ends and its answer holds the request and respects the maximum;
  it wastes at most half below the 4 MiB threshold and at most 4 MiB above it. A request above
  the maximum throws.\<close>

lemma calculateNewCapacity_fits:
  assumes "0 \<le> m" "m \<le> INT_MAX" "mx \<le> INT_MAX"
  shows "if m > mx then calculateNewCapacity m mx = Inl Thrown
    else \<exists>r. calculateNewCapacity m mx = Inr r \<and> m \<le> r \<and> r \<le> mx \<and>
      (if m < 4194304 then r \<le> 64 \<or> r < 2 * m else r \<le> m + 4194304)"
proof (cases "m > mx")
  case False
  consider "m = 4194304" | "m > 4194304" | "m < 4194304" by linarith
  then show ?thesis
  proof cases
    case 2
    define q where "q = m div 4194304 * 4194304"
    have "q \<le> m" "m < q + 4194304"
      using div_mult_mod_eq [of m 4194304] pos_mod_bound [of 4194304 m] pos_mod_sign [of 4194304 m]
      unfolding q_def by linarith+
    moreover have "calculateNewCapacity m mx = Inr (if q > mx - 4194304 then mx else q + 4194304)"
      using False 2 by (simp add: calculateNewCapacity_def q_def Let_def)
    ultimately show ?thesis using False 2 by auto
  next
    case 3
    obtain r where "double_up 17 m 64 = Inr r" "m \<le> r" "r = 64 \<or> r < 2 * m"
      using double_up_bounds [of 64 m 16] 3 by (auto simp: eval_nat_numeral simp del: double_up.simps)
    then show ?thesis using False 3 assms
      by (auto simp: calculateNewCapacity_def simp del: double_up.simps)
  qed (use False in \<open>simp add: calculateNewCapacity_def\<close>)
qed (use assms in \<open>simp add: calculateNewCapacity_def\<close>)

lemma calculateNewCapacity_fits_witness:
  "\<exists>r. calculateNewCapacity 100 300 = Inr r \<and> 100 \<le> r \<and> r \<le> 300 \<and> (r \<le> 64 \<or> r < 2 * 100)"
  using calculateNewCapacity_fits [of 100 300] by simp

lemma double_chunk_exact:
  assumes "1 \<le> c"
  shows "double_chunk (Suc n) c
    = (if c * 2 ^ Suc n \<le> MAX_CHUNK_SIZE then Inr (c * 2 ^ Suc n) else Inl Thrown)"
  using assms
proof (induction n arbitrary: c)
  case 0
  then show ?case by (auto simp: shl32_eq)
next
  case (Suc n)
  have pow: "2 * c * 2 ^ Suc n = c * 2 ^ Suc (Suc n)" by simp
  show ?case
  proof (cases "c > 536870912")
    case True
    then have "\<not> c * 2 ^ Suc (Suc n) \<le> 1073741824" using double_fits(2) [of c "Suc n"] by linarith
    then show ?thesis using True by (subst double_chunk.simps) simp
  next
    case False
    then have "shl32 c 1 = 2 * c" using Suc.prems by (auto simp: shl32_eq)
    then have "double_chunk (Suc (Suc n)) c = double_chunk (Suc n) (2 * c)"
      using False by (subst double_chunk.simps) auto
    then show ?thesis using Suc.IH [of "2 * c"] Suc.prems pow by simp
  qed
qed

text \<open>\<^verbatim>\<open>validateAndCalculateChunkSize\<close> returns \<open>pageSize * 2 ^ maxOrder\<close> exactly when that is
  at most half of the \<^verbatim>\<open>int\<close> range and throws otherwise, so no shift overflows.\<close>

lemma chunk_size_exact:
  assumes "1 \<le> pageSize" "1 \<le> maxOrder" "maxOrder < 14"
  shows "validateAndCalculateChunkSize pageSize maxOrder
    = (if pageSize * 2 ^ nat maxOrder \<le> MAX_CHUNK_SIZE then Inr (pageSize * 2 ^ nat maxOrder) else Inl Thrown)"
proof -
  obtain n where "nat maxOrder = Suc n" using assms(2) by (cases "nat maxOrder") auto
  then show ?thesis
    using double_chunk_exact [OF assms(1), of n] assms(3)
    by (simp only: validateAndCalculateChunkSize_def assert_that_def if_True)
qed

lemma chunk_size_exact_witness: "validateAndCalculateChunkSize 8192 11 = Inr 16777216"
  using chunk_size_exact [of 8192 11] by simp

subsection \<open>Arenas\<close>

abbreviation caches_of :: "pool option list \<Rightarrow> nat \<Rightarrow> int" where
  "caches_of as i \<equiv> w_numThreadCaches (the (as ! i))"

lemma arena_at_ok: "None \<notin> set as \<Longrightarrow> i < length as \<Longrightarrow> arena_at as i = Inr (the (as ! i))"
proof -
  assume "None \<notin> set as" "i < length as"
  then obtain w where "as ! i = Some w" using nth_mem [of i as] by (cases "as ! i") fastforce+
  then show ?thesis using \<open>i < length as\<close> by (simp add: arena_at_def at_vec_def)
qed

lemma least_from_least:
  assumes as: "None \<notin> set as" and k: "k \<le> length as" "m < k"
    and min: "\<forall>j < k. caches_of as m \<le> caches_of as j" "\<forall>j < m. caches_of as m < caches_of as j"
  shows "\<exists>i. least_from as [k..<length as] m = Inr i \<and> i < length as \<and>
    (\<forall>j < length as. caches_of as i \<le> caches_of as j) \<and> (\<forall>j < i. caches_of as i < caches_of as j)"
  using k min
proof (induction "length as - k" arbitrary: k m)
  case 0
  then show ?case by auto
next
  case (Suc d)
  then have k: "k < length as" by simp
  have up: "[k..<length as] = k # [Suc k..<length as]" using k by (rule upt_conv_Cons)
  define m' where "m' = (if caches_of as k < caches_of as m then k else m)"
  have "least_from as [k..<length as] m = least_from as [Suc k..<length as] m'"
    using k Suc.prems by (simp add: up arena_at_ok [OF as] m'_def)
  moreover have "m' < Suc k" using Suc.prems by (simp add: m'_def)
  moreover have "\<forall>j < Suc k. caches_of as m' \<le> caches_of as j"
    using Suc.prems by (auto simp: m'_def less_Suc_eq)
  moreover have "\<forall>j < m'. caches_of as m' < caches_of as j"
    using Suc.prems by (auto simp: m'_def intro: order_less_le_trans)
  ultimately show ?case using Suc.hyps(1) [of "Suc k" m'] Suc.hyps(2) k by simp
qed

text \<open>A thread is given the first of the arenas with the fewest thread caches. With no arena
  the vector is read out of range before it is tested for being empty.\<close>

lemma leastUsedArena_least:
  assumes "None \<notin> set as"
  shows "if as = [] then leastUsedArena as = Inl OutOfRange
    else \<exists>i. leastUsedArena as = Inr (Some i) \<and> i < length as \<and>
      (\<forall>j < length as. caches_of as i \<le> caches_of as j) \<and> (\<forall>j < i. caches_of as i < caches_of as j)"
proof (cases "as = []")
  case False
  then have up: "[0..<length as] = 0 # [1..<length as]" by (simp add: upt_conv_Cons)
  have "least_from as [0..<length as] 0 = least_from as [1..<length as] 0"
    using False assms by (simp add: up arena_at_ok)
  moreover have "\<exists>i. least_from as [1..<length as] 0 = Inr i \<and> i < length as \<and>
    (\<forall>j < length as. caches_of as i \<le> caches_of as j) \<and> (\<forall>j < i. caches_of as i < caches_of as j)"
    using False by (intro least_from_least [OF assms]) (auto simp: Suc_le_eq)
  ultimately show ?thesis using False by (auto simp: leastUsedArena_def at_vec_def)
qed (simp add: leastUsedArena_def at_vec_def)

lemma leastUsedArena_least_witness:
  "\<exists>i < 2. leastUsedArena [Some sample_pool, Some sample_pool] = Inr (Some i)"
  using leastUsedArena_least [of "[Some sample_pool, Some sample_pool]"] by auto

subsection \<open>Cached pointers\<close>

lemma insertAvailRun_keeps:
  "insertAvailRun sc o' p h c = Inr c' \<Longrightarrow> c_cachedBuffers c' = c_cachedBuffers c \<and> c_memory c' = c_memory c"
  by (auto simp: insertAvailRun_def insertAvailRun0_def Let_def split: if_splits)

lemma removeAvailRun_keeps:
  "removeAvailRun_at q h c = Inr c' \<Longrightarrow> c_cachedBuffers c' = c_cachedBuffers c \<and> c_memory c' = c_memory c"
  "removeAvailRun sc h c = Inr c' \<Longrightarrow> c_cachedBuffers c' = c_cachedBuffers c \<and> c_memory c' = c_memory c"
  by (auto simp: removeAvailRun_def removeAvailRun_at_def erase_avail_def Let_def split: if_splits)

lemma allocateRun_keeps:
  "allocateRun sc r c = Inr (h, c') \<Longrightarrow> c_cachedBuffers c' = c_cachedBuffers c \<and> c_memory c' = c_memory c"
  by (auto simp: allocateRun_def splitLargeRun_def Let_def split: if_splits
      dest!: removeAvailRun_keeps insertAvailRun_keeps)

lemma collapse_keeps:
  "collapsePrev n sc h c = Inr (h', c') \<Longrightarrow> c_cachedBuffers c' = c_cachedBuffers c \<and> c_memory c' = c_memory c"
  "collapseNext n sc h c = Inr (h', c') \<Longrightarrow> c_cachedBuffers c' = c_cachedBuffers c \<and> c_memory c' = c_memory c"
  by (induction n arbitrary: h c; fastforce simp: Let_def split: if_splits dest!: removeAvailRun_keeps)+

lemma freeRun_keeps:
  assumes "freeRun sc h (Some p) c = Inr c'" "c_cachedBuffers c = []"
  shows "c_cachedBuffers c' = [p] \<and> c_memory c' = c_memory c"
proof -
  obtain h1 c1 c2 where 1: "collapseRuns sc h c = Inr (h1, c1)" "insertAvailRun sc (calculateRunOffset (clear_flags h1))
      (calculateRunPages (clear_flags h1)) (clear_flags h1) c1 = Inr c2"
    and c': "c' = (let c3 = c2\<lparr>c_freeBytes := i32 (c_freeBytes c2 + shl32 (pg h) (c_pageShifts c2))\<rparr> in
      if int (length (c_cachedBuffers c3)) < DEFAULT_MAX_CACHED_BYTES_PER_CHUNK
      then c3\<lparr>c_cachedBuffers := c_cachedBuffers c3 @ [p]\<rparr> else c3)"
    using assms(1) by (auto simp: freeRun_def Let_def simp del: if_split)
  have "c_cachedBuffers c2 = [] \<and> c_memory c2 = c_memory c"
    using 1 assms(2) by (auto simp: collapseRuns_def dest!: collapse_keeps insertAvailRun_keeps)
  then show ?thesis by (simp add: c')
qed

text \<open>A chunk that holds pointers of freed buffers gives the last of them to the next run it
  allocates, whatever the place of the run: the buffer reads at that pointer
  (\<open>m_tmpBuf\<close>, \<^verbatim>\<open>peek\<close>) and writes at its own offset in the memory of the chunk.\<close>

lemma cached_pointer_detached:
  assumes r: "chunk_reach c L" and w: "w_sizes w = default_sizes" "w_chunks w ca = Some pc" "pc_chunk pc = c"
    and cached: "c_cachedBuffers c \<noteq> []" and i: "38 < i" "sizeIdx2size default_sizes i = Inr (p * 8192)"
    and p: "1 \<le> p" "p \<le> 2048" and a: "chunk_allocate req i cache ca b w = Inr (True, b', w')"
  shows "b_tmpBuf b' = Some (last (c_cachedBuffers c)) \<and> b_memory b' = c_memory c \<and>
    b_offset b' = calculateRunOffset (b_handle b') * 8192 \<and> b_handle b' \<notin> L"
proof -
  obtain h c1 where h: "allocateRun default_sizes (p * 8192) c = Inr (h, c1)" and h0: "0 \<le> h"
    and rest: "rbind (put_chunk ca (\<lambda>p. p\<lparr>pc_chunk := c1\<rparr>) w) (\<lambda>w1. rbind (take_cached ca w1) (\<lambda>(buffer, w2).
       rbind (initBuf w2 ca buffer h req cache b) (\<lambda>b'. Inr (True, b', w2)))) = Inr (True, b', w')"
    using a w i by (auto simp: chunk_allocate_def get_chunk_def split: if_splits)
  have "h \<noteq> - 1" using h0 by auto
  then have new: "h \<notin> L" "chunk_reach c1 (insert h L)"
    using allocateRun_sound [OF r p] h by auto
  obtain F where I: "chunk_inv c1 (insert h L) F" using chunk_reach_inv [OF new(2)] by blast
  then have run: "isRun h" "c_pageShifts c1 = 13" "0 \<le> calculateRunOffset h" "calculateRunOffset h < 2048"
    by (auto simp: chunk_inv_def isRun_def in_chunk_def)
  then have off: "shl32 (calculateRunOffset h) 13 = calculateRunOffset h * 8192" by (simp add: shl32_eq)
  note k = allocateRun_keeps [OF h]
  show ?thesis using rest w cached run k new(1) off
    by (auto simp: put_chunk_def take_cached_def get_chunk_def initBuf_def buf_init_def init0_def Let_def
        split: if_splits)
qed

lemma chunk_with_pointer:
  "\<exists>c. chunk_reach c {} \<and> c_cachedBuffers c = [(0, 0)] \<and> c_memory c = Some 0"
proof -
  obtain c where c: "new_chunk (Some 0) = Inr c" using new_chunk_ok by blast
  have r: "chunk_reach c {}" by (rule chunk_reach.start [OF c])
  have cb: "c_cachedBuffers c = [] \<and> c_memory c = Some 0"
    using c by (auto simp: PoolChunk_def Let_def newRunsAvailQueue_def newPoolSubpageArray_def
        dest!: insertAvailRun_keeps)
  have five: "page2pageIdx default_sizes 5 = Inr 4" "pageIdx2size default_sizes 4 = Inr 40960"
    using page2pageIdx_default [of 5] class_of_size_of [of 4 13] by (simp_all add: size_of_def)
  obtain h c1 where h: "allocateRun default_sizes (5 * 8192) c = Inr (h, c1)" "h \<noteq> - 1"
    using allocateRun_finds_space [OF r _ _ five, of 0] by auto
  have r1: "chunk_reach c1 {h}" and h0: "0 \<le> h" using allocateRun_sound [OF r, of 5] h by auto
  obtain c2 where c2: "freeRun default_sizes h (Some (0, 0)) c1 = Inr c2" "chunk_reach c2 ({h} - {h})"
    using freeRun_total [OF r1, of h h "Some (0, 0)"] h0 by auto
  have "c_cachedBuffers c2 = [(0, 0)] \<and> c_memory c2 = Some 0"
    using freeRun_keeps [OF c2(1)] allocateRun_keeps [OF h(1)] cb by simp
  then show ?thesis using c2(2) by auto
qed

lemma cached_pointer_detached_witness:
  "\<exists>w b' w'. chunk_allocate 40960 40 True 7 sample_buf w = Inr (True, b', w') \<and> b_tmpBuf b' = Some (0, 0) \<and>
     b_memory b' = Some 0 \<and> b_offset b' = calculateRunOffset (b_handle b') * 8192"
proof -
  obtain c where c: "chunk_reach c {}" "c_cachedBuffers c = [(0, 0)]" "c_memory c = Some 0"
    using chunk_with_pointer by blast
  define w where "w = sample_pool\<lparr>w_chunks := [7 \<mapsto> \<lparr>pc_chunk = c, pc_prev = None, pc_next = None, pc_parent = None\<rparr>]\<rparr>"
  have five: "page2pageIdx default_sizes 5 = Inr 4" "pageIdx2size default_sizes 4 = Inr 40960"
    using page2pageIdx_default [of 5] class_of_size_of [of 4 13] by (simp_all add: size_of_def)
  have sz: "sizeIdx2size default_sizes 40 = Inr (5 * 8192)" by (simp add: size_of_def)
  obtain h c1 where h: "allocateRun default_sizes (5 * 8192) c = Inr (h, c1)" "h \<noteq> - 1"
    using allocateRun_finds_space [OF c(1) _ _ five, of 0] by auto
  have h0: "0 \<le> h" "chunk_reach c1 {h}" using allocateRun_sound [OF c(1), of 5] h by auto
  then obtain F where "chunk_inv c1 {h} F" using chunk_reach_inv by blast
  then have run: "isRun h" by (auto simp: chunk_inv_def isRun_def)
  note k = allocateRun_keeps [OF h(1)]
  have "\<exists>b' w'. chunk_allocate 40960 40 True 7 sample_buf w = Inr (True, b', w')"
    using sz h h0 run k c
    by (simp add: chunk_allocate_def w_def sample_pool_def get_chunk_def put_chunk_def take_cached_def
        initBuf_def buf_init_def init0_def Let_def store_upd_def deref_def)
  then obtain b' w' where a: "chunk_allocate 40960 40 True 7 sample_buf w = Inr (True, b', w')" by blast
  have "w_sizes w = default_sizes" "w_chunks w 7 = Some \<lparr>pc_chunk = c, pc_prev = None, pc_next = None, pc_parent = None\<rparr>"
    by (simp_all add: w_def sample_pool_def)
  from cached_pointer_detached [OF c(1) this _ _ _ sz _ _ a] c(2,3)
  have "b_tmpBuf b' = Some (0, 0) \<and> b_memory b' = Some 0 \<and>
      b_offset b' = calculateRunOffset (b_handle b') * 8192" by simp
  then show ?thesis using a by blast
qed

end
