(* ===== verification/TimeEntry.thy ===== *)
theory TimeEntry
  imports Prelude
begin

text \<open>
  \<^verbatim>\<open>timer/delay_queue/TimeEntry.h\<close>: times as seconds and microseconds. The operators work on
  the time in microseconds in \<^verbatim>\<open>long\<close>, which every step of theirs is cut to by \<open>i64\<close> (in C++ a signed
  overflow is undefined; the theorems are about values for which \<open>in_long\<close> says that there is
  none). \<^verbatim>\<open>gettimeofday\<close> and \<^verbatim>\<open>mktime\<close> are arguments of the definitions that use them.
\<close>

record time_entry =
  tv_sec :: int
  tv_usec :: int

definition time_default :: time_entry where "time_default = \<lparr>tv_sec = - 1, tv_usec = - 1\<rparr>"

definition add64 :: "int \<Rightarrow> int \<Rightarrow> int" where "add64 a b = i64 (a + b)"
definition sub64 :: "int \<Rightarrow> int \<Rightarrow> int" where "sub64 a b = i64 (a - b)"
definition mul64 :: "int \<Rightarrow> int \<Rightarrow> int" where "mul64 a b = i64 (a * b)"

definition usecs :: "time_entry \<Rightarrow> int" where "usecs t = add64 (mul64 (tv_sec t) 1000000) (tv_usec t)"

definition of_usecs :: "int \<Rightarrow> time_entry" where
  "of_usecs s = \<lparr>tv_sec = trunc_div s 1000000, tv_usec = trunc_mod s 1000000\<rparr>"

definition time_minus :: "time_entry \<Rightarrow> time_entry \<Rightarrow> time_entry" where
  "time_minus l r =
     (let s = sub64 (sub64 (usecs l) (mul64 (tv_sec r) 1000000)) (tv_usec r) in
      if s < 0 then time_default else of_usecs s)"

definition time_plus :: "time_entry \<Rightarrow> time_entry \<Rightarrow> time_entry" where
  "time_plus l r = of_usecs (add64 (add64 (usecs l) (mul64 (tv_sec r) 1000000)) (tv_usec r))"

definition time_mod :: "time_entry \<Rightarrow> time_entry \<Rightarrow> time_entry res" where
  "time_mod l r = (if usecs r = 0 then Inl DivByZero else Inr (of_usecs (trunc_mod (usecs l) (usecs r))))"

definition time_times :: "time_entry \<Rightarrow> int \<Rightarrow> time_entry" where
  "time_times l n = of_usecs (mul64 (usecs l) n)"

definition time_div :: "time_entry \<Rightarrow> time_entry \<Rightarrow> int res" where
  "time_div l r = (if usecs r = 0 then Inl DivByZero else Inr (i64 (trunc_div (usecs l) (usecs r))))"

definition time_less :: "time_entry \<Rightarrow> time_entry \<Rightarrow> bool" where "time_less l r \<longleftrightarrow> usecs l < usecs r"
definition time_greater :: "time_entry \<Rightarrow> time_entry \<Rightarrow> bool" where "time_greater l r \<longleftrightarrow> usecs l > usecs r"
definition time_geq :: "time_entry \<Rightarrow> time_entry \<Rightarrow> bool" where "time_geq l r \<longleftrightarrow> usecs l \<ge> usecs r"
definition time_neq :: "time_entry \<Rightarrow> time_entry \<Rightarrow> bool" where "time_neq l r \<longleftrightarrow> usecs l \<noteq> usecs r"

text \<open>\<^verbatim>\<open>struct tm\<close>: second, minute, hour, day of the month, month, years since 1900.\<close>

type_synonym tm = "int \<times> int \<times> int \<times> int \<times> int \<times> int"

record timer_expiration = m_timevars :: "int list"

definition TimerExpiration :: "int list \<Rightarrow> timer_expiration" where
  "TimerExpiration args = \<lparr>m_timevars = fold (\<lambda>t vs. vs @ [t]) args []\<rparr>"

definition getTimeval :: "(tm \<Rightarrow> int) \<Rightarrow> timer_expiration \<Rightarrow> time_entry res" where
  "getTimeval mktime x =
     (let v = m_timevars x in
      rbind (at_vec v 5) (\<lambda>sec. rbind (at_vec v 4) (\<lambda>mnt. rbind (at_vec v 3) (\<lambda>hour.
      rbind (at_vec v 2) (\<lambda>mday. rbind (at_vec v 1) (\<lambda>mon. rbind (at_vec v 0) (\<lambda>year.
      let time_sec = mktime (i32 sec, i32 mnt, i32 hour, i32 mday, i32 mon - 1, i32 year - 1900) in
      rbind (at_vec v 6) (\<lambda>us. Inr \<lparr>tv_sec = time_sec, tv_usec = us\<rparr>))))))))"

definition getTimeEntry :: "(tm \<Rightarrow> int) \<Rightarrow> timer_expiration \<Rightarrow> time_entry res" where
  "getTimeEntry mktime x = rbind (getTimeval mktime x) Inr"

subsection \<open>The range of \<^verbatim>\<open>long\<close>\<close>

definition in_long :: "int \<Rightarrow> bool" where
  "in_long x \<longleftrightarrow> - 9223372036854775808 \<le> x \<and> x < 9223372036854775808"

lemma in_long_numeral [simp]:
  "in_long 0" "in_long 1" "in_long (numeral n) \<longleftrightarrow> numeral n < (9223372036854775808 :: int)"
  "in_long (- numeral n) \<longleftrightarrow> numeral n \<le> (9223372036854775808 :: int)"
  by (auto simp: in_long_def intro: order_less_le_trans [of _ 0])

lemma i64_in_long [simp]: "in_long x \<Longrightarrow> i64 x = x"
  by (simp add: in_long_def i64_id)

lemma in_long_i64 [simp]: "in_long (i64 x)"
  using signed_take_bit_int_greater_eq_minus_exp [of 63 x] signed_take_bit_int_less_exp [of 63 x]
  by (simp add: i64_def in_long_def)

lemma i64_steps:
  "i64 (i64 a + b) = i64 (a + b)" "i64 (a + i64 b) = i64 (a + b)"
  "i64 (i64 a - b) = i64 (a - b)" "i64 (a - i64 b) = i64 (a - b)"
proof -
  have same: "i64 x = i64 y \<longleftrightarrow> take_bit 64 x = take_bit 64 y" for x y
    by (simp add: i64_def signed_take_bit_eq_iff_take_bit_eq)
  have bits: "take_bit 64 (i64 x) = take_bit 64 x" for x by (simp add: i64_def take_bit_signed_take_bit)
  show "i64 (i64 a + b) = i64 (a + b)" "i64 (a + i64 b) = i64 (a + b)"
    "i64 (i64 a - b) = i64 (a - b)" "i64 (a - i64 b) = i64 (a - b)"
    unfolding same by (metis bits take_bit_add, metis bits take_bit_add, metis bits take_bit_diff, metis bits take_bit_diff)
qed

lemma in_long_between: "0 \<le> x \<Longrightarrow> x \<le> y \<Longrightarrow> in_long y \<Longrightarrow> in_long x"
  by (simp add: in_long_def)

lemma in_long_diff: "0 \<le> x \<Longrightarrow> 0 \<le> y \<Longrightarrow> in_long x \<Longrightarrow> in_long y \<Longrightarrow> in_long (x - y)"
  by (simp add: in_long_def)

lemma in_long_usecs [simp]: "in_long (usecs t)"
  by (simp add: usecs_def add64_def)

lemma usecs_total: "usecs t = i64 (tv_sec t * 1000000 + tv_usec t)"
  by (simp add: usecs_def add64_def mul64_def i64_steps)

text \<open>The sums the operators make step by step.\<close>

lemma usecs_sums:
  "add64 (add64 (usecs a) (mul64 (tv_sec b) 1000000)) (tv_usec b) = i64 (usecs a + usecs b)"
  "sub64 (sub64 (usecs a) (mul64 (tv_sec b) 1000000)) (tv_usec b) = i64 (usecs a - usecs b)"
proof -
  show "add64 (add64 (usecs a) (mul64 (tv_sec b) 1000000)) (tv_usec b) = i64 (usecs a + usecs b)"
    by (simp add: add64_def mul64_def usecs_total [of b] i64_steps add.assoc)
  show "sub64 (sub64 (usecs a) (mul64 (tv_sec b) 1000000)) (tv_usec b) = i64 (usecs a - usecs b)"
    by (simp add: sub64_def mul64_def usecs_total [of b] i64_steps diff_diff_eq)
qed

lemma time_ops:
  "time_plus a b = of_usecs (i64 (usecs a + usecs b))" "time_times a n = of_usecs (i64 (usecs a * n))"
  "time_minus a b = (if i64 (usecs a - usecs b) < 0 then time_default else of_usecs (i64 (usecs a - usecs b)))"
  unfolding time_plus_def time_minus_def usecs_sums Let_def by (simp_all add: time_times_def mul64_def)

subsection \<open>Times as microseconds\<close>

lemma usecs_of_usecs [simp]: "in_long s \<Longrightarrow> usecs (of_usecs s) = s"
  using trunc_div_mod [of 1000000 s] by (simp add: usecs_total of_usecs_def)

lemma usecs_zero [simp]: "usecs \<lparr>tv_sec = 0, tv_usec = 0\<rparr> = 0"
  by (simp add: usecs_total)

lemma usecs_default [simp]: "usecs time_default = - 1000001"
  by (simp add: usecs_total time_default_def)

definition normalised :: "time_entry \<Rightarrow> bool" where
  "normalised t \<longleftrightarrow> 0 \<le> tv_sec t \<and> 0 \<le> tv_usec t \<and> tv_usec t < 1000000 \<and> in_long (tv_sec t * 1000000 + tv_usec t)"

lemma normalised_usecs: "normalised t \<Longrightarrow> usecs t = tv_sec t * 1000000 + tv_usec t"
  by (simp add: normalised_def usecs_total)

lemma normalised_of_usecs: "0 \<le> s \<Longrightarrow> in_long s \<Longrightarrow> normalised (of_usecs s)"
  by (simp add: normalised_def of_usecs_def pos_imp_zdiv_nonneg_iff)

lemma of_usecs_usecs: "normalised t \<Longrightarrow> of_usecs (usecs t) = t"
  unfolding normalised_usecs by (simp add: normalised_def of_usecs_def)

lemma usecs_nonneg: "normalised t \<Longrightarrow> 0 \<le> usecs t"
  unfolding normalised_usecs by (simp add: normalised_def)

lemma usecs_ops:
  "in_long (usecs a + usecs b) \<Longrightarrow> usecs (time_plus a b) = usecs a + usecs b"
  "in_long (usecs a * n) \<Longrightarrow> usecs (time_times a n) = usecs a * n"
  "usecs b \<le> usecs a \<Longrightarrow> in_long (usecs a - usecs b) \<Longrightarrow> usecs (time_minus a b) = usecs a - usecs b"
  by (simp_all add: time_ops)

text \<open>The start of the tick of a time: \<open>t - t % tick\<close>, as the wheels compute it.\<close>

lemma tick_start:
  assumes "0 \<le> usecs t" "0 < usecs tick"
  shows "\<exists>m. time_mod t tick = Inr m \<and> usecs (time_minus t m) = usecs t - usecs t mod usecs tick"
proof -
  have le: "usecs t mod usecs tick \<le> usecs t" and ge: "0 \<le> usecs t mod usecs tick"
    using assms by (simp_all add: zmod_le_nonneg_dividend)
  then have "in_long (usecs t mod usecs tick)" "in_long (usecs t - usecs t mod usecs tick)"
    using in_long_between [of _ "usecs t"] by simp_all
  then show ?thesis using assms le by (auto simp: time_mod_def usecs_ops)
qed



end
