(* ===== verification/DelayQueue.thy ===== *)
theory DelayQueue
  imports TimeEntry BestFitQueue
begin

text \<open>
  \<^verbatim>\<open>timer/delay_queue/DelayQueue.h\<close>: entries ordered by their expiration in a
  \<^verbatim>\<open>std::priority_queue\<close>, which \<open>poll\<close> gives out once they are due. The queue is the heap of
  \<open>StdHeap\<close> with the expiration in microseconds as its key. The reading of the clock in \<open>poll\<close>
  is its argument \<open>now\<close>. The spin lock is modelled separately (\<open>SpinLock\<close>).
\<close>

record 'a delay_queue_entry =
  dqe_expiration :: time_entry
  dqe_appendix :: 'a

type_synonym 'a delay_queue = "'a delay_queue_entry list"

definition dqe_greater :: "'a delay_queue_entry \<Rightarrow> 'a delay_queue_entry \<Rightarrow> bool" where
  "dqe_greater l r \<longleftrightarrow>
     add64 (mul64 (tv_sec (dqe_expiration l)) 1000000) (tv_usec (dqe_expiration l))
       > add64 (mul64 (tv_sec (dqe_expiration r)) 1000000) (tv_usec (dqe_expiration r))"

definition dqe_key :: "'a delay_queue_entry \<Rightarrow> int" where "dqe_key e = usecs (dqe_expiration e)"

lemma dqe_greater_key: "dqe_greater l r \<longleftrightarrow> dqe_key r < dqe_key l"
  by (simp add: dqe_greater_def dqe_key_def usecs_def)

text \<open>The time left to an expiration fits \<^verbatim>\<open>long\<close>, so that its computation does not overflow.\<close>

definition measurable :: "time_entry \<Rightarrow> 'a delay_queue_entry \<Rightarrow> bool" where
  "measurable now e \<longleftrightarrow> in_long (dqe_key e - usecs now)"

definition getDelay :: "time_entry \<Rightarrow> 'a delay_queue_entry \<Rightarrow> bool" where
  "getDelay now e \<longleftrightarrow> time_greater (time_minus (dqe_expiration e) now) \<lparr>tv_sec = 0, tv_usec = 0\<rparr>"

definition offer :: "'a \<Rightarrow> time_entry \<Rightarrow> 'a delay_queue \<Rightarrow> 'a delay_queue" where
  "offer e expiration q = hv_push dqe_key \<lparr>dqe_expiration = expiration, dqe_appendix = e\<rparr> q"

definition poll :: "time_entry \<Rightarrow> 'a delay_queue \<Rightarrow> ('a option \<times> 'a delay_queue) res" where
  "poll now q =
     (if q \<noteq> [] then
        rbind (hv_front q) (\<lambda>first.
        if getDelay now first then Inr (None, q)
        else rbind (hv_pop dqe_key q) (\<lambda>q'. Inr (Some (dqe_appendix first), q')))
      else Inr (None, q))"

text \<open>Polling until nothing is due, as \<^verbatim>\<open>Timer::advanceClock\<close> does, with one reading of the clock.\<close>

primrec poll_all :: "nat \<Rightarrow> time_entry \<Rightarrow> 'a delay_queue \<Rightarrow> ('a list \<times> 'a delay_queue) res" where
  "poll_all 0 now q = Inl Diverges"
| "poll_all (Suc n) now q =
     rbind (poll now q) (\<lambda>(x, q'). case x of
         None \<Rightarrow> Inr ([], q')
       | Some a \<Rightarrow> rbind (poll_all n now q') (\<lambda>(xs, q''). Inr (a # xs, q'')))"

subsection \<open>Lemmas\<close>

abbreviation dq_ok :: "'a delay_queue \<Rightarrow> bool" where "dq_ok q \<equiv> is_heap dqe_key q"

definition due :: "time_entry \<Rightarrow> 'a delay_queue_entry \<Rightarrow> bool" where
  "due now e \<longleftrightarrow> dqe_key e \<le> usecs now"

lemma getDelay_due: "measurable now e \<Longrightarrow> getDelay now e \<longleftrightarrow> \<not> due now e"
  by (auto simp: getDelay_def due_def dqe_key_def measurable_def time_greater_def time_ops)

lemma offer_facts:
  "dq_ok q \<Longrightarrow> dq_ok (offer e t q)"
  "mset (offer e t q) = add_mset \<lparr>dqe_expiration = t, dqe_appendix = e\<rparr> (mset q)"
  using keyed_queue.ok_ins [of dqe_key q] keyed_queue.elems_ins [of dqe_key]
  by (auto simp: offer_def hv_push_def)

lemma poll_cases:
  assumes ok: "dq_ok q" and fit: "\<forall>e \<in> set q. measurable now e"
  shows "poll now q = Inr (None, q) \<and> (\<forall>e \<in> set q. \<not> due now e) \<or>
    (\<exists>e q'. poll now q = Inr (Some (dqe_appendix e), q') \<and> dq_ok q' \<and> mset q = add_mset e (mset q') \<and>
      due now e \<and> (\<forall>x \<in> set q. dqe_key e \<le> dqe_key x))"
proof (cases "q = []")
  case True
  then show ?thesis by (simp add: poll_def)
next
  case False
  let ?e = "q ! 0"
  have f: "hv_front q = Inr ?e" using False by (simp add: hv_front_def)
  have delay: "getDelay now ?e \<longleftrightarrow> \<not> due now ?e" using False fit by (simp add: getDelay_due)
  have least: "\<forall>x \<in> set q. dqe_key ?e \<le> dqe_key x" using heap_front_least [OF ok] by blast
  show ?thesis
  proof (cases "due now ?e")
    case True
    obtain q' where q': "hv_pop dqe_key q = Inr q'" using False by (simp add: hv_pop_def)
    then have "q' = butlast (pop_heap dqe_key q)" using False by (simp add: hv_pop_def)
    then have "dq_ok q'" "mset q' = mset q - {#hd q#}" using pop_heap_spec [OF ok False] by auto
    moreover have "hd q = ?e" "?e \<in># mset q" using False by (simp_all add: hd_conv_nth)
    ultimately have "dq_ok q' \<and> mset q = add_mset ?e (mset q')" by simp
    then show ?thesis using True f q' False least delay by (auto simp: poll_def)
  next
    case False
    then have "\<forall>x \<in> set q. \<not> due now x" using least by (auto simp: due_def)
    then show ?thesis using False f \<open>q \<noteq> []\<close> delay by (simp add: poll_def)
  qed
qed

text \<open>C29. Polling gives out exactly the entries that are due, the earliest first, leaves the others
  queued, and then answers that nothing is due. The times left, which the code computes in \<^verbatim>\<open>long\<close>, are
  assumed to fit it, as they do for all times after 1970.\<close>

theorem delay_queue_order:
  assumes "dq_ok q" "\<forall>e \<in> set q. measurable now e" "length q < n"
  shows "\<exists>es q'. poll_all n now q = Inr (map dqe_appendix es, q') \<and> mset q = mset es + mset q' \<and>
    sorted (map dqe_key es) \<and> (\<forall>e \<in> set es. due now e) \<and> (\<forall>e \<in> set q'. \<not> due now e)"
  using assms
proof (induction n arbitrary: q)
  case (Suc n)
  from poll_cases [OF Suc.prems(1,2)] show ?case
  proof (elim disjE conjE exE)
    assume "poll now q = Inr (None, q)" "\<forall>e \<in> set q. \<not> due now e"
    then show ?thesis by (intro exI [of _ "[]"] exI [of _ q]) auto
  next
    fix e q' assume p: "poll now q = Inr (Some (dqe_appendix e), q')" "dq_ok q'"
      and m: "mset q = add_mset e (mset q')" and d: "due now e" "\<forall>x \<in> set q. dqe_key e \<le> dqe_key x"
    have "length q = Suc (length q')" using arg_cong [OF m, of size] by simp
    moreover have "set q' \<subseteq> set q" using arg_cong [OF m, of set_mset] by auto
    ultimately obtain es q'' where es: "poll_all n now q' = Inr (map dqe_appendix es, q'')"
      "mset q' = mset es + mset q''" "sorted (map dqe_key es)" "\<forall>e \<in> set es. due now e"
      "\<forall>e \<in> set q''. \<not> due now e"
      using Suc.IH [OF p(2)] Suc.prems(2,3) by auto
    have "set es \<subseteq> set q" using m es(2) by (metis mset_subset_eqD mset_subset_eq_add_left
        set_mset_mset subsetI set_mset_add_mset_insert insertCI)
    then show ?thesis using p es m d by (intro exI [of _ "e # es"] exI [of _ q'']) auto
  qed
qed simp

theorem delay_queue_order_witness:
  "\<exists>es q'. poll_all 4 \<lparr>tv_sec = 2, tv_usec = 0\<rparr>
      (offer ''a'' \<lparr>tv_sec = 3, tv_usec = 0\<rparr> (offer ''b'' \<lparr>tv_sec = 1, tv_usec = 5\<rparr> [])) = Inr (map dqe_appendix es, q') \<and>
    sorted (map dqe_key es)"
proof -
  let ?q = "offer ''a'' \<lparr>tv_sec = 3, tv_usec = 0\<rparr> (offer ''b'' \<lparr>tv_sec = 1, tv_usec = 5\<rparr> [])"
  have "dq_ok ?q" by (intro offer_facts) (simp add: heap_from_def)
  moreover have "size (mset ?q) = 2" by (simp add: offer_facts(2))
  then have "length ?q < 4" by simp
  moreover have "set_mset (mset ?q) = {\<lparr>dqe_expiration = \<lparr>tv_sec = 3, tv_usec = 0\<rparr>, dqe_appendix = ''a''\<rparr>,
      \<lparr>dqe_expiration = \<lparr>tv_sec = 1, tv_usec = 5\<rparr>, dqe_appendix = ''b''\<rparr>}" by (simp add: offer_facts(2))
  then have "\<forall>e \<in> set ?q. measurable \<lparr>tv_sec = 2, tv_usec = 0\<rparr> e"
    by (simp add: measurable_def dqe_key_def usecs_total)
  ultimately show ?thesis using delay_queue_order [of ?q _ 4] by blast
qed

end
