(* ===== verification/ThreadPool.thy ===== *)
theory ThreadPool
  imports Prelude
begin

text \<open>
  \<^verbatim>\<open>timer/thread_pool/ThreadPool\<close>: a deque of tasks, worker threads that take from it, and a stop
  that waits for the workers. \<open>pool_step\<close> interleaves the workers, the thread that stops the pool and
  the threads that add tasks, with a step for every place where another thread can come between: the
  two reads of the loop test, which holds no lock, the test under the lock, the wait that releases it,
  and in \<^verbatim>\<open>addTask\<close> the test of \<^verbatim>\<open>m_isStarted\<close>, the append, the notification and the unlock (\<^verbatim>\<open>stop\<close> does not
  take the lock, so the lock does not keep it out). An adder takes the lock in the step of its test,
  and one that finds the flag cleared changes nothing and is no step. Wake-ups are those of a
  notification; \<open>ps_added\<close>, \<open>ps_taken\<close> and \<open>ps_before\<close>, the number of tasks added when \<^verbatim>\<open>stop\<close> cleared the
  flag, record history.
\<close>

record 'a thread_pool =
  tp_started :: bool
  tp_initSize :: int
  tp_tasks :: "'a list"

definition pool_new :: "int \<Rightarrow> 'a thread_pool" where
  "pool_new initSize = \<lparr>tp_started = True, tp_initSize = initSize, tp_tasks = []\<rparr>"

definition addTask :: "'a \<Rightarrow> 'a list \<Rightarrow> bool \<Rightarrow> 'a list" where
  "addTask task tasks started = (if started then tasks @ [task] else tasks)"

definition pool_addTask :: "'a \<Rightarrow> 'a thread_pool \<Rightarrow> 'a thread_pool" where
  "pool_addTask task p = p\<lparr>tp_tasks := addTask task (tp_tasks p) (tp_started p)\<rparr>"

text \<open>The end of \<^verbatim>\<open>take\<close>, after its wait: the front task, or an empty function.\<close>

definition take_task :: "'a list \<Rightarrow> 'a option \<times> 'a list" where
  "take_task tasks = (case tasks of [] \<Rightarrow> (None, []) | t # ts \<Rightarrow> (Some t, ts))"

datatype 'a worker = AtLoop | AtEmpty | Locking | InTake | ToWait | Waiting | Running 'a | Exited

datatype 'a adder = NoAdder | Tested 'a | Appended | Notified

datatype stopper = NotStopping | FlagCleared | Joining | Joined

record 'a pool_state = "'a thread_pool" +
  ps_workers :: "'a worker list"
  ps_holder :: "nat option"
  ps_adder :: "'a adder"
  ps_stopper :: stopper
  ps_added :: "'a list"
  ps_taken :: "'a list"
  ps_before :: nat

definition pool_start :: "int \<Rightarrow> 'a pool_state" where
  "pool_start initSize =
     \<lparr>tp_started = True, tp_initSize = initSize, tp_tasks = [], ps_workers = replicate (nat initSize) AtLoop,
      ps_holder = None, ps_adder = NoAdder, ps_stopper = NotStopping, ps_added = [], ps_taken = [], ps_before = 0\<rparr>"

definition at_worker :: "'a pool_state \<Rightarrow> nat \<Rightarrow> 'a worker \<Rightarrow> bool" where
  "at_worker s i w \<longleftrightarrow> i < length (ps_workers s) \<and> ps_workers s ! i = w"

definition go :: "nat \<Rightarrow> 'a worker \<Rightarrow> 'a pool_state \<Rightarrow> 'a pool_state" where
  "go i w s = s\<lparr>ps_workers := (ps_workers s)[i := w]\<rparr>"

definition notify_all :: "'a pool_state \<Rightarrow> 'a pool_state" where
  "notify_all s = s\<lparr>ps_workers := map (\<lambda>w. case w of Waiting \<Rightarrow> Locking | _ \<Rightarrow> w) (ps_workers s)\<rparr>"

text \<open>The mutex is free when no worker and no adder holds it.\<close>

definition mutex_free :: "'a pool_state \<Rightarrow> bool" where
  "mutex_free s \<longleftrightarrow> ps_holder s = None \<and> ps_adder s = NoAdder"

inductive pool_step :: "'a pool_state \<Rightarrow> 'a pool_state \<Rightarrow> bool" where
  loop_started: "at_worker s i AtLoop \<Longrightarrow> tp_started s \<Longrightarrow> pool_step s (go i Locking s)"
| loop_stopped: "at_worker s i AtLoop \<Longrightarrow> \<not> tp_started s \<Longrightarrow> pool_step s (go i AtEmpty s)"
| loop_again: "at_worker s i AtEmpty \<Longrightarrow> tp_tasks s \<noteq> [] \<Longrightarrow> pool_step s (go i Locking s)"
| loop_exit: "at_worker s i AtEmpty \<Longrightarrow> tp_tasks s = [] \<Longrightarrow> pool_step s (go i Exited s)"
| lock: "at_worker s i Locking \<Longrightarrow> mutex_free s \<Longrightarrow> pool_step s ((go i InTake s)\<lparr>ps_holder := Some i\<rparr>)"
| must_wait: "at_worker s i InTake \<Longrightarrow> tp_tasks s = [] \<and> tp_started s \<Longrightarrow> pool_step s (go i ToWait s)"
| wait: "at_worker s i ToWait \<Longrightarrow> pool_step s ((go i Waiting s)\<lparr>ps_holder := None\<rparr>)"
| take_one: "at_worker s i InTake \<Longrightarrow> \<not> (tp_tasks s = [] \<and> tp_started s) \<Longrightarrow>
    take_task (tp_tasks s) = (Some t, ts) \<Longrightarrow>
    pool_step s ((go i (Running t) s)\<lparr>tp_tasks := ts, ps_holder := None, ps_taken := ps_taken s @ [t]\<rparr>)"
| take_none: "at_worker s i InTake \<Longrightarrow> \<not> (tp_tasks s = [] \<and> tp_started s) \<Longrightarrow>
    take_task (tp_tasks s) = (None, ts) \<Longrightarrow> pool_step s ((go i AtLoop s)\<lparr>ps_holder := None\<rparr>)"
| run: "at_worker s i (Running t) \<Longrightarrow> pool_step s (go i AtLoop s)"
| add_test: "mutex_free s \<Longrightarrow> tp_started s \<Longrightarrow> pool_step s (s\<lparr>ps_adder := Tested t\<rparr>)"
| add_append: "ps_adder s = Tested t \<Longrightarrow>
    pool_step s (s\<lparr>tp_tasks := addTask t (tp_tasks s) True, ps_added := ps_added s @ [t], ps_adder := Appended\<rparr>)"
| add_notify: "ps_adder s = Appended \<Longrightarrow> at_worker s i Waiting \<Longrightarrow>
    pool_step s ((go i Locking s)\<lparr>ps_adder := Notified\<rparr>)"
| add_alone: "ps_adder s = Appended \<Longrightarrow> \<forall>i. \<not> at_worker s i Waiting \<Longrightarrow> pool_step s (s\<lparr>ps_adder := Notified\<rparr>)"
| add_unlock: "ps_adder s = Notified \<Longrightarrow> pool_step s (s\<lparr>ps_adder := NoAdder\<rparr>)"
| stop: "ps_stopper s = NotStopping \<Longrightarrow>
    pool_step s (s\<lparr>tp_started := False, ps_stopper := FlagCleared, ps_before := length (ps_added s)\<rparr>)"
| stop_notify: "ps_stopper s = FlagCleared \<Longrightarrow> pool_step s ((notify_all s)\<lparr>ps_stopper := Joining\<rparr>)"
| stop_join: "ps_stopper s = Joining \<Longrightarrow> set (ps_workers s) \<subseteq> {Exited} \<Longrightarrow>
    pool_step s (s\<lparr>ps_stopper := Joined\<rparr>)"

inductive_cases pool_stepE: "pool_step s s'"

inductive pool_reach :: "int \<Rightarrow> 'a pool_state \<Rightarrow> bool" for n where
  pool_init: "pool_reach n (pool_start n)"
| pool_more: "pool_reach n s \<Longrightarrow> pool_step s s' \<Longrightarrow> pool_reach n s'"

subsection \<open>Invariants\<close>

text \<open>The tasks of adders that have tested the flag and not yet appended. A worker that has left found the
  queue empty after the flag was cleared; what comes into the queue after that is at most the task of
  one such adder.\<close>

definition promised :: "'a pool_state \<Rightarrow> nat" where
  "promised s = (case ps_adder s of Tested t \<Rightarrow> 1 | _ \<Rightarrow> 0)"

definition pool_inv :: "'a pool_state \<Rightarrow> bool" where
  "pool_inv s \<longleftrightarrow> ps_added s = ps_taken s @ tp_tasks s \<and>
     (AtEmpty \<in> set (ps_workers s) \<longrightarrow> \<not> tp_started s) \<and>
     (Exited \<in> set (ps_workers s) \<longrightarrow> \<not> tp_started s \<and> length (tp_tasks s) + promised s \<le> 1 \<and>
        ps_before s \<le> length (ps_taken s)) \<and>
     ps_before s \<le> length (ps_added s) \<and> (ps_stopper s = NotStopping \<longleftrightarrow> tp_started s) \<and>
     (ps_stopper s = Joined \<longrightarrow> set (ps_workers s) \<subseteq> {Exited})"

lemma go_simps [simp]:
  "tp_tasks (go i w s) = tp_tasks s" "tp_started (go i w s) = tp_started s" "ps_added (go i w s) = ps_added s"
  "ps_taken (go i w s) = ps_taken s" "ps_stopper (go i w s) = ps_stopper s" "ps_holder (go i w s) = ps_holder s"
  "ps_adder (go i w s) = ps_adder s" "ps_before (go i w s) = ps_before s"
  "ps_workers (go i w s) = (ps_workers s)[i := w]"
  by (simp_all add: go_def)

lemma notify_simps [simp]:
  "tp_tasks (notify_all s) = tp_tasks s" "tp_started (notify_all s) = tp_started s"
  "ps_added (notify_all s) = ps_added s" "ps_taken (notify_all s) = ps_taken s"
  "ps_stopper (notify_all s) = ps_stopper s" "ps_holder (notify_all s) = ps_holder s"
  "ps_adder (notify_all s) = ps_adder s" "ps_before (notify_all s) = ps_before s"
  by (simp_all add: notify_all_def)

lemma go_other: "w \<noteq> v \<Longrightarrow> v \<in> set (xs[i := w]) \<Longrightarrow> v \<in> set xs"
  using set_update_subset_insert [of xs i w] by auto

lemma notify_others:
  "Exited \<in> set (ps_workers (notify_all s)) \<longleftrightarrow> Exited \<in> set (ps_workers s)"
  "AtEmpty \<in> set (ps_workers (notify_all s)) \<longleftrightarrow> AtEmpty \<in> set (ps_workers s)"
  by (force simp: notify_all_def split: worker.splits)+

lemma only_Exited: "set xs \<subseteq> {Exited} \<Longrightarrow> i < length xs \<Longrightarrow> xs ! i = Exited"
  using nth_mem by blast

lemma at_worker_mem: "at_worker s i w \<Longrightarrow> w \<in> set (ps_workers s)"
  by (auto simp: at_worker_def)

text \<open>A worker that goes to a place other than the two that end its loop.\<close>

lemma pool_inv_go:
  assumes "pool_inv s" "at_worker s i v" "v \<noteq> Exited" "w \<noteq> Exited" "w \<noteq> AtEmpty"
  shows "pool_inv (go i w s)"
proof -
  have "ps_stopper s \<noteq> Joined" using assms(1,2,3) only_Exited by (auto simp: pool_inv_def at_worker_def)
  then show ?thesis using assms(1) go_other [OF assms(4)] go_other [OF assms(5)]
    by (auto simp: pool_inv_def promised_def)
qed

lemma pool_step_inv: "pool_step s s' \<Longrightarrow> pool_inv s \<Longrightarrow> pool_inv s'"
proof (induction rule: pool_step.induct)
  case (loop_stopped s i)
  then show ?case using only_Exited [of "ps_workers s" i] go_other [of AtEmpty Exited]
    by (auto simp: pool_inv_def promised_def at_worker_def)
next
  case (loop_exit s i)
  then have "\<not> tp_started s" "ps_stopper s \<noteq> Joined" using at_worker_mem [OF loop_exit(1)] only_Exited [of "ps_workers s" i]
    by (auto simp: pool_inv_def at_worker_def)
  then show ?case using loop_exit go_other [of Exited AtEmpty "ps_workers s" i]
    by (auto simp: pool_inv_def promised_def split: adder.splits)
next
  case (take_one s i t ts)
  have "tp_tasks s = t # ts" using take_one(3) by (simp add: take_task_def split: list.splits)
  then show ?case using pool_inv_go [OF take_one(4,1), of "Running t"] by (auto simp: pool_inv_def promised_def)
next
  case (add_append s t)
  then show ?case by (auto simp: pool_inv_def promised_def addTask_def)
next
  case (stop_notify s)
  then show ?case by (auto simp: pool_inv_def promised_def notify_others)
next
  case (loop_started s i)
  show ?case by (rule pool_inv_go [OF loop_started(3,1)]) simp_all
next
  case (loop_again s i)
  show ?case by (rule pool_inv_go [OF loop_again(3,1)]) simp_all
next
  case (must_wait s i)
  show ?case by (rule pool_inv_go [OF must_wait(3,1)]) simp_all
next
  case (run s i t)
  show ?case by (rule pool_inv_go [OF run(2,1)]) simp_all
next
  case (lock s i)
  then show ?case using pool_inv_go [OF lock(3,1), of InTake] by (simp add: pool_inv_def promised_def)
next
  case (wait s i)
  then show ?case using pool_inv_go [OF wait(2,1), of Waiting] by (simp add: pool_inv_def promised_def)
next
  case (take_none s i ts)
  then show ?case using pool_inv_go [OF take_none(4,1), of AtLoop] by (simp add: pool_inv_def promised_def)
next
  case (add_notify s i)
  then show ?case using pool_inv_go [OF add_notify(3,2), of Locking] by (simp add: pool_inv_def promised_def)
qed (auto simp: pool_inv_def promised_def)

lemma pool_reach_inv: "pool_reach n s \<Longrightarrow> pool_inv s"
proof (induction rule: pool_reach.induct)
  case pool_init
  then show ?case by (auto simp: pool_inv_def pool_start_def)
qed (rule pool_step_inv)


text \<open>Runs are sequences of steps.\<close>

lemma pool_run: "pool_step\<^sup>*\<^sup>* s s' \<Longrightarrow> pool_reach n s \<Longrightarrow> pool_reach n s'"
  by (induction rule: rtranclp_induct) (auto intro: pool_more)

lemma pool_reach_two: "\<exists>s. pool_reach 1 s \<and> ps_added s = [7 :: nat]"
proof -
  let ?s = "pool_start 1 :: nat pool_state"
  have "pool_reach 1 (?s\<lparr>ps_adder := Tested 7\<rparr>)"
    by (rule pool_more [OF pool_init add_test]) (simp_all add: pool_start_def mutex_free_def)
  from pool_more [OF this add_append, of 7] show ?thesis by (auto simp: pool_start_def)
qed


subsection \<open>The task that is left behind\<close>

text \<open>The state in which the flag is cleared while an adder is between its test and its append: the first
  \<open>k\<close> workers have left.\<close>

definition leaving :: "int \<Rightarrow> 'a \<Rightarrow> nat \<Rightarrow> 'a pool_state" where
  "leaving n t k = (pool_start n)\<lparr>tp_started := False, ps_adder := Tested t, ps_stopper := Joining,
     ps_workers := replicate k Exited @ replicate (nat n - k) AtLoop\<rparr>"

lemma leaving_one: "k < nat n \<Longrightarrow> pool_step\<^sup>*\<^sup>* (leaving n t k) (leaving n t (Suc k))"
proof -
  assume k: "k < nat n"
  let ?s1 = "go k AtEmpty (leaving n t k)"
  have r: "replicate (nat n - k) AtLoop = AtLoop # replicate (nat n - Suc k) AtLoop"
    using k by (metis Suc_diff_Suc replicate_Suc)
  have 1: "pool_step (leaving n t k) ?s1"
    using k by (intro loop_stopped) (simp_all add: leaving_def at_worker_def nth_append)
  have 2: "pool_step ?s1 (go k Exited ?s1)"
    using k by (intro loop_exit) (simp_all add: leaving_def at_worker_def pool_start_def)
  have "go k Exited ?s1 = leaving n t (Suc k)"
    by (simp add: go_def leaving_def r list_update_append replicate_app_Cons_same [symmetric])
  then show ?thesis using 1 2 by (metis converse_rtranclp_into_rtranclp r_into_rtranclp)
qed

lemma leaving_all: "k \<le> nat n \<Longrightarrow> pool_step\<^sup>*\<^sup>* (leaving n t 0) (leaving n t k)"
proof (induction k)
  case (Suc k)
  then show ?case using leaving_one [of k n t] rtranclp_trans [of pool_step] by simp
qed simp

lemma leaving_reached: "pool_reach n (leaving n t 0)"
proof -
  let ?s0 = "pool_start n" let ?s1 = "?s0\<lparr>ps_adder := Tested t\<rparr>"
  let ?s2 = "?s1\<lparr>tp_started := False, ps_stopper := FlagCleared, ps_before := length (ps_added ?s1)\<rparr>"
  have "pool_step ?s0 ?s1" by (rule add_test) (simp_all add: pool_start_def mutex_free_def)
  moreover have "pool_step ?s1 ?s2" by (rule stop) (simp add: pool_start_def)
  moreover have "pool_step ?s2 ((notify_all ?s2)\<lparr>ps_stopper := Joining\<rparr>)" by (rule stop_notify) simp
  moreover have "(notify_all ?s2)\<lparr>ps_stopper := Joining\<rparr> = leaving n t 0"
    by (simp add: notify_all_def leaving_def pool_start_def)
  ultimately show ?thesis using pool_more [OF pool_more [OF pool_more [OF pool_init]]] by metis
qed

text \<open>After \<^verbatim>\<open>stop\<close> nothing is taken any more.\<close>

lemma joined_step: "pool_step s s' \<Longrightarrow> set (ps_workers s) \<subseteq> {Exited} \<Longrightarrow> \<not> tp_started s \<Longrightarrow>
    set (ps_workers s') \<subseteq> {Exited} \<and> \<not> tp_started s' \<and> ps_taken s' = ps_taken s"
proof (induction rule: pool_step.induct)
  case (stop_notify s)
  then show ?case by (auto simp: notify_all_def)
qed (auto simp: at_worker_def dest: only_Exited)

lemma joined_run: "pool_step\<^sup>*\<^sup>* s s' \<Longrightarrow> set (ps_workers s) \<subseteq> {Exited} \<Longrightarrow> \<not> tp_started s \<Longrightarrow>
    set (ps_workers s') \<subseteq> {Exited} \<and> \<not> tp_started s' \<and> ps_taken s' = ps_taken s"
  by (induction rule: rtranclp_induct) (use joined_step in metis)+

text \<open>C35. A pool can accept a task and never run it: whatever the number of workers and the task, there is a
  run in which \<^verbatim>\<open>addTask\<close> finds the pool started, \<^verbatim>\<open>stop\<close> clears the flag without taking the lock and joins
  the workers, which all leave because the queue is empty, and \<^verbatim>\<open>addTask\<close> then appends the task; in every
  state that can follow, the task has not been taken.\<close>

theorem stop_leaves_task:
  "\<exists>s. pool_reach n s \<and> ps_stopper s = Joined \<and> ps_added s = [t] \<and> tp_tasks s = [t] \<and>
     (\<forall>s'. pool_step\<^sup>*\<^sup>* s s' \<longrightarrow> ps_taken s' = [])"
proof -
  let ?s1 = "leaving n t (nat n)" let ?s2 = "?s1\<lparr>ps_stopper := Joined\<rparr>"
  let ?s3 = "?s2\<lparr>tp_tasks := addTask t (tp_tasks ?s2) True, ps_added := ps_added ?s2 @ [t], ps_adder := Appended\<rparr>"
  have 1: "pool_reach n ?s1" by (rule pool_run [OF leaving_all leaving_reached]) simp
  have 2: "pool_step ?s1 ?s2" by (rule stop_join) (auto simp: leaving_def)
  have 3: "pool_step ?s2 ?s3" by (rule add_append) (simp add: leaving_def)
  have "pool_reach n ?s3" by (rule pool_more [OF pool_more [OF 1 2] 3])
  moreover have "set (ps_workers ?s3) \<subseteq> {Exited}" "\<not> tp_started ?s3" "ps_taken ?s3 = []"
    by (auto simp: leaving_def pool_start_def)
  moreover have "ps_taken s' = []" if "pool_step\<^sup>*\<^sup>* ?s3 s'" for s'
    using joined_run [OF that calculation(2,3)] calculation(4) by simp
  ultimately show ?thesis by (intro exI [of _ ?s3]) (simp add: leaving_def pool_start_def addTask_def)
qed

subsection \<open>The lost wake-up\<close>

text \<open>The worker is between its test and its wait when \<^verbatim>\<open>stop\<close> clears the flag and notifies.\<close>

definition stuck_state :: "nat pool_state" where
  "stuck_state = \<lparr>tp_started = False, tp_initSize = 1, tp_tasks = [], ps_workers = [Waiting], ps_holder = None,
     ps_adder = NoAdder, ps_stopper = Joining, ps_added = [], ps_taken = [], ps_before = 0\<rparr>"

lemma stuck_no_step: "\<not> pool_step stuck_state s'"
proof
  assume "pool_step stuck_state s'"
  then show False by (cases rule: pool_step.cases) (auto simp: stuck_state_def at_worker_def)
qed

lemma stuck_reached: "pool_reach 1 stuck_state"
proof -
  let ?s0 = "pool_start 1 :: nat pool_state"
  let ?mk = "\<lambda>st w h stp. \<lparr>tp_started = st, tp_initSize = 1, tp_tasks = [] :: nat list, ps_workers = [w],
     ps_holder = h, ps_adder = NoAdder, ps_stopper = stp, ps_added = [], ps_taken = [], ps_before = 0\<rparr>"
  have s0: "?s0 = ?mk True AtLoop None NotStopping" by (simp add: pool_start_def)
  have 1: "pool_step ?s0 (?mk True Locking None NotStopping)"
    using loop_started [of ?s0 0] by (simp add: s0 at_worker_def go_def)
  have 2: "pool_step (?mk True Locking None NotStopping) (?mk True InTake (Some 0) NotStopping)"
    using lock [of "?mk True Locking None NotStopping" 0] by (simp add: at_worker_def go_def mutex_free_def)
  have 3: "pool_step (?mk True InTake (Some 0) NotStopping) (?mk True ToWait (Some 0) NotStopping)"
    using must_wait [of "?mk True InTake (Some 0) NotStopping" 0] by (simp add: at_worker_def go_def)
  have 4: "pool_step (?mk True ToWait (Some 0) NotStopping) (?mk False ToWait (Some 0) FlagCleared)"
    using stop [of "?mk True ToWait (Some 0) NotStopping"] by simp
  have 5: "pool_step (?mk False ToWait (Some 0) FlagCleared) (?mk False ToWait (Some 0) Joining)"
    using stop_notify [of "?mk False ToWait (Some 0) FlagCleared"] by (simp add: notify_all_def)
  have 6: "pool_step (?mk False ToWait (Some 0) Joining) stuck_state"
    using wait [of "?mk False ToWait (Some 0) Joining" 0] by (simp add: at_worker_def go_def stuck_state_def)
  show ?thesis
    by (rule pool_more [OF pool_more [OF pool_more [OF pool_more [OF pool_more [OF pool_more [OF pool_init
        1] 2] 3] 4] 5] 6])
qed

text \<open>C38. \<^verbatim>\<open>stop\<close> can wait for ever: it clears the flag and notifies without the lock, so a worker
  that has tested the flag but does not wait yet misses the notification. A state is reachable in
  which the pool is stopped and joining, the worker waits, and no thread can make a step.\<close>

theorem stop_can_hang:
  "\<exists>s :: nat pool_state. pool_reach 1 s \<and> ps_stopper s = Joining \<and> \<not> tp_started s \<and>
     ps_workers s = [Waiting] \<and> (\<nexists>s'. pool_step s s')"
  using stuck_reached stuck_no_step by (intro exI [of _ stuck_state]) (simp add: stuck_state_def)

end
