(* ===== verification/TimerTasks.thy ===== *)
theory TimerTasks
  imports DelayQueue ThreadPool Ring
begin

text \<open>
  The state of a timer and \<^verbatim>\<open>timer/TimerTaskList\<close>: tasks, entries and the lists of a wheel.
  \<open>TimingWheel\<close> fills its vector of buckets with copies of one list, and a copy shares the root,
  the mutex, the counter and the flag of its original; only the expiration is its own. So the
  root (\<open>wh_root\<close>) and the flag (\<open>wh_flag\<close>) belong to the wheel here, and a bucket is named by
  the level of its wheel and its index. A task's function is a number. Locks are not modelled.
\<close>

type_synonym bucket = "nat \<times> nat"

record timer_task =
  tt_entry :: "nat option"
  tt_func :: nat

record task_entry =
  te_task :: "nat option"
  te_expiration :: time_entry
  te_list :: "bucket option"
  te_prev :: "nat option"
  te_next :: "nat option"

record task_list =
  tl_expiration :: time_entry

record wheel =
  wh_tickMs :: time_entry
  wh_wheelSize :: int
  wh_interval :: time_entry
  wh_buckets :: "task_list list"
  wh_currentTime :: time_entry
  wh_root :: nat
  wh_flag :: bool

datatype pool_task = Tick | Func nat

record timer =
  r_tasks :: "nat \<rightharpoonup> timer_task"
  r_entries :: "nat \<rightharpoonup> task_entry"
  r_wheels :: "wheel list"
  r_queue :: "bucket delay_queue"
  r_counter :: int
  r_pool :: "pool_task thread_pool"
  r_fresh :: nat
  r_tickMs :: time_entry
  r_startMs :: time_entry
  r_wheelSize :: int
  r_tickerNum :: int

definition put_entry :: "nat option \<Rightarrow> (task_entry \<Rightarrow> task_entry) \<Rightarrow> timer \<Rightarrow> timer res" where
  "put_entry p f r = rbind (store_upd (r_entries r) p f) (\<lambda>m. Inr (r\<lparr>r_entries := m\<rparr>))"

definition get_entry :: "timer \<Rightarrow> nat option \<Rightarrow> task_entry res" where
  "get_entry r p = deref (r_entries r) p"

definition get_wheel :: "timer \<Rightarrow> nat \<Rightarrow> wheel res" where
  "get_wheel r k = at_vec (r_wheels r) (int k)"

definition put_wheel :: "nat \<Rightarrow> (wheel \<Rightarrow> wheel) \<Rightarrow> timer \<Rightarrow> timer" where
  "put_wheel k f r = r\<lparr>r_wheels := (r_wheels r)[k := f (r_wheels r ! k)]\<rparr>"

subsection \<open>\<^verbatim>\<open>TimerTaskList\<close>\<close>

text \<open>The list a new one is copied from: its root is a new entry linked to itself.\<close>

definition TimerTaskList :: "timer \<Rightarrow> nat \<times> task_list \<times> timer" where
  "TimerTaskList r = (r_fresh r, \<lparr>tl_expiration = time_default\<rparr>,
     r\<lparr>r_fresh := Suc (r_fresh r), r_entries := (r_entries r)(r_fresh r \<mapsto>
       \<lparr>te_task = None, te_expiration = time_default, te_list = None,
        te_prev = Some (r_fresh r), te_next = Some (r_fresh r)\<rparr>)\<rparr>)"

definition tl_remove :: "bucket \<Rightarrow> nat \<Rightarrow> timer \<Rightarrow> timer res" where
  "tl_remove b e r =
     rbind (get_entry r (Some e)) (\<lambda>x.
     if te_list x = Some b then
       rbind (put_entry (te_next x) (\<lambda>y. y\<lparr>te_prev := te_prev x\<rparr>) r) (\<lambda>r1.
       rbind (put_entry (te_prev x) (\<lambda>y. y\<lparr>te_next := te_next x\<rparr>) r1) (\<lambda>r2.
       rbind (put_entry (Some e) (\<lambda>y. y\<lparr>te_next := None, te_prev := None, te_list := None\<rparr>) r2) (\<lambda>r3.
       Inr (r3\<lparr>r_counter := r_counter r3 - 1\<rparr>))))
     else Inr r)"

text \<open>\<^verbatim>\<open>TimerTaskEntry::remove\<close>: the loop ends when the entry is in no list. One call takes it out.\<close>

primrec entry_remove :: "nat \<Rightarrow> nat \<Rightarrow> timer \<Rightarrow> timer res" where
  "entry_remove 0 e r = Inl Diverges"
| "entry_remove (Suc n) e r =
     rbind (get_entry r (Some e)) (\<lambda>x. case te_list x of
         None \<Rightarrow> Inr r
       | Some b \<Rightarrow> rbind (tl_remove b e r) (entry_remove n e))"

definition tl_add :: "bucket \<Rightarrow> nat \<Rightarrow> timer \<Rightarrow> timer res" where
  "tl_add b e r =
     rbind (entry_remove 2 e r) (\<lambda>r0.
     rbind (get_entry r0 (Some e)) (\<lambda>x.
     if te_list x = None then
       rbind (get_wheel r0 (fst b)) (\<lambda>w.
       rbind (get_entry r0 (Some (wh_root w))) (\<lambda>root.
       let tail = te_prev root in
       rbind (put_entry (Some e) (\<lambda>y. y\<lparr>te_next := Some (wh_root w), te_prev := tail, te_list := Some b\<rparr>) r0) (\<lambda>r1.
       rbind (put_entry tail (\<lambda>y. y\<lparr>te_next := Some e\<rparr>) r1) (\<lambda>r2.
       rbind (put_entry (Some (wh_root w)) (\<lambda>y. y\<lparr>te_prev := Some e\<rparr>) r2) (\<lambda>r3.
       Inr (r3\<lparr>r_counter := r_counter r3 + 1\<rparr>))))))
     else Inr r0))"

text \<open>The loops on the flag run at most once: with the flag taken they are skipped, and a function
  that should return a value runs off its end.\<close>

definition bucket_at :: "timer \<Rightarrow> bucket \<Rightarrow> task_list res" where
  "bucket_at r b = rbind (get_wheel r (fst b)) (\<lambda>w. at_vec (wh_buckets w) (int (snd b)))"

definition put_bucket :: "bucket \<Rightarrow> time_entry \<Rightarrow> timer \<Rightarrow> timer" where
  "put_bucket b t r = put_wheel (fst b) (\<lambda>w. w\<lparr>wh_buckets := (wh_buckets w)[snd b := \<lparr>tl_expiration = t\<rparr>]\<rparr>) r"

definition setExpiration :: "bucket \<Rightarrow> time_entry \<Rightarrow> timer \<Rightarrow> (bool \<times> timer) res" where
  "setExpiration b expiration r =
     rbind (get_wheel r (fst b)) (\<lambda>w.
     if wh_flag w then Inl NoReturn
     else rbind (bucket_at r b) (\<lambda>l.
       Inr (time_neq expiration (tl_expiration l), put_bucket b expiration r)))"

definition bucket_getExpiration :: "bucket \<Rightarrow> timer \<Rightarrow> time_entry res" where
  "bucket_getExpiration b r =
     rbind (get_wheel r (fst b)) (\<lambda>w.
     if wh_flag w then Inl NoReturn else rbind (bucket_at r b) (\<lambda>l. Inr (tl_expiration l)))"

definition clear_expiration :: "bucket \<Rightarrow> timer \<Rightarrow> timer res" where
  "clear_expiration b r =
     rbind (get_wheel r (fst b)) (\<lambda>w. if wh_flag w then Inr r else Inr (put_bucket b time_default r))"

subsection \<open>\<^verbatim>\<open>TimerTask\<close> and \<^verbatim>\<open>TimerTaskEntry\<close>\<close>

definition setTimerTaskEntry :: "nat \<Rightarrow> nat \<Rightarrow> timer \<Rightarrow> timer res" where
  "setTimerTaskEntry t e r =
     rbind (deref (r_tasks r) (Some t)) (\<lambda>x.
     rbind (case tt_entry x of
              Some e0 \<Rightarrow> if e0 \<noteq> e then entry_remove 2 e0 r else Inr r
            | None \<Rightarrow> Inr r) (\<lambda>r1.
     rbind (store_upd (r_tasks r1) (Some t) (\<lambda>y. y\<lparr>tt_entry := Some e\<rparr>)) (\<lambda>m.
     Inr (r1\<lparr>r_tasks := m\<rparr>))))"

definition TimerTask :: "nat \<Rightarrow> timer \<Rightarrow> nat \<times> timer" where
  "TimerTask func r = (r_fresh r, r\<lparr>r_fresh := Suc (r_fresh r),
     r_tasks := (r_tasks r)(r_fresh r \<mapsto> \<lparr>tt_entry = None, tt_func = func\<rparr>)\<rparr>)"

definition TimerTaskEntry :: "nat \<Rightarrow> time_entry \<Rightarrow> timer \<Rightarrow> (nat \<times> timer) res" where
  "TimerTaskEntry t expiration r =
     (let e = r_fresh r;
          r1 = r\<lparr>r_fresh := Suc e, r_entries := (r_entries r)(e \<mapsto>
            \<lparr>te_task = Some t, te_expiration = expiration, te_list = None, te_prev = None, te_next = None\<rparr>)\<rparr> in
      rbind (setTimerTaskEntry t e r1) (\<lambda>r2. Inr (e, r2)))"

definition cancelled :: "nat \<Rightarrow> timer \<Rightarrow> bool res" where
  "cancelled e r =
     rbind (get_entry r (Some e)) (\<lambda>x.
     rbind (deref (r_tasks r) (te_task x)) (\<lambda>t. Inr (tt_entry t \<noteq> Some e)))"

definition entry_getExpiration :: "nat \<Rightarrow> timer \<Rightarrow> time_entry res" where
  "entry_getExpiration e r = rbind (get_entry r (Some e)) (\<lambda>x. Inr (te_expiration x))"

definition getTimerTask :: "nat \<Rightarrow> timer \<Rightarrow> timer_task res" where
  "getTimerTask e r = rbind (get_entry r (Some e)) (\<lambda>x. deref (r_tasks r) (te_task x))"

text \<open>\<^verbatim>\<open>delete timerTaskEntry\<close> takes the task with it. The links of its neighbours stay.\<close>

definition delete_entry :: "nat \<Rightarrow> timer \<Rightarrow> timer res" where
  "delete_entry e r =
     rbind (get_entry r (Some e)) (\<lambda>x.
     Inr (r\<lparr>r_entries := (r_entries r)(e := None),
            r_tasks := (case te_task x of None \<Rightarrow> r_tasks r | Some t \<Rightarrow> (r_tasks r)(t := None))\<rparr>))"

end
