(* ===== verification/TimingWheel.thy ===== *)
theory TimingWheel
  imports TimerTasks
begin

text \<open>
  \<^verbatim>\<open>timer/TimingWheel\<close>, \<^verbatim>\<open>timer/Timer\<close> and \<^verbatim>\<open>timer/Ticker\<close>. The wheel of level \<open>k\<close> is element
  \<open>k\<close> of \<open>r_wheels\<close>, its overflow wheel the next element. \<^verbatim>\<open>TimingWheel::add\<close> has no return
  statement on the branch of the overflow wheel: its value there is \<open>None\<close>, and the caller that
  tests it stops with \<open>NoReturn\<close>. An overflow wheel covers at least twice the time of the wheel
  below when wheels have two buckets or more, so 64 levels cover every time.
\<close>

subsection \<open>\<^verbatim>\<open>TimingWheel\<close>\<close>

definition TimingWheel :: "time_entry \<Rightarrow> int \<Rightarrow> time_entry \<Rightarrow> timer \<Rightarrow> timer res" where
  "TimingWheel tickMs wheelSize startMs r =
     (if wheelSize < 0 then Inl Thrown
      else
        let (root, l, r1) = TimerTaskList r in
        rbind (time_mod startMs tickMs) (\<lambda>m.
        Inr (r1\<lparr>r_wheels := r_wheels r1 @
          [\<lparr>wh_tickMs = tickMs, wh_wheelSize = wheelSize, wh_interval = time_times tickMs wheelSize,
            wh_buckets = replicate (nat wheelSize) l, wh_currentTime = time_minus startMs m,
            wh_root = root, wh_flag = False\<rparr>]\<rparr>)))"

definition addOverflowWheel :: "nat \<Rightarrow> timer \<Rightarrow> timer res" where
  "addOverflowWheel k r =
     rbind (get_wheel r k) (\<lambda>w.
     if Suc k < length (r_wheels r) then Inr r
     else TimingWheel (wh_interval w) (wh_wheelSize w) (wh_currentTime w) r)"

definition wheel_place :: "nat \<Rightarrow> nat \<Rightarrow> time_entry \<Rightarrow> wheel \<Rightarrow> timer \<Rightarrow> timer res" where
  "wheel_place k e expiration w r =
     rbind (time_div expiration (wh_tickMs w)) (\<lambda>virtualId.
     if wh_wheelSize w = 0 then Inl DivByZero
     else
       let i = trunc_mod virtualId (wh_wheelSize w) in
       if i < 0 \<or> i \<ge> int (length (wh_buckets w)) then Inl Thrown
       else
         let b = (k, nat i) in
         rbind (tl_add b e r) (\<lambda>r1.
         rbind (setExpiration b (time_times (wh_tickMs w) virtualId) r1) (\<lambda>(changed, r2).
         Inr (if changed then r2\<lparr>r_queue := offer b expiration (r_queue r2)\<rparr> else r2))))"

primrec wheel_add :: "nat \<Rightarrow> nat \<Rightarrow> nat \<Rightarrow> timer \<Rightarrow> (bool option \<times> timer) res" where
  "wheel_add 0 k e r = Inl Diverges"
| "wheel_add (Suc n) k e r =
     rbind (entry_getExpiration e r) (\<lambda>expiration.
     rbind (cancelled e r) (\<lambda>c.
     rbind (get_wheel r k) (\<lambda>w.
     if c then Inr (Some False, r)
     else if time_less expiration (time_plus (wh_currentTime w) (wh_tickMs w)) then Inr (Some False, r)
     else if time_less expiration (time_plus (wh_currentTime w) (wh_interval w))
     then rbind (wheel_place k e expiration w r) (\<lambda>r1. Inr (Some True, r1))
     else rbind (if Suc k < length (r_wheels r) then Inr r else addOverflowWheel k r) (\<lambda>r1.
          rbind (wheel_add n (Suc k) e r1) (\<lambda>(_, r2). Inr (None, r2))))))"

abbreviation wheel_fuel :: nat where "wheel_fuel \<equiv> 64"

primrec advance_wheels :: "time_entry \<Rightarrow> wheel list \<Rightarrow> wheel list res" where
  "advance_wheels timeMs [] = Inr []"
| "advance_wheels timeMs (w # ws) =
     (if time_geq timeMs (time_plus (wh_currentTime w) (wh_tickMs w))
      then rbind (time_mod timeMs (wh_tickMs w)) (\<lambda>m.
           let cur = time_minus timeMs m in
           rbind (advance_wheels cur ws) (\<lambda>ws'. Inr (w\<lparr>wh_currentTime := cur\<rparr> # ws')))
      else Inr (w # ws))"

definition wheel_advanceClock :: "time_entry \<Rightarrow> timer \<Rightarrow> timer res" where
  "wheel_advanceClock timeMs r =
     rbind (advance_wheels timeMs (r_wheels r)) (\<lambda>ws. Inr (r\<lparr>r_wheels := ws\<rparr>))"

subsection \<open>\<^verbatim>\<open>Timer\<close>\<close>

definition addTimerTaskEntry :: "nat \<Rightarrow> timer \<Rightarrow> timer res" where
  "addTimerTaskEntry e r =
     rbind (wheel_add wheel_fuel 0 e r) (\<lambda>(added, r1).
     case added of
       None \<Rightarrow> Inl NoReturn
     | Some True \<Rightarrow> Inr r1
     | Some False \<Rightarrow>
         rbind (cancelled e r1) (\<lambda>c.
         if c then Inr r1
         else rbind (getTimerTask e r1) (\<lambda>t.
              delete_entry e (r1\<lparr>r_pool := pool_addTask (Func (tt_func t)) (r_pool r1)\<rparr>))))"

text \<open>The loop of \<^verbatim>\<open>TimerTaskList::flush\<close>.\<close>

primrec flush_loop :: "nat \<Rightarrow> bucket \<Rightarrow> nat \<Rightarrow> timer \<Rightarrow> timer res" where
  "flush_loop 0 b root r = Inl Diverges"
| "flush_loop (Suc n) b root r =
     rbind (get_entry r (Some root)) (\<lambda>rt.
     case te_next rt of
       None \<Rightarrow> Inr r
     | Some head \<Rightarrow>
         if head = root then Inr r
         else rbind (tl_remove b head r) (\<lambda>r1.
              rbind (addTimerTaskEntry head r1) (\<lambda>r2. flush_loop n b root r2)))"

definition flush :: "nat \<Rightarrow> bucket \<Rightarrow> timer \<Rightarrow> timer res" where
  "flush n b r =
     rbind (get_wheel r (fst b)) (\<lambda>w.
     rbind (flush_loop n b (wh_root w) r) (\<lambda>r1. clear_expiration b r1))"

text \<open>\<^verbatim>\<open>Timer::advanceClock\<close>: a reading of the clock for every poll, the first outside the loop.\<close>

primrec timer_advanceClock :: "nat \<Rightarrow> time_entry list \<Rightarrow> timer \<Rightarrow> timer res" where
  "timer_advanceClock n [] r = Inl Diverges"
| "timer_advanceClock n (now # clocks) r =
     rbind (poll now (r_queue r)) (\<lambda>(bucket, q).
     let r0 = r\<lparr>r_queue := q\<rparr> in
     case bucket of
       None \<Rightarrow> Inr r0
     | Some b \<Rightarrow>
         rbind (bucket_getExpiration b r0) (\<lambda>t.
         rbind (wheel_advanceClock t r0) (\<lambda>r1.
         rbind (flush n b r1) (\<lambda>r2. timer_advanceClock n clocks r2))))"

definition timer_add :: "nat \<Rightarrow> time_entry \<Rightarrow> timer \<Rightarrow> timer res" where
  "timer_add t expiration r =
     rbind (TimerTaskEntry t expiration r) (\<lambda>(e, r1). addTimerTaskEntry e r1)"

definition addByDelay :: "time_entry \<Rightarrow> time_entry \<Rightarrow> nat \<Rightarrow> timer \<Rightarrow> timer res" where
  "addByDelay now delayTime func r =
     (let (t, r1) = TimerTask func r in timer_add t (time_plus now delayTime) r1)"

definition addByExpiration :: "(tm \<Rightarrow> int) \<Rightarrow> timer_expiration \<Rightarrow> nat \<Rightarrow> timer \<Rightarrow> timer res" where
  "addByExpiration mktime expiration func r =
     (let (t, r1) = TimerTask func r in
      rbind (getTimeEntry mktime expiration) (\<lambda>x. timer_add t x r1))"

definition Timer :: "time_entry \<Rightarrow> time_entry \<Rightarrow> int \<Rightarrow> int \<Rightarrow> int \<Rightarrow> timer res" where
  "Timer now tickMs wheelSize tickerNum threadNum =
     TimingWheel tickMs wheelSize now
       \<lparr>r_tasks = Map.empty, r_entries = Map.empty, r_wheels = [], r_queue = [], r_counter = 0,
        r_pool = pool_new threadNum, r_fresh = 0, r_tickMs = tickMs, r_startMs = now,
        r_wheelSize = wheelSize, r_tickerNum = tickerNum\<rparr>"

primrec add_tickers :: "nat \<Rightarrow> timer \<Rightarrow> timer" where
  "add_tickers 0 r = r"
| "add_tickers (Suc n) r = add_tickers n (r\<lparr>r_pool := pool_addTask Tick (r_pool r)\<rparr>)"

definition timer_start :: "timer \<Rightarrow> timer" where
  "timer_start r = add_tickers (nat (r_tickerNum r)) r"

text \<open>\<^verbatim>\<open>newTimer\<close>: the singleton, whose arguments count at the first call only.\<close>

definition newTimer ::
  "time_entry \<Rightarrow> time_entry \<Rightarrow> int \<Rightarrow> int \<Rightarrow> int \<Rightarrow> timer option \<Rightarrow> timer res" where
  "newTimer now tickMs wheelSize tickerNum threadNum defaultTimer =
     (case defaultTimer of
        Some r \<Rightarrow> Inr r
      | None \<Rightarrow> rbind (Timer now tickMs wheelSize tickerNum threadNum) (\<lambda>r. Inr (timer_start r)))"

subsection \<open>\<^verbatim>\<open>Ticker\<close>\<close>

record ticker =
  tk_timeout :: time_entry
  tk_startFlag :: bool

definition Ticker :: "time_entry \<Rightarrow> ticker" where
  "Ticker tickInterval = \<lparr>tk_timeout = tickInterval, tk_startFlag = True\<rparr>"

definition ticker_stop :: "ticker \<Rightarrow> ticker" where "ticker_stop tk = tk\<lparr>tk_startFlag := False\<rparr>"

text \<open>\<open>rounds\<close> gives for every round of the loop the flag as the loop reads it and the readings of
  the clock during the call.\<close>

primrec startTick :: "nat \<Rightarrow> (bool \<times> time_entry list) list \<Rightarrow> timer \<Rightarrow> timer res" where
  "startTick n [] r = Inl Diverges"
| "startTick n (x # rounds) r =
     (if fst x then rbind (timer_advanceClock n (snd x) r) (startTick n rounds) else Inr r)"

definition timer_shutdown :: "ticker \<Rightarrow> timer \<Rightarrow> ticker \<times> timer" where
  "timer_shutdown tk r = (ticker_stop tk, r\<lparr>r_pool := (r_pool r)\<lparr>tp_started := False\<rparr>\<rparr>)"

end
