(* ===== verification/TimerSpec.thy ===== *)
theory TimerSpec
  imports TimingWheel
begin

text \<open>
  What the timer does with its entries. The entries of a wheel hang on one ring (all buckets
  share the root), so the lemmas follow the ring: taking an entry out, putting one at the end,
  the place a wheel chooses. With them: a flush runs the tasks of its bucket in order when all
  of them are due, and a flush with an entry of the wheel not yet due never ends.
\<close>

definition nx :: "timer \<Rightarrow> nat \<rightharpoonup> nat" where "nx r a = Option.bind (r_entries r a) te_next"
definition pv :: "timer \<Rightarrow> nat \<rightharpoonup> nat" where "pv r a = Option.bind (r_entries r a) te_prev"
definition bucket_of :: "timer \<Rightarrow> nat \<rightharpoonup> bucket" where "bucket_of r a = Option.bind (r_entries r a) te_list"
definition info :: "timer \<Rightarrow> nat \<rightharpoonup> nat option \<times> time_entry" where
  "info r a = map_option (\<lambda>x. (te_task x, te_expiration x)) (r_entries r a)"

definition same_rest :: "timer \<Rightarrow> timer \<Rightarrow> bool" where
  "same_rest r r' \<longleftrightarrow> info r' = info r \<and> r_tasks r' = r_tasks r \<and> r_wheels r' = r_wheels r \<and>
     r_queue r' = r_queue r \<and> r_pool r' = r_pool r \<and> r_fresh r' = r_fresh r"

lemmas views = nx_def pv_def bucket_of_def info_def

abbreviation links :: "timer \<Rightarrow> nat \<Rightarrow> nat list \<Rightarrow> bool" where
  "links r root xs \<equiv> ring (nx r) (pv r) root xs"

lemma view_live: "nx r a = Some b \<Longrightarrow> \<exists>x. r_entries r a = Some x \<and> te_next x = Some b"
  "pv r a = Some b \<Longrightarrow> \<exists>x. r_entries r a = Some x \<and> te_prev x = Some b"
  "bucket_of r a = Some c \<Longrightarrow> \<exists>x. r_entries r a = Some x \<and> te_list x = Some c"
  by (auto simp: views bind_eq_Some_conv)

lemma links_mid:
  assumes "links r root (ys @ e # zs)"
  shows "pv r e = Some (last (root # ys))" "nx r e = Some (hd (zs @ [root]))"
    "pv r (hd (zs @ [root])) = Some e" "nx r (last (root # ys)) = Some e"
    "e \<noteq> last (root # ys)" "e \<noteq> hd (zs @ [root])"
proof -
  have p: "path (nx r) (pv r) root ys e" "path (nx r) (pv r) e zs root" and d: "distinct (root # ys @ e # zs)"
    using assms by (auto simp: ring_def path_append)
  show "pv r e = Some (last (root # ys))" "nx r (last (root # ys)) = Some e" using path_last [OF p(1)] by auto
  show "nx r e = Some (hd (zs @ [root]))" "pv r (hd (zs @ [root])) = Some e" using path_first [OF p(2)] by auto
  show "e \<noteq> last (root # ys)" using d last_in_set [of "root # ys"] by auto
  show "e \<noteq> hd (zs @ [root])" using d by (cases zs) auto
qed

lemma tl_remove_links:
  assumes l: "links r root (ys @ e # zs)" and b: "bucket_of r e = Some b"
  shows "\<exists>r'. tl_remove b e r = Inr r' \<and> links r' root (ys @ zs) \<and> same_rest r r' \<and>
    bucket_of r' = (bucket_of r)(e := None) \<and> r_counter r' = r_counter r - 1"
proof -
  let ?p = "last (root # ys)" and ?n = "hd (zs @ [root])"
  note m = links_mid [OF l]
  obtain x where x: "r_entries r e = Some x" "te_next x = Some ?n" "te_prev x = Some ?p" "te_list x = Some b"
    using m(1,2) b by (auto simp: views bind_eq_Some_conv)
  obtain y where y: "r_entries r ?n = Some y" using view_live(2) [OF m(3)] by blast
  obtain z where z: "r_entries r ?p = Some z" using view_live(1) [OF m(4)] by blast
  define E1 where "E1 = (r_entries r)(?n \<mapsto> y\<lparr>te_prev := Some ?p\<rparr>)"
  define z' where "z' = (if ?p = ?n then y\<lparr>te_prev := Some ?p\<rparr> else z)"
  define E2 where "E2 = E1(?p \<mapsto> z'\<lparr>te_next := Some ?n\<rparr>)"
  define E3 where "E3 = E2(e \<mapsto> x\<lparr>te_next := None, te_prev := None, te_list := None\<rparr>)"
  define r' where "r' = r\<lparr>r_entries := E3, r_counter := r_counter r - 1\<rparr>"
  have "E1 ?p = Some z'" "E2 e = Some x" using y z x m(5,6) by (auto simp: E1_def E2_def z'_def)
  then have t: "tl_remove b e r = Inr r'"
    using x y by (simp add: tl_remove_def get_entry_def put_entry_def r'_def E3_def E2_def E1_def)
  have "nx r' = (nx r)(?p := nx r e, e := None)"
    using x y z m(5,6) by (auto simp: nx_def r'_def E3_def E2_def E1_def z'_def fun_eq_iff)
  moreover have "pv r' = (pv r)(?n := pv r e, e := None)"
    using x y z m(5,6) by (auto simp: pv_def r'_def E3_def E2_def E1_def z'_def fun_eq_iff)
  ultimately have "links r' root (ys @ zs)" using ring_remove(3) [OF l] by simp
  moreover have "same_rest r r'"
    using x y z m(5,6) by (auto simp: same_rest_def info_def r'_def E3_def E2_def E1_def z'_def fun_eq_iff)
  moreover have "bucket_of r' = (bucket_of r)(e := None)"
    using x y z m(5,6) by (auto simp: bucket_of_def r'_def E3_def E2_def E1_def z'_def fun_eq_iff)
  ultimately show ?thesis using t by (simp add: r'_def)
qed

lemma same_rest_trans [trans]: "same_rest a b \<Longrightarrow> same_rest b c \<Longrightarrow> same_rest a c"
  by (simp add: same_rest_def)

lemma same_rest_refl [simp]: "same_rest a a"
  by (simp add: same_rest_def)

lemma put_entry_eq:
  "r_entries r a = Some x \<Longrightarrow> put_entry (Some a) f r = Inr (r\<lparr>r_entries := (r_entries r)(a \<mapsto> f x)\<rparr>)"
  by (simp add: put_entry_def)

text \<open>An entry that hangs in the ring and one that is in no list end up alike.\<close>

lemma entry_remove_links:
  assumes "links r root (ys @ e # zs) \<and> bucket_of r e = Some b \<or>
      links r root (ys @ zs) \<and> bucket_of r e = None \<and> e \<notin> set (root # ys @ zs)"
    and live: "info r e = Some i"
  shows "\<exists>r'. entry_remove 2 e r = Inr r' \<and> links r' root (ys @ zs) \<and> same_rest r r' \<and>
    bucket_of r' = (bucket_of r)(e := None) \<and> e \<notin> set (root # ys @ zs)"
  using assms(1)
proof (elim disjE conjE)
  assume l: "links r root (ys @ e # zs)" and b: "bucket_of r e = Some b"
  obtain r' where r': "tl_remove b e r = Inr r'" "links r' root (ys @ zs)" "same_rest r r'"
    "bucket_of r' = (bucket_of r)(e := None)" using tl_remove_links [OF l b] by blast
  have "info r' e = Some i" "bucket_of r' e = None" using r'(3,4) live by (auto simp: same_rest_def)
  then obtain x' where "r_entries r' e = Some x'" "te_list x' = None"
    by (auto simp: info_def bucket_of_def bind_eq_None_conv)
  moreover obtain x where "r_entries r e = Some x" "te_list x = Some b" using view_live(3) [OF b] by blast
  ultimately have "entry_remove 2 e r = Inr r'" using r'(1) by (simp add: numeral_2_eq_2 get_entry_def)
  then show ?thesis using r' l by (auto simp: ring_def)
next
  assume "links r root (ys @ zs)" "bucket_of r e = None" "e \<notin> set (root # ys @ zs)"
  moreover obtain x where "r_entries r e = Some x" "te_list x = None"
    using live calculation(2) by (auto simp: info_def bucket_of_def)
  then have "entry_remove 2 e r = Inr r" by (simp add: numeral_2_eq_2 get_entry_def)
  ultimately show ?thesis by (auto simp: fun_upd_idem)
qed

lemma tl_add_links:
  assumes "links r root (ys @ e # zs) \<and> bucket_of r e = Some b \<or>
      links r root (ys @ zs) \<and> bucket_of r e = None \<and> e \<notin> set (root # ys @ zs)"
    and live: "info r e = Some i" and w: "get_wheel r (fst c) = Inr w" "wh_root w = root"
  shows "\<exists>r'. tl_add c e r = Inr r' \<and> links r' root (ys @ zs @ [e]) \<and> same_rest r r' \<and>
    bucket_of r' = (bucket_of r)(e := Some c)"
proof -
  obtain r0 where r0: "entry_remove 2 e r = Inr r0" "links r0 root (ys @ zs)" "same_rest r r0"
    "bucket_of r0 = (bucket_of r)(e := None)" and e: "e \<notin> set (root # ys @ zs)"
    using entry_remove_links [OF assms(1) live] by blast
  let ?xs = "ys @ zs"
  define t0 where "t0 = last (root # ?xs)"
  have p: "path (nx r0) (pv r0) root ?xs root" using r0(2) by (simp add: ring_def)
  have pl: "pv r0 root = Some t0" "nx r0 t0 = Some root" using path_last [OF p] by (simp_all add: t0_def)
  obtain rt where rt: "r_entries r0 root = Some rt" "te_prev rt = Some t0" using view_live(2) [OF pl(1)] by blast
  obtain tl where tl: "r_entries r0 t0 = Some tl" using view_live(1) [OF pl(2)] by blast
  have "info r0 e = Some i" "bucket_of r0 e = None" using r0(3,4) live by (auto simp: same_rest_def)
  then obtain x where x: "r_entries r0 e = Some x" "te_list x = None"
    by (auto simp: info_def bucket_of_def bind_eq_None_conv)
  have d: "e \<noteq> root" "e \<noteq> t0" using e last_in_set [of "root # ?xs"] by (auto simp: t0_def)
  have w0: "get_wheel r0 (fst c) = Inr w" using w(1) r0(3) by (simp add: get_wheel_def same_rest_def)
  define E1 where "E1 = (r_entries r0)(e \<mapsto> x\<lparr>te_next := Some root, te_prev := Some t0, te_list := Some c\<rparr>)"
  define E2 where "E2 = E1(t0 \<mapsto> tl\<lparr>te_next := Some e\<rparr>)"
  define rt' where "rt' = (if root = t0 then tl\<lparr>te_next := Some e\<rparr> else rt)"
  define E3 where "E3 = E2(root \<mapsto> rt'\<lparr>te_prev := Some e\<rparr>)"
  define r' where "r' = r0\<lparr>r_entries := E3, r_counter := r_counter r0 + 1\<rparr>"
  have E: "E1 t0 = Some tl" "E2 root = Some rt'" using d tl rt by (auto simp: E1_def E2_def rt'_def)
  have g: "get_entry r0 (Some e) = Inr x" "get_entry r0 (Some root) = Inr rt"
    using x rt by (simp_all add: get_entry_def)
  have p1: "put_entry (Some e) (\<lambda>y. y\<lparr>te_next := Some root, te_prev := Some t0, te_list := Some c\<rparr>) r0
      = Inr (r0\<lparr>r_entries := E1\<rparr>)"
    using put_entry_eq [of r0 e x] x by (simp add: E1_def)
  have p2: "put_entry (Some t0) (\<lambda>y. y\<lparr>te_next := Some e\<rparr>) (r0\<lparr>r_entries := E1\<rparr>) = Inr (r0\<lparr>r_entries := E2\<rparr>)"
    using put_entry_eq [of "r0\<lparr>r_entries := E1\<rparr>" t0 tl] E(1) by (simp add: E2_def)
  have p3: "put_entry (Some root) (\<lambda>y. y\<lparr>te_prev := Some e\<rparr>) (r0\<lparr>r_entries := E2\<rparr>) = Inr (r0\<lparr>r_entries := E3\<rparr>)"
    using put_entry_eq [of "r0\<lparr>r_entries := E2\<rparr>" root rt'] E(2) by (simp add: E3_def)
  have t: "tl_add c e r = Inr r'"
    using r0(1) x(2) w0 w(2) rt(2) g p1 p2 p3 by (simp add: tl_add_def Let_def r'_def del: rbind_Inr_iff)
  have "nx r' = (nx r0)(e := Some root, t0 := Some e)"
    using x tl rt d by (auto simp: nx_def r'_def E3_def E2_def E1_def rt'_def fun_eq_iff)
  moreover have "pv r' = (pv r0)(e := pv r0 root, root := Some e)"
    using x tl rt d by (auto simp: pv_def r'_def E3_def E2_def E1_def rt'_def fun_eq_iff)
  ultimately have "links r' root (?xs @ [e])" using ring_insert_last(2) [OF r0(2) e] by (simp add: t0_def)
  moreover have "same_rest r0 r'"
    using x tl rt d by (auto simp: same_rest_def info_def r'_def E3_def E2_def E1_def rt'_def fun_eq_iff)
  moreover have "bucket_of r' = (bucket_of r)(e := Some c)"
  proof -
    have "bucket_of r' = (bucket_of r0)(e := Some c)"
      using x tl rt d by (auto simp: bucket_of_def r'_def E3_def E2_def E1_def rt'_def fun_eq_iff)
    then show ?thesis by (simp add: r0(4))
  qed
  ultimately show ?thesis using t r0(3) by (auto intro: same_rest_trans)
qed

subsection \<open>Where a wheel puts an entry\<close>

definition wheel_ok :: "wheel \<Rightarrow> bool" where
  "wheel_ok w \<longleftrightarrow> 0 < usecs (wh_tickMs w) \<and> 0 < wh_wheelSize w \<and>
     length (wh_buckets w) = nat (wh_wheelSize w) \<and>
     usecs (wh_interval w) = usecs (wh_tickMs w) * wh_wheelSize w \<and> 0 \<le> usecs (wh_currentTime w) \<and> \<not> wh_flag w \<and>
     in_long (usecs (wh_currentTime w) + usecs (wh_tickMs w) * wh_wheelSize w)"

definition pending :: "timer \<Rightarrow> nat \<Rightarrow> time_entry \<Rightarrow> bool" where
  "pending r e t \<longleftrightarrow> (\<exists>k tk. info r e = Some (Some k, t) \<and> r_tasks r k = Some tk \<and> tt_entry tk = Some e)"

definition slot :: "wheel \<Rightarrow> time_entry \<Rightarrow> nat" where
  "slot w t = nat (usecs t div usecs (wh_tickMs w) mod wh_wheelSize w)"

definition slot_start :: "wheel \<Rightarrow> time_entry \<Rightarrow> time_entry" where
  "slot_start w t = time_times (wh_tickMs w) (usecs t div usecs (wh_tickMs w))"

definition filed :: "wheel \<Rightarrow> time_entry \<Rightarrow> wheel" where
  "filed w t = w\<lparr>wh_buckets := (wh_buckets w)[slot w t := \<lparr>tl_expiration = slot_start w t\<rparr>]\<rparr>"

text \<open>The entry is in the ring of the wheel, or in no list.\<close>

definition hangs :: "timer \<Rightarrow> nat \<Rightarrow> nat list \<Rightarrow> nat \<Rightarrow> nat list \<Rightarrow> bool" where
  "hangs r root ys e zs \<longleftrightarrow>
     (\<exists>b. links r root (ys @ e # zs) \<and> bucket_of r e = Some b) \<or>
     links r root (ys @ zs) \<and> bucket_of r e = None \<and> e \<notin> set (root # ys @ zs)"

lemma pending_facts:
  assumes "pending r e t"
  shows "cancelled e r = Inr False" "entry_getExpiration e r = Inr t"
  using assms
  by (auto simp: pending_def info_def cancelled_def entry_getExpiration_def get_entry_def deref_def
      split: option.splits)

lemma slot_range: "wheel_ok w \<Longrightarrow> slot w t < length (wh_buckets w)"
proof -
  assume w: "wheel_ok w"
  then have "0 \<le> usecs t div usecs (wh_tickMs w) mod wh_wheelSize w"
    "usecs t div usecs (wh_tickMs w) mod wh_wheelSize w < wh_wheelSize w"
    by (auto simp: wheel_ok_def)
  then show ?thesis using w by (auto simp: slot_def wheel_ok_def)
qed

lemma wheel_ok_filed: "wheel_ok w \<Longrightarrow> wheel_ok (filed w t)"
  by (simp add: wheel_ok_def filed_def)

text \<open>The times to which a wheel compares an expiration do not leave \<^verbatim>\<open>long\<close>.\<close>

lemma wheel_ok_times:
  assumes "wheel_ok w"
  shows "usecs (time_plus (wh_currentTime w) (wh_interval w)) = usecs (wh_currentTime w) + usecs (wh_interval w)"
    "usecs (time_plus (wh_currentTime w) (wh_tickMs w)) = usecs (wh_currentTime w) + usecs (wh_tickMs w)"
proof -
  have "usecs (wh_tickMs w) * 1 \<le> usecs (wh_tickMs w) * wh_wheelSize w"
    using assms by (intro mult_left_mono) (simp_all add: wheel_ok_def)
  then have "in_long (usecs (wh_currentTime w) + usecs (wh_tickMs w))"
    using assms in_long_between [of "usecs (wh_currentTime w) + usecs (wh_tickMs w)"
      "usecs (wh_currentTime w) + usecs (wh_tickMs w) * wh_wheelSize w"] by (simp add: wheel_ok_def)
  then show "usecs (time_plus (wh_currentTime w) (wh_interval w)) = usecs (wh_currentTime w) + usecs (wh_interval w)"
    "usecs (time_plus (wh_currentTime w) (wh_tickMs w)) = usecs (wh_currentTime w) + usecs (wh_tickMs w)"
    using assms by (simp_all add: usecs_ops wheel_ok_def)
qed

lemma div_le_of_nonneg: "0 \<le> x \<Longrightarrow> 0 < y \<Longrightarrow> x div y \<le> (x :: int)"
  using zdiv_mono2 [of x 1 y] by simp

lemma wheel_add_due:
  assumes "pending r e t" "get_wheel r k = Inr w" "usecs t < usecs (time_plus (wh_currentTime w) (wh_tickMs w))"
  shows "wheel_add (Suc n) k e r = Inr (Some False, r)"
  using assms pending_facts [OF assms(1)] by (simp add: time_less_def)

lemma wheel_add_here:
  assumes p: "pending r e t" and w: "get_wheel r k = Inr w" "wheel_ok w"
    and t: "usecs (wh_currentTime w) + usecs (wh_tickMs w) \<le> usecs t"
      "usecs t < usecs (wh_currentTime w) + usecs (wh_interval w)"
    and h: "hangs r (wh_root w) ys e zs"
  shows "\<exists>r'. wheel_add (Suc n) k e r = Inr (Some True, r') \<and> links r' (wh_root w) (ys @ zs @ [e]) \<and>
    bucket_of r' = (bucket_of r)(e \<mapsto> (k, slot w t)) \<and> info r' = info r \<and> r_tasks r' = r_tasks r \<and>
    r_pool r' = r_pool r \<and> r_wheels r' = (r_wheels r)[k := filed w t] \<and>
    r_queue r' = (if time_neq (slot_start w t) (tl_expiration (wh_buckets w ! slot w t))
                  then offer (k, slot w t) t (r_queue r) else r_queue r)"
proof -
  define b where "b = (k, slot w t)"
  have tick: "0 < usecs (wh_tickMs w)" and size: "0 < wh_wheelSize w" and cur: "0 \<le> usecs (wh_currentTime w)"
    using w(2) by (auto simp: wheel_ok_def)
  then have t0: "0 \<le> usecs t" using t(1) by linarith
  have v: "time_div t (wh_tickMs w) = Inr (usecs t div usecs (wh_tickMs w))"
    "0 \<le> usecs t div usecs (wh_tickMs w)"
    using tick t0 in_long_between [of _ "usecs t"] div_le_of_nonneg [OF t0 tick] by (simp_all add: time_div_def pos_imp_zdiv_nonneg_iff)
  obtain i where i: "info r e = Some i" using p by (auto simp: pending_def)
  obtain b' where "links r (wh_root w) (ys @ e # zs) \<and> bucket_of r e = Some b' \<or>
      links r (wh_root w) (ys @ zs) \<and> bucket_of r e = None \<and> e \<notin> set (wh_root w # ys @ zs)"
    using h unfolding hangs_def by blast
  from tl_add_links [OF this i, of b w] obtain r1 where r1: "tl_add b e r = Inr r1"
    "links r1 (wh_root w) (ys @ zs @ [e])" "same_rest r r1" "bucket_of r1 = (bucket_of r)(e := Some b)"
    using w(1) by (auto simp: b_def)
  define r2 where "r2 = put_bucket b (slot_start w t) r1"
  define ch where "ch = time_neq (slot_start w t) (tl_expiration (wh_buckets w ! slot w t))"
  have w1: "get_wheel r1 k = Inr w" using w(1) r1(3) by (simp add: get_wheel_def same_rest_def)
  have s: "setExpiration b (slot_start w t) r1 = Inr (ch, r2)"
    using w1 w(2) slot_range [OF w(2), of t]
    by (simp add: setExpiration_def bucket_at_def b_def r2_def ch_def wheel_ok_def)
  let ?r' = "if ch then r2\<lparr>r_queue := offer b t (r_queue r2)\<rparr> else r2"
  have "wheel_place k e t w r = Inr ?r'"
  proof -
    have m: "\<not> usecs t div usecs (wh_tickMs w) mod wh_wheelSize w < 0"
      "\<not> int (length (wh_buckets w)) \<le> usecs t div usecs (wh_tickMs w) mod wh_wheelSize w"
      using size w(2) by (auto simp: wheel_ok_def not_less not_le)
    show ?thesis
      using v size m r1(1) s
      by (simp add: wheel_place_def Let_def slot_def [symmetric] b_def [symmetric] slot_start_def [symmetric]
          del: rbind_Inr_iff)
  qed
  then have a: "wheel_add (Suc n) k e r = Inr (Some True, ?r')"
    using pending_facts [OF p] w(1) t
    by (simp add: time_less_def wheel_ok_times [OF w(2)] not_less del: rbind_Inr_iff)
  have keep: "nx ?r' = nx r1" "pv ?r' = pv r1" "bucket_of ?r' = bucket_of r1" "info ?r' = info r1"
    "r_tasks ?r' = r_tasks r1" "r_pool ?r' = r_pool r1" "r_wheels ?r' = r_wheels r2"
    "r_queue ?r' = (if ch then offer b t (r_queue r1) else r_queue r1)"
    by (simp_all add: views fun_eq_iff r2_def put_bucket_def put_wheel_def)
  have "r_wheels r2 = (r_wheels r)[k := filed w t]"
    using r1(3) w(1) by (simp add: r2_def put_bucket_def put_wheel_def same_rest_def filed_def b_def get_wheel_def)
  then show ?thesis using a keep r1(2,3,4) unfolding same_rest_def
    by (intro exI [of _ ?r']) (simp add: ch_def b_def)
qed

end
