(* ===== verification/TimerFlush.thy ===== *)
theory TimerFlush
  imports TimerSpec
begin

text \<open>
  The properties of the timer that rest on \<open>TimerSpec\<close>: where an entry is filed, what a flush
  does with entries that are due, and the two ways in which the shared root of the buckets of a
  wheel breaks it.
\<close>

declare wheel_add.simps [simp del] flush_loop.simps(2) [simp del]

lemma slot_start_bounds:
  assumes "0 < usecs (wh_tickMs w)" "0 \<le> usecs t"
  shows "usecs (slot_start w t) \<le> usecs t" "usecs t < usecs (slot_start w t) + usecs (wh_tickMs w)"
proof -
  let ?s = "usecs (wh_tickMs w) * (usecs t div usecs (wh_tickMs w))"
  have s: "?s + usecs t mod usecs (wh_tickMs w) = usecs t" by simp
  moreover have "0 \<le> ?s" using assms by (simp add: pos_imp_zdiv_nonneg_iff)
  moreover have "?s \<le> usecs t" using s pos_mod_sign [OF assms(1), of "usecs t"] by linarith
  ultimately have "usecs (slot_start w t) + usecs t mod usecs (wh_tickMs w) = usecs t"
    using in_long_between [of ?s "usecs t"] by (simp add: slot_start_def usecs_ops)
  then show "usecs (slot_start w t) \<le> usecs t" "usecs t < usecs (slot_start w t) + usecs (wh_tickMs w)"
    using pos_mod_sign [OF assms(1), of "usecs t"] pos_mod_bound [OF assms(1), of "usecs t"] by linarith+
qed

text \<open>A wheel refuses an entry due within its current tick and changes nothing; an entry within
  its interval, new or already filed, it puts at the end of its ring, in the bucket of the tick of
  the expiration, and that bucket then expires at the start of that tick.\<close>

lemma wheel_files_entry:
  assumes p: "pending r e t" and w: "get_wheel r k = Inr w" "wheel_ok w" and h: "hangs r (wh_root w) ys e zs"
    and t: "usecs t < usecs (wh_currentTime w) + usecs (wh_interval w)"
  shows "if usecs t < usecs (wh_currentTime w) + usecs (wh_tickMs w)
    then wheel_add (Suc n) k e r = Inr (Some False, r)
    else \<exists>r'. wheel_add (Suc n) k e r = Inr (Some True, r') \<and> links r' (wh_root w) (ys @ zs @ [e]) \<and>
      bucket_of r' e = Some (k, slot w t) \<and> bucket_getExpiration (k, slot w t) r' = Inr (slot_start w t) \<and>
      usecs (slot_start w t) \<le> usecs t \<and> usecs t < usecs (slot_start w t) + usecs (wh_tickMs w)"
proof (cases "usecs t < usecs (wh_currentTime w) + usecs (wh_tickMs w)")
  case True
  then show ?thesis using wheel_add_due [OF p w(1)] by (simp add: wheel_ok_times [OF w(2)])
next
  case False
  then obtain r' where r': "wheel_add (Suc n) k e r = Inr (Some True, r')" "links r' (wh_root w) (ys @ zs @ [e])"
    "bucket_of r' = (bucket_of r)(e \<mapsto> (k, slot w t))" "r_wheels r' = (r_wheels r)[k := filed w t]"
    using wheel_add_here [OF p w _ t h, of n] by auto
  have "get_wheel r' k = Inr (filed w t)" using r'(4) w(1) by (simp add: get_wheel_def)
  then have "bucket_getExpiration (k, slot w t) r' = Inr (slot_start w t)"
    using w(2) slot_range [OF w(2), of t]
    by (simp add: bucket_getExpiration_def bucket_at_def filed_def wheel_ok_def)
  moreover have "0 < usecs (wh_tickMs w)" "0 \<le> usecs t" using w(2) False by (simp_all add: wheel_ok_def)
  note slot_start_bounds [OF this]
  ultimately show ?thesis using False r'(1,2,3) by auto
qed

text \<open>A timer with ticks of a second and four buckets, and one entry, task 1, not yet filed.\<close>

definition sec :: "int \<Rightarrow> time_entry" where "sec n = \<lparr>tv_sec = n, tv_usec = 0\<rparr>"

definition sample_wheel :: wheel where
  "sample_wheel = \<lparr>wh_tickMs = sec 1, wh_wheelSize = 4, wh_interval = sec 4,
     wh_buckets = replicate 4 \<lparr>tl_expiration = time_default\<rparr>, wh_currentTime = sec 10, wh_root = 0, wh_flag = False\<rparr>"

definition sample_timer :: "bucket option \<Rightarrow> nat option \<Rightarrow> nat \<Rightarrow> time_entry \<Rightarrow> timer" where
  "sample_timer b link around t =
     \<lparr>r_tasks = [1 \<mapsto> \<lparr>tt_entry = Some 2, tt_func = 77\<rparr>],
      r_entries = [0 \<mapsto> \<lparr>te_task = None, te_expiration = time_default, te_list = None,
                        te_prev = Some around, te_next = Some around\<rparr>,
                   2 \<mapsto> \<lparr>te_task = Some 1, te_expiration = t, te_list = b, te_prev = link, te_next = link\<rparr>],
      r_wheels = [sample_wheel], r_queue = [], r_counter = 0, r_pool = pool_new 2, r_fresh = 3,
      r_tickMs = sec 1, r_startMs = sec 10, r_wheelSize = 4, r_tickerNum = 1\<rparr>"

lemma sec_usecs [simp]: "in_long (n * 1000000) \<Longrightarrow> usecs (sec n) = n * 1000000"
  by (simp add: sec_def usecs_total)

lemma sample_facts:
  "wheel_ok sample_wheel" "get_wheel (sample_timer b l a t) 0 = Inr sample_wheel"
  "pending (sample_timer b l a t) 2 t" "wh_root sample_wheel = 0"
  "usecs (wh_currentTime sample_wheel) = 10000000" "usecs (wh_interval sample_wheel) = 4000000"
  "usecs (wh_tickMs sample_wheel) = 1000000" "r_wheels (sample_timer b l a t) = [sample_wheel]"
  by (simp_all add: wheel_ok_def sample_wheel_def get_wheel_def sample_timer_def pending_def info_def)

lemma sample_links:
  "hangs (sample_timer None None 0 t) 0 [] 2 []" "links (sample_timer (Some b) (Some 0) 2 t) 0 [2]"
  "bucket_of (sample_timer (Some b) (Some 0) 2 t) 2 = Some b"
  by (simp_all add: hangs_def ring_def views sample_timer_def)

lemma wheel_files_entry_witness:
  "\<exists>r'. wheel_add 1 0 2 (sample_timer None None 0 (sec 12)) = Inr (Some True, r') \<and> links r' 0 [2] \<and>
     bucket_of r' 2 = Some (0, 0) \<and> bucket_getExpiration (0, 0) r' = Inr (slot_start sample_wheel (sec 12))"
proof -
  have "slot sample_wheel (sec 12) = 0" by (simp add: slot_def sample_wheel_def)
  moreover have "hangs (sample_timer None None 0 (sec 12)) (wh_root sample_wheel) [] 2 []"
    using sample_links(1) by (simp add: sample_facts)
  note wheel_files_entry [OF sample_facts(3,2,1) this, of 0]
  ultimately show ?thesis by (simp add: sample_facts) blast
qed

subsection \<open>Flushing\<close>

lemma pending_same: "info r' = info r \<Longrightarrow> r_tasks r' = r_tasks r \<Longrightarrow> pending r' e t = pending r e t"
  by (simp add: pending_def)

lemma flush_head:
  assumes "nx r root = Some h" "h \<noteq> root"
  shows "flush_loop (Suc n) b root r
    = rbind (tl_remove b h r) (\<lambda>r1. rbind (addTimerTaskEntry h r1) (\<lambda>r2. flush_loop n b root r2))"
proof -
  obtain x where "r_entries r root = Some x" "te_next x = Some h" using view_live(1) [OF assms(1)] by blast
  then have "get_entry r (Some root) = Inr x" by (simp add: get_entry_def)
  then show ?thesis using assms(2) \<open>te_next x = Some h\<close> by (simp add: flush_loop.simps(2) del: rbind_Inr_iff)
qed

lemma flush_done: "nx r root = Some root \<Longrightarrow> flush_loop (Suc n) b root r = Inr r"
  using view_live(1) [of r root root] by (auto simp: get_entry_def flush_loop.simps(2))

lemma tl_remove_other: "bucket_of r e = Some c \<Longrightarrow> c \<noteq> b \<Longrightarrow> tl_remove b e r = Inr r"
  using view_live(3) [of r e c] by (auto simp: tl_remove_def get_entry_def)

subsection \<open>A bucket that is due\<close>

definition func_of :: "timer \<Rightarrow> nat \<Rightarrow> nat" where
  "func_of r e = (case info r e of
      Some (Some k, _) \<Rightarrow> (case r_tasks r k of Some tk \<Rightarrow> tt_func tk | None \<Rightarrow> 0) | _ \<Rightarrow> 0)"

definition due_in :: "wheel \<Rightarrow> timer \<Rightarrow> nat \<Rightarrow> bool" where
  "due_in w r e \<longleftrightarrow> (\<exists>t. pending r e t \<and> usecs t < usecs (time_plus (wh_currentTime w) (wh_tickMs w)))"

lemma ring_cong:
  assumes "ring f g h xs" "\<And>a. a \<in> set (h # xs) \<Longrightarrow> f' a = f a \<and> g' a = g a"
  shows "ring f' g' h xs"
  using assms path_cong [of h xs f f' h g g'] by (auto simp: ring_def)

lemma run_due:
  assumes w: "get_wheel r 0 = Inr w" and d: "due_in w r e"
  shows "\<exists>r' k. addTimerTaskEntry e r = Inr r' \<and> info r' = (info r)(e := None) \<and>
    nx r' = (nx r)(e := None) \<and> pv r' = (pv r)(e := None) \<and> bucket_of r' = (bucket_of r)(e := None) \<and>
    r_tasks r' = (r_tasks r)(k := None) \<and> (\<exists>tk. r_tasks r k = Some tk \<and> tt_entry tk = Some e) \<and>
    r_wheels r' = r_wheels r \<and> r_counter r' = r_counter r \<and> r_entries r' = (r_entries r)(e := None) \<and>
    r_pool r' = pool_addTask (Func (func_of r e)) (r_pool r)"
proof -
  obtain t where p: "pending r e t" and t: "usecs t < usecs (time_plus (wh_currentTime w) (wh_tickMs w))"
    using d by (auto simp: due_in_def)
  obtain k tk where k: "info r e = Some (Some k, t)" "r_tasks r k = Some tk" "tt_entry tk = Some e"
    using p by (auto simp: pending_def)
  then obtain x where x: "r_entries r e = Some x" "te_task x = Some k" by (auto simp: info_def)
  have add: "wheel_add wheel_fuel 0 e r = Inr (Some False, r)"
    using wheel_add_due [OF p w t, of 63] by simp
  define r' where "r' = r\<lparr>r_pool := pool_addTask (Func (tt_func tk)) (r_pool r),
    r_entries := (r_entries r)(e := None), r_tasks := (r_tasks r)(k := None)\<rparr>"
  have "addTimerTaskEntry e r = Inr r'"
    using add pending_facts(1) [OF p] x k
    by (simp add: addTimerTaskEntry_def getTimerTask_def get_entry_def delete_entry_def deref_def r'_def)
  moreover have "func_of r e = tt_func tk" using k by (simp add: func_of_def)
  ultimately show ?thesis using k
    by (intro exI [of _ r'] exI [of _ k]) (auto simp: r'_def views fun_eq_iff)
qed

text \<open>One round of a flush whose first entry is due and filed in the flushed bucket: the entry is taken
  out of the ring, its function is handed on, and the others stay what they were.\<close>

lemma round_due:
  assumes l: "links r root (e # es)" and be: "bucket_of r e = Some b" "due_in w r e" and w: "get_wheel r 0 = Inr w"
  shows "\<exists>r2. (\<forall>m. flush_loop (Suc m) b root r = flush_loop m b root r2) \<and> links r2 root es \<and>
    bucket_of r2 = (bucket_of r)(e := None) \<and> r_wheels r2 = r_wheels r \<and> r_counter r2 = r_counter r - 1 \<and>
    r_pool r2 = pool_addTask (Func (func_of r e)) (r_pool r) \<and> r_entries r2 e = None \<and>
    (\<forall>a. r_entries r a = None \<longrightarrow> r_entries r2 a = None) \<and>
    (\<forall>a t. a \<noteq> e \<and> pending r a t \<longrightarrow> pending r2 a t \<and> func_of r2 a = func_of r a)"
proof -
  have h: "nx r root = Some e" "e \<noteq> root" "e \<notin> set es" using l by (auto simp: ring_def)
  obtain r1 where r1: "tl_remove b e r = Inr r1" "links r1 root es" "same_rest r r1"
    "bucket_of r1 = (bucket_of r)(e := None)" "r_counter r1 = r_counter r - 1"
    using tl_remove_links [of r root "[]" e es b] l be(1) by auto
  have keep: "info r1 = info r" "r_tasks r1 = r_tasks r" "r_wheels r1 = r_wheels r" "r_pool r1 = r_pool r"
    using r1(3) by (simp_all add: same_rest_def)
  have w1: "get_wheel r1 0 = Inr w" using w keep(3) by (simp add: get_wheel_def)
  have d1: "due_in w r1 e" using be(2) pending_same [OF keep(1,2)] by (simp add: due_in_def)
  obtain r2 k tk where r2: "addTimerTaskEntry e r1 = Inr r2" "info r2 = (info r1)(e := None)"
    "nx r2 = (nx r1)(e := None)" "pv r2 = (pv r1)(e := None)" "bucket_of r2 = (bucket_of r1)(e := None)"
    "r_tasks r2 = (r_tasks r1)(k := None)" "r_tasks r1 k = Some tk" "tt_entry tk = Some e"
    "r_wheels r2 = r_wheels r1" "r_counter r2 = r_counter r1" "r_entries r2 = (r_entries r1)(e := None)"
    "r_pool r2 = pool_addTask (Func (func_of r1 e)) (r_pool r1)"
    using run_due [OF w1 d1] by blast
  have l2: "links r2 root es"
    by (rule ring_cong [OF r1(2)]) (use h r2(3,4) in auto)
  have other: "pending r2 a t \<and> func_of r2 a = func_of r a" if a: "a \<noteq> e" "pending r a t" for a t
  proof -
    obtain j tj where j: "info r a = Some (Some j, t)" "r_tasks r j = Some tj" "tt_entry tj = Some a"
      using a(2) by (auto simp: pending_def)
    have "j \<noteq> k" using a(1) j r2(7,8) keep(2) by auto
    then show ?thesis using a(1) j r2(2,6) keep(1,2) by (auto simp: pending_def func_of_def)
  qed
  have dead: "r_entries r a = None \<Longrightarrow> r_entries r1 a = None" for a
    using fun_cong [OF keep(1), of a] by (simp add: info_def)
  have fe: "func_of r1 e = func_of r e" unfolding func_of_def keep(1,2) ..
  have "flush_loop (Suc m) b root r = flush_loop m b root r2" for m
    using flush_head [OF h(1,2), of m b] r1(1) r2(1) by simp
  then show ?thesis using l2 r2(5,9-12) r1(4,5) keep(3,4) fe dead other by (intro exI [of _ r2]) auto
qed

lemma flush_loop_due:
  assumes "links r root xs" "\<And>e. e \<in> set xs \<Longrightarrow> bucket_of r e = Some b \<and> due_in w r e"
    "get_wheel r 0 = Inr w" "tp_started (r_pool r)" "length xs < n"
  shows "\<exists>r'. flush_loop n b root r = Inr r' \<and> links r' root [] \<and> r_wheels r' = r_wheels r \<and>
    tp_tasks (r_pool r') = tp_tasks (r_pool r) @ map (\<lambda>e. Func (func_of r e)) xs \<and>
    r_counter r' = r_counter r - int (length xs) \<and> (\<forall>e \<in> set xs. r_entries r' e = None) \<and>
    (\<forall>e. r_entries r e = None \<longrightarrow> r_entries r' e = None)"
  using assms
proof (induction xs arbitrary: r n)
  case Nil
  then obtain m where "n = Suc m" by (cases n) auto
  then show ?case using Nil flush_done [of r root m b] by (auto simp: ring_def)
next
  case (Cons e es)
  then obtain m where n: "n = Suc m" by (cases n) auto
  have new: "e \<notin> set es" using Cons.prems(1) by (auto simp: ring_def)
  have be: "bucket_of r e = Some b" "due_in w r e" using Cons.prems(2) by auto
  obtain r2 where r2: "\<And>m. flush_loop (Suc m) b root r = flush_loop m b root r2" "links r2 root es"
    "bucket_of r2 = (bucket_of r)(e := None)" "r_wheels r2 = r_wheels r" "r_counter r2 = r_counter r - 1"
    "r_pool r2 = pool_addTask (Func (func_of r e)) (r_pool r)" "r_entries r2 e = None"
    "\<And>a. r_entries r a = None \<Longrightarrow> r_entries r2 a = None"
    "\<And>a t. a \<noteq> e \<Longrightarrow> pending r a t \<Longrightarrow> pending r2 a t \<and> func_of r2 a = func_of r a"
    using round_due [OF Cons.prems(1) be Cons.prems(3)] by blast
  have prem2: "bucket_of r2 a = Some b \<and> due_in w r2 a \<and> func_of r2 a = func_of r a" if "a \<in> set es" for a
  proof -
    have a: "bucket_of r a = Some b" "due_in w r a" "a \<noteq> e" using Cons.prems(2) that new by auto
    then obtain t where "pending r a t" "usecs t < usecs (time_plus (wh_currentTime w) (wh_tickMs w))"
      by (auto simp: due_in_def)
    then show ?thesis using r2(9) [OF a(3)] r2(3) a by (auto simp: due_in_def)
  qed
  have fs: "map (\<lambda>a. Func (func_of r2 a)) es = map (\<lambda>a. Func (func_of r a)) es"
    using prem2 by (intro map_cong) auto
  have "get_wheel r2 0 = Inr w" "tp_started (r_pool r2)" "length es < m"
    using Cons.prems(3,4,5) r2(4,6) n by (auto simp: get_wheel_def pool_addTask_def)
  with Cons.IH [OF r2(2)] prem2 obtain r' where r': "flush_loop m b root r2 = Inr r'" "links r' root []"
    "r_wheels r' = r_wheels r2"
    "tp_tasks (r_pool r') = tp_tasks (r_pool r2) @ map (\<lambda>a. Func (func_of r2 a)) es"
    "r_counter r' = r_counter r2 - int (length es)" "\<forall>a \<in> set es. r_entries r' a = None"
    "\<forall>a. r_entries r2 a = None \<longrightarrow> r_entries r' a = None" by blast
  have "tp_tasks (r_pool r2) = tp_tasks (r_pool r) @ [Func (func_of r e)]"
    using Cons.prems(4) r2(6) by (simp add: pool_addTask_def addTask_def)
  then show ?case using r' r2(1,4,5,7,8) fs n by (intro exI [of _ r']) auto
qed

text \<open>C11. When every entry of the ring is filed in the flushed bucket and due, the flush ends: it hands
  the functions to the thread pool in the order of the ring, one each, empties the ring, frees the
  entries and takes them off the counter.\<close>

theorem flush_runs_due:
  assumes "get_wheel r (fst b) = Inr w" "\<not> wh_flag w" "links r (wh_root w) xs" "get_wheel r 0 = Inr w0"
    "\<And>e. e \<in> set xs \<Longrightarrow> bucket_of r e = Some b \<and> due_in w0 r e" "tp_started (r_pool r)" "length xs < n"
  shows "\<exists>r'. flush n b r = Inr r' \<and> links r' (wh_root w) [] \<and>
    tp_tasks (r_pool r') = tp_tasks (r_pool r) @ map (\<lambda>e. Func (func_of r e)) xs \<and>
    r_counter r' = r_counter r - int (length xs) \<and> (\<forall>e \<in> set xs. r_entries r' e = None)"
proof -
  from flush_loop_due [OF assms(3,5,4,6,7)] obtain r' where r': "flush_loop n b (wh_root w) r = Inr r'"
    "links r' (wh_root w) []" "r_wheels r' = r_wheels r"
    "tp_tasks (r_pool r') = tp_tasks (r_pool r) @ map (\<lambda>e. Func (func_of r e)) xs"
    "r_counter r' = r_counter r - int (length xs)" "\<forall>e \<in> set xs. r_entries r' e = None" by blast
  let ?r = "put_bucket b time_default r'"
  have "flush n b r = Inr ?r"
    using r'(1,3) assms(1,2) by (simp add: flush_def clear_expiration_def get_wheel_def)
  moreover have "nx ?r = nx r'" "pv ?r = pv r'" "r_pool ?r = r_pool r'" "r_counter ?r = r_counter r'"
    "r_entries ?r = r_entries r'"
    by (simp_all add: views fun_eq_iff put_bucket_def put_wheel_def)
  ultimately show ?thesis using r' by (intro exI [of _ ?r]) simp
qed

theorem flush_runs_due_witness:
  "\<exists>r'. flush 2 (0, 2) (sample_timer (Some (0, 2)) (Some 0) 2 (sec 10)) = Inr r' \<and> links r' 0 [] \<and>
     tp_tasks (r_pool r') = [Func 77] \<and> r_counter r' = - 1 \<and> r_entries r' 2 = None"
proof -
  let ?r = "sample_timer (Some (0, 2)) (Some 0) 2 (sec 10)"
  have l: "links ?r (wh_root sample_wheel) [2]" using sample_links(2) by (simp add: sample_facts)
  have d: "due_in sample_wheel ?r 2" unfolding due_in_def wheel_ok_times [OF sample_facts(1)]
    by (intro exI [of _ "sec 10"] conjI sample_facts(3)) (simp add: sample_facts)
  have g: "get_wheel ?r (fst (0, 2)) = Inr sample_wheel" "\<not> wh_flag sample_wheel"
    using sample_facts(1,2) by (simp_all add: wheel_ok_def)
  have p: "tp_started (r_pool ?r)" "tp_tasks (r_pool ?r) = []" "r_counter ?r = 0" "func_of ?r 2 = 77"
    by (simp_all add: sample_timer_def pool_new_def func_of_def info_def)
  from flush_runs_due [OF g l sample_facts(2) _ p(1), of 2] d sample_links(3) p(2-4)
  show ?thesis by (simp add: sample_facts)
qed

subsection \<open>A ring with an entry that is not due\<close>

lemma filed_fields [simp]:
  "wh_currentTime (filed w t) = wh_currentTime w" "wh_tickMs (filed w t) = wh_tickMs w"
  "wh_interval (filed w t) = wh_interval w" "wh_root (filed w t) = wh_root w"
  by (simp_all add: filed_def)

text \<open>However the first entry left its list, the wheel takes it back at the end of the ring.\<close>

lemma head_unlinked:
  assumes l: "links r root (e # es)" and b: "bucket_of r e = Some c"
  shows "\<exists>r1. tl_remove b e r = Inr r1 \<and> hangs r1 root [] e es \<and> same_rest r r1 \<and>
    (\<forall>a. a \<noteq> e \<longrightarrow> bucket_of r1 a = bucket_of r a)"
proof (cases "c = b")
  case True
  have e: "e \<notin> set (root # es)" using l by (simp add: ring_def)
  from tl_remove_links [of r root "[]" e es b] l b True obtain r1 where
    "tl_remove b e r = Inr r1" "links r1 root es" "same_rest r r1" "bucket_of r1 = (bucket_of r)(e := None)"
    by auto
  then show ?thesis using e by (intro exI [of _ r1]) (simp add: hangs_def)
next
  case False
  then show ?thesis using tl_remove_other [OF b False] l b
    by (intro exI [of _ r]) (auto simp: hangs_def same_rest_def)
qed

lemma round_later:
  assumes w: "get_wheel r 0 = Inr w" "wheel_ok w" and l: "links r (wh_root w) (e # es)" and b: "bucket_of r e = Some c"
    and p: "pending r e t" and t: "usecs (wh_currentTime w) + usecs (wh_tickMs w) \<le> usecs t"
      "usecs t < usecs (wh_currentTime w) + usecs (wh_interval w)"
  shows "\<exists>r2. (\<forall>m. flush_loop (Suc m) b (wh_root w) r = flush_loop m b (wh_root w) r2) \<and>
    links r2 (wh_root w) (es @ [e]) \<and> bucket_of r2 e = Some (0, slot w t) \<and>
    (\<forall>a. a \<noteq> e \<longrightarrow> bucket_of r2 a = bucket_of r a) \<and> info r2 = info r \<and> r_tasks r2 = r_tasks r \<and>
    get_wheel r2 0 = Inr (filed w t)"
proof -
  obtain r1 where r1: "tl_remove b e r = Inr r1" "hangs r1 (wh_root w) [] e es" "same_rest r r1"
    "\<forall>a. a \<noteq> e \<longrightarrow> bucket_of r1 a = bucket_of r a" using head_unlinked [OF l b] by blast
  have p1: "pending r1 e t" using p r1(3) pending_same [of r1 r e t] by (simp add: same_rest_def)
  have w1: "get_wheel r1 0 = Inr w" using w(1) r1(3) by (simp add: get_wheel_def same_rest_def)
  from wheel_add_here [OF p1 w1 w(2) t r1(2), of 63] obtain r2 where
    s: "wheel_add (Suc 63) 0 e r1 = Inr (Some True, r2)" "links r2 (wh_root w) ([] @ es @ [e])"
    "bucket_of r2 = (bucket_of r1)(e \<mapsto> (0, slot w t))" "info r2 = info r1" "r_tasks r2 = r_tasks r1"
    "r_wheels r2 = (r_wheels r1)[0 := filed w t]" by (elim exE conjE)
  have "Suc 63 = wheel_fuel" by simp
  note r2 = s(1) [unfolded this] s(2) [unfolded append_Nil] s(3-6)
  have "addTimerTaskEntry e r1 = Inr r2" using r2(1) by (simp add: addTimerTaskEntry_def)
  moreover have "nx r (wh_root w) = Some e" "e \<noteq> wh_root w" using l by (auto simp: ring_def)
  ultimately have "flush_loop (Suc m) b (wh_root w) r = flush_loop m b (wh_root w) r2" for m
    using flush_head [of r "wh_root w" e m b] r1(1) by simp
  moreover have "get_wheel r2 0 = Inr (filed w t)" using r2(6) w1 by (simp add: get_wheel_def)
  moreover have "info r2 = info r" "r_tasks r2 = r_tasks r" using r1(3) r2(4,5) by (simp_all add: same_rest_def)
  ultimately show ?thesis using r1(4) r2(2,3) by (intro exI [of _ r2]) simp
qed

text \<open>An entry that is due but filed in another bucket than the flushed one is run and deleted
  while it still hangs in the shared ring, and the next round of the loop uses it.\<close>

lemma round_deleted:
  assumes w: "get_wheel r 0 = Inr w" and l: "links r root (e # es)" and b: "bucket_of r e = Some c"
    and d: "due_in w r e" and c: "c \<noteq> b"
  shows "flush_loop (Suc (Suc m)) b root r = Inl NullDeref"
proof -
  have h: "nx r root = Some e" "e \<noteq> root" using l by (auto simp: ring_def)
  obtain r2 where r2: "addTimerTaskEntry e r = Inr r2" "r_entries r2 = (r_entries r)(e := None)"
    using run_due [OF w d] by blast
  have "nx r2 root = Some e" using h r2(2) by (simp add: nx_def)
  from flush_head [OF this h(2), of m b]
  have "flush_loop (Suc m) b root r2 = Inl NullDeref"
    using r2(2) by (simp add: tl_remove_def get_entry_def deref_def)
  then show ?thesis
    using flush_head [OF h, of "Suc m" b] tl_remove_other [OF b c] r2(1) by simp
qed

lemma flush_uses_deleted:
  assumes "get_wheel r 0 = Inr w" "links r (wh_root w) (e # es)" "bucket_of r e = Some c" "due_in w r e" "c \<noteq> (0, i)"
  shows "flush (Suc (Suc n)) (0, i) r = Inl NullDeref"
  using round_deleted [OF assms(1-4), of "(0, i)" n] assms(1,5) by (simp add: flush_def)

lemma flush_uses_deleted_witness:
  "flush 9 (0, 3) (sample_timer (Some (0, 2)) (Some 0) 2 (sec 10)) = Inl NullDeref"
proof -
  let ?r = "sample_timer (Some (0, 2)) (Some 0) 2 (sec 10)"
  have "due_in sample_wheel ?r 2" unfolding due_in_def wheel_ok_times [OF sample_facts(1)]
    by (intro exI [of _ "sec 10"] conjI sample_facts(3)) (simp add: sample_facts)
  then show ?thesis
    using flush_uses_deleted [of ?r sample_wheel 2 "[]" "(0, 2)" 3 7]
    by (simp add: sample_facts sample_links)
qed

text \<open>An entry beyond the interval of the first wheel is filed in an overflow wheel, but
  \<^verbatim>\<open>TimingWheel::add\<close> runs off its end on that branch: adding such a task has no defined result.\<close>

lemma overflow_has_no_result:
  assumes p: "pending r e t" and w: "get_wheel r 0 = Inr w"
    and t: "usecs (time_plus (wh_currentTime w) (wh_tickMs w)) \<le> usecs t"
      "usecs (time_plus (wh_currentTime w) (wh_interval w)) \<le> usecs t"
  shows "\<nexists>r'. addTimerTaskEntry e r = Inr r'"
proof
  assume "\<exists>r'. addTimerTaskEntry e r = Inr r'"
  then obtain a r1 where a: "wheel_add wheel_fuel 0 e r = Inr (a, r1)" "a \<noteq> None"
    by (auto simp: addTimerTaskEntry_def split: option.splits)
  have "(64 :: nat) = Suc 63" by simp
  then have "wheel_add (Suc 63) 0 e r = Inr (a, r1)" using a(1) by simp
  then show False using a(2) pending_facts [OF p] w t
    by (simp add: wheel_add.simps(2) time_less_def not_less [symmetric] del: Suc_numeral split: if_splits)
qed

lemma overflow_has_no_result_witness:
  "\<nexists>r'. addTimerTaskEntry 2 (sample_timer None None 0 (sec 14)) = Inr r'"
  by (rule overflow_has_no_result [OF sample_facts(3,2)])
    (simp_all add: wheel_ok_times [OF sample_facts(1)] sample_facts)

text \<open>The entries of a ring that have not been cancelled, and those of them that a flush of \<open>b\<close> can
  handle: due and filed in \<open>b\<close>, or to be put back.\<close>

definition waiting_in :: "timer \<Rightarrow> nat \<Rightarrow> bool" where
  "waiting_in r e \<longleftrightarrow> (\<exists>t c. pending r e t \<and> bucket_of r e = Some c)"

definition later_in :: "wheel \<Rightarrow> timer \<Rightarrow> nat \<Rightarrow> bool" where
  "later_in w r e \<longleftrightarrow> (\<exists>t. pending r e t \<and> usecs (wh_currentTime w) + usecs (wh_tickMs w) \<le> usecs t \<and>
     usecs t < usecs (wh_currentTime w) + usecs (wh_interval w))"

lemma due_or_not: "pending r e t \<Longrightarrow>
    due_in w r e \<longleftrightarrow> usecs t < usecs (time_plus (wh_currentTime w) (wh_tickMs w))"
  by (auto simp: due_in_def pending_def)

lemma later_in_same: "info r' = info r \<Longrightarrow> r_tasks r' = r_tasks r \<Longrightarrow> later_in (filed w t) r' e = later_in w r e"
  "info r' = info r \<Longrightarrow> r_tasks r' = r_tasks r \<Longrightarrow> due_in (filed w t) r' e = due_in w r e"
  by (simp_all add: later_in_def due_in_def pending_def)

lemma flush_loop_no_end:
  assumes "get_wheel r 0 = Inr w" "wheel_ok w" "links r (wh_root w) xs" "\<forall>e \<in> set xs. waiting_in r e"
    "\<exists>e \<in> set xs. \<not> due_in w r e"
  shows "(\<nexists>r'. flush_loop n b (wh_root w) r = Inr r') \<and>
    ((\<forall>e \<in> set xs. due_in w r e \<and> bucket_of r e = Some b \<or> later_in w r e) \<longrightarrow>
      flush_loop n b (wh_root w) r = Inl Diverges)"
  using assms
proof (induction n arbitrary: r w xs)
  case (Suc n)
  obtain e es where xs: "xs = e # es" using Suc.prems(5) by (cases xs) auto
  note l = Suc.prems(3) [unfolded xs]
  have new: "e \<notin> set es" using l by (simp add: ring_def)
  obtain t c where p: "pending r e t" and c: "bucket_of r e = Some c"
    using Suc.prems(4) by (auto simp: xs waiting_in_def)
  note times = wheel_ok_times [OF Suc.prems(2)]
  have h: "nx r (wh_root w) = Some e" "e \<noteq> wh_root w" using l by (auto simp: ring_def)
  consider (due) "due_in w r e" "c = b" | (gone) "due_in w r e" "c \<noteq> b" | (later) "\<not> due_in w r e" "later_in w r e"
    | (beyond) "\<not> due_in w r e" "\<not> later_in w r e" by blast
  then show ?case
  proof cases
    case due
    obtain r2 where r2: "\<And>m. flush_loop (Suc m) b (wh_root w) r = flush_loop m b (wh_root w) r2"
      "links r2 (wh_root w) es" "bucket_of r2 = (bucket_of r)(e := None)" "r_wheels r2 = r_wheels r"
      "\<And>a t. a \<noteq> e \<Longrightarrow> pending r a t \<Longrightarrow> pending r2 a t"
      using round_due [OF l c [unfolded due(2)] due(1) Suc.prems(1)] by blast
    have same: "waiting_in r2 a \<and> bucket_of r2 a = bucket_of r a \<and> (due_in w r2 a \<longleftrightarrow> due_in w r a) \<and>
        (later_in w r a \<longrightarrow> later_in w r2 a)" if "a \<in> set es" for a
    proof -
      have a: "a \<noteq> e" using that new by auto
      have "waiting_in r a" using Suc.prems(4) that by (simp add: xs)
      then obtain u d where u: "pending r a u" "bucket_of r a = Some d" unfolding waiting_in_def by blast
      then show ?thesis using r2(3) r2(5) [OF a] due_or_not [OF u(1)] due_or_not [OF r2(5) [OF a u(1)]] a
        by (auto simp: waiting_in_def later_in_def)
    qed
    have "get_wheel r2 0 = Inr w" using Suc.prems(1) r2(4) by (simp add: get_wheel_def)
    from Suc.IH [OF this Suc.prems(2) r2(2)] show ?thesis
      using same Suc.prems(5) due(1) by (auto simp: xs r2(1))
  next
    case gone
    then have "flush_loop (Suc n) b (wh_root w) r = Inl (if n = 0 then Diverges else NullDeref)"
      using round_deleted [OF Suc.prems(1) l c gone(1,2)] run_due [OF Suc.prems(1) gone(1)]
        flush_head [OF h, of 0 b] tl_remove_other [OF c gone(2)] by (cases n) auto
    moreover have "\<not> later_in w r e" using gone(1) p due_or_not [OF p] times
      by (auto simp: later_in_def pending_def)
    ultimately show ?thesis using gone(2) c by (auto simp: xs)
  next
    case later
    then obtain u where u: "pending r e u" "usecs (wh_currentTime w) + usecs (wh_tickMs w) \<le> usecs u"
      "usecs u < usecs (wh_currentTime w) + usecs (wh_interval w)" by (auto simp: later_in_def)
    obtain r2 where r2: "\<And>m. flush_loop (Suc m) b (wh_root w) r = flush_loop m b (wh_root w) r2"
      "links r2 (wh_root w) (es @ [e])" "bucket_of r2 e = Some (0, slot w u)"
      "\<And>a. a \<noteq> e \<Longrightarrow> bucket_of r2 a = bucket_of r a" "info r2 = info r" "r_tasks r2 = r_tasks r"
      "get_wheel r2 0 = Inr (filed w u)"
      using round_later [OF Suc.prems(1,2) l c u] by blast
    note eqs = later_in_same [OF r2(5,6)]
    have all: "\<forall>a \<in> set (es @ [e]). waiting_in r2 a"
    proof
      fix a assume "a \<in> set (es @ [e])"
      then have "waiting_in r a" using Suc.prems(4) by (auto simp: xs)
      then show "waiting_in r2 a" using r2(3,4) pending_same [OF r2(5,6)]
        by (cases "a = e") (auto simp: waiting_in_def)
    qed
    have late: "\<exists>a \<in> set (es @ [e]). \<not> due_in (filed w u) r2 a" using later(1) eqs(2) by auto
    have "links r2 (wh_root (filed w u)) (es @ [e])" using r2(2) by simp
    note ih = Suc.IH [OF r2(7) wheel_ok_filed [OF Suc.prems(2)] this all late]
    have "\<forall>a \<in> set (es @ [e]). due_in (filed w u) r2 a \<and> bucket_of r2 a = Some b \<or> later_in (filed w u) r2 a"
      if "\<forall>a \<in> set xs. due_in w r a \<and> bucket_of r a = Some b \<or> later_in w r a"
    proof
      fix a assume "a \<in> set (es @ [e])"
      then show "due_in (filed w u) r2 a \<and> bucket_of r2 a = Some b \<or> later_in (filed w u) r2 a"
        using that later(2) r2(4) [of a] by (cases "a = e") (auto simp: xs eqs)
    qed
    then show ?thesis using ih by (simp add: r2(1))
  next
    case beyond
    obtain r1 where r1: "tl_remove b e r = Inr r1" "same_rest r r1" using head_unlinked [OF l c] by blast
    have p1: "pending r1 e t" using p r1(2) pending_same [of r1 r e t] by (simp add: same_rest_def)
    have w1: "get_wheel r1 0 = Inr w" using Suc.prems(1) r1(2) by (simp add: get_wheel_def same_rest_def)
    have "\<nexists>r'. addTimerTaskEntry e r1 = Inr r'"
    proof (rule overflow_has_no_result [OF p1 w1])
      show "usecs (time_plus (wh_currentTime w) (wh_tickMs w)) \<le> usecs t"
        using beyond(1) due_or_not [OF p] by (simp add: not_less)
      then show "usecs (time_plus (wh_currentTime w) (wh_interval w)) \<le> usecs t"
        using beyond(2) p times by (auto simp: later_in_def not_less)
    qed
    then show ?thesis using flush_head [OF h, of n b] r1(1) beyond by (auto simp: xs)
  qed
qed simp

text \<open>C30. While an entry of the first wheel is not due, a flush of a bucket of that wheel does not
  come to an end with a result: every bucket has the same root, so the loop meets the entry in
  whichever bucket it is filed. When all entries of the ring are due and filed in the flushed bucket or
  within the interval of the wheel, the flush runs for ever, because the entry is put back at the end
  of its ring and met again and again; with a due entry of another bucket or one beyond the interval it
  stops as \<open>flush_uses_deleted\<close> and \<open>overflow_has_no_result\<close> say. The entries are assumed to be in a list
  and not cancelled.\<close>

theorem flush_never_ends:
  assumes "get_wheel r 0 = Inr w" "wheel_ok w" "links r (wh_root w) xs" "\<forall>e \<in> set xs. waiting_in r e"
    "\<exists>e \<in> set xs. \<not> due_in w r e"
  shows "(\<nexists>r'. flush n (0, i) r = Inr r') \<and>
    ((\<forall>e \<in> set xs. due_in w r e \<and> bucket_of r e = Some (0, i) \<or> later_in w r e) \<longrightarrow>
      flush n (0, i) r = Inl Diverges)"
  using flush_loop_no_end [OF assms, of n "(0, i)"] assms(1) by (auto simp: flush_def)

theorem flush_never_ends_witness: "flush 1000000 (0, 3) (sample_timer (Some (0, 0)) (Some 0) 2 (sec 12)) = Inl Diverges"
proof -
  let ?r = "sample_timer (Some (0, 0)) (Some 0) 2 (sec 12)"
  note p = sample_facts(3) [of "Some (0, 0)" "Some 0" 2 "sec 12"]
  have "\<not> due_in sample_wheel ?r 2" "later_in sample_wheel ?r 2" "waiting_in ?r 2"
    using p sample_links(3) [of "(0, 0)" "sec 12"]
    by (auto simp: due_or_not [OF p] wheel_ok_times [OF sample_facts(1)] sample_facts later_in_def waiting_in_def
        intro!: exI [of _ "sec 12"])
  then show ?thesis
    using flush_never_ends [of ?r sample_wheel "[2]" 1000000 3]
    by (simp add: sample_facts sample_links)
qed

end
