(* ===== verification/Poller.thy ===== *)
theory Poller
  imports Prelude
begin

text \<open>
  \<^verbatim>\<open>Channel\<close> and \<^verbatim>\<open>base/EpollPoller\<close>: the registration of descriptors with the kernel. A channel
  is an address in a store; \<open>channels_\<close> of the poller maps descriptors to addresses. The calls of
  \<^verbatim>\<open>epoll_ctl\<close> are recorded in order, since the code looks at none of their results.
\<close>

subsection \<open>Channels\<close>

abbreviation (input) POLLIN :: int where "POLLIN \<equiv> 1"
abbreviation (input) POLLPRI :: int where "POLLPRI \<equiv> 2"
abbreviation (input) POLLOUT :: int where "POLLOUT \<equiv> 4"
abbreviation (input) POLLERR :: int where "POLLERR \<equiv> 8"
abbreviation (input) POLLHUP :: int where "POLLHUP \<equiv> 16"
abbreviation (input) POLLNVAL :: int where "POLLNVAL \<equiv> 32"
abbreviation (input) POLLRDHUP :: int where "POLLRDHUP \<equiv> 8192"

abbreviation (input) kNoneEvent :: int where "kNoneEvent \<equiv> 0"
abbreviation (input) kReadEvent :: int where "kReadEvent \<equiv> POLLIN OR POLLPRI"
abbreviation (input) kWriteEvent :: int where "kWriteEvent \<equiv> POLLOUT"

record channel =
  c_loop :: nat
  c_fd :: int
  c_events :: int
  c_revents :: int
  c_index :: int
  c_addedToLoop :: bool
  c_tied :: bool

definition Channel :: "nat \<Rightarrow> int \<Rightarrow> channel" where
  "Channel loop fd = \<lparr>c_loop = loop, c_fd = fd, c_events = 0, c_revents = 0, c_index = - 1,
     c_addedToLoop = False, c_tied = False\<rparr>"

definition isNoneEvent :: "channel \<Rightarrow> bool" where "isNoneEvent c \<longleftrightarrow> c_events c = kNoneEvent"

definition isWriting :: "channel \<Rightarrow> bool" where "isWriting c \<longleftrightarrow> c_events c AND kWriteEvent \<noteq> 0"

definition isReading :: "channel \<Rightarrow> bool" where "isReading c \<longleftrightarrow> c_events c AND kReadEvent \<noteq> 0"

definition tie :: "channel \<Rightarrow> channel" where "tie c = c\<lparr>c_tied := True\<rparr>"

definition setRevents :: "int \<Rightarrow> channel \<Rightarrow> channel" where "setRevents revt c = c\<lparr>c_revents := revt\<rparr>"

definition setIndex :: "int \<Rightarrow> channel \<Rightarrow> channel" where "setIndex i c = c\<lparr>c_index := i\<rparr>"

text \<open>The callbacks of a channel act on a state; one that is not set is skipped.\<close>

record 's callbacks =
  cb_read :: "('s \<Rightarrow> 's res) option"
  cb_write :: "('s \<Rightarrow> 's res) option"
  cb_close :: "('s \<Rightarrow> 's res) option"
  cb_error :: "('s \<Rightarrow> 's res) option"

definition call_if :: "bool \<Rightarrow> ('s \<Rightarrow> 's res) option \<Rightarrow> 's \<Rightarrow> 's res" where
  "call_if b cb s = (if b then (case cb of None \<Rightarrow> Inr s | Some f \<Rightarrow> f s) else Inr s)"

definition handleEventWithGuard :: "int \<Rightarrow> 's callbacks \<Rightarrow> 's \<Rightarrow> 's res" where
  "handleEventWithGuard revents cbs s =
     rbind (call_if (revents AND POLLHUP \<noteq> 0 \<and> revents AND POLLIN = 0) (cb_close cbs) s) (\<lambda>s1.
     rbind (call_if (revents AND (POLLERR OR POLLNVAL) \<noteq> 0) (cb_error cbs) s1) (\<lambda>s2.
     rbind (call_if (revents AND (POLLIN OR POLLPRI OR POLLRDHUP) \<noteq> 0) (cb_read cbs) s2) (\<lambda>s3.
     call_if (revents AND POLLOUT \<noteq> 0) (cb_write cbs) s3)))"

text \<open>A tied channel runs its callbacks only while the object it is tied to lives.\<close>

definition handleEvent :: "bool \<Rightarrow> channel \<Rightarrow> 's callbacks \<Rightarrow> 's \<Rightarrow> 's res" where
  "handleEvent alive c cbs s =
     (if c_tied c then (if alive then handleEventWithGuard (c_revents c) cbs s else Inr s)
      else handleEventWithGuard (c_revents c) cbs s)"

subsection \<open>The poller\<close>

datatype ctl_op = CtlAdd | CtlMod | CtlDel

text \<open>A call of \<^verbatim>\<open>epoll_ctl\<close>: operation, descriptor, events and \<^verbatim>\<open>data.ptr\<close>.\<close>

type_synonym ctl_call = "ctl_op \<times> int \<times> int \<times> nat"

record poller =
  ep_channels :: "int \<rightharpoonup> nat"
  ep_events :: nat
  ep_calls :: "ctl_call list"

abbreviation (input) kNew :: int where "kNew \<equiv> - 1"
abbreviation (input) kAdded :: int where "kAdded \<equiv> 1"
abbreviation (input) kDeleted :: int where "kDeleted \<equiv> 2"

abbreviation (input) kInitEventListSize :: nat where "kInitEventListSize \<equiv> 16"

definition EpollPoller :: "int \<Rightarrow> poller res" where
  "EpollPoller epollfd = (if epollfd < 0 then Inl ProcessExit
     else Inr \<lparr>ep_channels = Map.empty, ep_events = kInitEventListSize, ep_calls = []\<rparr>)"

definition assertInLoopThread :: "bool \<Rightarrow> 'a res \<Rightarrow> 'a res" where
  "assertInLoopThread inThread r = (if inThread then r else Inl ProcessExit)"

definition ep_update :: "ctl_op \<Rightarrow> nat \<Rightarrow> channel \<Rightarrow> poller \<Rightarrow> poller" where
  "ep_update operation a c p = p\<lparr>ep_calls := ep_calls p @ [(operation, c_fd c, c_events c, a)]\<rparr>"

definition ep_updateChannel ::
  "bool \<Rightarrow> nat \<Rightarrow> (nat \<rightharpoonup> channel) \<Rightarrow> poller \<Rightarrow> ((nat \<rightharpoonup> channel) \<times> poller) res" where
  "ep_updateChannel inThread a cs p = assertInLoopThread inThread
     (rbind (deref cs (Some a)) (\<lambda>c.
      if c_index c = kNew \<or> c_index c = kDeleted then
        rbind (if c_index c = kNew
               then assert_that (ep_channels p (c_fd c) = None)
                      (Inr (p\<lparr>ep_channels := (ep_channels p)(c_fd c \<mapsto> a)\<rparr>))
               else assert_that (ep_channels p (c_fd c) = Some a) (Inr p)) (\<lambda>p1.
        let c1 = setIndex kAdded c in
        Inr (cs(a \<mapsto> c1), ep_update CtlAdd a c1 p1))
      else
        assert_that (ep_channels p (c_fd c) = Some a \<and> c_index c = kAdded)
        (if isNoneEvent c
         then Inr (cs(a \<mapsto> setIndex kDeleted c), ep_update CtlDel a c p)
         else Inr (cs, ep_update CtlMod a c p))))"

definition ep_removeChannel ::
  "bool \<Rightarrow> nat \<Rightarrow> (nat \<rightharpoonup> channel) \<Rightarrow> poller \<Rightarrow> ((nat \<rightharpoonup> channel) \<times> poller) res" where
  "ep_removeChannel inThread a cs p = assertInLoopThread inThread
     (rbind (deref cs (Some a)) (\<lambda>c.
      assert_that (ep_channels p (c_fd c) = Some a)
      (let p1 = p\<lparr>ep_channels := (ep_channels p)(c_fd c := None)\<rparr> in
       assert_that (isNoneEvent c \<and> (c_index c = kAdded \<or> c_index c = kDeleted))
       (Inr (cs(a \<mapsto> setIndex kNew c), if c_index c = kAdded then ep_update CtlDel a c p1 else p1)))))"

text \<open>What \<^verbatim>\<open>epoll_wait\<close> reports: the events of a descriptor and the pointer registered with it.\<close>

type_synonym ready = "(int \<times> nat) list"

fun fill_loop :: "ready \<Rightarrow> (nat \<rightharpoonup> channel) \<Rightarrow> poller \<Rightarrow> nat list \<Rightarrow> ((nat \<rightharpoonup> channel) \<times> nat list) res" where
  "fill_loop [] cs p active = Inr (cs, active)"
| "fill_loop ((ev, a) # rs) cs p active =
     rbind (deref cs (Some a)) (\<lambda>c.
     assert_that (ep_channels p (c_fd c) = Some a)
     (fill_loop rs (cs(a \<mapsto> setRevents ev c)) p (active @ [a])))"

definition fillActiveChannels ::
  "ready \<Rightarrow> (nat \<rightharpoonup> channel) \<Rightarrow> poller \<Rightarrow> nat list \<Rightarrow> ((nat \<rightharpoonup> channel) \<times> nat list) res" where
  "fillActiveChannels rs cs p active = assert_that (length rs \<le> ep_events p) (fill_loop rs cs p active)"

abbreviation (input) EINTR :: int where "EINTR \<equiv> 4"

text \<open>\<^verbatim>\<open>poll\<close>, given an error number or the events \<^verbatim>\<open>epoll_wait\<close> found; it may give as many as
  the array holds, and a full array is doubled.\<close>

definition ep_poll ::
  "int + ready \<Rightarrow> (nat \<rightharpoonup> channel) \<Rightarrow> poller \<Rightarrow> nat list \<Rightarrow> ((nat \<rightharpoonup> channel) \<times> poller \<times> nat list) res" where
  "ep_poll result cs p active = (case result of
      Inl errno \<Rightarrow> if errno \<noteq> EINTR then Inl ProcessExit else Inr (cs, p, active)
    | Inr rs \<Rightarrow>
        if rs = [] then Inr (cs, p, active)
        else rbind (fillActiveChannels rs cs p active) (\<lambda>(cs', active').
          Inr (cs', if length rs = ep_events p then p\<lparr>ep_events := ep_events p * 2\<rparr> else p, active')))"

end
