(* ===== verification/EventLoop.thy ===== *)
theory EventLoop
  imports Poller TimingWheel
begin

text \<open>
  \<^verbatim>\<open>EventLoop\<close>. The functors it queues have a type of their own: a functor is a value, and an
  argument \<open>run\<close> says what calling it does to the state of the program, of which the loop is a part.
  The queue is the abstract one of the theory on \<^verbatim>\<open>MpscQueue\<close>. \<open>l_inThread\<close> says whether the code
  runs on the thread of the loop; the timer's threads and other loops do not.
\<close>

record 'f ev_loop =
  l_id :: nat
  l_inThread :: bool
  l_looping :: bool
  l_callingPending :: "bool option"
  l_quit :: bool
  l_poller :: poller
  l_active :: "nat list"
  l_current :: "nat option"
  l_eventHandling :: bool
  l_funcs :: "'f list"
  l_timer :: timer
  l_eventfd :: nat
  l_wakeupChannel :: nat
  l_channels :: "nat \<rightharpoonup> channel"

subsection \<open>Channels of the loop\<close>

definition updateChannel :: "nat \<Rightarrow> ('f, 'z) ev_loop_scheme \<Rightarrow> ('f, 'z) ev_loop_scheme res" where
  "updateChannel a s =
     rbind (deref (l_channels s) (Some a)) (\<lambda>c.
     assert_that (c_loop c = l_id s)
     (assertInLoopThread (l_inThread s)
      (rbind (ep_updateChannel (l_inThread s) a (l_channels s) (l_poller s)) (\<lambda>(cs, p).
       Inr (s\<lparr>l_channels := cs, l_poller := p\<rparr>)))))"

definition removeChannel :: "nat \<Rightarrow> ('f, 'z) ev_loop_scheme \<Rightarrow> ('f, 'z) ev_loop_scheme res" where
  "removeChannel a s =
     rbind (deref (l_channels s) (Some a)) (\<lambda>c.
     assert_that (c_loop c = l_id s)
     (assertInLoopThread (l_inThread s)
      (assert_that (l_eventHandling s \<longrightarrow> l_current s = Some a \<or> a \<notin> set (l_active s))
       (rbind (ep_removeChannel (l_inThread s) a (l_channels s) (l_poller s)) (\<lambda>(cs, p).
        Inr (s\<lparr>l_channels := cs, l_poller := p\<rparr>))))))"

text \<open>\<^verbatim>\<open>events_ = f(events_); update();\<close>\<close>

definition set_events :: "(int \<Rightarrow> int) \<Rightarrow> nat \<Rightarrow> ('f, 'z) ev_loop_scheme \<Rightarrow> ('f, 'z) ev_loop_scheme res" where
  "set_events f a s =
     rbind (store_upd (l_channels s) (Some a) (\<lambda>c. c\<lparr>c_events := f (c_events c)\<rparr>)) (\<lambda>cs.
     updateChannel a (s\<lparr>l_channels := cs\<rparr>))"

definition disableAll :: "nat \<Rightarrow> ('f, 'z) ev_loop_scheme \<Rightarrow> ('f, 'z) ev_loop_scheme res" where
  "disableAll = set_events (\<lambda>e. kNoneEvent)"

definition enableReading :: "nat \<Rightarrow> ('f, 'z) ev_loop_scheme \<Rightarrow> ('f, 'z) ev_loop_scheme res" where
  "enableReading = set_events (\<lambda>e. e OR kReadEvent)"

definition disableReading :: "nat \<Rightarrow> ('f, 'z) ev_loop_scheme \<Rightarrow> ('f, 'z) ev_loop_scheme res" where
  "disableReading = set_events (\<lambda>e. e AND NOT kReadEvent)"

definition enableWriting :: "nat \<Rightarrow> ('f, 'z) ev_loop_scheme \<Rightarrow> ('f, 'z) ev_loop_scheme res" where
  "enableWriting = set_events (\<lambda>e. e OR kWriteEvent)"

definition disableWriting :: "nat \<Rightarrow> ('f, 'z) ev_loop_scheme \<Rightarrow> ('f, 'z) ev_loop_scheme res" where
  "disableWriting = set_events (\<lambda>e. e AND NOT kWriteEvent)"

definition updateEvents :: "int \<Rightarrow> nat \<Rightarrow> ('f, 'z) ev_loop_scheme \<Rightarrow> ('f, 'z) ev_loop_scheme res" where
  "updateEvents events = set_events (\<lambda>e. events)"

definition channel_remove :: "nat \<Rightarrow> ('f, 'z) ev_loop_scheme \<Rightarrow> ('f, 'z) ev_loop_scheme res" where
  "channel_remove a s =
     rbind (deref (l_channels s) (Some a)) (\<lambda>c.
     assert_that (c_events c = kNoneEvent)
     (removeChannel a (s\<lparr>l_channels := (l_channels s)(a \<mapsto> c\<lparr>c_addedToLoop := False\<rparr>)\<rparr>)))"

subsection \<open>Functors\<close>

definition wakeup :: "('f, 'z) ev_loop_scheme \<Rightarrow> ('f, 'z) ev_loop_scheme" where
  "wakeup s = s\<lparr>l_eventfd := l_eventfd s + 1\<rparr>"

text \<open>The channel of the event descriptor is ready to read: the read resets the counter.\<close>

definition loop_handleRead :: "('f, 'z) ev_loop_scheme \<Rightarrow> ('f, 'z) ev_loop_scheme res" where
  "loop_handleRead s = Inr (s\<lparr>l_eventfd := 0\<rparr>)"

definition queueInLoop :: "'f \<Rightarrow> ('f, 'z) ev_loop_scheme \<Rightarrow> ('f, 'z) ev_loop_scheme res" where
  "queueInLoop cb s =
     (let s1 = s\<lparr>l_funcs := l_funcs s @ [cb]\<rparr> in
      if \<not> l_inThread s then Inr (wakeup s1)
      else (case l_callingPending s of
              None \<Rightarrow> Inl Uninitialised
            | Some calling \<Rightarrow> Inr (if \<not> calling then wakeup s1 else s1)))"

definition runInLoop ::
  "('f \<Rightarrow> ('f, 'z) ev_loop_scheme \<Rightarrow> ('f, 'z) ev_loop_scheme res) \<Rightarrow> 'f \<Rightarrow>
   ('f, 'z) ev_loop_scheme \<Rightarrow> ('f, 'z) ev_loop_scheme res" where
  "runInLoop run cb s = (if l_inThread s then run cb s else queueInLoop cb s)"

text \<open>The two nested loops of \<^verbatim>\<open>doPendingFuncs\<close> take functors until there are none.\<close>

primrec pending_loop ::
  "nat \<Rightarrow> ('f \<Rightarrow> ('f, 'z) ev_loop_scheme \<Rightarrow> ('f, 'z) ev_loop_scheme res) \<Rightarrow>
   ('f, 'z) ev_loop_scheme \<Rightarrow> ('f, 'z) ev_loop_scheme res" where
  "pending_loop 0 run s = Inl Diverges"
| "pending_loop (Suc n) run s = (case l_funcs s of
      [] \<Rightarrow> Inr s
    | f # fs \<Rightarrow> rbind (run f (s\<lparr>l_funcs := fs\<rparr>)) (pending_loop n run))"

definition doPendingFuncs ::
  "nat \<Rightarrow> ('f \<Rightarrow> ('f, 'z) ev_loop_scheme \<Rightarrow> ('f, 'z) ev_loop_scheme res) \<Rightarrow>
   ('f, 'z) ev_loop_scheme \<Rightarrow> ('f, 'z) ev_loop_scheme res" where
  "doPendingFuncs n run s =
     rbind (pending_loop n run (s\<lparr>l_callingPending := Some True\<rparr>)) (\<lambda>s1.
     Inr (s1\<lparr>l_callingPending := Some False\<rparr>))"

subsection \<open>The loop\<close>

fun handle_active ::
  "(nat \<Rightarrow> ('f, 'z) ev_loop_scheme \<Rightarrow> ('f, 'z) ev_loop_scheme res) \<Rightarrow> nat list \<Rightarrow>
   ('f, 'z) ev_loop_scheme \<Rightarrow> ('f, 'z) ev_loop_scheme res" where
  "handle_active handle [] s = Inr s"
| "handle_active handle (a # rest) s =
     rbind (handle a (s\<lparr>l_current := Some a\<rparr>)) (handle_active handle rest)"

text \<open>One round, given what \<^verbatim>\<open>epoll_wait\<close> returns, the handler of a channel's events and the fuel
  for the pending functors.\<close>

definition loop_round ::
  "nat \<Rightarrow> ('f \<Rightarrow> ('f, 'z) ev_loop_scheme \<Rightarrow> ('f, 'z) ev_loop_scheme res) \<Rightarrow>
   (nat \<Rightarrow> ('f, 'z) ev_loop_scheme \<Rightarrow> ('f, 'z) ev_loop_scheme res) \<Rightarrow> int + ready \<Rightarrow>
   ('f, 'z) ev_loop_scheme \<Rightarrow> ('f, 'z) ev_loop_scheme res" where
  "loop_round n run handle result s =
     rbind (ep_poll result (l_channels s) (l_poller s) []) (\<lambda>(cs, p, active).
     rbind (handle_active handle active
        (s\<lparr>l_channels := cs, l_poller := p, l_active := active, l_eventHandling := True\<rparr>)) (\<lambda>s1.
     doPendingFuncs n run (s1\<lparr>l_current := None, l_eventHandling := False\<rparr>)))"

text \<open>The rounds until \<^verbatim>\<open>quit_\<close> is set, for a list of what the calls of \<^verbatim>\<open>epoll_wait\<close> return.\<close>

primrec loop_rounds ::
  "nat \<Rightarrow> ('f \<Rightarrow> ('f, 'z) ev_loop_scheme \<Rightarrow> ('f, 'z) ev_loop_scheme res) \<Rightarrow>
   (nat \<Rightarrow> ('f, 'z) ev_loop_scheme \<Rightarrow> ('f, 'z) ev_loop_scheme res) \<Rightarrow> (int + ready) list \<Rightarrow>
   ('f, 'z) ev_loop_scheme \<Rightarrow> ('f, 'z) ev_loop_scheme res" where
  "loop_rounds n run handle [] s = (if \<not> l_quit s then Inl Diverges else Inr s)"
| "loop_rounds n run handle (r # rs) s =
     (if \<not> l_quit s then rbind (loop_round n run handle r s) (loop_rounds n run handle rs) else Inr s)"

definition loop ::
  "nat \<Rightarrow> ('f \<Rightarrow> ('f, 'z) ev_loop_scheme \<Rightarrow> ('f, 'z) ev_loop_scheme res) \<Rightarrow>
   (nat \<Rightarrow> ('f, 'z) ev_loop_scheme \<Rightarrow> ('f, 'z) ev_loop_scheme res) \<Rightarrow> (int + ready) list \<Rightarrow>
   ('f, 'z) ev_loop_scheme \<Rightarrow> ('f, 'z) ev_loop_scheme res" where
  "loop n run handle rs s =
     assert_that (\<not> l_looping s)
     (assertInLoopThread (l_inThread s)
      (rbind (loop_rounds n run handle rs (s\<lparr>l_looping := True, l_quit := False\<rparr>)) (\<lambda>s1.
       Inr (s1\<lparr>l_looping := False\<rparr>))))"

definition quit :: "('f, 'z) ev_loop_scheme \<Rightarrow> ('f, 'z) ev_loop_scheme" where
  "quit s = (let s1 = s\<lparr>l_quit := True\<rparr> in if \<not> l_inThread s then wakeup s1 else s1)"

subsection \<open>Timers and the constructor\<close>

text \<open>The functors of the timer are numbers; the threads of the timer call them.\<close>

definition runAt :: "(tm \<Rightarrow> int) \<Rightarrow> timer_expiration \<Rightarrow> nat \<Rightarrow> ('f, 'z) ev_loop_scheme \<Rightarrow> ('f, 'z) ev_loop_scheme res" where
  "runAt mktime time cb s = rbind (addByExpiration mktime time cb (l_timer s)) (\<lambda>r. Inr (s\<lparr>l_timer := r\<rparr>))"

definition runAfter :: "time_entry \<Rightarrow> time_entry \<Rightarrow> nat \<Rightarrow> ('f, 'z) ev_loop_scheme \<Rightarrow> ('f, 'z) ev_loop_scheme res" where
  "runAfter now delay cb s = rbind (addByDelay now delay cb (l_timer s)) (\<lambda>r. Inr (s\<lparr>l_timer := r\<rparr>))"

definition createEventfd :: "int \<Rightarrow> int res" where
  "createEventfd evtfd = (if evtfd < 0 then Inl AssertFailed else Inr evtfd)"

text \<open>The descriptors the kernel gives, the time, the timer of the process and the loop of the
  thread, if there are. \<^verbatim>\<open>callingPendingFuncs_\<close> is not initialised.\<close>

definition EventLoop ::
  "nat \<Rightarrow> int \<Rightarrow> int \<Rightarrow> time_entry \<Rightarrow> timer option \<Rightarrow> 'f ev_loop option \<Rightarrow> 'f ev_loop res" where
  "EventLoop this epollfd evtfd now defaultTimer loopInThisThread =
     rbind (EpollPoller epollfd) (\<lambda>p.
     rbind (newTimer now \<lparr>tv_sec = 0, tv_usec = 200000\<rparr> 20 2 4 defaultTimer) (\<lambda>t.
     rbind (createEventfd evtfd) (\<lambda>fd.
     if loopInThisThread \<noteq> None then Inl ProcessExit
     else enableReading 0
       \<lparr>l_id = this, l_inThread = True, l_looping = False, l_callingPending = None, l_quit = False,
        l_poller = p, l_active = [], l_current = None, l_eventHandling = False, l_funcs = [],
        l_timer = t, l_eventfd = 0, l_wakeupChannel = 0, l_channels = [0 \<mapsto> Channel this fd]\<rparr>)))"

end
