(* ===== verification/Http.thy ===== *)
theory Http
  imports Allocator "HOL-Library.Char_ord" "HOL-Library.List_Lexorder"
begin

text \<open>
  The HTTP layer on top of a buffer: \<^verbatim>\<open>http/HttpRequest\<close>, the incremental parser
  \<^verbatim>\<open>http/HttpContext\<close> and \<^verbatim>\<open>http/HttpResponse\<close>. A \<^verbatim>\<open>std::string\<close> is a list of
  characters; a \<^verbatim>\<open>std::map\<close> with string keys is an association list in the order in which an
  iteration visits it. A range of characters \<^verbatim>\<open>[start, end)\<close> of the buffer is the list of the
  characters it holds.
\<close>

subsection \<open>Ordered maps\<close>

text \<open>\<^verbatim>\<open>m[key] = value\<close>. \<^verbatim>\<open>std::less\<close> on strings compares the characters as unsigned bytes,
  which is the lexicographic order of the library.\<close>

fun map_assign :: "'k::linorder \<Rightarrow> 'v \<Rightarrow> ('k \<times> 'v) list \<Rightarrow> ('k \<times> 'v) list" where
  "map_assign k v [] = [(k, v)]"
| "map_assign k v ((k', v') # m) =
     (if k = k' then (k, v) # m else if k < k' then (k, v) # (k', v') # m else (k', v') # map_assign k v m)"

lemma map_of_assign [simp]: "map_of (map_assign k v m) = (map_of m)(k \<mapsto> v)"
  by (induction k v m rule: map_assign.induct) auto

lemma keys_assign [simp]: "fst ` set (map_assign k v m) = insert k (fst ` set m)"
  by (induction k v m rule: map_assign.induct) auto

lemma sorted_assign: "sorted_wrt (<) (map fst m) \<Longrightarrow> sorted_wrt (<) (map fst (map_assign k v m))"
proof (induction k v m rule: map_assign.induct)
  case (2 k v k' v' m)
  have "k' < x" if "x \<in> fst ` set (map_assign k v m)" "\<not> k < k'" "k \<noteq> k'" for x
    using that 2(2) by (auto simp: neq_iff)
  then show ?case using 2 by (auto intro: less_trans)
qed simp

lemma assign_last:
  assumes "\<And>x. x \<in> fst ` set m \<Longrightarrow> x < k"
  shows "map_assign k v m = m @ [(k, v)]"
  using assms
proof (induction m)
  case (Cons p m)
  then have "fst p < k" "map_assign k v m = m @ [(k, v)]" by simp_all
  then show ?case by (cases p) (auto dest: less_not_sym)
qed simp

subsection \<open>The request\<close>

datatype http_method = kInvalid | kGet | kPost | kHead | kPut | kDelete

datatype http_version = kUnknown | kHttp10 | kHttp11

record http_request =
  q_method :: http_method
  q_version :: http_version
  q_path :: string
  q_query :: string
  q_headers :: "(string \<times> string) list"

definition HttpRequest :: http_request where
  "HttpRequest = \<lparr>q_method = kInvalid, q_version = kUnknown, q_path = [], q_query = [], q_headers = []\<rparr>"

definition setVersion :: "http_version \<Rightarrow> http_request \<Rightarrow> http_request" where
  "setVersion v r = r\<lparr>q_version := v\<rparr>"

definition setMethod :: "string \<Rightarrow> http_request \<Rightarrow> (bool \<times> http_request) res" where
  "setMethod m r = assert_that (q_method r = kInvalid)
     (let meth = (if m = ''GET'' then kGet
                  else if m = ''POST'' then kPost
                  else if m = ''HEAD'' then kHead
                  else if m = ''PUT'' then kPut
                  else if m = ''DELETE'' then kDelete
                  else kInvalid) in
      Inr (meth \<noteq> kInvalid, r\<lparr>q_method := meth\<rparr>))"

definition methodString :: "http_request \<Rightarrow> string" where
  "methodString r = (case q_method r of
      kGet \<Rightarrow> ''GET'' | kPost \<Rightarrow> ''POST'' | kHead \<Rightarrow> ''HEAD'' | kPut \<Rightarrow> ''PUT'' | kDelete \<Rightarrow> ''DELETE''
    | kInvalid \<Rightarrow> ''UNKNOWN'')"

definition setPath :: "string \<Rightarrow> http_request \<Rightarrow> http_request" where
  "setPath s r = r\<lparr>q_path := s\<rparr>"

definition setQuery :: "string \<Rightarrow> http_request \<Rightarrow> http_request" where
  "setQuery s r = r\<lparr>q_query := s\<rparr>"

text \<open>\<^verbatim>\<open>isspace\<close> in the C locale.\<close>

definition isspace :: "char \<Rightarrow> bool" where
  "isspace c \<longleftrightarrow> c \<in> {CHR 0x20, CHR 0x09, CHR 0x0A, CHR 0x0B, CHR 0x0C, CHR 0x0D}"

text \<open>The loop that cuts white space off the end of the value.\<close>

fun trim_end :: "string \<Rightarrow> string" where
  "trim_end [] = []"
| "trim_end (x # xs) = (if isspace (last (x # xs)) then trim_end (butlast (x # xs)) else x # xs)"

text \<open>The line up to the colon and the line behind the colon.\<close>

definition addHeader :: "string \<Rightarrow> string \<Rightarrow> http_request \<Rightarrow> http_request" where
  "addHeader field behind r =
     r\<lparr>q_headers := map_assign field (trim_end (dropWhile isspace behind)) (q_headers r)\<rparr>"

definition getHeader :: "string \<Rightarrow> http_request \<Rightarrow> string" where
  "getHeader field r = (case map_of (q_headers r) field of None \<Rightarrow> [] | Some v \<Rightarrow> v)"

definition req_swap :: "http_request \<Rightarrow> http_request \<Rightarrow> http_request \<times> http_request" where
  "req_swap r that =
     (r\<lparr>q_method := q_method that, q_version := q_version that, q_path := q_path that,
        q_query := q_query that, q_headers := q_headers that\<rparr>,
      that\<lparr>q_method := q_method r, q_version := q_version r, q_path := q_path r,
        q_query := q_query r, q_headers := q_headers r\<rparr>)"

subsection \<open>The parser\<close>

datatype parse_state = kExpectRequestLine | kExpectHeaders | kExpectBody | kGotAll

record http_context =
  x_state :: parse_state
  x_request :: http_request

definition HttpContext :: http_context where
  "HttpContext = \<lparr>x_state = kExpectRequestLine, x_request = HttpRequest\<rparr>"

definition gotAll :: "http_context \<Rightarrow> bool" where "gotAll x \<longleftrightarrow> x_state x = kGotAll"

definition context_reset :: "http_context \<Rightarrow> http_context" where
  "context_reset x = x\<lparr>x_state := kExpectRequestLine, x_request := fst (req_swap (x_request x) HttpRequest)\<rparr>"

text \<open>\<^verbatim>\<open>std::find\<close> splits a range at the first occurrence of a character.\<close>

definition before :: "char \<Rightarrow> string \<Rightarrow> string" where "before c s = takeWhile (\<lambda>x. x \<noteq> c) s"

definition from_char :: "char \<Rightarrow> string \<Rightarrow> string" where "from_char c s = dropWhile (\<lambda>x. x \<noteq> c) s"

text \<open>The part of the line behind the method, for a method that is known.\<close>

definition processTarget :: "string \<Rightarrow> http_request \<Rightarrow> bool \<times> http_request" where
  "processTarget start r =
     (if from_char CHR '' '' start = [] then (False, r)
      else
        (let target = before CHR '' '' start;
             r2 = (if from_char CHR ''?'' target \<noteq> []
                   then setQuery (from_char CHR ''?'' target) (setPath (before CHR ''?'' target) r)
                   else setPath target r);
             version = tl (from_char CHR '' '' start) in
         if length version = 8 \<and> take 7 version = ''HTTP/1.''
         then (if last version = CHR ''1'' then (True, setVersion kHttp11 r2)
               else if last version = CHR ''0'' then (True, setVersion kHttp10 r2)
               else (False, r2))
         else (False, r2)))"

definition processRequestLine :: "string \<Rightarrow> http_request \<Rightarrow> (bool \<times> http_request) res" where
  "processRequestLine line r =
     (if from_char CHR '' '' line = [] then Inr (False, r)
      else rbind (setMethod (before CHR '' '' line) r) (\<lambda>(known, r1).
        Inr (if known then processTarget (tl (from_char CHR '' '' line)) r1 else (False, r1))))"

text \<open>One line of the buffer: the characters from \<^verbatim>\<open>peek()\<close> to \<open>crlf\<close>.\<close>

definition line_chars :: "pool \<Rightarrow> ptr \<Rightarrow> ptr \<Rightarrow> string res" where
  "line_chars w start crlf = read_mem w start (snd crlf - snd start)"

text \<open>\<^verbatim>\<open>parseRequest\<close>. A round that goes on takes a line of at least two bytes out of the buffer,
  so one round more than there are readable bytes is enough; in the states \<open>kExpectBody\<close> and
  \<open>kGotAll\<close> the loop has no exit and any fuel runs out.\<close>

primrec parse_loop ::
  "nat \<Rightarrow> pool \<Rightarrow> http_context \<Rightarrow> buffer \<Rightarrow> (bool \<times> http_context \<times> buffer) res" where
  "parse_loop 0 w x buf = Inl Diverges"
| "parse_loop (Suc n) w x buf =
     (case x_state x of
        kExpectRequestLine \<Rightarrow>
          rbind (findCRLF w buf) (\<lambda>found. case found of
              None \<Rightarrow> Inr (True, x, buf)
            | Some crlf \<Rightarrow>
                rbind (buffer_peek buf) (\<lambda>start.
                rbind (line_chars w start crlf) (\<lambda>line.
                rbind (processRequestLine line (x_request x)) (\<lambda>(ok, r).
                if ok
                then rbind (retrieveUntil (fst crlf, snd crlf + 2) buf) (\<lambda>buf'.
                     parse_loop n w (x\<lparr>x_request := r, x_state := kExpectHeaders\<rparr>) buf')
                else Inr (False, x\<lparr>x_request := r\<rparr>, buf)))))
      | kExpectHeaders \<Rightarrow>
          rbind (findCRLF w buf) (\<lambda>found. case found of
              None \<Rightarrow> Inr (True, x, buf)
            | Some crlf \<Rightarrow>
                rbind (buffer_peek buf) (\<lambda>start.
                rbind (line_chars w start crlf) (\<lambda>line.
                rbind (retrieveUntil (fst crlf, snd crlf + 2) buf) (\<lambda>buf'.
                if from_char CHR '':'' line \<noteq> []
                then parse_loop n w (x\<lparr>x_request := addHeader (before CHR '':'' line)
                       (tl (from_char CHR '':'' line)) (x_request x)\<rparr>) buf'
                else Inr (True, x\<lparr>x_state := kGotAll\<rparr>, buf')))))
      | _ \<Rightarrow> parse_loop n w x buf)"

definition parseRequest :: "pool \<Rightarrow> http_context \<Rightarrow> buffer \<Rightarrow> (bool \<times> http_context \<times> buffer) res" where
  "parseRequest w x buf =
     rbind (buffer_readableBytes buf) (\<lambda>n. parse_loop (Suc (nat n)) w x buf)"

subsection \<open>The response\<close>

datatype http_status = kUnknownStatus | k200Ok | k301MovedPermanently | k400BadRequest | k404NotFound

definition status_number :: "http_status \<Rightarrow> nat" where
  "status_number s = (case s of kUnknownStatus \<Rightarrow> 0 | k200Ok \<Rightarrow> 200 | k301MovedPermanently \<Rightarrow> 301
     | k400BadRequest \<Rightarrow> 400 | k404NotFound \<Rightarrow> 404)"

record http_response =
  p_headers :: "(string \<times> string) list"
  p_statusCode :: http_status
  p_statusMessage :: string
  p_closeConnection :: bool
  p_body :: string

definition HttpResponse :: "bool \<Rightarrow> http_response" where
  "HttpResponse close = \<lparr>p_headers = [], p_statusCode = kUnknownStatus, p_statusMessage = [],
     p_closeConnection = close, p_body = []\<rparr>"

definition setStatusCode :: "http_status \<Rightarrow> http_response \<Rightarrow> http_response" where
  "setStatusCode code p = p\<lparr>p_statusCode := code\<rparr>"

definition setStatusMessage :: "string \<Rightarrow> http_response \<Rightarrow> http_response" where
  "setStatusMessage m p = p\<lparr>p_statusMessage := m\<rparr>"

definition setCloseConnection :: "bool \<Rightarrow> http_response \<Rightarrow> http_response" where
  "setCloseConnection b p = p\<lparr>p_closeConnection := b\<rparr>"

definition response_addHeader :: "string \<Rightarrow> string \<Rightarrow> http_response \<Rightarrow> http_response" where
  "response_addHeader key v p = p\<lparr>p_headers := map_assign key v (p_headers p)\<rparr>"

definition setContentType :: "string \<Rightarrow> http_response \<Rightarrow> http_response" where
  "setContentType t p = response_addHeader ''Content-Type'' t p"

definition setBody :: "string \<Rightarrow> http_response \<Rightarrow> http_response" where
  "setBody b p = p\<lparr>p_body := b\<rparr>"

text \<open>\<^verbatim>\<open>snprintf\<close> into an array of 32 bytes, the last for the final zero.\<close>

definition snprintf32 :: "string \<Rightarrow> string" where "snprintf32 s = take 31 s"

text \<open>Consecutive \<^verbatim>\<open>writeBytes\<close> of the strings of a list.\<close>

fun write_all :: "string list \<Rightarrow> buffer \<Rightarrow> pool \<Rightarrow> (buffer \<times> pool) res" where
  "write_all [] buf w = Inr (buf, w)"
| "write_all (s # ss) buf w = rbind (buffer_writeString s buf w) (\<lambda>(buf', w'). write_all ss buf' w')"

text \<open>The strings \<^verbatim>\<open>appendToBuffer\<close> writes, in order.\<close>

definition response_strings :: "http_response \<Rightarrow> string list" where
  "response_strings p =
     [snprintf32 (''HTTP/1.1 '' @ dec (status_number (p_statusCode p)) @ '' ''), p_statusMessage p, kCRLF] @
     (if p_closeConnection p then [''Connection: close'' @ kCRLF]
      else [snprintf32 (''Content-Length: '' @ dec (length (p_body p)) @ kCRLF), ''Connection: Keep-Alive'' @ kCRLF]) @
     concat (map (\<lambda>(key, v). [key, '': '', v, kCRLF]) (p_headers p)) @
     [kCRLF, p_body p]"

definition appendToBuffer :: "http_response \<Rightarrow> buffer \<Rightarrow> pool \<Rightarrow> (buffer \<times> pool) res" where
  "appendToBuffer p output w = write_all (response_strings p) output w"

text \<open>The callback a server starts with.\<close>

definition defaultHttpCallback :: "http_request \<Rightarrow> http_response \<Rightarrow> http_response" where
  "defaultHttpCallback r p = setCloseConnection True (setStatusMessage ''Not Found'' (setStatusCode k404NotFound p))"

end
