(* ===== verification/TcpConnection.thy ===== *)
theory TcpConnection
  imports EventLoop Http
begin

text \<open>
  \<^verbatim>\<open>TcpConnection\<close> on the thread of its loop: the state of the connection, sending with an output
  buffer, the handlers of its channel and closing. A connection is an address in a store; its channel,
  its buffers and the loop are parts of the state \<open>net\<close>. The system calls are arguments: \<open>os\<close> gives
  the result of a call from a counter of calls, the descriptor and the data. \<open>n_wire\<close> keeps the bytes
  the kernel has taken for a descriptor and \<open>n_shut\<close> the descriptors shut for writing. The callbacks
  a user sets are the argument \<open>u\<close>. The context is the one value stored in it, a parser of requests.
\<close>

subsection \<open>State\<close>

datatype conn_state = kDisconnected | kConnecting | kConnected | kDisconnecting

text \<open>The functors that are queued: each names the function bound and its arguments.\<close>

datatype task =
    SendInLoop nat string | ShutdownTask nat | ForceCloseTask nat | WriteComplete nat | HighWater nat int
  | Established nat | EraseTask nat | StartInLoop | ResetChannel | ListenTask

record conn =
  t_state :: conn_state
  t_reading :: bool
  t_socket :: int
  t_channel :: nat
  t_hasWriteComplete :: bool
  t_hasHighWater :: bool
  t_highWaterMark :: int
  t_inputBuffer :: buffer
  t_outputBuffer :: buffer
  t_context :: "http_context option"

record net = "task ev_loop" +
  n_alloc :: "allocator option"
  n_conns :: "nat \<rightharpoonup> conn"
  n_tick :: nat
  n_wire :: "int \<Rightarrow> string"
  n_shut :: "int set"
  n_connSet :: "nat set"
  n_oneLoop :: bool
  n_base :: "task list"

record os =
  os_write :: "nat \<Rightarrow> int \<Rightarrow> string \<Rightarrow> int + nat"
  os_readv :: "nat \<Rightarrow> int \<Rightarrow> int list \<Rightarrow> int + string"
  os_shutdown :: "nat \<Rightarrow> int \<Rightarrow> bool"

record user =
  u_connection :: "nat \<Rightarrow> net \<Rightarrow> net res"
  u_message :: "nat \<Rightarrow> net \<Rightarrow> net res"
  u_close :: "nat \<Rightarrow> net \<Rightarrow> net res"

text \<open>The arena of the thread.\<close>

definition net_pool :: "net \<Rightarrow> pool res" where
  "net_pool s = (case n_alloc s of None \<Rightarrow> Inl NullDeref | Some al \<Rightarrow>
     rbind (threadCache al) (arena_at (al_arenas al)))"

definition put_pool :: "pool \<Rightarrow> net \<Rightarrow> net" where
  "put_pool w s = s\<lparr>n_alloc := map_option (\<lambda>al. case al_threadCache al of None \<Rightarrow> al
     | Some i \<Rightarrow> al\<lparr>al_arenas := (al_arenas al)[i := Some w]\<rparr>) (n_alloc s)\<rparr>"

definition get_conn :: "nat \<Rightarrow> net \<Rightarrow> conn res" where "get_conn c s = deref (n_conns s) (Some c)"

definition put_conn :: "nat \<Rightarrow> (conn \<Rightarrow> conn) \<Rightarrow> net \<Rightarrow> net" where
  "put_conn c f s = s\<lparr>n_conns := (n_conns s)(c := map_option f (n_conns s c))\<rparr>"

definition get_channel :: "conn \<Rightarrow> net \<Rightarrow> channel res" where
  "get_channel t s = deref (l_channels s) (Some (t_channel t))"

text \<open>\<^verbatim>\<open>::write\<close>: an error number, or how many of the bytes were taken.\<close>

definition sys_write :: "os \<Rightarrow> int \<Rightarrow> string \<Rightarrow> net \<Rightarrow> (int + nat) \<times> net" where
  "sys_write os fd data s =
     (let r = os_write os (n_tick s) fd data in
      (r, s\<lparr>n_tick := n_tick s + 1,
            n_wire := (n_wire s)(fd := n_wire s fd @ (case r of Inl _ \<Rightarrow> [] | Inr n \<Rightarrow> take n data))\<rparr>))"

text \<open>\<^verbatim>\<open>Socket::closeWrite\<close>.\<close>

definition closeWrite :: "os \<Rightarrow> int \<Rightarrow> net \<Rightarrow> net res" where
  "closeWrite os fd s =
     (if \<not> os_shutdown os (n_tick s) fd then Inl ProcessExit
      else Inr (s\<lparr>n_tick := n_tick s + 1, n_shut := insert fd (n_shut s)\<rparr>))"

subsection \<open>Sending\<close>

abbreviation (input) EWOULDBLOCK :: int where "EWOULDBLOCK \<equiv> 11"
abbreviation (input) EPIPE :: int where "EPIPE \<equiv> 32"
abbreviation (input) ECONNRESET :: int where "ECONNRESET \<equiv> 104"

text \<open>The direct write of \<^verbatim>\<open>sendInLoop\<close>: how many bytes it wrote, how many remain, and whether the
  error is one that gives the data up.\<close>

definition try_write :: "os \<Rightarrow> nat \<Rightarrow> conn \<Rightarrow> channel \<Rightarrow> string \<Rightarrow> net \<Rightarrow> (nat \<times> int \<times> bool \<times> net) res" where
  "try_write os c t ch data s =
     (case sys_write os (c_fd ch) data s of
        (Inr nwrote, s1) \<Rightarrow>
          (let remaining = u64 (int (length data) - int nwrote) in
           rbind (if remaining = 0 \<and> t_hasWriteComplete t then queueInLoop (WriteComplete c) s1 else Inr s1)
             (\<lambda>s2. Inr (nwrote, remaining, False, s2)))
      | (Inl errno, s1) \<Rightarrow>
          Inr (0, int (length data), errno \<noteq> EWOULDBLOCK \<and> (errno = EPIPE \<or> errno = ECONNRESET), s1))"

text \<open>The rest goes to the output buffer, and the channel waits until the socket takes it.\<close>

definition buffer_rest :: "nat \<Rightarrow> conn \<Rightarrow> channel \<Rightarrow> int \<Rightarrow> string \<Rightarrow> int \<Rightarrow> net \<Rightarrow> net res" where
  "buffer_rest c t ch oldLen rest remaining s =
     rbind (if oldLen + remaining \<ge> t_highWaterMark t \<and> oldLen < t_highWaterMark t \<and> t_hasHighWater t
            then queueInLoop (HighWater c (oldLen + remaining)) s else Inr s) (\<lambda>s1.
     rbind (net_pool s1) (\<lambda>w.
     rbind (buffer_writeBytes rest (i32 remaining) (t_outputBuffer t) w) (\<lambda>(b, w').
     let s2 = put_conn c (\<lambda>t. t\<lparr>t_outputBuffer := b\<rparr>) (put_pool w' s1) in
     if \<not> isWriting ch then enableWriting (t_channel t) s2 else Inr s2)))"

definition sendInLoop :: "os \<Rightarrow> nat \<Rightarrow> string \<Rightarrow> net \<Rightarrow> net res" where
  "sendInLoop os c data s = assertInLoopThread (l_inThread s)
     (rbind (get_conn c s) (\<lambda>t.
      if t_state t = kDisconnected then Inr s
      else
        rbind (get_channel t s) (\<lambda>ch.
        rbind (buffer_readableBytes (t_outputBuffer t)) (\<lambda>oldLen.
        rbind (if \<not> isWriting ch \<and> oldLen = 0 then try_write os c t ch data s
               else Inr (0, int (length data), False, s)) (\<lambda>(nwrote, remaining, faultError, s1).
        assert_that (remaining \<le> int (length data))
        (if \<not> faultError \<and> remaining > 0
         then buffer_rest c t ch oldLen (drop nwrote data) remaining s1
         else Inr s1))))))"

definition tcp_send :: "os \<Rightarrow> nat \<Rightarrow> string \<Rightarrow> net \<Rightarrow> net res" where
  "tcp_send os c message s =
     rbind (get_conn c s) (\<lambda>t.
     if t_state t = kConnected
     then (if l_inThread s then sendInLoop os c message s
           else runInLoop (\<lambda>_. sendInLoop os c message) (SendInLoop c message) s)
     else Inr s)"

definition tcp_send_bytes :: "os \<Rightarrow> nat \<Rightarrow> string \<Rightarrow> int \<Rightarrow> net \<Rightarrow> net res" where
  "tcp_send_bytes os c data len s = tcp_send os c (take (nat len) data) s"

text \<open>\<^verbatim>\<open>send(Buffer*)\<close> sends what is unread and leaves the buffer empty.\<close>

definition tcp_send_buffer :: "os \<Rightarrow> nat \<Rightarrow> buffer \<Rightarrow> net \<Rightarrow> (buffer \<times> net) res" where
  "tcp_send_buffer os c buf s =
     rbind (get_conn c s) (\<lambda>t.
     if t_state t = kConnected
     then rbind (net_pool s) (\<lambda>w.
       if l_inThread s
       then rbind (buffer_peek buf) (\<lambda>p.
            rbind (buffer_readableBytes buf) (\<lambda>n.
            rbind (read_mem w p n) (\<lambda>data.
            rbind (sendInLoop os c data s) (\<lambda>s1.
            rbind (buffer_retrieveAll buf) (\<lambda>buf'. Inr (buf', s1))))))
       else rbind (buffer_retrieveAllAsString w buf) (\<lambda>(data, buf').
            rbind (runInLoop (\<lambda>_. sendInLoop os c data) (SendInLoop c data) s) (\<lambda>s1. Inr (buf', s1))))
     else Inr (buf, s))"

subsection \<open>Closing\<close>

definition shutdownInLoop :: "os \<Rightarrow> nat \<Rightarrow> net \<Rightarrow> net res" where
  "shutdownInLoop os c s = assertInLoopThread (l_inThread s)
     (rbind (get_conn c s) (\<lambda>t. rbind (get_channel t s) (\<lambda>ch.
      if \<not> isWriting ch then closeWrite os (t_socket t) s else Inr s)))"

text \<open>The functor of \<^verbatim>\<open>shutdown\<close>.\<close>

definition shutdown_body :: "os \<Rightarrow> nat \<Rightarrow> net \<Rightarrow> net res" where
  "shutdown_body os c s =
     rbind (get_conn c s) (\<lambda>t.
     if t_state t = kConnected
     then
       (let s1 = put_conn c (\<lambda>t. t\<lparr>t_state := kDisconnecting\<rparr>) s in
        rbind (get_channel t s1) (\<lambda>ch.
        if \<not> isWriting ch then closeWrite os (t_socket t) s1 else Inr s1))
     else Inr s)"

definition tcp_shutdown :: "os \<Rightarrow> nat \<Rightarrow> net \<Rightarrow> net res" where
  "tcp_shutdown os c s = runInLoop (\<lambda>_. shutdown_body os c) (ShutdownTask c) s"

definition handleClose :: "user \<Rightarrow> nat \<Rightarrow> net \<Rightarrow> net res" where
  "handleClose u c s = assertInLoopThread (l_inThread s)
     (rbind (get_conn c s) (\<lambda>t.
      assert_that (t_state t = kConnected \<or> t_state t = kDisconnecting)
      (rbind (disableAll (t_channel t) (put_conn c (\<lambda>t. t\<lparr>t_state := kDisconnected\<rparr>) s)) (\<lambda>s1.
       rbind (u_connection u c s1) (u_close u c)))))"

text \<open>The functor of \<^verbatim>\<open>forceClose\<close>.\<close>

definition forceClose_body :: "user \<Rightarrow> nat \<Rightarrow> net \<Rightarrow> net res" where
  "forceClose_body u c s =
     rbind (get_conn c s) (\<lambda>t.
     if t_state t = kConnected \<or> t_state t = kDisconnecting
     then handleClose u c (put_conn c (\<lambda>t. t\<lparr>t_state := kDisconnecting\<rparr>) s)
     else Inr s)"

definition forceClose :: "user \<Rightarrow> nat \<Rightarrow> net \<Rightarrow> net res" where
  "forceClose u c s = runInLoop (\<lambda>_. forceClose_body u c) (ForceCloseTask c) s"

subsection \<open>Opening and destroying\<close>

text \<open>The constructor, for a channel at a new address. Each of the two buffers is made as a
  temporary and swapped in, so the empty one is what the temporary's destructor finds.\<close>

definition TcpConnection :: "int \<Rightarrow> nat \<Rightarrow> nat \<Rightarrow> int \<Rightarrow> net \<Rightarrow> net res" where
  "TcpConnection numArena c a sockfd s =
     (let s1 = s\<lparr>l_channels := (l_channels s)(a \<mapsto> Channel (l_id s) sockfd)\<rparr> in
      rbind (Buffer numArena 16384 (n_alloc s1)) (\<lambda>(b1, al1).
      rbind (Buffer numArena 16384 (Some al1)) (\<lambda>(b2, al2).
      let t = \<lparr>t_state = kConnecting, t_reading = True, t_socket = sockfd, t_channel = a,
               t_hasWriteComplete = False, t_hasHighWater = False, t_highWaterMark = 67108864,
               t_inputBuffer = fst (buffer_swap Buffer_null b1), t_outputBuffer = fst (buffer_swap Buffer_null b2),
               t_context = None\<rparr> in
      Inr (s1\<lparr>n_alloc := Some al2, n_conns := (n_conns s1)(c \<mapsto> t)\<rparr>))))"

definition tcp_destroy :: "nat \<Rightarrow> net \<Rightarrow> net res" where
  "tcp_destroy c s = rbind (get_conn c s) (\<lambda>t. assert_that (t_state t = kDisconnected)
     (Inr (s\<lparr>n_conns := (n_conns s)(c := None), l_channels := (l_channels s)(t_channel t := None)\<rparr>)))"

definition connected :: "conn \<Rightarrow> bool" where "connected t \<longleftrightarrow> t_state t = kConnected"

definition disconnected :: "conn \<Rightarrow> bool" where "disconnected t \<longleftrightarrow> t_state t = kDisconnected"

definition setContext :: "http_context \<Rightarrow> conn \<Rightarrow> conn" where "setContext x t = t\<lparr>t_context := Some x\<rparr>"

definition setWriteCompleteCallback :: "conn \<Rightarrow> conn" where
  "setWriteCompleteCallback t = t\<lparr>t_hasWriteComplete := True\<rparr>"

definition setHighWaterMarkCallback :: "int \<Rightarrow> conn \<Rightarrow> conn" where
  "setHighWaterMarkCallback mark t = t\<lparr>t_hasHighWater := True, t_highWaterMark := mark\<rparr>"

text \<open>Of the callbacks these use the one of the connection only.\<close>

definition connectEstablished :: "(nat \<Rightarrow> net \<Rightarrow> net res) \<Rightarrow> nat \<Rightarrow> net \<Rightarrow> net res" where
  "connectEstablished connectionCallback c s = assertInLoopThread (l_inThread s)
     (rbind (get_conn c s) (\<lambda>t.
      assert_that (t_state t = kConnecting)
      (let s1 = put_conn c (\<lambda>t. t\<lparr>t_state := kConnected\<rparr>) s in
       rbind (store_upd (l_channels s1) (Some (t_channel t)) tie) (\<lambda>cs.
       rbind (enableReading (t_channel t) (s1\<lparr>l_channels := cs\<rparr>)) (connectionCallback c)))))"

definition connectDestroyed :: "(nat \<Rightarrow> net \<Rightarrow> net res) \<Rightarrow> nat \<Rightarrow> net \<Rightarrow> net res" where
  "connectDestroyed connectionCallback c s = assertInLoopThread (l_inThread s)
     (rbind (get_conn c s) (\<lambda>t.
      rbind (if t_state t = kConnected
             then rbind (disableAll (t_channel t) (put_conn c (\<lambda>t. t\<lparr>t_state := kDisconnected\<rparr>) s)) (connectionCallback c)
             else Inr s) (channel_remove (t_channel t))))"

subsection \<open>The handlers of the channel\<close>

text \<open>\<^verbatim>\<open>handleError\<close> asks the socket for its error and prints it.\<close>

definition handleError :: "nat \<Rightarrow> net \<Rightarrow> net res" where
  "handleError c s = rbind (get_conn c s) (\<lambda>t. Inr s)"

definition handleRead :: "os \<Rightarrow> user \<Rightarrow> nat \<Rightarrow> net \<Rightarrow> net res" where
  "handleRead os u c s = assertInLoopThread (l_inThread s)
     (rbind (get_conn c s) (\<lambda>t. rbind (get_channel t s) (\<lambda>ch. rbind (net_pool s) (\<lambda>w.
      rbind (readFd (os_readv os (n_tick s) (c_fd ch)) (t_inputBuffer t) w) (\<lambda>(n, savedErrno, b, w').
      let s1 = put_conn c (\<lambda>t. t\<lparr>t_inputBuffer := b\<rparr>) (put_pool w' (s\<lparr>n_tick := n_tick s + 1\<rparr>)) in
      if n > 0 then u_message u c s1
      else if n = 0 then handleClose u c s1
      else handleError c s1)))))"

text \<open>What \<^verbatim>\<open>handleWrite\<close> does with the result of the write.\<close>

definition handleWritten :: "os \<Rightarrow> nat \<Rightarrow> conn \<Rightarrow> (int + nat) \<times> net \<Rightarrow> net res" where
  "handleWritten os c t result = (case result of
      (Inl errno, s1) \<Rightarrow> Inr s1
    | (Inr n, s1) \<Rightarrow>
        if n > 0 then
          rbind (buffer_retrieve (int n) (t_outputBuffer t)) (\<lambda>b.
          rbind (buffer_readableBytes b) (\<lambda>left.
          let s2 = put_conn c (\<lambda>t. t\<lparr>t_outputBuffer := b\<rparr>) s1 in
          if left = 0 then
            rbind (disableWriting (t_channel t) s2) (\<lambda>s3.
            rbind (if t_hasWriteComplete t then queueInLoop (WriteComplete c) s3 else Inr s3) (\<lambda>s4.
            if t_state t = kDisconnecting then shutdownInLoop os c s4 else Inr s4))
          else Inr s2))
        else Inr s1)"

definition handleWrite :: "os \<Rightarrow> nat \<Rightarrow> net \<Rightarrow> net res" where
  "handleWrite os c s = assertInLoopThread (l_inThread s)
     (rbind (get_conn c s) (\<lambda>t. rbind (get_channel t s) (\<lambda>ch.
      if isWriting ch then
        rbind (net_pool s) (\<lambda>w.
        rbind (buffer_peek (t_outputBuffer t)) (\<lambda>p.
        rbind (buffer_readableBytes (t_outputBuffer t)) (\<lambda>len.
        rbind (read_mem w p len) (\<lambda>data.
        handleWritten os c t (sys_write os (c_fd ch) data s)))))
      else Inr s)))"

text \<open>The channel of a connection with its callbacks, run while the connection lives.\<close>

definition conn_callbacks :: "os \<Rightarrow> user \<Rightarrow> nat \<Rightarrow> net callbacks" where
  "conn_callbacks os u c = \<lparr>cb_read = Some (handleRead os u c), cb_write = Some (handleWrite os c),
     cb_close = Some (handleClose u c), cb_error = Some (handleError c)\<rparr>"

definition conn_handle :: "os \<Rightarrow> user \<Rightarrow> nat \<Rightarrow> net \<Rightarrow> net res" where
  "conn_handle os u c s = rbind (get_conn c s) (\<lambda>t. rbind (get_channel t s) (\<lambda>ch.
     handleEvent (n_conns s c \<noteq> None) ch (conn_callbacks os u c) s))"

end
