(* ===== verification/TcpServer.thy ===== *)
theory TcpServer
  imports TcpConnection
begin

text \<open>
  \<^verbatim>\<open>EventLoopThreadPool\<close>, \<^verbatim>\<open>Acceptor\<close> and \<^verbatim>\<open>TcpServer\<close>: choosing a loop for a new connection,
  the channel of the acceptor, the set of the connections and taking the server down. The state \<open>net\<close> is the one of the
  loop the connections are on; \<open>n_oneLoop\<close> says whether it is the loop of the acceptor as well, and
  \<open>n_base\<close> keeps the functors queued in that loop when it is another one.
\<close>

subsection \<open>\<^verbatim>\<open>EventLoopThreadPool\<close>\<close>

text \<open>The loops of the threads; one whose thread has ended gives no loop.\<close>

record loop_pool =
  lt_loops :: "nat option list"
  lt_index :: nat

definition EventLoopThreadPool :: "nat list \<Rightarrow> loop_pool" where
  "EventLoopThreadPool loops = \<lparr>lt_loops = map Some loops, lt_index = 0\<rparr>"

definition pool_size :: "loop_pool \<Rightarrow> nat" where "pool_size p = length (lt_loops p)"

definition getNextLoop :: "loop_pool \<Rightarrow> (nat option \<times> loop_pool) res" where
  "getNextLoop p =
     (if length (lt_loops p) > 0 then
        rbind (at_vec (lt_loops p) (int (lt_index p))) (\<lambda>l.
        let i = lt_index p + 1 in
        Inr (l, p\<lparr>lt_index := (if i \<ge> length (lt_loops p) then 0 else i)\<rparr>))
      else Inr (None, p))"

definition getLoop :: "nat \<Rightarrow> loop_pool \<Rightarrow> nat option" where
  "getLoop i p = (if i < length (lt_loops p) then lt_loops p ! i else None)"

definition getLoops :: "loop_pool \<Rightarrow> nat option list" where "getLoops p = map (\<lambda>l. l) (lt_loops p)"

primrec next_loops :: "nat \<Rightarrow> loop_pool \<Rightarrow> (nat option list \<times> loop_pool) res" where
  "next_loops 0 p = Inr ([], p)"
| "next_loops (Suc n) p =
     rbind (getNextLoop p) (\<lambda>(l, p1). rbind (next_loops n p1) (\<lambda>(ls, p2). Inr (l # ls, p2)))"

subsection \<open>\<^verbatim>\<open>Acceptor\<close>\<close>

record acceptor =
  ac_fd :: int
  ac_channel :: nat
  ac_idleFd :: int

text \<open>Given the descriptor of \<^verbatim>\<open>/dev/null\<close>; the listening socket is bound by then.\<close>

definition Acceptor :: "nat \<Rightarrow> int \<Rightarrow> int \<Rightarrow> net \<Rightarrow> (acceptor \<times> net) res" where
  "Acceptor a fd idleFd s = assert_that (idleFd \<ge> 0)
     (Inr (\<lparr>ac_fd = fd, ac_channel = a, ac_idleFd = idleFd\<rparr>,
       s\<lparr>l_channels := (l_channels s)(a \<mapsto> Channel (l_id s) fd)\<rparr>))"

definition acceptor_destroy :: "acceptor \<Rightarrow> net \<Rightarrow> net res" where
  "acceptor_destroy ac s = rbind (disableAll (ac_channel ac) s) (channel_remove (ac_channel ac))"

definition listen :: "acceptor \<Rightarrow> bool \<Rightarrow> net \<Rightarrow> net res" where
  "listen ac listened s = assertInLoopThread (l_inThread s)
     (assert_that (ac_fd ac > 0) (if \<not> listened then Inl ProcessExit else enableReading (ac_channel ac) s))"

subsection \<open>\<^verbatim>\<open>TcpServer\<close>\<close>

text \<open>The loop of a new connection: the next one of the pool, or the acceptor's.\<close>

definition choose_loop :: "nat \<Rightarrow> loop_pool option \<Rightarrow> (nat \<times> loop_pool option) res" where
  "choose_loop base loopPool =
     (case loopPool of
        None \<Rightarrow> Inr (base, None)
      | Some p \<Rightarrow>
          if pool_size p > 0
          then rbind (getNextLoop p) (\<lambda>(l, p'). Inr (case l of None \<Rightarrow> base | Some i \<Rightarrow> i, Some p'))
          else Inr (base, Some p))"

definition optional_callback :: "(nat \<Rightarrow> net \<Rightarrow> net res) option \<Rightarrow> nat \<Rightarrow> net \<Rightarrow> net res" where
  "optional_callback cb c s = (case cb of None \<Rightarrow> Inr s | Some f \<Rightarrow> f c s)"

text \<open>\<^verbatim>\<open>newConnection\<close>, on the thread of the acceptor, with the state of the loop that was chosen and
  new addresses for the connection and its channel.\<close>

definition newConnection ::
  "int \<Rightarrow> (nat \<Rightarrow> net \<Rightarrow> net res) option \<Rightarrow> bool \<Rightarrow> nat \<Rightarrow> nat \<Rightarrow> int \<Rightarrow> net \<Rightarrow> net res" where
  "newConnection numArena connectionCallback inBase c a sockfd s = assertInLoopThread inBase
     (rbind (TcpConnection numArena c a sockfd s) (\<lambda>s1.
      let s2 = put_conn c setWriteCompleteCallback s1;
          s3 = s2\<lparr>n_connSet := insert c (n_connSet s2)\<rparr> in
      runInLoop (\<lambda>_. connectEstablished (optional_callback connectionCallback) c) (Established c) s3))"

definition erase_connection :: "nat \<Rightarrow> net \<Rightarrow> net res" where
  "erase_connection c s = assert_that (c \<in> n_connSet s) (Inr (s\<lparr>n_connSet := n_connSet s - {c}\<rparr>))"

definition connectionClosed :: "(nat \<Rightarrow> net \<Rightarrow> net res) option \<Rightarrow> nat \<Rightarrow> net \<Rightarrow> net res" where
  "connectionClosed connectionCallback c s =
     rbind (if n_oneLoop s then runInLoop (\<lambda>_. erase_connection c) (EraseTask c) s
            else Inr (s\<lparr>n_base := n_base s @ [EraseTask c]\<rparr>))
       (connectDestroyed (optional_callback connectionCallback) c)"

text \<open>The callbacks of a server's connections.\<close>

definition server_user :: "(nat \<Rightarrow> net \<Rightarrow> net res) option \<Rightarrow> (nat \<Rightarrow> net \<Rightarrow> net res) \<Rightarrow> user" where
  "server_user connectionCallback recvMessageCallback =
     \<lparr>u_connection = optional_callback connectionCallback, u_message = recvMessageCallback,
      u_close = connectionClosed connectionCallback\<rparr>"

text \<open>The message callback a server starts with.\<close>

definition default_message :: "nat \<Rightarrow> net \<Rightarrow> net res" where
  "default_message c s =
     rbind (get_conn c s) (\<lambda>t.
     rbind (buffer_retrieveAll (t_inputBuffer t)) (\<lambda>b. Inr (put_conn c (\<lambda>t. t\<lparr>t_inputBuffer := b\<rparr>) s)))"

text \<open>\<^verbatim>\<open>start\<close>: the flag of \<^verbatim>\<open>call_once\<close> is one for all servers of the process.\<close>

definition server_start :: "bool \<Rightarrow> loop_pool option \<Rightarrow> acceptor \<Rightarrow> bool \<Rightarrow> net \<Rightarrow> (bool \<times> net) res" where
  "server_start flag loopPool ac listened s =
     (if flag then Inr (True, s)
      else if loopPool = None then Inl NullDeref
      else rbind (runInLoop (\<lambda>_. listen ac listened) ListenTask s) (\<lambda>s1. Inr (True, s1)))"

text \<open>The loop of the destructor over \<^verbatim>\<open>connSet_\<close>: the iterator of an element that has been erased
  cannot be advanced.\<close>

fun close_all :: "user \<Rightarrow> nat list \<Rightarrow> net \<Rightarrow> net res" where
  "close_all u [] s = Inr s"
| "close_all u (c # cs) s =
     rbind (forceClose u c s) (\<lambda>s1. if c \<notin> n_connSet s1 then Inl NullDeref else close_all u cs s1)"

definition server_destroy :: "user \<Rightarrow> bool \<Rightarrow> acceptor \<Rightarrow> net \<Rightarrow> net res" where
  "server_destroy u inBase ac s = assertInLoopThread inBase
     (rbind (acceptor_destroy ac s) (\<lambda>s1. close_all u (sorted_list_of_set (n_connSet s1)) s1))"

end
