(* ===== verification/HttpServer.thy ===== *)
theory HttpServer
  imports TcpServer
begin

text \<open>
  \<^verbatim>\<open>http/HttpServer\<close>: the callbacks of a server that parses what a connection has received and
  answers. The user's callback turns a request and a response to fill into a response. The buffer
  for a response comes from the allocator of the thread and goes back to it.
\<close>

definition onConnection :: "nat \<Rightarrow> net \<Rightarrow> net res" where
  "onConnection c s =
     rbind (get_conn c s) (\<lambda>t. Inr (if connected t then put_conn c (setContext HttpContext) s else s))"

definition response_close :: "http_request \<Rightarrow> bool" where
  "response_close req =
     (let connection = getHeader ''Connection'' req in
      connection = ''close'' \<or> (q_version req = kHttp10 \<and> connection \<noteq> ''Keep-Alive''))"

definition onRequest ::
  "os \<Rightarrow> int \<Rightarrow> (http_request \<Rightarrow> http_response \<Rightarrow> http_response) \<Rightarrow> nat \<Rightarrow> http_request \<Rightarrow> net \<Rightarrow> net res" where
  "onRequest os numArena httpCallback c req s =
     (let response = httpCallback req (HttpResponse (response_close req)) in
      rbind (Buffer numArena 16384 (n_alloc s)) (\<lambda>(buf, al).
      let s1 = s\<lparr>n_alloc := Some al\<rparr> in
      rbind (net_pool s1) (\<lambda>w.
      rbind (appendToBuffer response buf w) (\<lambda>(buf1, w1).
      rbind (tcp_send_buffer os c buf1 (put_pool w1 s1)) (\<lambda>(buf2, s2).
      rbind (if p_closeConnection response then tcp_shutdown os c s2 else Inr s2) (\<lambda>s3.
      rbind (net_pool s3) (\<lambda>w3.
      rbind (Buffer_destroy buf2 w3) (\<lambda>w4. Inr (put_pool w4 s3)))))))))"

abbreviation (input) bad_request :: string where
  "bad_request \<equiv> ''HTTP/1.1 400 Bad Request'' @ kCRLF @ kCRLF"

text \<open>\<^verbatim>\<open>any_cast\<close> asserts that a parser is stored in the connection.\<close>

definition onMessage ::
  "os \<Rightarrow> int \<Rightarrow> (http_request \<Rightarrow> http_response \<Rightarrow> http_response) \<Rightarrow> nat \<Rightarrow> net \<Rightarrow> net res" where
  "onMessage os numArena httpCallback c s =
     rbind (get_conn c s) (\<lambda>t.
     case t_context t of
       None \<Rightarrow> Inl AssertFailed
     | Some context \<Rightarrow>
         rbind (net_pool s) (\<lambda>w.
         rbind (parseRequest w context (t_inputBuffer t)) (\<lambda>(good, context1, buf).
         let s1 = put_conn c (\<lambda>t. t\<lparr>t_inputBuffer := buf, t_context := Some context1\<rparr>) s in
         rbind (if \<not> good then rbind (tcp_send os c bad_request s1) (tcp_shutdown os c) else Inr s1) (\<lambda>s2.
         if gotAll context1
         then rbind (onRequest os numArena httpCallback c (x_request context1) s2) (\<lambda>s3.
              Inr (put_conn c (setContext (context_reset context1)) s3))
         else Inr s2))))"

text \<open>The callbacks the constructor installs in its \<^verbatim>\<open>TcpServer\<close>.\<close>

definition http_user :: "os \<Rightarrow> int \<Rightarrow> (http_request \<Rightarrow> http_response \<Rightarrow> http_response) \<Rightarrow> user" where
  "http_user os numArena httpCallback = server_user (Some onConnection) (onMessage os numArena httpCallback)"

end
