(* ===== verification/HttpSpec.thy ===== *)
theory HttpSpec
  imports Http ByteBufSpec
begin

text \<open>
  What the HTTP layer promises. The parser works on the unread bytes of a buffer: it is compared
  with a parser on lists of characters, which has no pool, no pointers and no fuel. Over that one
  the lemmas show that the cuts at which the bytes arrive do not matter and that a printed request
  is read back.
\<close>

subsection \<open>The text parser\<close>

definition next_line :: "string \<Rightarrow> (string \<times> string) option" where
  "next_line cs = (let k = search cs kCRLF in if k = length cs then None else Some (take k cs, drop (k + 2) cs))"

lemma search_le: "search cs pat \<le> length cs"
  by (induction cs pat rule: search.induct) auto

lemma search_found: "search cs pat < length cs \<Longrightarrow> cs = take (search cs pat) cs @ pat @ drop (search cs pat + length pat) cs"
proof (induction cs pat rule: search.induct)
  case (2 x xs pat)
  then show ?case by (auto split: if_splits) (metis append_take_drop_id)
qed simp

lemma next_line_eq: "next_line cs = Some (l, r) \<Longrightarrow> cs = l @ kCRLF @ r"
  using search_found [of cs kCRLF] search_le [of cs kCRLF]
  by (auto simp: next_line_def Let_def numeral_2_eq_2 split: if_splits)

lemma next_line_shorter: "next_line cs = Some (l, r) \<Longrightarrow> length r < length cs"
  using next_line_eq [of cs l r] by simp

lemma search_more: "search xs pat < length xs \<Longrightarrow> search (xs @ ys) pat = search xs pat"
proof (induction xs pat rule: search.induct)
  case (2 x xs pat)
  show ?case
  proof (cases "take (length pat) (x # xs) = pat")
    case True
    then have "length pat \<le> length (x # xs)" by (metis length_take min.absorb_iff2 min.commute)
    then have "take (length pat) ((x # xs) @ ys) = pat" using True by (simp only: take_append) simp
    then show ?thesis using True by simp
  next
    case False
    then have s: "search xs pat < length xs" using 2(2) by simp
    have "take (length pat) (x # xs @ ys) \<noteq> pat"
    proof
      assume a: "take (length pat) (x # xs @ ys) = pat"
      have "length pat \<le> length xs" using search_found [OF s]
        by (metis le_add1 le_add2 le_trans length_append)
      then have "take (length pat) ((x # xs) @ ys) = take (length pat) (x # xs)" by (subst take_append) simp
      then show False using a False unfolding append_Cons by metis
    qed
    then show ?thesis using 2(1) [OF False s] False by simp
  qed
qed simp

lemma next_line_more: "next_line xs = Some (l, r) \<Longrightarrow> next_line (xs @ ys) = Some (l, r @ ys)"
proof -
  assume n: "next_line xs = Some (l, r)"
  let ?k = "search xs kCRLF"
  have k: "?k < length xs" using n search_le [of xs kCRLF] by (auto simp: next_line_def Let_def split: if_splits)
  have "?k + 2 \<le> length xs" using arg_cong [OF search_found [OF k], of length] by simp
  then show ?thesis using n k search_more [OF k, of ys] by (auto simp: next_line_def Let_def)
qed

lemma next_line_plain: "CHR 0x0D \<notin> set l \<Longrightarrow> next_line (l @ kCRLF @ r) = Some (l, r)"
proof -
  assume "CHR 0x0D \<notin> set l"
  then have "search (l @ kCRLF @ r) kCRLF = length l"
    by (induction l) auto
  then show ?thesis by (simp add: next_line_def)
qed

function parse_text :: "http_context \<Rightarrow> string \<Rightarrow> (bool \<times> http_context \<times> string) res" where
  "parse_text x cs =
     (case x_state x of
        kExpectRequestLine \<Rightarrow>
          (case next_line cs of
             None \<Rightarrow> Inr (True, x, cs)
           | Some (line, rest) \<Rightarrow> rbind (processRequestLine line (x_request x)) (\<lambda>(ok, r).
               if ok then parse_text (x\<lparr>x_request := r, x_state := kExpectHeaders\<rparr>) rest
               else Inr (False, x\<lparr>x_request := r\<rparr>, cs)))
      | kExpectHeaders \<Rightarrow>
          (case next_line cs of
             None \<Rightarrow> Inr (True, x, cs)
           | Some (line, rest) \<Rightarrow>
               if CHR '':'' \<in> set line
               then parse_text (x\<lparr>x_request := addHeader (before CHR '':'' line)
                      (tl (from_char CHR '':'' line)) (x_request x)\<rparr>) rest
               else Inr (True, x\<lparr>x_state := kGotAll\<rparr>, rest))
      | _ \<Rightarrow> Inl Diverges)"
  by pat_completeness auto
termination by (relation "measure (\<lambda>(x, cs). length cs)") (auto dest: next_line_shorter)

declare parse_text.simps [simp del]

lemma from_char_empty: "from_char c s = [] \<longleftrightarrow> c \<notin> set s"
  by (auto simp: from_char_def dropWhile_eq_Nil_conv)

subsection \<open>The buffer parser is the text parser\<close>

lemma beginWrite_eq:
  assumes "b_tmpBuf b = Some (m, off)"
  shows "buffer_peek (Some b) = Inr (m, off + b_readerIndex b)"
    "beginWrite (Some b) = Inr (m, off + b_writerIndex b)"
  using assms by (simp_all add: buffer_peek_def beginWrite_def buffer_begin_def on_buf_def peek_def)

text \<open>A round that finds no end of line, and one that finds it: where it is, what the line
  holds, and the buffer behind it.\<close>

lemma findCRLF_none:
  assumes ok: "buf_ok w b" and u: "unread w b = map Some cs" and n: "next_line cs = None"
  shows "findCRLF w (Some b) = Inr None"
proof -
  obtain m where m: "b_memory b = Some m" "b_tmpBuf b = Some (m, b_offset b)" using buf_ok_ptr [OF ok] by blast
  have len: "b_writerIndex b - b_readerIndex b = int (length cs)"
    using length_unread [of b w] u ok by (simp add: readableBytes_def buf_ok_def)
  have r: "read_mem w (m, b_offset b + b_readerIndex b) (b_writerIndex b - b_readerIndex b) = Inr cs"
    using read_unread [OF ok u _ m(1), of "length cs"] len by simp
  then show ?thesis using n len
    by (simp add: findCRLF_def beginWrite_eq [OF m(2)] search_crlf_def next_line_def Let_def split: if_splits)
qed

lemma findCRLF_some:
  assumes ok: "buf_ok w b" and u: "unread w b = map Some cs" and n: "next_line cs = Some (l, r)"
  shows "\<exists>p e b'. findCRLF w (Some b) = Inr (Some e) \<and> buffer_peek (Some b) = Inr p \<and>
     line_chars w p e = Inr l \<and> retrieveUntil (fst e, snd e + 2) (Some b) = Inr (Some b') \<and>
     buf_ok w b' \<and> unread w b' = map Some r"
proof -
  obtain m where m: "b_memory b = Some m" "b_tmpBuf b = Some (m, b_offset b)" using buf_ok_ptr [OF ok] by blast
  have len: "b_writerIndex b - b_readerIndex b = int (length cs)"
    using length_unread [of b w] u ok by (simp add: readableBytes_def buf_ok_def)
  let ?p = "(m, b_offset b + b_readerIndex b)"
  let ?e = "(m, b_offset b + b_readerIndex b + int (length l))"
  have cs: "cs = l @ kCRLF @ r" by (rule next_line_eq [OF n])
  have k: "search cs kCRLF = length l" using n search_le [of cs kCRLF]
    by (auto simp: next_line_def Let_def split: if_splits)
  have rd: "read_mem w ?p (b_writerIndex b - b_readerIndex b) = Inr cs"
    using read_unread [OF ok u _ m(1), of "length cs"] len by simp
  have "findCRLF w (Some b) = Inr (Some ?e)" using rd len
    by (simp add: findCRLF_def beginWrite_eq [OF m(2)] search_crlf_def k) (simp add: cs)
  moreover have "line_chars w ?p ?e = Inr l"
    using read_unread [OF ok u _ m(1), of "length l"] by (simp add: line_chars_def cs)
  moreover obtain b' where "retrieve (int (length l) + 2) b = Inr b'" "buf_ok w b'"
      "unread w b' = drop (nat (int (length l) + 2)) (unread w b)"
    using retrieve_unread [OF ok, of "int (length l) + 2"] len
    by (auto simp: cs readableBytes_def)
  moreover from this have "unread w b' = map Some r" by (simp add: u cs nat_add_distrib)
  ultimately show ?thesis using len
    by (intro exI [of _ ?p] exI [of _ ?e] exI [of _ b'])
      (simp add: retrieveUntil_def beginWrite_eq [OF m(2)] buffer_retrieve_def on_buf_def cs add.commute)
qed

text \<open>The relation of the two results.\<close>

definition same_parse ::
  "pool \<Rightarrow> (bool \<times> http_context \<times> buffer) res \<Rightarrow> (bool \<times> http_context \<times> string) res \<Rightarrow> bool" where
  "same_parse w rb rt = (case rt of
      Inl e \<Rightarrow> rb = Inl e
    | Inr (ok, x, rest) \<Rightarrow> (\<exists>b. rb = Inr (ok, x, Some b) \<and> buf_ok w b \<and> unread w b = map Some rest))"

lemma parse_loop_stuck: "x_state x \<in> {kExpectBody, kGotAll} \<Longrightarrow> parse_loop n w x buf = Inl Diverges"
  by (induction n) auto

lemma parse_loop_text:
  "buf_ok w b \<Longrightarrow> unread w b = map Some cs \<Longrightarrow> length cs < n \<Longrightarrow>
    same_parse w (parse_loop n w x (Some b)) (parse_text x cs)"
proof (induction n arbitrary: x b cs)
  case (Suc n)
  show ?case
  proof (cases "x_state x \<in> {kExpectBody, kGotAll}")
    case True
    then show ?thesis by (auto simp: parse_loop_stuck same_parse_def parse_text.simps [of x cs])
  next
    case False
    then have st: "x_state x = kExpectRequestLine \<or> x_state x = kExpectHeaders" by (cases "x_state x") auto
    show ?thesis
    proof (cases "next_line cs")
      case None
      then show ?thesis using st findCRLF_none [OF Suc(2,3) None] Suc(2,3)
        by (auto simp: same_parse_def parse_text.simps [of x cs])
    next
      case (Some lr)
      obtain l r where lr: "lr = (l, r)" by (cases lr)
      note nl = Some [unfolded lr]
      obtain p e b' where f: "findCRLF w (Some b) = Inr (Some e)" "buffer_peek (Some b) = Inr p"
        "line_chars w p e = Inr l" "retrieveUntil (fst e, snd e + 2) (Some b) = Inr (Some b')"
        and b': "buf_ok w b'" "unread w b' = map Some r"
        using findCRLF_some [OF Suc(2,3) nl] by blast
      have "length r < n" using next_line_shorter [OF nl] Suc(4) by simp
      note IH = Suc(1) [OF b' this]
      show ?thesis
      proof (cases "x_state x = kExpectRequestLine")
        case True
        show ?thesis
        proof (cases "processRequestLine l (x_request x)")
          case (Inl err)
          then show ?thesis using True f nl by (simp add: same_parse_def parse_text.simps [of x cs])
        next
          case (Inr res)
          obtain ok r' where res: "res = (ok, r')" by (cases res)
          show ?thesis
          proof (cases ok)
            case True
            then show ?thesis using \<open>x_state x = kExpectRequestLine\<close> f nl IH Inr res
              by (simp add: parse_text.simps [of x cs])
          next
            case False
            then show ?thesis using \<open>x_state x = kExpectRequestLine\<close> f nl Inr res Suc(2,3)
              by (simp add: same_parse_def parse_text.simps [of x cs])
          qed
        qed
      next
        case False
        then have "x_state x = kExpectHeaders" using st by simp
        then show ?thesis using f nl IH b'
          by (cases "CHR '':'' \<in> set l")
            (simp_all add: parse_text.simps [of x cs] from_char_empty, simp add: same_parse_def)
      qed
    qed
  qed
qed simp


lemma parseRequest_text:
  assumes ok: "buf_ok w b" and u: "unread w b = map Some cs"
  shows "same_parse w (parseRequest w x (Some b)) (parse_text x cs)"
proof -
  have "int (length cs) = readableBytes b"
    using length_unread [of b w] ok u by (simp add: buf_ok_def)
  then have "length cs < Suc (nat (readableBytes b))" by linarith
  from parse_loop_text [OF ok u this] show ?thesis
    by (simp add: parseRequest_def buffer_readableBytes_def on_buf_def del: parse_loop.simps)
qed

lemma same_parseD:
  assumes "same_parse w rb rt"
  shows "rt = Inl e \<Longrightarrow> rb = Inl e"
    and "rt = Inr (ok, x, rest) \<Longrightarrow> \<exists>b. rb = Inr (ok, x, Some b) \<and> buf_ok w b \<and> unread w b = map Some rest"
    and "rb = Inr (ok, x, buf) \<Longrightarrow> \<exists>b rest. buf = Some b \<and> rt = Inr (ok, x, rest) \<and> buf_ok w b \<and> unread w b = map Some rest"
    and "rb = Inl e \<Longrightarrow> rt = Inl e"
  using assms by (auto simp: same_parse_def split: sum.splits)

text \<open>The contexts a server meets: one that waits for a request line has no method yet.\<close>

definition context_ok :: "http_context \<Rightarrow> bool" where
  "context_ok x \<longleftrightarrow> (x_state x = kExpectRequestLine \<and> q_method (x_request x) = kInvalid) \<or> x_state x = kExpectHeaders"

lemma setMethod_facts:
  "q_method r \<noteq> kInvalid \<Longrightarrow> setMethod m r = Inl AssertFailed"
  "q_method r = kInvalid \<Longrightarrow> \<exists>known r'. setMethod m r = Inr (known, r')"
  "setMethod m r = Inr (known, r') \<Longrightarrow> known \<longleftrightarrow> q_method r' \<noteq> kInvalid"
  by (auto simp: setMethod_def Let_def)

lemma request_line_total:
  "q_method r = kInvalid \<Longrightarrow> \<exists>ok r'. processRequestLine line r = Inr (ok, r')"
  using setMethod_facts(2) [of r "before CHR '' '' line"]
  by (auto simp: processRequestLine_def) (metis surj_pair)+

lemma request_line_again:
  assumes "processRequestLine line r = Inr (False, r')" "q_method r' \<noteq> kInvalid" "q_method r = kInvalid"
  shows "processRequestLine line r' = Inl AssertFailed"
  using assms setMethod_facts(1) [OF assms(2)]
  by (auto simp: processRequestLine_def split: if_splits)

lemma parse_text_returns:
  "context_ok x \<Longrightarrow> \<exists>ok x' rest. parse_text x cs = Inr (ok, x', rest) \<and>
     (if ok then gotAll x' \<or> context_ok x' else x_state x' = kExpectRequestLine)"
proof (induction x cs rule: parse_text.induct)
  case (1 x cs)
  show ?case
  proof (cases "next_line cs")
    case None
    have "parse_text x cs = Inr (True, x, cs)" using 1(3) None
      by (auto simp: parse_text.simps [of x cs] context_ok_def)
    then show ?thesis using 1(3) by auto
  next
    case (Some lr)
    obtain l r where lr: "lr = (l, r)" by (cases lr)
    note nl = Some [unfolded lr]
    show ?thesis
    proof (cases "x_state x = kExpectRequestLine")
      case True
      then have "q_method (x_request x) = kInvalid" using 1(3) by (simp add: context_ok_def)
      then obtain ok r' where p: "processRequestLine l (x_request x) = Inr (ok, r')"
        using request_line_total by blast
      show ?thesis
      proof (cases ok)
        case ok: True
        have "context_ok (x\<lparr>x_request := r', x_state := kExpectHeaders\<rparr>)" by (simp add: context_ok_def)
        then show ?thesis using 1(1) [OF True nl refl p refl ok] True nl p ok
          by (simp add: parse_text.simps [of x cs])
      next
        case False
        then show ?thesis using True nl p by (auto simp: parse_text.simps [of x cs])
      qed
    next
      case False
      then have st: "x_state x = kExpectHeaders" using 1(3) by (simp add: context_ok_def)
      show ?thesis
      proof (cases "CHR '':'' \<in> set l")
        case True
        show ?thesis using 1(2) [OF st nl refl True] st nl True
          by (simp add: parse_text.simps [of x cs] context_ok_def)
      next
        case False
        then show ?thesis using st nl by (auto simp: parse_text.simps [of x cs] gotAll_def)
      qed
    qed
  qed
qed

lemma parse_text_more:
  "parse_text x (xs @ ys) = rbind (parse_text x xs) (\<lambda>(ok, x', rest).
     if ok \<and> \<not> gotAll x' then parse_text x' (rest @ ys) else Inr (ok, x', rest @ ys))"
proof (induction x xs rule: parse_text.induct)
  case (1 x xs)
  show ?case
  proof (cases "x_state x = kExpectRequestLine \<or> x_state x = kExpectHeaders")
    case False
    then have "x_state x = kExpectBody \<or> x_state x = kGotAll" by (cases "x_state x") auto
    then show ?thesis by (auto simp: parse_text.simps [of x])
  next
    case st: True
    show ?thesis
    proof (cases "next_line xs")
      case None
      then have "parse_text x xs = Inr (True, x, xs)" using st by (auto simp: parse_text.simps [of x])
      then show ?thesis using st by (auto simp: gotAll_def)
    next
      case (Some lr)
      obtain l r where lr: "lr = (l, r)" by (cases lr)
      note nl = Some [unfolded lr]
      note nl2 = next_line_more [OF nl, of ys]
      show ?thesis
      proof (cases "x_state x = kExpectRequestLine")
        case True
        show ?thesis
        proof (cases "processRequestLine l (x_request x)")
          case (Inl e)
          then show ?thesis using True nl nl2 by (simp add: parse_text.simps [of x])
        next
          case (Inr res)
          obtain ok r' where res: "res = (ok, r')" by (cases res)
          note p = Inr [unfolded res]
          show ?thesis
          proof (cases ok)
            case ok: True
            show ?thesis using 1(1) [OF True nl refl p refl ok] True nl nl2 p ok
              by (simp add: parse_text.simps [of x xs] parse_text.simps [of x "xs @ ys"])
          next
            case False
            then show ?thesis using True nl nl2 p by (simp add: parse_text.simps [of x])
          qed
        qed
      next
        case False
        then have sh: "x_state x = kExpectHeaders" using st by simp
        show ?thesis
        proof (cases "CHR '':'' \<in> set l")
          case True
          show ?thesis using 1(2) [OF sh nl refl True] sh nl nl2 True
            by (simp add: parse_text.simps [of x xs] parse_text.simps [of x "xs @ ys"])
        next
          case False
          then show ?thesis using sh nl nl2 by (simp add: parse_text.simps [of x] gotAll_def)
        qed
      qed
    qed
  qed
qed


text \<open>How a parse with a result came about.\<close>

lemma parse_text_result [consumes 1, case_names stop refused line header finished]:
  assumes res: "parse_text x cs = Inr (good, x', rest)"
    and stop: "\<And>x cs. next_line cs = None \<Longrightarrow> P x cs True x cs"
    and refused: "\<And>x cs l r q. x_state x = kExpectRequestLine \<Longrightarrow> next_line cs = Some (l, r) \<Longrightarrow>
      processRequestLine l (x_request x) = Inr (False, q) \<Longrightarrow> P x cs False (x\<lparr>x_request := q\<rparr>) cs"
    and line: "\<And>x cs l r q good x' rest. x_state x = kExpectRequestLine \<Longrightarrow> next_line cs = Some (l, r) \<Longrightarrow>
      processRequestLine l (x_request x) = Inr (True, q) \<Longrightarrow>
      P (x\<lparr>x_request := q, x_state := kExpectHeaders\<rparr>) r good x' rest \<Longrightarrow> P x cs good x' rest"
    and header: "\<And>x cs l r q good x' rest. x_state x = kExpectHeaders \<Longrightarrow> next_line cs = Some (l, r) \<Longrightarrow>
      P (x\<lparr>x_request := q\<rparr>) r good x' rest \<Longrightarrow> P x cs good x' rest"
    and finished: "\<And>x cs l r. x_state x = kExpectHeaders \<Longrightarrow> next_line cs = Some (l, r) \<Longrightarrow>
      P x cs True (x\<lparr>x_state := kGotAll\<rparr>) r"
  shows "P x cs good x' rest"
  using res
proof (induction x cs arbitrary: good x' rest rule: parse_text.induct)
  case (1 x cs)
  show ?case
  proof (cases "next_line cs")
    case None
    then have "good" "x' = x" "rest = cs"
      using 1(3) by (auto simp: parse_text.simps [of x] split: parse_state.splits)
    then show ?thesis using stop [OF None, of x] by simp
  next
    case (Some lr)
    obtain l r where lr: "lr = (l, r)" by (cases lr)
    note nl = Some [unfolded lr]
    consider "x_state x = kExpectRequestLine" | "x_state x = kExpectHeaders" "CHR '':'' \<in> set l"
      | "x_state x = kExpectHeaders" "CHR '':'' \<notin> set l" | "x_state x = kExpectBody" | "x_state x = kGotAll"
      by (cases "x_state x") auto
    then show ?thesis
    proof cases
      case s: 1
      then obtain ok q where q: "processRequestLine l (x_request x) = Inr (ok, q)"
        using 1(3) nl by (auto simp: parse_text.simps [of x])
      show ?thesis
      proof (cases ok)
        case True
        have p: "parse_text (x\<lparr>x_request := q, x_state := kExpectHeaders\<rparr>) r = Inr (good, x', rest)"
          using 1(3) s nl q True by (simp add: parse_text.simps [of x])
        show ?thesis using line [OF s nl _ 1(1) [OF s nl refl q refl True p]] q True by simp
      next
        case False
        then show ?thesis using 1(3) s nl q refused [OF s nl] by (auto simp: parse_text.simps [of x])
      qed
    next
      case 2
      let ?x = "x\<lparr>x_request := addHeader (before CHR '':'' l) (tl (from_char CHR '':'' l)) (x_request x)\<rparr>"
      have "parse_text ?x r = Inr (good, x', rest)" using 1(3) 2 nl by (simp add: parse_text.simps [of x])
      from header [OF 2(1) nl 1(2) [OF 2(1) nl refl 2(2) this]] show ?thesis .
    next
      case 3
      then show ?thesis using 1(3) nl finished [OF 3(1) nl] by (auto simp: parse_text.simps [of x])
    qed (use 1(3) in \<open>simp_all add: parse_text.simps [of x]\<close>)
  qed
qed

lemma parse_text_shorter: "parse_text x cs = Inr (good, x', rest) \<Longrightarrow> length rest \<le> length cs"
  by (induction rule: parse_text_result) (auto dest: next_line_shorter)

text \<open>The states of a parse are passed through in the order of their declaration.\<close>

primrec state_rank :: "parse_state \<Rightarrow> nat" where
  "state_rank kExpectRequestLine = 0" | "state_rank kExpectHeaders = 1"
| "state_rank kExpectBody = 2" | "state_rank kGotAll = 3"

lemma state_rank_inject: "state_rank s = state_rank t \<Longrightarrow> s = t"
  by (cases s; cases t) simp_all

instantiation parse_state :: linorder
begin

definition "s \<le> t \<longleftrightarrow> state_rank s \<le> state_rank t" for s t :: parse_state

definition "s < t \<longleftrightarrow> state_rank s < state_rank t" for s t :: parse_state

instance
  by standard (auto simp: less_eq_parse_state_def less_parse_state_def dest: state_rank_inject)

end

lemma parse_state_order [simp]: "kExpectRequestLine \<le> s" "s \<le> kGotAll" "kExpectHeaders \<le> s \<longleftrightarrow> s \<noteq> kExpectRequestLine"
  by (cases s, simp_all add: less_eq_parse_state_def)+

lemma parse_text_forward: "parse_text x cs = Inr (good, x', rest) \<Longrightarrow> x_state x \<le> x_state x'"
  by (induction rule: parse_text_result) auto

lemma parse_text_refused:
  assumes "parse_text x cs = Inr (good, x', rest)"
  shows "\<not> good \<Longrightarrow> x_state x = kExpectRequestLine \<Longrightarrow> \<exists>l r. next_line cs = Some (l, r) \<and>
    processRequestLine l (x_request x) = Inr (False, x_request x') \<and> x_state x' = kExpectRequestLine"
    and "\<not> good \<Longrightarrow> x_state x \<noteq> kExpectHeaders"
  using assms by (induction rule: parse_text_result) simp_all

subsection \<open>Printed requests\<close>

definition render_version :: "http_version \<Rightarrow> string" where
  "render_version v = (case v of kHttp11 \<Rightarrow> ''HTTP/1.1'' | kHttp10 \<Rightarrow> ''HTTP/1.0'' | kUnknown \<Rightarrow> ''HTTP/0.9'')"

fun render_headers :: "(string \<times> string) list \<Rightarrow> string" where
  "render_headers [] = kCRLF"
| "render_headers ((k, v) # hs) = (k @ '': '' @ v) @ kCRLF @ render_headers hs"

definition render_line :: "http_request \<Rightarrow> string" where
  "render_line r = methodString r @ '' '' @ q_path r @ q_query r @ '' '' @ render_version (q_version r)"

definition render_request :: "http_request \<Rightarrow> string" where
  "render_request r = render_line r @ kCRLF @ render_headers (q_headers r)"

text \<open>Requests that can be printed: a known method and version, a target without the characters
  that end it, header fields without a colon, values without white space at their ends.\<close>

definition header_ok :: "string \<times> string \<Rightarrow> bool" where
  "header_ok h \<longleftrightarrow> CHR '':'' \<notin> set (fst h) \<and> CHR 0x0D \<notin> set (fst h) \<and> CHR 0x0D \<notin> set (snd h) \<and>
     (snd h \<noteq> [] \<longrightarrow> \<not> isspace (hd (snd h)) \<and> \<not> isspace (last (snd h)))"

definition printable :: "http_request \<Rightarrow> bool" where
  "printable r \<longleftrightarrow> q_method r \<noteq> kInvalid \<and> q_version r \<noteq> kUnknown \<and>
     set (q_path r) \<inter> {CHR '' '', CHR ''?'', CHR 0x0D} = {} \<and>
     set (q_query r) \<inter> {CHR '' '', CHR 0x0D} = {} \<and> (q_query r \<noteq> [] \<longrightarrow> hd (q_query r) = CHR ''?'') \<and>
     sorted_wrt (<) (map fst (q_headers r)) \<and> (\<forall>h\<in>set (q_headers r). header_ok h)"

lemma split_char:
  "c \<notin> set s \<Longrightarrow> before c (s @ c # t) = s" "c \<notin> set s \<Longrightarrow> from_char c (s @ c # t) = c # t"
  "c \<notin> set s \<Longrightarrow> before c s = s" "c \<notin> set s \<Longrightarrow> from_char c s = []"
  by (induction s) (auto simp: before_def from_char_def)

lemma trim_end_last: "v = [] \<or> \<not> isspace (last v) \<Longrightarrow> trim_end v = v"
  by (cases v) auto

lemma addHeader_printed:
  assumes "header_ok (k, v)"
  shows "addHeader k ('' '' @ v) r = r\<lparr>q_headers := map_assign k v (q_headers r)\<rparr>"
proof -
  have "dropWhile isspace ('' '' @ v) = v"
    using assms by (cases v) (auto simp: header_ok_def isspace_def)
  moreover have "trim_end v = v" using assms by (intro trim_end_last) (auto simp: header_ok_def)
  ultimately show ?thesis by (simp add: addHeader_def)
qed

lemma parse_headers_printed:
  "x_state x = kExpectHeaders \<Longrightarrow> \<forall>h\<in>set hs. header_ok h \<Longrightarrow>
    sorted_wrt (<) (map fst (q_headers (x_request x) @ hs)) \<Longrightarrow>
    parse_text x (render_headers hs @ rest) =
      Inr (True, x\<lparr>x_state := kGotAll, x_request := (x_request x)\<lparr>q_headers := q_headers (x_request x) @ hs\<rparr>\<rparr>, rest)"
proof (induction hs arbitrary: x rule: render_headers.induct)
  case 1
  have "next_line (render_headers [] @ rest) = Some ([], rest)"
    using next_line_plain [of "[]" rest] by simp
  then show ?case using 1 by (simp add: parse_text.simps [of x])
next
  case (2 k v hs)
  have ok: "header_ok (k, v)" "\<forall>h\<in>set hs. header_ok h" using 2(3) by simp_all
  let ?line = "k @ '': '' @ v"
  have "CHR 0x0D \<notin> set ?line" using ok by (auto simp: header_ok_def)
  then have nl: "next_line (render_headers ((k, v) # hs) @ rest) = Some (?line, render_headers hs @ rest)"
    using next_line_plain [of ?line "render_headers hs @ rest"] by simp
  have k: "CHR '':'' \<notin> set k" using ok by (simp add: header_ok_def)
  have sp: "before CHR '':'' ?line = k" "tl (from_char CHR '':'' ?line) = '' '' @ v"
    using split_char(1,2) [OF k, of "'' '' @ v"] by simp_all
  let ?x = "x\<lparr>x_request := addHeader k ('' '' @ v) (x_request x)\<rparr>"
  have last: "map_assign k v (q_headers (x_request x)) = q_headers (x_request x) @ [(k, v)]"
    using 2(4) by (intro assign_last) (auto simp: sorted_wrt_append)
  have r: "addHeader k (CHR '' '' # v) (x_request x) = (x_request x)\<lparr>q_headers := q_headers (x_request x) @ [(k, v)]\<rparr>"
    using addHeader_printed [OF ok(1), of "x_request x"] last by simp
  have "parse_text ?x (render_headers hs @ rest) =
      Inr (True, ?x\<lparr>x_state := kGotAll, x_request := (x_request ?x)\<lparr>q_headers := q_headers (x_request ?x) @ hs\<rparr>\<rparr>, rest)"
    using 2(1) [of ?x] 2(2,4) ok(2) r by simp
  then show ?case using 2(2) nl sp unfolding parse_text.simps [of x] by (simp add: r)
qed

lemma methodString_char: "CHR '' '' \<notin> set (methodString r)" "CHR 0x0D \<notin> set (methodString r)"
  by (cases "q_method r"; simp add: methodString_def)+

lemma setMethod_printed:
  "q_method r \<noteq> kInvalid \<Longrightarrow> q_method x = kInvalid \<Longrightarrow>
    setMethod (methodString r) x = Inr (True, x\<lparr>q_method := q_method r\<rparr>)"
  by (cases "q_method r") (simp_all add: setMethod_def methodString_def)

lemma processTarget_printed:
  assumes r: "printable r"
  shows "processTarget (q_path r @ q_query r @ '' '' @ render_version (q_version r)) x =
    (True, x\<lparr>q_path := q_path r, q_query := (if q_query r = [] then q_query x else q_query r), q_version := q_version r\<rparr>)"
proof -
  let ?t = "q_path r @ q_query r"
  have sp: "CHR '' '' \<notin> set ?t" and q: "CHR ''?'' \<notin> set (q_path r)" using r by (auto simp: printable_def)
  have t: "before CHR '' '' (?t @ CHR '' '' # render_version (q_version r)) = ?t"
    "from_char CHR '' '' (?t @ CHR '' '' # render_version (q_version r)) = CHR '' '' # render_version (q_version r)"
    using split_char [OF sp] by blast+
  have v: "length (render_version (q_version r)) = 8 \<and> take 7 (render_version (q_version r)) = ''HTTP/1.''"
    "last (render_version (q_version r)) = (if q_version r = kHttp11 then CHR ''1'' else CHR ''0'')"
    using r by (cases "q_version r"; simp add: printable_def render_version_def)+
  have vs: "q_version r = kHttp10 \<or> q_version r = kHttp11" using r by (cases "q_version r") (auto simp: printable_def)
  show ?thesis
  proof (cases "q_query r")
    case Nil
    then show ?thesis using t v vs split_char(3,4) [OF q]
      by (auto simp: processTarget_def setPath_def setVersion_def)
  next
    case (Cons c s)
    then have c: "c = CHR ''?''" using r by (simp add: printable_def)
    show ?thesis using t v vs split_char(1,2) [OF q, of s] Cons c
      by (auto simp: processTarget_def setPath_def setQuery_def setVersion_def)
  qed
qed

lemma request_line_printed:
  assumes r: "printable r"
  shows "processRequestLine (render_line r) HttpRequest = Inr (True, r\<lparr>q_headers := []\<rparr>)"
proof -
  let ?rest = "q_path r @ q_query r @ '' '' @ render_version (q_version r)"
  have "render_line r = methodString r @ CHR '' '' # ?rest" by (simp add: render_line_def)
  then have sp: "before CHR '' '' (render_line r) = methodString r" "from_char CHR '' '' (render_line r) = CHR '' '' # ?rest"
    using split_char(1,2) [OF methodString_char(1)] by metis+
  have m: "setMethod (methodString r) HttpRequest = Inr (True, HttpRequest\<lparr>q_method := q_method r\<rparr>)"
    using r by (intro setMethod_printed) (auto simp: printable_def HttpRequest_def)
  show ?thesis using processTarget_printed [OF r] m
    by (simp add: processRequestLine_def sp) (simp add: HttpRequest_def)
qed

lemma parse_printed:
  assumes r: "printable r"
  shows "parse_text HttpContext (render_request r @ rest) = Inr (True, \<lparr>x_state = kGotAll, x_request = r\<rparr>, rest)"
proof -
  have "CHR 0x0D \<notin> set (render_line r)"
    using r methodString_char(2) [of r]
    by (cases "q_version r") (auto simp: render_line_def printable_def render_version_def)
  then have nl: "next_line (render_request r @ rest) = Some (render_line r, render_headers (q_headers r) @ rest)"
    using next_line_plain [of "render_line r" "render_headers (q_headers r) @ rest"]
    by (simp add: render_request_def)
  let ?x = "\<lparr>x_state = kExpectHeaders, x_request = r\<lparr>q_headers := []\<rparr>\<rparr>"
  have "parse_text ?x (render_headers (q_headers r) @ rest) = Inr (True, \<lparr>x_state = kGotAll, x_request = r\<rparr>, rest)"
    using r parse_headers_printed [of ?x "q_headers r" rest] by (simp add: printable_def)
  then show ?thesis using nl request_line_printed [OF r]
    unfolding parse_text.simps [of HttpContext] by (simp add: HttpContext_def)
qed

subsection \<open>Printed responses\<close>

lemma length_dec: "n < 10 ^ Suc k \<Longrightarrow> length (dec n) \<le> Suc k"
proof (induction k arbitrary: n)
  case (Suc k)
  show ?case
  proof (cases "n < 10")
    case False
    have "n div 10 < 10 ^ Suc k" using Suc(2) by (simp add: div_less_iff_less_mult mult.commute)
    then show ?thesis using Suc(1) [of "n div 10"] False by (simp add: dec.simps [of n])
  qed (simp add: dec.simps [of n])
qed (subst dec.simps, simp)

definition response_text :: "http_response \<Rightarrow> string" where
  "response_text p =
     ''HTTP/1.1 '' @ dec (status_number (p_statusCode p)) @ '' '' @ p_statusMessage p @ kCRLF @
     (if p_closeConnection p then ''Connection: close'' @ kCRLF
      else ''Content-Length: '' @ dec (length (p_body p)) @ kCRLF @ ''Connection: Keep-Alive'' @ kCRLF) @
     render_headers (p_headers p) @ p_body p"

lemma render_headers_concat:
  "render_headers hs = concat (concat (map (\<lambda>(key, v). [key, '': '', v, kCRLF]) hs)) @ kCRLF"
  by (induction hs rule: render_headers.induct) simp_all

lemma response_strings_text:
  assumes "length (p_body p) < 10 ^ 13"
  shows "concat (response_strings p) = response_text p"
proof -
  have "status_number (p_statusCode p) < 10 ^ Suc 2" by (cases "p_statusCode p") (auto simp: status_number_def)
  then have "length (dec (status_number (p_statusCode p))) \<le> 3" using length_dec by fastforce
  then have 1: "snprintf32 (''HTTP/1.1 '' @ dec (status_number (p_statusCode p)) @ '' '')
      = ''HTTP/1.1 '' @ dec (status_number (p_statusCode p)) @ '' ''"
    unfolding snprintf32_def by (intro take_all) simp
  have "length (dec (length (p_body p))) \<le> 13" using length_dec [of "length (p_body p)" 12] assms by simp
  then have 2: "snprintf32 (''Content-Length: '' @ dec (length (p_body p)) @ kCRLF)
      = ''Content-Length: '' @ dec (length (p_body p)) @ kCRLF"
    unfolding snprintf32_def by (intro take_all) simp
  show ?thesis
    unfolding response_strings_def response_text_def 1 2 render_headers_concat by simp
qed

lemma write_all_appends:
  assumes "buf_ok w b" "fresh_ok w" "int (length (concat ss)) \<le> writableBytes b" "capacity b \<le> b_maxCapacity b"
  shows "\<exists>b' w'. write_all ss (Some b) w = Inr (Some b', w') \<and> buf_ok w' b' \<and> fresh_ok w' \<and>
     unread w' b' = unread w b @ map Some (concat ss)"
  using assms
proof (induction ss arbitrary: b w)
  case (Cons s ss)
  let ?b = "b\<lparr>b_writerIndex := b_writerIndex b + int (length s)\<rparr>"
  have n: "int (length s) \<le> writableBytes b" using Cons(4) by simp
  obtain w1 where 1: "writeBytes s (int (length s)) b w = Inr (?b, w1)" "buf_ok w1 ?b" "fresh_ok w1"
    "unread w1 ?b = unread w b @ map Some s"
    using writeBytes_fits [OF Cons(2,3) n Cons(5)] by blast
  have i: "i32 (int (length s)) = int (length s)"
    using n Cons(2) by (intro i32_id) (auto simp: writableBytes_def capacity_def buf_ok_def)
  have "int (length (concat ss)) \<le> writableBytes ?b" "capacity ?b \<le> b_maxCapacity ?b"
    using Cons(4,5) by (simp_all add: writableBytes_def capacity_def)
  from Cons(1) [OF 1(2,3) this] show ?case using 1 i
    by (auto simp: buffer_writeString_def on_buf_def)
qed auto

end
