(* ===== verification/HttpCorrect.thy ===== *)
theory HttpCorrect
  imports HttpSpec
begin

text \<open>
  The promises of the HTTP layer over buffers: parsing is a function of the unread bytes and
  returns, the cuts between reads do not matter, printed requests are read back, a response goes
  out as its text, and a request line refused behind its method stops the process at the next read.
\<close>

subsection \<open>Buffers that hold a text\<close>

definition text_buf :: "string \<Rightarrow> byte_buf" where
  "text_buf s = sample_buf\<lparr>b_length := 256, b_maxLength := 256, b_writerIndex := int (length s)\<rparr>"

definition text_pool :: "string \<Rightarrow> pool" where
  "text_pool s = sample_pool\<lparr>w_mem := [0 \<mapsto> (1024, write_bytes Map.empty 8 s)]\<rparr>"

lemma text_buf_ok: "length s \<le> 256 \<Longrightarrow> buf_ok (text_pool s) (text_buf s)"
  by (simp add: buf_ok_def in_region_def text_buf_def text_pool_def sample_buf_def)

lemma text_buf_unread: "unread (text_pool s) (text_buf s) = map Some s"
  by (rule nth_equalityI)
    (auto simp: unread_def byte_at_def text_buf_def text_pool_def sample_buf_def write_bytes_def)

lemma text_pool_fresh: "fresh_ok (text_pool s)"
  by (simp add: fresh_ok_def text_pool_def sample_pool_def)

definition sample_request :: http_request where
  "sample_request = \<lparr>q_method = kGet, q_version = kHttp11, q_path = ''/a'', q_query = ''?b=1'',
     q_headers = [(''Accept'', ''*''), (''Host'', ''h'')]\<rparr>"

lemma sample_printable: "printable sample_request"
  by (simp add: printable_def sample_request_def header_ok_def isspace_def)

text \<open>C19. Parsing is a function of the unread bytes: on any buffer in order, wherever the pool has
  put it, \<^verbatim>\<open>parseRequest\<close> does what the parser on lists of characters does with its unread bytes,
  failures included, and leaves in the buffer exactly the bytes that parser leaves.\<close>

theorem parse_refines_text:
  assumes ok: "buf_ok w b" and u: "unread w b = map Some cs"
  shows "case parse_text x cs of
      Inl e \<Rightarrow> parseRequest w x (Some b) = Inl e
    | Inr (ok, x', rest) \<Rightarrow> (\<exists>b'. parseRequest w x (Some b) = Inr (ok, x', Some b') \<and>
        buf_ok w b' \<and> unread w b' = map Some rest)"
  using parseRequest_text [OF assms] by (simp add: same_parse_def)

theorem parse_refines_text_witness:
  "\<exists>b'. parseRequest (text_pool ''GET'') HttpContext (Some (text_buf ''GET'')) = Inr (True, HttpContext, Some b') \<and>
     buf_ok (text_pool ''GET'') b' \<and> unread (text_pool ''GET'') b' = map Some ''GET''"
proof -
  have "parse_text HttpContext ''GET'' = Inr (True, HttpContext, ''GET'')"
    by (simp add: parse_text.simps HttpContext_def next_line_def)
  then show ?thesis
    using parse_refines_text [OF text_buf_ok text_buf_unread, of "''GET''" HttpContext] by simp
qed



text \<open>C18. The cuts do not matter: when a first part of the bytes is parsed without error and without
  finishing the request, parsing the rest with more bytes behind it gives the verdict, the context
  and the bytes left that one parse of everything together gives.\<close>

theorem parse_in_parts:
  assumes b1: "buf_ok w1 b1" "unread w1 b1 = map Some xs"
    and p1: "parseRequest w1 x (Some b1) = Inr (True, x', Some b1')" "\<not> gotAll x'"
    and b2: "buf_ok w2 b2" "unread w2 b2 = unread w1 b1' @ map Some ys"
    and b: "buf_ok w b" "unread w b = map Some (xs @ ys)"
  shows "case parseRequest w x (Some b) of
      Inl e \<Rightarrow> parseRequest w2 x' (Some b2) = Inl e
    | Inr (good, x'', buf) \<Rightarrow> (\<exists>b' b2'. buf = Some b' \<and>
        parseRequest w2 x' (Some b2) = Inr (good, x'', Some b2') \<and> unread w2 b2' = unread w b')"
proof -
  obtain rest where t1: "parse_text x xs = Inr (True, x', rest)" and r: "unread w1 b1' = map Some rest"
    using same_parseD(3) [OF parseRequest_text [OF b1] p1(1)] by auto
  have t: "parse_text x (xs @ ys) = parse_text x' (rest @ ys)" using p1(2) by (simp add: parse_text_more t1)
  have "unread w2 b2 = map Some (rest @ ys)" using b2 r by simp
  note s2 = parseRequest_text [OF b2(1) this, of x', folded t] and s = parseRequest_text [OF b, of x]
  show ?thesis
  proof (cases "parse_text x (xs @ ys)")
    case (Inl e)
    then show ?thesis using same_parseD(1) [OF s Inl] same_parseD(1) [OF s2 Inl] by simp
  next
    case (Inr y)
    obtain good x'' rest' where y: "y = (good, x'', rest')" by (cases y)
    show ?thesis using same_parseD(2) [OF s Inr [unfolded y]] same_parseD(2) [OF s2 Inr [unfolded y]] by auto
  qed
qed

theorem parse_in_parts_witness:
  "\<exists>x' b1' w b' b2'. parseRequest (text_pool ''GET /'') HttpContext (Some (text_buf ''GET /'')) = Inr (True, x', Some b1') \<and>
     parseRequest w HttpContext (Some (text_buf (''GET /'' @ '' HTTP''))) = Inr (True, x', Some b') \<and>
     parseRequest w x' (Some (text_buf (''GET /'' @ '' HTTP''))) = Inr (True, x', Some b2') \<and>
     unread w b2' = unread w b'"
proof -
  let ?xs = "''GET /''" and ?ys = "'' HTTP''" and ?x = HttpContext
  let ?w = "text_pool (?xs @ ?ys)" and ?b = "text_buf (?xs @ ?ys)"
  have p: "parse_text ?x ?xs = Inr (True, ?x, ?xs)" "parse_text ?x (?xs @ ?ys) = Inr (True, ?x, ?xs @ ?ys)"
    by (simp_all add: parse_text.simps HttpContext_def next_line_def)
  have b1: "buf_ok (text_pool ?xs) (text_buf ?xs)" and b: "buf_ok ?w ?b" by (simp_all add: text_buf_ok)
  obtain b1' where 1: "parseRequest (text_pool ?xs) ?x (Some (text_buf ?xs)) = Inr (True, ?x, Some b1')"
    "unread (text_pool ?xs) b1' = map Some ?xs"
    using same_parseD(2) [OF parseRequest_text [OF b1 text_buf_unread] p(1)] by blast
  obtain b' where 2: "parseRequest ?w ?x (Some ?b) = Inr (True, ?x, Some b')"
    using same_parseD(2) [OF parseRequest_text [OF b text_buf_unread] p(2)] by blast
  have g: "\<not> gotAll ?x" by (simp add: gotAll_def HttpContext_def)
  have u: "unread ?w ?b = unread (text_pool ?xs) b1' @ map Some ?ys" by (simp add: 1(2) text_buf_unread)
  show ?thesis
    using parse_in_parts [OF b1 text_buf_unread 1(1) g b u b text_buf_unread] 1(1) 2 by auto
qed

text \<open>C7. A printed request is read back: whatever the buffer holds behind it, parsing the text of a
  printable request from the start gives exactly that request, finished, and leaves what is behind.\<close>

theorem request_roundtrip:
  assumes r: "printable r" and ok: "buf_ok w b" and u: "unread w b = map Some (render_request r @ rest)"
  shows "\<exists>b'. parseRequest w HttpContext (Some b) = Inr (True, \<lparr>x_state = kGotAll, x_request = r\<rparr>, Some b') \<and>
     buf_ok w b' \<and> unread w b' = map Some rest"
  by (rule same_parseD(2) [OF parseRequest_text [OF ok u] parse_printed [OF r]])

theorem request_roundtrip_witness:
  "\<exists>b'. parseRequest (text_pool (render_request sample_request @ ''xy'')) HttpContext
       (Some (text_buf (render_request sample_request @ ''xy''))) =
       Inr (True, \<lparr>x_state = kGotAll, x_request = sample_request\<rparr>, Some b') \<and>
     buf_ok (text_pool (render_request sample_request @ ''xy'')) b' \<and>
     unread (text_pool (render_request sample_request @ ''xy'')) b' = map Some ''xy''"
proof -
  have "length (render_request sample_request @ ''xy'') \<le> 256"
    by (simp add: render_request_def render_line_def sample_request_def methodString_def render_version_def)
  from request_roundtrip [OF sample_printable text_buf_ok [OF this] text_buf_unread] show ?thesis .
qed

text \<open>C39. A bad target stops the process: when a request line is refused behind a known method, its
  bytes and the method stay, and the next call of \<^verbatim>\<open>parseRequest\<close>, with any bytes behind them, fails
  the assertion that no method has been set.\<close>

theorem refused_line_aborts:
  assumes x: "x_state x = kExpectRequestLine" "q_method (x_request x) = kInvalid"
    and b: "buf_ok w b" "unread w b = map Some cs"
    and p: "parseRequest w x (Some b) = Inr (False, x', buf)" "q_method (x_request x') \<noteq> kInvalid"
    and b2: "buf_ok w2 b2" "unread w2 b2 = map Some (cs @ ys)"
  shows "parseRequest w2 x' (Some b2) = Inl AssertFailed"
proof -
  obtain rest where t: "parse_text x cs = Inr (False, x', rest)"
    using same_parseD(3) [OF parseRequest_text [OF b] p(1)] by auto
  obtain l r where l: "next_line cs = Some (l, r)" "x_state x' = kExpectRequestLine"
    "processRequestLine l (x_request x) = Inr (False, x_request x')"
    using parse_text_refused(1) [OF t _ x(1)] by blast
  have "parse_text x' (cs @ ys) = Inl AssertFailed"
    using next_line_more [OF l(1), of ys] request_line_again [OF l(3) p(2) x(2)] l(2)
    by (simp add: parse_text.simps [of x'])
  then show ?thesis by (rule same_parseD(1) [OF parseRequest_text [OF b2]])
qed

theorem refused_line_aborts_witness:
  "\<exists>x' buf. parseRequest (text_pool (''GET /'' @ kCRLF)) HttpContext (Some (text_buf (''GET /'' @ kCRLF))) = Inr (False, x', buf) \<and>
     parseRequest (text_pool (''GET /'' @ kCRLF @ ''x'')) x' (Some (text_buf (''GET /'' @ kCRLF @ ''x''))) = Inl AssertFailed"
proof -
  let ?cs = "''GET /'' @ kCRLF" and ?x = HttpContext
  let ?x' = "?x\<lparr>x_request := HttpRequest\<lparr>q_method := kGet\<rparr>\<rparr>"
  have "processRequestLine ''GET /'' HttpRequest = Inr (False, HttpRequest\<lparr>q_method := kGet\<rparr>)"
    by (simp add: processRequestLine_def processTarget_def before_def from_char_def setMethod_def HttpRequest_def)
  moreover have "next_line ?cs = Some (''GET /'', [])" by (simp add: next_line_def)
  ultimately have p: "parse_text ?x ?cs = Inr (False, ?x', ?cs)"
    unfolding parse_text.simps [of ?x] by (simp add: HttpContext_def)
  have b: "buf_ok (text_pool ?cs) (text_buf ?cs)" "buf_ok (text_pool (?cs @ ''x'')) (text_buf (?cs @ ''x''))"
    by (simp_all add: text_buf_ok)
  obtain b' where 1: "parseRequest (text_pool ?cs) ?x (Some (text_buf ?cs)) = Inr (False, ?x', Some b')"
    using same_parseD(2) [OF parseRequest_text [OF b(1) text_buf_unread] p] by blast
  have x: "x_state ?x = kExpectRequestLine" "q_method (x_request ?x) = kInvalid" "q_method (x_request ?x') \<noteq> kInvalid"
    by (simp_all add: HttpContext_def HttpRequest_def)
  show ?thesis
    using 1 refused_line_aborts [OF x(1,2) b(1) text_buf_unread 1 x(3) b(2) text_buf_unread] by auto
qed

text \<open>A response goes out as its text: when it fits into the buffer, \<^verbatim>\<open>appendToBuffer\<close> returns and
  appends the status line, the connection header, the length of the body in decimal, the headers in
  the order of their keys, an empty line and the body; the array for the numbers does not cut them.\<close>

lemma response_rendered:
  assumes ok: "buf_ok w b" "fresh_ok w" "capacity b \<le> b_maxCapacity b"
    and n: "int (length (response_text p)) \<le> writableBytes b" and body: "length (p_body p) < 10 ^ 13"
  shows "\<exists>b' w'. appendToBuffer p (Some b) w = Inr (Some b', w') \<and> buf_ok w' b' \<and>
     unread w' b' = unread w b @ map Some (response_text p)"
  using write_all_appends [OF ok(1,2) _ ok(3), of "response_strings p"] n
  unfolding appendToBuffer_def response_strings_text [OF body] by blast

lemma response_rendered_witness:
  "\<exists>b' w'. appendToBuffer (defaultHttpCallback HttpRequest (HttpResponse False)) (Some (text_buf [])) (text_pool [])
       = Inr (Some b', w') \<and> buf_ok w' b' \<and>
     unread w' b' = map Some (''HTTP/1.1 404 Not Found'' @ kCRLF @ ''Connection: close'' @ kCRLF @ kCRLF)"
proof -
  let ?p = "defaultHttpCallback HttpRequest (HttpResponse False)"
  have p: "response_text ?p = ''HTTP/1.1 404 Not Found'' @ kCRLF @ ''Connection: close'' @ kCRLF @ kCRLF"
    "p_body ?p = []"
    by (simp_all add: response_text_def defaultHttpCallback_def HttpResponse_def setCloseConnection_def
        setStatusMessage_def setStatusCode_def status_number_def dec.simps)
  have b: "buf_ok (text_pool []) (text_buf [])" "capacity (text_buf []) \<le> b_maxCapacity (text_buf [])"
    "writableBytes (text_buf []) = 256"
    by (simp_all add: text_buf_ok) (simp_all add: text_buf_def sample_buf_def capacity_def writableBytes_def)
  show ?thesis using response_rendered [OF b(1) text_pool_fresh b(2), of ?p]
    by (simp add: p b(3) text_buf_unread)
qed

end
