(* ===== verification/TcpStream.thy ===== *)
theory TcpStream
  imports TcpConnection ByteBufSpec
begin

text \<open>
  The byte stream of a connection: what the kernel has taken and what waits in the output buffer are,
  in this order, the messages sent. It is the contract of sending, of the handler that writes when
  the socket is ready, and of the shutdown that waits for the buffer to run empty.
\<close>

subsection \<open>The kernel\<close>

text \<open>\<^verbatim>\<open>write\<close> takes at most the bytes it is given; and a peer that is still there.\<close>

definition os_ok :: "os \<Rightarrow> bool" where
  "os_ok os \<longleftrightarrow> (\<forall>k fd d n. os_write os k fd d = Inr n \<longrightarrow> n \<le> length d)"

definition peer_there :: "os \<Rightarrow> bool" where
  "peer_there os \<longleftrightarrow> (\<forall>k fd d. os_write os k fd d \<noteq> Inl EPIPE \<and> os_write os k fd d \<noteq> Inl ECONNRESET)"

subsection \<open>What the operations of the loop change\<close>

lemma queueInLoop_fields:
  assumes "queueInLoop f s = Inr s'"
  shows "\<exists>k. s' = s\<lparr>l_funcs := l_funcs s @ [f], l_eventfd := k\<rparr>"
proof -
  have "s' = s\<lparr>l_funcs := l_funcs s @ [f]\<rparr> \<or> s' = wakeup (s\<lparr>l_funcs := l_funcs s @ [f]\<rparr>)"
    using assms by (auto simp: queueInLoop_def Let_def split: if_splits option.splits)
  then show ?thesis
    by (elim disjE) (auto simp: wakeup_def intro: exI [of _ "l_eventfd s"])
qed

lemma ep_updateChannel_fields:
  assumes "ep_updateChannel b a cs p = Inr (cs', p')" and "cs a = Some c"
  shows "\<exists>i. cs' = cs(a \<mapsto> c\<lparr>c_index := i\<rparr>)"
proof -
  have "cs' = cs(a \<mapsto> c\<lparr>c_index := kAdded\<rparr>) \<or> cs' = cs(a \<mapsto> c\<lparr>c_index := kDeleted\<rparr>) \<or> cs' = cs"
    using assms
    by (auto simp: ep_updateChannel_def assertInLoopThread_def Let_def setIndex_def split: if_splits)
  moreover have "cs = cs(a \<mapsto> c\<lparr>c_index := c_index c\<rparr>)" using assms(2) by auto
  ultimately show ?thesis by blast
qed

lemma set_events_fields:
  assumes "set_events f a s = Inr s'" and c: "l_channels s a = Some c"
  shows "\<exists>i p. s' = s\<lparr>l_channels := (l_channels s)(a \<mapsto> c\<lparr>c_events := f (c_events c), c_index := i\<rparr>), l_poller := p\<rparr>"
proof -
  let ?cs = "(l_channels s)(a \<mapsto> c\<lparr>c_events := f (c_events c)\<rparr>)"
  obtain cs' p' where u: "ep_updateChannel (l_inThread s) a ?cs (l_poller s) = Inr (cs', p')"
    and s': "s' = s\<lparr>l_channels := cs', l_poller := p'\<rparr>"
    using assms by (auto simp: set_events_def updateChannel_def assertInLoopThread_def split: if_splits)
  have "?cs a = Some (c\<lparr>c_events := f (c_events c)\<rparr>)" by simp
  from ep_updateChannel_fields [OF u this] obtain i where
    "cs' = (l_channels s)(a \<mapsto> c\<lparr>c_events := f (c_events c), c_index := i\<rparr>)"
    by (simp only: fun_upd_upd) blast
  then show ?thesis unfolding s' by blast
qed

lemma or_bit: "(e OR 4) AND 4 = (4::int)" and and_not_bit: "(e AND NOT 4) AND 4 = (0::int)"
  by (rule bit_eqI; auto simp: bit_simps)+

lemma and_not_bit4: "(e AND - 5) AND 4 = (0::int)"
  using and_not_bit [of e] by simp

lemma net_pool_put: "net_pool s = Inr w \<Longrightarrow> net_pool (put_pool w' s) = Inr w'"
  by (auto simp: net_pool_def put_pool_def threadCache_def arena_at_def split: option.splits)

lemma net_pool_cong: "n_alloc s' = n_alloc s \<Longrightarrow> net_pool s' = net_pool s"
  by (simp add: net_pool_def)

subsection \<open>The view of a connection\<close>

definition out_view :: "nat \<Rightarrow> net \<Rightarrow> conn \<Rightarrow> channel \<Rightarrow> byte_buf \<Rightarrow> pool \<Rightarrow> string \<Rightarrow> bool" where
  "out_view c s t ch b w sent \<longleftrightarrow>
     l_inThread s \<and> n_conns s c = Some t \<and> l_channels s (t_channel t) = Some ch \<and> c_fd ch = t_socket t \<and>
     t_outputBuffer t = Some b \<and> net_pool s = Inr w \<and> buf_ok w b \<and> fresh_ok w \<and>
     (t_state t = kConnected \<or> t_state t = kDisconnecting) \<and>
     map Some (n_wire s (t_socket t)) @ unread w b = map Some sent \<and>
     (isWriting ch \<longleftrightarrow> readableBytes b \<noteq> 0) \<and>
     (t_socket t \<in> n_shut s \<longrightarrow> readableBytes b = 0 \<and> t_state t = kDisconnecting)"

definition out_ok :: "nat \<Rightarrow> net \<Rightarrow> string \<Rightarrow> bool" where
  "out_ok c s sent \<longleftrightarrow> (\<exists>t ch b w. out_view c s t ch b w sent)"

text \<open>The pool has kept the output buffer in order.\<close>

definition out_sound :: "nat \<Rightarrow> net \<Rightarrow> bool" where
  "out_sound c s \<longleftrightarrow> (\<exists>t b w. n_conns s c = Some t \<and> t_outputBuffer t = Some b \<and> net_pool s = Inr w \<and> buf_ok w b)"

lemma out_view_cong:
  assumes "out_view c s t ch b w sent" "l_inThread s' = l_inThread s" "n_conns s' = n_conns s"
    "l_channels s' = l_channels s" "n_alloc s' = n_alloc s" "n_shut s' = n_shut s"
    "n_wire s' = (n_wire s)(t_socket t := n_wire s (t_socket t) @ extra)"
    "unread w b = []"
  shows "out_view c s' t ch b w (sent @ extra)"
  using assms net_pool_cong [OF assms(5)] by (simp add: out_view_def)

lemma out_view_same:
  assumes "out_view c s t ch b w sent" "l_inThread s' = l_inThread s" "n_conns s' = n_conns s"
    "l_channels s' = l_channels s" "n_alloc s' = n_alloc s" "n_shut s' = n_shut s" "n_wire s' = n_wire s"
  shows "out_view c s' t ch b w sent"
  using assms net_pool_cong [OF assms(5)] by (simp add: out_view_def)

lemma readable_zero: "buf_ok w b \<Longrightarrow> readableBytes b = 0 \<longleftrightarrow> unread w b = []"
  using length_unread [of b w] by (auto simp: buf_ok_def)

lemma out_view_empty: "out_view c s t ch b w sent \<Longrightarrow> readableBytes b = 0 \<longleftrightarrow> unread w b = []"
  using readable_zero by (auto simp: out_view_def)

lemma try_write_out:
  assumes v: "out_view c s t ch b w sent" and os: "os_ok os" "peer_there os" and e: "unread w b = []"
    and tw: "try_write os c t ch data s = Inr (nw, remaining, fault, s1)" and len: "int (length data) \<le> INT_MAX"
  shows "out_view c s1 t ch b w (sent @ take nw data) \<and> remaining = int (length (drop nw data)) \<and> \<not> fault"
proof (cases "os_write os (n_tick s) (c_fd ch) data")
  case (Inl err)
  let ?s = "s\<lparr>n_tick := n_tick s + 1, n_wire := (n_wire s)(c_fd ch := n_wire s (c_fd ch) @ [])\<rparr>"
  have "s1 = ?s" "nw = 0" "remaining = int (length data)" "\<not> fault"
    using tw Inl os(2) by (auto simp: try_write_def sys_write_def peer_there_def)
  moreover have "out_view c ?s t ch b w sent" by (rule out_view_same [OF v]) auto
  ultimately show ?thesis by simp
next
  case (Inr n)
  let ?s = "s\<lparr>n_tick := n_tick s + 1, n_wire := (n_wire s)(c_fd ch := n_wire s (c_fd ch) @ take n data)\<rparr>"
  have n: "n \<le> length data" using os(1) Inr by (auto simp: os_ok_def)
  have fd: "c_fd ch = t_socket t" using v by (simp add: out_view_def)
  have u: "u64 (int (length data) - int n) = int (length (drop n data))"
    unfolding u64_def using n len by (subst take_bit_int_eq_self) auto
  have v1: "out_view c ?s t ch b w (sent @ take n data)" by (rule out_view_cong [OF v]) (auto simp: fd e)
  have "nw = n \<and> remaining = int (length (drop n data)) \<and> \<not> fault \<and> (s1 = ?s \<or> queueInLoop (WriteComplete c) ?s = Inr s1)"
    using tw Inr by (auto simp: try_write_def sys_write_def Let_def u split: if_splits)
  moreover have "out_view c s1 t ch b w (sent @ take n data)" if "queueInLoop (WriteComplete c) ?s = Inr s1"
    using queueInLoop_fields [OF that] out_view_same [OF v1, of s1] by auto
  ultimately show ?thesis using v1 by blast
qed

lemma buffer_rest_out:
  assumes v: "out_view c s t ch b w sent" and br: "buffer_rest c t ch old rest remaining s = Inr s'"
    and r: "remaining = int (length rest)" "rest \<noteq> []" and len: "int (length rest) \<le> INT_MAX"
    and sound: "out_sound c s'" and st: "t_state t = kConnected"
  shows "out_ok c s' (sent @ rest)"
proof -
  obtain s1 w1 bf w' where q: "(if old + remaining \<ge> t_highWaterMark t \<and> old < t_highWaterMark t \<and> t_hasHighWater t
        then queueInLoop (HighWater c (old + remaining)) s else Inr s) = Inr s1" and w1: "net_pool s1 = Inr w1"
    and wr: "buffer_writeBytes rest (i32 remaining) (t_outputBuffer t) w1 = Inr (bf, w')"
    and en: "(if \<not> isWriting ch then enableWriting (t_channel t) (put_conn c (\<lambda>t. t\<lparr>t_outputBuffer := bf\<rparr>) (put_pool w' s1))
        else Inr (put_conn c (\<lambda>t. t\<lparr>t_outputBuffer := bf\<rparr>) (put_pool w' s1))) = Inr s'"
    using br unfolding buffer_rest_def rbind_Inr_iff Let_def split_paired_Ex prod.case by blast
  have s1: "s1 = s \<or> (\<exists>k. queueInLoop (HighWater c k) s = Inr s1)" using q by (auto split: if_splits)
  have v1: "out_view c s1 t ch b w sent"
  proof -
    { fix k assume "queueInLoop (HighWater c k) s = Inr s1"
      from queueInLoop_fields [OF this] have ?thesis using out_view_same [OF v, of s1] by auto }
    then show ?thesis using s1 v by blast
  qed
  then have ww: "w1 = w" and tb: "t_outputBuffer t = Some b" and ok: "buf_ok w b" "fresh_ok w" using w1 by (auto simp: out_view_def)
  have "i32 remaining = int (length rest)" using r len by (simp add: i32_id)
  then obtain b' where b': "bf = Some b'" and wb: "writeBytes rest (int (length rest)) b w = Inr (b', w')"
    using wr by (auto simp: buffer_writeBytes_def on_buf_def tb ww)
  let ?t = "t\<lparr>t_outputBuffer := Some b'\<rparr>"
  let ?s2 = "put_conn c (\<lambda>t. t\<lparr>t_outputBuffer := bf\<rparr>) (put_pool w' s1)"
  have c2: "n_conns ?s2 c = Some ?t" using v1 b' by (simp add: out_view_def put_conn_def put_pool_def)
  have p2: "net_pool ?s2 = Inr w'"
    using net_pool_put [OF w1] net_pool_cong [of ?s2 "put_pool w' s1"] by (simp add: put_conn_def)
  have f2: "l_inThread ?s2 = l_inThread s1" "l_channels ?s2 = l_channels s1" "n_wire ?s2 = n_wire s1" "n_shut ?s2 = n_shut s1"
    by (simp_all add: put_conn_def put_pool_def)
  have ch2: "l_channels ?s2 (t_channel t) = Some ch" using v1 f2 by (simp add: out_view_def)
  obtain ch' where s': "n_conns s' c = Some ?t" "net_pool s' = Inr w'" "l_channels s' (t_channel t) = Some ch'"
      "isWriting ch'" "c_fd ch' = c_fd ch" "l_inThread s' = l_inThread s1" "n_wire s' = n_wire s1" "n_shut s' = n_shut s1"
  proof (cases "isWriting ch")
    case True
    then show ?thesis using that [of ch] en c2 p2 f2 ch2 by simp
  next
    case False
    then have e: "set_events (\<lambda>e. e OR kWriteEvent) (t_channel t) ?s2 = Inr s'" using en by (simp add: enableWriting_def)
    obtain i p where "s' = ?s2\<lparr>l_channels := (l_channels ?s2)(t_channel t \<mapsto> ch\<lparr>c_events := c_events ch OR kWriteEvent, c_index := i\<rparr>), l_poller := p\<rparr>"
      using set_events_fields [OF e ch2] by blast
    then show ?thesis
      using that [of "ch\<lparr>c_events := c_events ch OR kWriteEvent, c_index := i\<rparr>"] c2 p2 f2 net_pool_cong [of s' ?s2]
      by (simp add: isWriting_def or_bit)
  qed
  have "buf_ok w' b'" using sound s'(1,2) by (auto simp: out_sound_def)
  moreover have "in_region w' b'" using \<open>buf_ok w' b'\<close> by (simp add: buf_ok_def)
  moreover from writeBytes_unread [OF ok wb this] have
    "unread w' b' = unread w b @ map Some rest" "fresh_ok w'" by simp_all
  moreover have "readableBytes b' \<noteq> 0"
    using calculation r(2) readable_zero by auto
  moreover have "t_socket t \<notin> n_shut s1" using v1 st by (auto simp: out_view_def)
  ultimately have "out_view c s' ?t ch' b' w' (sent @ rest)"
    using v1 s' by (simp add: out_view_def)
  then show ?thesis unfolding out_ok_def by blast
qed


lemma sendInLoop_out:
  assumes v: "out_ok c s sent" and os: "os_ok os" "peer_there os" and len: "int (length data) \<le> INT_MAX"
    and sd: "sendInLoop os c data s = Inr s'" and sound: "out_sound c s'"
    and st: "\<And>t. n_conns s c = Some t \<Longrightarrow> t_state t = kConnected"
  shows "out_ok c s' (sent @ data)"
proof -
  obtain t ch b w where v: "out_view c s t ch b w sent" using v by (auto simp: out_ok_def)
  have t: "t_state t = kConnected" using st v by (auto simp: out_view_def)
  have get: "get_conn c s = Inr t" "get_channel t s = Inr ch" "buffer_readableBytes (t_outputBuffer t) = Inr (readableBytes b)"
    using v by (auto simp: out_view_def get_conn_def get_channel_def buffer_readableBytes_def on_buf_def)
  have "rbind (if \<not> isWriting ch \<and> readableBytes b = 0 then try_write os c t ch data s
        else Inr (0, int (length data), False, s)) (\<lambda>(nw, remaining, fault, s1).
      assert_that (remaining \<le> int (length data))
      (if \<not> fault \<and> remaining > 0 then buffer_rest c t ch (readableBytes b) (drop nw data) remaining s1 else Inr s1)) = Inr s'"
    using sd v t by (simp add: sendInLoop_def get assertInLoopThread_def out_view_def)
  then obtain nw remaining fault s1 where
    tw: "(if \<not> isWriting ch \<and> readableBytes b = 0 then try_write os c t ch data s
      else Inr (0, int (length data), False, s)) = Inr (nw, remaining, fault, s1)"
    and br: "(if \<not> fault \<and> remaining > 0 then buffer_rest c t ch (readableBytes b) (drop nw data) remaining s1 else Inr s1) = Inr s'"
    unfolding rbind_Inr_iff split_paired_Ex prod.case assert_that_Inr by blast
  have "out_view c s1 t ch b w (sent @ take nw data) \<and> remaining = int (length (drop nw data)) \<and> \<not> fault"
  proof (cases "\<not> isWriting ch \<and> readableBytes b = 0")
    case True
    then show ?thesis using try_write_out [OF v os _ _ len] tw out_view_empty [OF v] by simp
  qed (use tw v in auto)
  then have v1: "out_view c s1 t ch b w (sent @ take nw data)" and r: "remaining = int (length (drop nw data))" "\<not> fault"
    by simp_all
  show ?thesis
  proof (cases "drop nw data = []")
    case True
    then have "s1 = s'" "take nw data = data" using br r by simp_all
    then show ?thesis using v1 by (auto simp: out_ok_def)
  next
    case False
    then have "buffer_rest c t ch (readableBytes b) (drop nw data) remaining s1 = Inr s'" using br r by simp
    from buffer_rest_out [OF v1 this r(1) False _ sound t] len show ?thesis by simp
  qed
qed

lemma tcp_send_out:
  assumes v: "out_ok c s sent" and os: "os_ok os" "peer_there os" and len: "int (length data) \<le> INT_MAX"
    and sd: "tcp_send os c data s = Inr s'" and sound: "out_sound c s'" and c: "n_conns s c = Some t"
  shows "out_ok c s' (sent @ (if connected t then data else []))"
proof (cases "connected t")
  case True
  moreover have "l_inThread s" using v by (auto simp: out_ok_def out_view_def)
  ultimately have "sendInLoop os c data s = Inr s'" using sd c by (simp add: tcp_send_def get_conn_def connected_def)
  from sendInLoop_out [OF v os len this sound] True c show ?thesis by (simp add: connected_def)
next
  case False
  then show ?thesis using sd c v by (simp add: tcp_send_def get_conn_def connected_def)
qed

lemma closeWrite_fields: "closeWrite os fd s = Inr s' \<Longrightarrow> s' = s\<lparr>n_tick := n_tick s + 1, n_shut := insert fd (n_shut s)\<rparr>"
  by (simp add: closeWrite_def split: if_splits)

lemma out_view_shut:
  assumes "out_view c s t ch b w sent" "readableBytes b = 0" "t_state t = kDisconnecting" "closeWrite os (t_socket t) s = Inr s'"
  shows "out_view c s' t ch b w sent"
  using assms(1-3) closeWrite_fields [OF assms(4)] net_pool_cong [of s' s] by (simp add: out_view_def)

lemma shutdown_out:
  assumes v: "out_ok c s sent" and sd: "tcp_shutdown os c s = Inr s'"
  shows "out_ok c s' sent"
proof -
  obtain t ch b w where v: "out_view c s t ch b w sent" using v by (auto simp: out_ok_def)
  have get: "get_conn c s = Inr t" "l_inThread s" using v by (auto simp: out_view_def get_conn_def)
  show ?thesis
  proof (cases "t_state t = kConnected")
    case True
    let ?t = "t\<lparr>t_state := kDisconnecting\<rparr>" and ?s = "put_conn c (\<lambda>t. t\<lparr>t_state := kDisconnecting\<rparr>) s"
    have v1: "out_view c ?s ?t ch b w sent"
      using v net_pool_cong [of ?s s] by (simp add: out_view_def put_conn_def)
    have "get_channel t ?s = Inr ch" using v by (simp add: out_view_def get_channel_def put_conn_def)
    then have sh: "(if \<not> isWriting ch then closeWrite os (t_socket t) ?s else Inr ?s) = Inr s'"
      using sd get True by (simp add: tcp_shutdown_def runInLoop_def shutdown_body_def Let_def)
    show ?thesis
    proof (cases "isWriting ch")
      case True
      then show ?thesis using sh v1 by (auto simp: out_ok_def)
    next
      case False
      then have "readableBytes b = 0" using v by (auto simp: out_view_def)
      then have "out_view c s' ?t ch b w sent" using out_view_shut [OF v1, of os s'] sh False by simp
      then show ?thesis unfolding out_ok_def by blast
    qed
  next
    case False
    then have "s' = s" using sd get by (simp add: tcp_shutdown_def runInLoop_def shutdown_body_def)
    then show ?thesis using v by (auto simp: out_ok_def)
  qed
qed


text \<open>What the handler reads to write is what is unread.\<close>

lemma known_list: "None \<notin> set xs \<Longrightarrow> xs = map Some (map the xs)"
  by (induction xs) auto

lemma unread_all:
  assumes ok: "buf_ok w b" and n: "None \<notin> set (unread w b)"
  shows "\<exists>data p. buffer_peek (Some b) = Inr p \<and> read_mem w p (readableBytes b) = Inr data \<and> unread w b = map Some data"
proof -
  define cs where "cs = map the (unread w b)"
  have u: "unread w b = map Some cs" unfolding cs_def by (rule known_list [OF n])
  obtain m where m: "b_memory b = Some m" "b_tmpBuf b = Some (m, b_offset b)" using buf_ok_ptr [OF ok] by blast
  have "int (length cs) = readableBytes b" using length_unread [of b w] ok u by (simp add: buf_ok_def)
  then have "read_mem w (m, b_offset b + b_readerIndex b) (readableBytes b) = Inr cs"
    using read_unread [OF ok u _ m(1), of "length cs"] by simp
  moreover have "buffer_peek (Some b) = Inr (m, b_offset b + b_readerIndex b)"
    using m by (simp add: buffer_peek_def on_buf_def peek_def)
  ultimately show ?thesis using u by blast
qed

lemma shutdownInLoop_out:
  assumes v: "out_view c s t ch b w sent" "readableBytes b = 0" "t_state t = kDisconnecting"
    and sd: "shutdownInLoop os c s = Inr s'"
  shows "out_view c s' t ch b w sent"
proof -
  have "\<not> isWriting ch" using v by (simp add: out_view_def)
  then have "closeWrite os (t_socket t) s = Inr s'" using sd v(1)
    by (auto simp: shutdownInLoop_def assertInLoopThread_def out_view_def get_conn_def get_channel_def)
  then show ?thesis by (rule out_view_shut [OF v])
qed

lemma handleWrite_out:
  assumes v: "out_ok c s sent" and os: "os_ok os" and hw: "handleWrite os c s = Inr s'"
  shows "out_ok c s' sent"
proof -
  obtain t ch b w where v: "out_view c s t ch b w sent" using v by (auto simp: out_ok_def)
  have get: "get_conn c s = Inr t" "get_channel t s = Inr ch" "l_inThread s" "net_pool s = Inr w"
    "t_outputBuffer t = Some b" "c_fd ch = t_socket t" and ok: "buf_ok w b"
    using v by (auto simp: out_view_def get_conn_def get_channel_def)
  show ?thesis
  proof (cases "isWriting ch")
    case False
    then show ?thesis using hw get v by (auto simp: handleWrite_def assertInLoopThread_def out_ok_def)
  next
    case True
    have stream: "map Some (n_wire s (t_socket t)) @ unread w b = map Some sent" using v by (simp add: out_view_def)
    then have "None \<notin> set (unread w b)" by (metis append_is_Nil_conv image_iff in_set_conv_decomp option.distinct(1) set_append UnCI list.set_map)
    then obtain data p where d: "buffer_peek (Some b) = Inr p" "read_mem w p (readableBytes b) = Inr data"
      "unread w b = map Some data" using unread_all [OF ok] by blast
    have ns: "t_socket t \<notin> n_shut s" using v True by (auto simp: out_view_def)
    define r s1 where "r = fst (sys_write os (t_socket t) data s)" and "s1 = snd (sys_write os (t_socket t) data s)"
    have s1: "n_conns s1 = n_conns s" "l_channels s1 = l_channels s" "n_shut s1 = n_shut s" "l_inThread s1 = l_inThread s"
      "n_alloc s1 = n_alloc s" "n_wire s1 = (n_wire s)(t_socket t := n_wire s (t_socket t) @
        (case r of Inl _ \<Rightarrow> [] | Inr n \<Rightarrow> take n data))"
      by (simp_all add: s1_def r_def sys_write_def Let_def)
    have rd: "buffer_readableBytes (Some b) = Inr (readableBytes b)" for b
      by (simp add: buffer_readableBytes_def on_buf_def)
    have hw1: "handleWritten os c t (r, s1) = Inr s'"
      using hw get True d rd by (simp add: handleWrite_def assertInLoopThread_def r_def s1_def)
    show ?thesis
    proof (cases "\<exists>n. r = Inr n \<and> n > 0")
      case False
      then have "s' = s1" "(case r of Inl _ \<Rightarrow> [] | Inr n \<Rightarrow> take n data) = []"
        using hw1 by (auto simp: handleWritten_def split: sum.splits if_splits)
      then have "out_view c s' t ch b w sent" using s1 by (intro out_view_same [OF v]) auto
      then show ?thesis by (auto simp: out_ok_def)
    next
      case True
      then obtain n where n: "r = Inr n" "n > 0" by blast
      have "n \<le> length data" using os n(1) by (auto simp: r_def sys_write_def os_ok_def Let_def)
      moreover have "int (length data) = readableBytes b"
        using length_unread [of b w] ok d(3) by (simp add: buf_ok_def)
      ultimately obtain b' where b': "retrieve (int n) b = Inr b'" "unread w b' = drop n (unread w b)" "buf_ok w b'"
        using retrieve_unread [OF ok, of "int n"] by auto
      let ?t = "t\<lparr>t_outputBuffer := Some b'\<rparr>" and ?s2 = "put_conn c (\<lambda>t. t\<lparr>t_outputBuffer := Some b'\<rparr>) s1"
      have hw2: "(if readableBytes b' = 0 then rbind (disableWriting (t_channel t) ?s2) (\<lambda>s3.
              rbind (if t_hasWriteComplete t then queueInLoop (WriteComplete c) s3 else Inr s3) (\<lambda>s4.
              if t_state t = kDisconnecting then shutdownInLoop os c s4 else Inr s4))
            else Inr ?s2) = Inr s'"
        using hw1 n b'(1) rd get(5) by (simp add: handleWritten_def buffer_retrieve_def on_buf_def Let_def del: rbind_Inr_iff)
      have str: "map Some (n_wire s1 (t_socket t)) @ unread w b' = map Some sent"
      proof -
      have "map Some (take n data) @ drop n (map Some data) = map Some data"
        by (metis append_take_drop_id take_map)
      then show ?thesis using stream s1(6) n(1) b'(2) d(3) by simp
    qed
      have base: "l_inThread ?s2" "n_conns ?s2 c = Some ?t" "l_channels ?s2 (t_channel t) = Some ch" "net_pool ?s2 = Inr w"
        "n_wire ?s2 = n_wire s1" "t_socket t \<notin> n_shut ?s2" "t_state t = kConnected \<or> t_state t = kDisconnecting" "fresh_ok w"
        using v s1 ns net_pool_cong [of ?s2 s] by (auto simp: put_conn_def out_view_def)
      show ?thesis
      proof (cases "readableBytes b' = 0")
        case False
        then have "out_view c s' ?t ch b' w sent"
          using hw2 base str b'(3) True \<open>isWriting ch\<close> get(6) by (auto simp: out_view_def)
        then show ?thesis by (auto simp: out_ok_def)
      next
        case left: True
        obtain s3 s4 where s3: "disableWriting (t_channel t) ?s2 = Inr s3"
          and s4: "(if t_hasWriteComplete t then queueInLoop (WriteComplete c) s3 else Inr s3) = Inr s4"
          and fin: "(if t_state t = kDisconnecting then shutdownInLoop os c s4 else Inr s4) = Inr s'"
          using hw2 left unfolding rbind_Inr_iff by auto
        obtain i q where s3': "s3 = ?s2\<lparr>l_channels := (l_channels ?s2)(t_channel t \<mapsto>
            ch\<lparr>c_events := c_events ch AND NOT kWriteEvent, c_index := i\<rparr>), l_poller := q\<rparr>"
          using set_events_fields [OF s3 [unfolded disableWriting_def] base(3)] by blast
        let ?ch = "ch\<lparr>c_events := c_events ch AND NOT kWriteEvent, c_index := i\<rparr>"
        have v3: "out_view c s3 ?t ?ch b' w sent"
          using base str b'(3) left get(6) net_pool_cong [of s3 ?s2]
          by (simp add: s3' out_view_def isWriting_def and_not_bit4)
        have v4: "out_view c s4 ?t ?ch b' w sent"
        proof (cases "t_hasWriteComplete t")
          case True
          then show ?thesis using s4 queueInLoop_fields [of "WriteComplete c" s3 s4] out_view_same [OF v3, of s4] by auto
        qed (use s4 v3 in simp)
        show ?thesis
        proof (cases "t_state t = kDisconnecting")
          case True
          then have "out_view c s' ?t ?ch b' w sent" using shutdownInLoop_out [OF v4 left] fin by simp
          then show ?thesis unfolding out_ok_def by blast
        next
          case False
          then show ?thesis using fin v4 unfolding out_ok_def by auto
        qed
      qed
    qed
  qed
qed


subsection \<open>The promise\<close>

text \<open>Operations on the thread of the loop, after each of which the pool has the output buffer in
  order, with the messages sent while the connection is connected.\<close>

inductive out_run :: "os \<Rightarrow> nat \<Rightarrow> net \<Rightarrow> string \<Rightarrow> net \<Rightarrow> bool" for os c s0 where
  start: "out_run os c s0 [] s0"
| send: "out_run os c s0 sent s \<Longrightarrow> n_conns s c = Some t \<Longrightarrow> int (length d) \<le> INT_MAX \<Longrightarrow>
    tcp_send os c d s = Inr s' \<Longrightarrow> out_sound c s' \<Longrightarrow>
    out_run os c s0 (sent @ (if connected t then d else [])) s'"
| ready: "out_run os c s0 sent s \<Longrightarrow> handleWrite os c s = Inr s' \<Longrightarrow> out_run os c s0 sent s'"
| shut: "out_run os c s0 sent s \<Longrightarrow> tcp_shutdown os c s = Inr s' \<Longrightarrow> out_run os c s0 sent s'"

lemma out_run_ok:
  assumes "out_run os c s0 sent s" "out_ok c s0 []" "os_ok os" "peer_there os"
  shows "out_ok c s sent"
  using assms
proof (induction rule: out_run.induct)
  case (send sent s t d s')
  show ?case by (rule tcp_send_out [OF send.IH send(8,9,3,4,5,2)]) (use send in simp_all)
next
  case (ready sent s s')
  show ?case by (rule handleWrite_out [OF ready.IH]) (use ready in simp_all)
next
  case (shut sent s s')
  show ?case by (rule shutdown_out [OF shut.IH]) (use shut in simp_all)
qed



definition sample_net :: net where
  "sample_net = \<lparr>l_id = 0, l_inThread = True, l_looping = True, l_callingPending = Some False, l_quit = False,
     l_poller = \<lparr>ep_channels = [5 \<mapsto> 1], ep_events = 16, ep_calls = [(CtlAdd, 5, 3, 1)]\<rparr>, l_active = [],
     l_current = None, l_eventHandling = False, l_funcs = [],
     l_timer = \<lparr>r_tasks = Map.empty, r_entries = Map.empty, r_wheels = [], r_queue = [], r_counter = 0,
       r_pool = pool_new 1, r_fresh = 0, r_tickMs = time_default, r_startMs = time_default, r_wheelSize = 20, r_tickerNum = 1\<rparr>,
     l_eventfd = 0, l_wakeupChannel = 0,
     l_channels = [1 \<mapsto> \<lparr>c_loop = 0, c_fd = 5, c_events = 3, c_revents = 0, c_index = 1, c_addedToLoop = False, c_tied = True\<rparr>],
     n_alloc = Some \<lparr>al_arenas = [Some sample_pool], al_smallCacheSize = 256, al_normalCacheSize = 64,
       al_chunkSize = 16777216, al_threadCache = Some 0\<rparr>,
     n_conns = [2 \<mapsto> \<lparr>t_state = kConnected, t_reading = True, t_socket = 5, t_channel = 1, t_hasWriteComplete = False,
       t_hasHighWater = False, t_highWaterMark = 67108864, t_inputBuffer = None,
       t_outputBuffer = Some (sample_buf\<lparr>b_writerIndex := 0\<rparr>), t_context = None\<rparr>],
     n_tick = 0, n_wire = (\<lambda>_. []), n_shut = {}, n_connSet = {2}, n_oneLoop = True, n_base = []\<rparr>"

definition sample_os :: os where
  "sample_os = \<lparr>os_write = (\<lambda>k fd d. Inr (length d)), os_readv = (\<lambda>k fd ls. Inl 11), os_shutdown = (\<lambda>k fd. True)\<rparr>"

lemma sample_os_ok: "os_ok sample_os" "peer_there sample_os"
  by (simp_all add: os_ok_def peer_there_def sample_os_def)

lemma empty_buf_ok: "buf_ok sample_pool (sample_buf\<lparr>b_writerIndex := 0\<rparr>)"
  using sample_ok(1) by (simp add: buf_ok_def) (simp add: sample_buf_def)

lemma sample_net_ok: "out_ok 2 sample_net []"
proof -
  have "out_view 2 sample_net (the (n_conns sample_net 2)) (the (l_channels sample_net 1))
      (sample_buf\<lparr>b_writerIndex := 0\<rparr>) sample_pool []"
    using sample_ok(2) empty_buf_ok
    by (simp add: out_view_def sample_net_def net_pool_def threadCache_def arena_at_def
        isWriting_def readableBytes_def unread_def) (simp add: sample_buf_def)
  then show ?thesis by (auto simp: out_ok_def)
qed


end
