(* ===== verification/HttpServerSpec.thy ===== *)
theory HttpServerSpec
  imports HttpServer HttpCorrect TcpStream
begin

text \<open>
  What the HTTP server promises for a request that is not one: the answer joins the stream of the
  connection and the connection is shut for writing behind it.
\<close>

lemma out_view_input:
  assumes "out_view c s t ch b w sent"
  shows "out_view c (put_conn c (\<lambda>t. t\<lparr>t_inputBuffer := i, t_context := x\<rparr>) s)
    (t\<lparr>t_inputBuffer := i, t_context := x\<rparr>) ch b w sent"
  using assms net_pool_cong [of "put_conn c (\<lambda>t. t\<lparr>t_inputBuffer := i, t_context := x\<rparr>) s" s]
  by (simp add: out_view_def put_conn_def)

text \<open>A shutdown of a connected one leaves the buffers and marks it.\<close>

lemma shutdown_fields:
  assumes "tcp_shutdown os c s = Inr s'" "l_inThread s" "n_conns s c = Some t" "t_state t = kConnected"
  shows "n_conns s' = (n_conns s)(c \<mapsto> t\<lparr>t_state := kDisconnecting\<rparr>)" "n_alloc s' = n_alloc s"
proof -
  let ?s = "put_conn c (\<lambda>t. t\<lparr>t_state := kDisconnecting\<rparr>) s"
  have "s' = ?s \<or> (\<exists>fd. closeWrite os fd ?s = Inr s')"
    using assms by (auto simp: tcp_shutdown_def runInLoop_def shutdown_body_def get_conn_def Let_def split: if_splits)
  then have "n_conns s' = n_conns ?s \<and> n_alloc s' = n_alloc ?s" by (auto dest: closeWrite_fields)
  then show "n_conns s' = (n_conns s)(c \<mapsto> t\<lparr>t_state := kDisconnecting\<rparr>)" "n_alloc s' = n_alloc s"
    using assms(3) by (simp_all add: put_conn_def)
qed

lemma set_events_conns:
  assumes "set_events f a s = Inr s'"
  shows "n_conns s' = n_conns s \<and> l_inThread s' = l_inThread s"
proof -
  obtain ch where "l_channels s a = Some ch" using assms by (auto simp: set_events_def)
  from set_events_fields [OF assms this] show ?thesis by auto
qed

lemma queueInLoop_conns:
  fixes s :: net
  shows "queueInLoop f s = Inr s' \<Longrightarrow> n_conns s' = n_conns s \<and> l_inThread s' = l_inThread s"
  by (drule queueInLoop_fields) auto

lemma buffer_rest_conn:
  assumes br: "buffer_rest c t ch old rest remaining s = Inr s'" and c: "n_conns s c = Some t"
  shows "\<exists>b. n_conns s' = (n_conns s)(c \<mapsto> t\<lparr>t_outputBuffer := b\<rparr>) \<and> l_inThread s' = l_inThread s"
proof -
  obtain s1 w b w' where q: "(if old + remaining \<ge> t_highWaterMark t \<and> old < t_highWaterMark t \<and> t_hasHighWater t
        then queueInLoop (HighWater c (old + remaining)) s else Inr s) = Inr s1"
    and en: "(if \<not> isWriting ch then enableWriting (t_channel t) (put_conn c (\<lambda>t. t\<lparr>t_outputBuffer := b\<rparr>) (put_pool w' s1))
        else Inr (put_conn c (\<lambda>t. t\<lparr>t_outputBuffer := b\<rparr>) (put_pool w' s1))) = Inr s'"
    using br unfolding buffer_rest_def rbind_Inr_iff Let_def split_paired_Ex prod.case by blast
  have "n_conns s1 = n_conns s \<and> l_inThread s1 = l_inThread s" using q queueInLoop_conns by (auto split: if_splits)
  moreover have "n_conns s' = n_conns (put_conn c (\<lambda>t. t\<lparr>t_outputBuffer := b\<rparr>) (put_pool w' s1)) \<and>
      l_inThread s' = l_inThread s1"
    using en set_events_conns by (fastforce simp: enableWriting_def put_conn_def put_pool_def split: if_splits)
  ultimately show ?thesis using c by (auto simp: put_conn_def put_pool_def)
qed

lemma try_write_conn:
  assumes "try_write os c t ch data s = Inr (nw, remaining, fault, s1)"
  shows "n_conns s1 = n_conns s \<and> l_inThread s1 = l_inThread s"
proof (cases "os_write os (n_tick s) (c_fd ch) data")
  case (Inl e)
  then show ?thesis using assms by (auto simp: try_write_def sys_write_def Let_def)
next
  case (Inr n)
  then show ?thesis using assms
    by (auto simp: try_write_def sys_write_def Let_def dest!: queueInLoop_conns split: if_splits)
qed

lemma sendInLoop_conn:
  assumes sd: "sendInLoop os c data s = Inr s'" and c: "n_conns s c = Some t" and t: "t_state t = kConnected" and i: "l_inThread s"
  shows "\<exists>b. n_conns s' = (n_conns s)(c \<mapsto> t\<lparr>t_outputBuffer := b\<rparr>) \<and> l_inThread s'"
proof -
  have "rbind (get_channel t s) (\<lambda>ch.
        rbind (buffer_readableBytes (t_outputBuffer t)) (\<lambda>oldLen.
        rbind (if \<not> isWriting ch \<and> oldLen = 0 then try_write os c t ch data s
               else Inr (0, int (length data), False, s)) (\<lambda>(nwrote, remaining, faultError, s1).
        assert_that (remaining \<le> int (length data))
        (if \<not> faultError \<and> remaining > 0
         then buffer_rest c t ch oldLen (drop nwrote data) remaining s1
         else Inr s1)))) = Inr s'"
    using sd c t i by (simp add: sendInLoop_def assertInLoopThread_def get_conn_def deref_def del: rbind_Inr_iff deref_Inr)
  then obtain ch old nw remaining fault s1 where
    tw: "(if \<not> isWriting ch \<and> old = 0 then try_write os c t ch data s else Inr (0, int (length data), False, s))
      = Inr (nw, remaining, fault, s1)"
    and br: "(if \<not> fault \<and> remaining > 0 then buffer_rest c t ch old (drop nw data) remaining s1 else Inr s1) = Inr s'"
    unfolding rbind_Inr_iff split_paired_Ex prod.case assert_that_Inr by blast
  have s1: "n_conns s1 = n_conns s \<and> l_inThread s1 = l_inThread s"
    using tw try_write_conn by (auto split: if_splits)
  show ?thesis
  proof (cases "\<not> fault \<and> remaining > 0")
    case True
    then show ?thesis using br buffer_rest_conn [of c t ch old "drop nw data" remaining s1 s'] s1 c i by simp
  next
    case False
    then have "n_conns s' = (n_conns s)(c \<mapsto> t\<lparr>t_outputBuffer := t_outputBuffer t\<rparr>) \<and> l_inThread s'"
      using br s1 c i by (auto simp: fun_upd_idem)
    then show ?thesis by blast
  qed
qed

lemma parse_loop_refused: "parse_loop n w x buf = Inr (False, x', buf') \<Longrightarrow> x_state x' = kExpectRequestLine"
proof (induction n arbitrary: x buf)
  case (Suc n)
  then show ?case
    by (cases "x_state x") (auto split: option.splits if_splits)
qed simp


text \<open>The connection of the sample, in whose input buffer the text of a bad line has come in.\<close>

definition bad_line :: string where "bad_line = ''GET /'' @ kCRLF"

definition bad_pool :: pool where "bad_pool = text_pool bad_line"

definition bad_net :: net where
  "bad_net = sample_net\<lparr>
     n_alloc := Some \<lparr>al_arenas = [Some bad_pool], al_smallCacheSize = 256, al_normalCacheSize = 64,
       al_chunkSize = 16777216, al_threadCache = Some 0\<rparr>,
     n_conns := [2 \<mapsto> (the (n_conns sample_net 2))\<lparr>t_inputBuffer := Some (text_buf bad_line),
       t_outputBuffer := Some ((text_buf bad_line)\<lparr>b_writerIndex := 0\<rparr>), t_context := Some HttpContext\<rparr>]\<rparr>"

lemma empty_text_buf: "buf_ok (text_pool cs) ((text_buf cs)\<lparr>b_writerIndex := 0\<rparr>)"
  by (simp add: buf_ok_def in_region_def text_buf_def text_pool_def sample_buf_def)

lemma bad_net_fields:
  "l_inThread bad_net" "net_pool bad_net = Inr bad_pool" "l_channels bad_net = l_channels sample_net"
  "n_shut bad_net = {}" "n_wire bad_net = (\<lambda>_. [])" "n_tick bad_net = 0"
  "n_conns bad_net 2 = Some ((the (n_conns sample_net 2))\<lparr>t_inputBuffer := Some (text_buf bad_line),
     t_outputBuffer := Some ((text_buf bad_line)\<lparr>b_writerIndex := 0\<rparr>), t_context := Some HttpContext\<rparr>)"
  by (simp_all add: bad_net_def net_pool_def threadCache_def arena_at_def) (simp_all add: sample_net_def)

lemma bad_net_ok: "out_ok 2 bad_net []"
proof -
  have "out_view 2 bad_net (the (n_conns bad_net 2)) (the (l_channels sample_net 1))
      ((text_buf bad_line)\<lparr>b_writerIndex := 0\<rparr>) bad_pool []"
    using empty_text_buf text_pool_fresh bad_net_fields
    by (simp add: out_view_def bad_pool_def readableBytes_def unread_def)
      (simp add: text_buf_def sample_buf_def sample_net_def isWriting_def)
  then show ?thesis by (auto simp: out_ok_def)
qed

lemma bad_line_refused:
  "\<exists>x' b. parseRequest bad_pool HttpContext (Some (text_buf bad_line)) = Inr (False, x', Some b)"
proof -
  let ?x = HttpContext and ?x' = "HttpContext\<lparr>x_request := HttpRequest\<lparr>q_method := kGet\<rparr>\<rparr>"
  have "processRequestLine ''GET /'' HttpRequest = Inr (False, HttpRequest\<lparr>q_method := kGet\<rparr>)"
    by (simp add: processRequestLine_def processTarget_def before_def from_char_def setMethod_def HttpRequest_def)
  moreover have "next_line bad_line = Some (''GET /'', [])" by (simp add: next_line_def bad_line_def)
  ultimately have p: "parse_text ?x bad_line = Inr (False, ?x', bad_line)"
    unfolding parse_text.simps [of ?x] by (simp add: HttpContext_def)
  have "buf_ok (text_pool bad_line) (text_buf bad_line)" by (rule text_buf_ok) (simp add: bad_line_def)
  from same_parseD(2) [OF parseRequest_text [OF this text_buf_unread] p] show ?thesis unfolding bad_pool_def by blast
qed


end
