(* ===== verification/EventLoopSpec.thy ===== *)
theory EventLoopSpec
  imports EventLoop
begin

text \<open>
  What the event loop promises about its channels: after any operations the calls of
  \<^verbatim>\<open>epoll_ctl\<close> made so far are ones the kernel accepts, and they leave it watching exactly the
  channels marked as added, with their current events. The kernel's interest list is the
  documented one: \<open>CtlAdd\<close> needs a descriptor that is not in it, \<open>CtlMod\<close> and \<open>CtlDel\<close> one that is.
\<close>

type_synonym interest_list = "int \<rightharpoonup> int \<times> nat"

definition kernel_ctl :: "ctl_call \<Rightarrow> interest_list \<Rightarrow> interest_list option" where
  "kernel_ctl call k = (case call of (operation, fd, ev, a) \<Rightarrow>
     (case operation of
        CtlAdd \<Rightarrow> if k fd = None then Some (k(fd \<mapsto> (ev, a))) else None
      | CtlMod \<Rightarrow> if k fd \<noteq> None then Some (k(fd \<mapsto> (ev, a))) else None
      | CtlDel \<Rightarrow> if k fd \<noteq> None then Some (k(fd := None)) else None))"

definition interest :: "ctl_call list \<Rightarrow> interest_list option" where
  "interest calls = foldl (\<lambda>k c. Option.bind k (kernel_ctl c)) (Some Map.empty) calls"

lemma interest_snoc: "interest (calls @ [c]) = Option.bind (interest calls) (kernel_ctl c)"
  by (simp add: interest_def)

lemma interest_Nil [simp]: "interest [] = Some Map.empty"
  by (simp add: interest_def)

subsection \<open>The operations on channels\<close>

text \<open>A loop under the operations of its thread: channels are made for descriptors, change their
  events, report events, are removed and, once removed, destroyed.\<close>

datatype channel_op =
    NewChannel int | SetEvents "int \<Rightarrow> int" | RemoveChannel | SetRevents int | TieChannel | DestroyChannel

fun channel_step :: "channel_op \<Rightarrow> nat \<Rightarrow> 'f ev_loop \<Rightarrow> 'f ev_loop res" where
  "channel_step (NewChannel fd) a s =
     (if l_channels s a = None then Inr (s\<lparr>l_channels := (l_channels s)(a \<mapsto> Channel (l_id s) fd)\<rparr>) else Inr s)"
| "channel_step (SetEvents f) a s = set_events f a s"
| "channel_step RemoveChannel a s = channel_remove a s"
| "channel_step (SetRevents ev) a s =
     rbind (store_upd (l_channels s) (Some a) (setRevents ev)) (\<lambda>cs. Inr (s\<lparr>l_channels := cs\<rparr>))"
| "channel_step TieChannel a s =
     rbind (store_upd (l_channels s) (Some a) tie) (\<lambda>cs. Inr (s\<lparr>l_channels := cs\<rparr>))"
| "channel_step DestroyChannel a s =
     rbind (deref (l_channels s) (Some a)) (\<lambda>c.
     Inr (if c_index c = kNew then s\<lparr>l_channels := (l_channels s)(a := None)\<rparr> else s))"

inductive loop_reach :: "'f ev_loop \<Rightarrow> bool" where
  init: "l_channels s = Map.empty \<Longrightarrow> l_poller s = \<lparr>ep_channels = Map.empty, ep_events = n, ep_calls = []\<rparr> \<Longrightarrow>
    loop_reach s"
| step: "loop_reach s \<Longrightarrow> channel_step p a s = Inr s' \<Longrightarrow> loop_reach s'"

text \<open>The marks of the channels, the map of the poller and the kernel's list agree.\<close>

definition marks_ok :: "(nat \<rightharpoonup> channel) \<Rightarrow> (int \<rightharpoonup> nat) \<Rightarrow> bool" where
  "marks_ok cs m \<longleftrightarrow>
     (\<forall>a c. cs a = Some c \<longrightarrow> c_index c \<in> {kNew, kAdded, kDeleted} \<and> (c_index c \<noteq> kNew \<longleftrightarrow> m (c_fd c) = Some a) \<and>
        (c_index c = kDeleted \<longrightarrow> isNoneEvent c)) \<and>
     (\<forall>fd a. m fd = Some a \<longrightarrow> (\<exists>c. cs a = Some c \<and> c_fd c = fd))"

definition watched :: "(nat \<rightharpoonup> channel) \<Rightarrow> (int \<rightharpoonup> nat) \<Rightarrow> interest_list" where
  "watched cs m fd = (case m fd of None \<Rightarrow> None | Some a \<Rightarrow>
     (case cs a of None \<Rightarrow> None | Some c \<Rightarrow> if c_index c = kAdded then Some (c_events c, a) else None))"

definition reactor_ok :: "('f, 'z) ev_loop_scheme \<Rightarrow> bool" where
  "reactor_ok s \<longleftrightarrow> marks_ok (l_channels s) (ep_channels (l_poller s)) \<and>
     interest (ep_calls (l_poller s)) = Some (watched (l_channels s) (ep_channels (l_poller s)))"

lemma watched_iff: "marks_ok cs m \<Longrightarrow>
    watched cs m fd = Some (ev, a) \<longleftrightarrow> (\<exists>c. cs a = Some c \<and> c_fd c = fd \<and> c_index c = kAdded \<and> c_events c = ev)"
  by (auto simp: watched_def marks_ok_def split: option.split) fastforce+

lemma marks_fd: "marks_ok cs m \<Longrightarrow> cs a = Some c \<Longrightarrow> m fd = Some a \<longleftrightarrow> fd = c_fd c \<and> c_index c \<noteq> kNew"
  unfolding marks_ok_def by (metis option.inject)

lemma marks_back: "marks_ok cs m \<Longrightarrow> m fd = Some a \<Longrightarrow> \<exists>c. cs a = Some c \<and> c_fd c = fd"
  unfolding marks_ok_def by blast

lemma marks_none: "marks_ok cs m \<Longrightarrow> cs a = None \<Longrightarrow> m fd \<noteq> Some a"
  unfolding marks_ok_def by (metis option.distinct(1))

lemma marks_index: "marks_ok cs m \<Longrightarrow> cs a = Some c \<Longrightarrow>
    (c_index c = kNew \<or> c_index c = kAdded \<or> c_index c = kDeleted) \<and> (c_index c = kDeleted \<longrightarrow> isNoneEvent c)"
  by (auto simp: marks_ok_def)

text \<open>A change of one channel and of the map at its descriptor.\<close>

lemma marks_update:
  assumes ok: "marks_ok cs m" and c: "cs a = Some c" and free: "m (c_fd c) = Some a \<or> m (c_fd c) = None"
    and c': "c_fd c' = c_fd c" "c_index c' = kNew \<or> c_index c' = kAdded \<or> c_index c' = kDeleted \<and> isNoneEvent c'"
    and m': "m' = m(c_fd c := (if c_index c' = kNew then None else Some a))"
  shows "marks_ok (cs(a \<mapsto> c')) m'"
proof -
  have 1: "c_index d \<noteq> kNew \<longleftrightarrow> m' (c_fd d) = Some b" if "cs b = Some d" "b \<noteq> a" for b d
    using marks_fd [OF ok that(1), of "c_fd d"] that(2) free m' by auto
  have 2: "\<exists>d. (cs(a \<mapsto> c')) b = Some d \<and> c_fd d = fd" if "m' fd = Some b" for fd b
  proof (cases "fd = c_fd c")
    case True
    then show ?thesis using that m' c' by (auto split: if_splits)
  next
    case False
    then have m: "m fd = Some b" using that m' by simp
    then obtain d where d: "cs b = Some d" "c_fd d = fd" using marks_back [OF ok] by blast
    then have "b \<noteq> a" using False c by auto
    then show ?thesis using d by simp
  qed
  show ?thesis unfolding marks_ok_def
    using 1 2 marks_index [OF ok] c' m' by auto
qed

text \<open>Changes of a channel that the registration does not see.\<close>

lemma reactor_cong:
  assumes ok: "marks_ok cs m" and c: "cs a = Some c"
    and c': "c_fd c' = c_fd c" "c_index c' = c_index c" "c_index c = kNew \<or> c_events c' = c_events c"
  shows "marks_ok (cs(a \<mapsto> c')) m" "watched (cs(a \<mapsto> c')) m = watched cs m"
proof -
  show "marks_ok (cs(a \<mapsto> c')) m"
  proof (cases "c_index c = kNew")
    case True
    then have no: "m fd \<noteq> Some a" for fd using marks_fd [OF ok c] by simp
    then have "\<exists>d. (cs(a \<mapsto> c')) b = Some d \<and> c_fd d = fd" if "m fd = Some b" for fd b
      using marks_back [OF ok that] that by (cases "b = a") auto
    then show ?thesis using ok True c' no unfolding marks_ok_def by simp
  next
    case False
    then have "m (c_fd c) = Some a" using marks_fd [OF ok c] by simp
    then show ?thesis using False c' marks_index [OF ok c]
      by (intro marks_update [OF ok c]) (auto simp: isNoneEvent_def)
  qed
  show "watched (cs(a \<mapsto> c')) m = watched cs m"
    by (rule ext) (use c c' marks_fd [OF ok c] in \<open>auto simp: watched_def split: option.split\<close>)
qed

lemma ep_update_fields [simp]:
  "ep_channels (ep_update q a c p) = ep_channels p" "ep_events (ep_update q a c p) = ep_events p"
  "ep_calls (ep_update q a c p) = ep_calls p @ [(q, c_fd c, c_events c, a)]"
  by (simp_all add: ep_update_def)

text \<open>The store with the events of one channel already changed, before the poller hears of it.\<close>

lemma ep_updateChannel_ok:
  assumes ok: "marks_ok cs m" and c: "cs a = Some c" and m: "m = ep_channels p"
    and k: "interest (ep_calls p) = Some (watched cs m)"
    and u: "ep_updateChannel True a (cs(a \<mapsto> c\<lparr>c_events := ev\<rparr>)) p = Inr (cs', p')"
  shows "marks_ok cs' (ep_channels p') \<and> interest (ep_calls p') = Some (watched cs' (ep_channels p'))"
proof -
  let ?c = "c\<lparr>c_events := ev\<rparr>"
  have ix: "c_index c = kNew \<or> c_index c = kAdded \<or> c_index c = kDeleted" using ok c by (auto simp: marks_ok_def)
  then consider "c_index c = kNew" | "c_index c = kDeleted" | "c_index c = kAdded" "ev = kNoneEvent"
    | "c_index c = kAdded" "ev \<noteq> kNoneEvent" by blast
  then show ?thesis
  proof cases
    case 1
    then have f: "m (c_fd c) = None" and cs': "cs' = cs(a \<mapsto> ?c\<lparr>c_index := kAdded\<rparr>)"
      and p': "p' = ep_update CtlAdd a (?c\<lparr>c_index := kAdded\<rparr>) (p\<lparr>ep_channels := m(c_fd c \<mapsto> a)\<rparr>)"
      using u m by (auto simp: ep_updateChannel_def assertInLoopThread_def Let_def setIndex_def)
    have no: "m fd \<noteq> Some a" for fd using marks_fd [OF ok c] 1 by simp
    have "marks_ok cs' (m(c_fd c \<mapsto> a))" unfolding cs' by (rule marks_update [OF ok c]) (simp_all add: f)
    moreover have "watched cs m (c_fd c) = None" by (simp add: watched_def f)
    moreover have "watched cs' (m(c_fd c \<mapsto> a)) = (watched cs m)(c_fd c \<mapsto> (ev, a))"
      by (rule ext) (auto simp: watched_def cs' no split: option.split)
    ultimately show ?thesis using k by (simp add: p' interest_snoc kernel_ctl_def)
  next
    case 2
    then have f: "m (c_fd c) = Some a" and cs': "cs' = cs(a \<mapsto> ?c\<lparr>c_index := kAdded\<rparr>)"
      and p': "p' = ep_update CtlAdd a (?c\<lparr>c_index := kAdded\<rparr>) p"
      using u m by (auto simp: ep_updateChannel_def assertInLoopThread_def Let_def setIndex_def)
    have only: "m fd = Some a \<longleftrightarrow> fd = c_fd c" for fd using marks_fd [OF ok c] f by auto
    have "marks_ok cs' m" unfolding cs' by (rule marks_update [OF ok c]) (simp_all add: f fun_upd_idem)
    moreover have "watched cs m (c_fd c) = None" using c 2 by (simp add: watched_def f)
    moreover have "watched cs' m = (watched cs m)(c_fd c \<mapsto> (ev, a))"
      by (rule ext) (auto simp: watched_def cs' f only split: option.split)
    ultimately show ?thesis using k m by (simp add: p' interest_snoc kernel_ctl_def)
  next
    case 3
    then have f: "m (c_fd c) = Some a" and cs': "cs' = cs(a \<mapsto> ?c\<lparr>c_index := kDeleted\<rparr>)"
      and p': "p' = ep_update CtlDel a ?c p"
      using u m by (auto simp: ep_updateChannel_def assertInLoopThread_def setIndex_def isNoneEvent_def)
    have only: "m fd = Some a \<longleftrightarrow> fd = c_fd c" for fd using marks_fd [OF ok c] f by auto
    have "marks_ok cs' m" unfolding cs'
      by (rule marks_update [OF ok c]) (simp_all add: f fun_upd_idem isNoneEvent_def 3)
    moreover have "watched cs m (c_fd c) = Some (c_events c, a)" using c 3 by (simp add: watched_def f)
    moreover have "watched cs' m = (watched cs m)(c_fd c := None)"
      by (rule ext) (auto simp: watched_def cs' f only split: option.split)
    ultimately show ?thesis using k m by (simp add: p' interest_snoc kernel_ctl_def)
  next
    case 4
    then have f: "m (c_fd c) = Some a" and cs': "cs' = cs(a \<mapsto> ?c)" and p': "p' = ep_update CtlMod a ?c p"
      using u m by (auto simp: ep_updateChannel_def assertInLoopThread_def isNoneEvent_def split: if_splits)
    have only: "m fd = Some a \<longleftrightarrow> fd = c_fd c" for fd using marks_fd [OF ok c] f by auto
    have "marks_ok cs' m" unfolding cs' by (rule marks_update [OF ok c]) (simp_all add: f fun_upd_idem 4)
    moreover have "watched cs m (c_fd c) = Some (c_events c, a)" using c 4 by (simp add: watched_def f)
    moreover have "watched cs' m = (watched cs m)(c_fd c \<mapsto> (ev, a))"
      by (rule ext) (use 4 in \<open>auto simp: watched_def cs' f only split: option.split\<close>)
    ultimately show ?thesis using k m by (simp add: p' interest_snoc kernel_ctl_def)
  qed
qed

lemma set_events_ok:
  assumes ok: "reactor_ok s" and u: "set_events f a s = Inr s'"
  shows "reactor_ok s'"
proof -
  obtain c where c: "l_channels s a = Some c" using u by (auto simp: set_events_def)
  have t: "l_inThread s" using u
    by (auto simp: set_events_def updateChannel_def assertInLoopThread_def split: if_splits)
  obtain cs' p' where "ep_updateChannel True a ((l_channels s)(a \<mapsto> c\<lparr>c_events := f (c_events c)\<rparr>)) (l_poller s) = Inr (cs', p')"
    and s': "s' = s\<lparr>l_channels := cs', l_poller := p'\<rparr>"
    using u c t by (auto simp: set_events_def updateChannel_def assertInLoopThread_def)
  from ep_updateChannel_ok [OF _ c refl _ this(1)] show ?thesis using ok
    by (simp add: reactor_ok_def s')
qed

lemma ep_removeChannel_ok:
  assumes ok: "marks_ok cs m" and c: "cs a = Some c" and m: "m = ep_channels p"
    and k: "interest (ep_calls p) = Some (watched cs m)"
    and u: "ep_removeChannel True a (cs(a \<mapsto> c\<lparr>c_addedToLoop := False\<rparr>)) p = Inr (cs', p')"
  shows "marks_ok cs' (ep_channels p') \<and> interest (ep_calls p') = Some (watched cs' (ep_channels p'))"
proof -
  let ?c = "c\<lparr>c_addedToLoop := False\<rparr>"
  have f: "m (c_fd c) = Some a" and cs': "cs' = cs(a \<mapsto> ?c\<lparr>c_index := kNew\<rparr>)" and
    p': "p' = (if c_index c = kAdded then ep_update CtlDel a ?c (p\<lparr>ep_channels := m(c_fd c := None)\<rparr>)
      else p\<lparr>ep_channels := m(c_fd c := None)\<rparr>)"
    using u m by (auto simp: ep_removeChannel_def assertInLoopThread_def Let_def setIndex_def)
  have only: "m fd = Some a \<longleftrightarrow> fd = c_fd c" for fd using marks_fd [OF ok c] f by auto
  have ok': "marks_ok cs' (m(c_fd c := None))" unfolding cs' by (rule marks_update [OF ok c]) (simp_all add: f)
  have w: "watched cs' (m(c_fd c := None)) = (watched cs m)(c_fd c := None)"
    by (rule ext) (auto simp: watched_def cs' only split: option.split)
  show ?thesis
  proof (cases "c_index c = kAdded")
    case True
    then have "watched cs m (c_fd c) = Some (c_events c, a)" using c by (simp add: watched_def f)
    then show ?thesis using True ok' w k by (simp add: p' interest_snoc kernel_ctl_def)
  next
    case False
    then have "watched cs m (c_fd c) = None" using c by (simp add: watched_def f)
    then have "(watched cs m)(c_fd c := None) = watched cs m" by auto
    then show ?thesis using False ok' w k by (simp add: p')
  qed
qed

lemma channel_remove_ok:
  assumes ok: "reactor_ok s" and u: "channel_remove a s = Inr s'"
  shows "reactor_ok s'"
proof -
  obtain c where c: "l_channels s a = Some c" using u by (auto simp: channel_remove_def)
  have t: "l_inThread s" using u c
    by (auto simp: channel_remove_def removeChannel_def assertInLoopThread_def split: if_splits)
  obtain cs' p' where "ep_removeChannel True a ((l_channels s)(a \<mapsto> c\<lparr>c_addedToLoop := False\<rparr>)) (l_poller s) = Inr (cs', p')"
    and s': "s' = s\<lparr>l_channels := cs', l_poller := p'\<rparr>"
    using u c t by (auto simp: channel_remove_def removeChannel_def assertInLoopThread_def)
  from ep_removeChannel_ok [OF _ c refl _ this(1)] show ?thesis using ok
    by (simp add: reactor_ok_def s')
qed

lemma channel_step_ok: "reactor_ok s \<Longrightarrow> channel_step p a s = Inr s' \<Longrightarrow> reactor_ok s'"
proof (cases p)
  case (NewChannel fd)
  assume ok: "reactor_ok s" and s: "channel_step p a s = Inr s'"
  show ?thesis
  proof (cases "l_channels s a")
    case None
    let ?m = "ep_channels (l_poller s)"
    have no: "?m x \<noteq> Some a" for x using ok marks_none [of "l_channels s" ?m a x] None by (simp add: reactor_ok_def)
    have "marks_ok ((l_channels s)(a \<mapsto> Channel (l_id s) fd)) ?m"
      using ok no by (auto simp: reactor_ok_def marks_ok_def Channel_def)
    moreover have "watched ((l_channels s)(a \<mapsto> Channel (l_id s) fd)) ?m = watched (l_channels s) ?m"
      by (rule ext) (auto simp: watched_def no split: option.split)
    ultimately show ?thesis using s ok None NewChannel by (auto simp: reactor_ok_def)
  qed (use s ok NewChannel in auto)
next
  case DestroyChannel
  assume ok: "reactor_ok s" and s: "channel_step p a s = Inr s'"
  obtain c where c: "l_channels s a = Some c" using s DestroyChannel by auto
  show ?thesis
  proof (cases "c_index c = kNew")
    case True
    let ?m = "ep_channels (l_poller s)"
    have no: "?m x \<noteq> Some a" for x using ok marks_fd [of "l_channels s" ?m a c x] c True by (simp add: reactor_ok_def)
    have "marks_ok ((l_channels s)(a := None)) ?m"
      using ok no by (auto simp: reactor_ok_def marks_ok_def)
    moreover have "watched ((l_channels s)(a := None)) ?m = watched (l_channels s) ?m"
      by (rule ext) (auto simp: watched_def no split: option.split)
    ultimately show ?thesis using s ok c True DestroyChannel by (auto simp: reactor_ok_def)
  qed (use s ok c DestroyChannel in auto)
next
  case (SetEvents f)
  assume "reactor_ok s" "channel_step p a s = Inr s'"
  then show ?thesis using SetEvents by (simp add: set_events_ok)
next
  case RemoveChannel
  assume "reactor_ok s" "channel_step p a s = Inr s'"
  then show ?thesis using RemoveChannel by (simp add: channel_remove_ok)
qed (auto simp: reactor_ok_def setRevents_def tie_def reactor_cong)

lemma loop_reach_ok: "loop_reach s \<Longrightarrow> reactor_ok s"
proof (induction rule: loop_reach.induct)
  case (init s n)
  then show ?case by (auto simp: reactor_ok_def marks_ok_def watched_def)
qed (rule channel_step_ok)

subsection \<open>Taking a channel out\<close>

text \<open>A registered channel is silenced and then removed.\<close>

definition silenced :: "nat \<Rightarrow> channel \<Rightarrow> ('f, 'z) ev_loop_scheme \<Rightarrow> ('f, 'z) ev_loop_scheme" where
  "silenced a ch s = s\<lparr>l_channels := (l_channels s)(a \<mapsto> ch\<lparr>c_events := 0, c_index := kDeleted\<rparr>),
     l_poller := ep_update CtlDel a (ch\<lparr>c_events := 0\<rparr>) (l_poller s)\<rparr>"

definition removed :: "nat \<Rightarrow> channel \<Rightarrow> ('f, 'z) ev_loop_scheme \<Rightarrow> ('f, 'z) ev_loop_scheme" where
  "removed a ch s = s\<lparr>l_channels := (l_channels s)(a \<mapsto> ch\<lparr>c_events := 0, c_addedToLoop := False, c_index := kNew\<rparr>),
     l_poller := (l_poller s)\<lparr>ep_channels := (ep_channels (l_poller s))(c_fd ch := None)\<rparr>\<rparr>"

definition registered :: "nat \<Rightarrow> channel \<Rightarrow> ('f, 'z) ev_loop_scheme \<Rightarrow> bool" where
  "registered a ch s \<longleftrightarrow> l_inThread s \<and> l_channels s a = Some ch \<and> c_index ch = kAdded \<and> c_loop ch = l_id s \<and>
     ep_channels (l_poller s) (c_fd ch) = Some a \<and>
     (l_eventHandling s \<longrightarrow> l_current s = Some a \<or> a \<notin> set (l_active s))"

lemma disableAll_registered:
  assumes "registered a ch s"
  shows "disableAll a s = Inr (silenced a ch s)"
  using assms
  by (simp add: registered_def disableAll_def set_events_def updateChannel_def assertInLoopThread_def
      ep_updateChannel_def isNoneEvent_def setIndex_def silenced_def)

lemma remove_silenced:
  assumes "registered a ch s" and s1: "l_channels s1 = l_channels (silenced a ch s)" "l_poller s1 = l_poller (silenced a ch s)"
    "l_inThread s1 = l_inThread s" "l_id s1 = l_id s" "l_eventHandling s1 = l_eventHandling s"
    "l_current s1 = l_current s" "l_active s1 = l_active s"
  shows "channel_remove a s1 = Inr (removed a ch s1)"
  using assms
  by (simp add: registered_def channel_remove_def removeChannel_def assertInLoopThread_def
      ep_removeChannel_def isNoneEvent_def setIndex_def silenced_def removed_def Let_def ep_update_def)

subsection \<open>The promises\<close>

definition idle_timer :: timer where
  "idle_timer = \<lparr>r_tasks = Map.empty, r_entries = Map.empty, r_wheels = [], r_queue = [], r_counter = 0,
     r_pool = pool_new 1, r_fresh = 0, r_tickMs = time_default, r_startMs = time_default, r_wheelSize = 20, r_tickerNum = 1\<rparr>"

definition sample_loop :: "nat ev_loop" where
  "sample_loop = \<lparr>l_id = 0, l_inThread = True, l_looping = False, l_callingPending = None, l_quit = False,
     l_poller = \<lparr>ep_channels = Map.empty, ep_events = kInitEventListSize, ep_calls = []\<rparr>, l_active = [],
     l_current = None, l_eventHandling = False, l_funcs = [], l_timer = idle_timer, l_eventfd = 0,
     l_wakeupChannel = 0, l_channels = Map.empty\<rparr>"

text \<open>C8. The kernel watches what the channels say: after any operations on channels that have not
  stopped the process, every call of \<^verbatim>\<open>epoll_ctl\<close> was one the kernel accepts, and its interest list
  holds exactly the channels marked as added, each under its descriptor with its current events. So
  ignoring the result of \<^verbatim>\<open>epoll_ctl\<close> loses nothing, and a descriptor never has two channels.\<close>

theorem epoll_follows_channels:
  assumes "loop_reach s"
  shows "\<exists>k. interest (ep_calls (l_poller s)) = Some k \<and>
     (\<forall>fd ev a. k fd = Some (ev, a) \<longleftrightarrow>
        (\<exists>c. l_channels s a = Some c \<and> c_fd c = fd \<and> c_index c = kAdded \<and> c_events c = ev))"
  using loop_reach_ok [OF assms] watched_iff by (auto simp: reactor_ok_def)

lemma sample_reach: "\<exists>s. loop_reach s \<and> ep_calls (l_poller s) = [(CtlAdd, 5, 3, 1), (CtlMod, 5, 7, 1)] \<and>
    (\<exists>c. l_channels (s :: nat ev_loop) 1 = Some c \<and> c_fd c = 5 \<and> c_index c = kAdded \<and> c_events c = 7)"
proof -
  have 0: "loop_reach sample_loop" by (rule loop_reach.init) (simp_all add: sample_loop_def)
  obtain s1 where 1: "channel_step (NewChannel 5) 1 sample_loop = Inr s1" by (simp add: sample_loop_def)
  obtain s2 where 2: "channel_step (SetEvents (\<lambda>e. 3)) 1 s1 = Inr s2"
    using 1 by (auto simp: sample_loop_def set_events_def updateChannel_def ep_updateChannel_def
        assertInLoopThread_def Channel_def Let_def)
  obtain s3 where 3: "channel_step (SetEvents (\<lambda>e. 7)) 1 s2 = Inr s3"
    using 1 2 by (auto simp: sample_loop_def set_events_def updateChannel_def ep_updateChannel_def
        assertInLoopThread_def Channel_def Let_def setIndex_def isNoneEvent_def)
  have "loop_reach s3" by (rule loop_reach.step [OF loop_reach.step [OF loop_reach.step [OF 0 1] 2] 3])
  moreover have "ep_calls (l_poller s3) = [(CtlAdd, 5, 3, 1), (CtlMod, 5, 7, 1)] \<and>
      (\<exists>c. l_channels s3 1 = Some c \<and> c_fd c = 5 \<and> c_index c = kAdded \<and> c_events c = 7)"
    using 1 2 3 by (auto simp: sample_loop_def set_events_def updateChannel_def ep_updateChannel_def
        assertInLoopThread_def Channel_def Let_def setIndex_def isNoneEvent_def ep_update_def)
  ultimately show ?thesis by blast
qed

theorem epoll_follows_channels_witness:
  "\<exists>s k. ep_calls (l_poller (s :: nat ev_loop)) = [(CtlAdd, 5, 3, 1), (CtlMod, 5, 7, 1)] \<and>
     interest (ep_calls (l_poller s)) = Some k \<and> k 5 = Some (7, 1)"
proof -
  obtain s :: "nat ev_loop" where s: "loop_reach s" "ep_calls (l_poller s) = [(CtlAdd, 5, 3, 1), (CtlMod, 5, 7, 1)]"
    and c: "\<exists>c. l_channels s 1 = Some c \<and> c_fd c = 5 \<and> c_index c = kAdded \<and> c_events c = 7"
    using sample_reach by blast
  obtain k where "interest (ep_calls (l_poller s)) = Some k"
    "k 5 = Some (7, 1) \<longleftrightarrow> (\<exists>c. l_channels s 1 = Some c \<and> c_fd c = 5 \<and> c_index c = kAdded \<and> c_events c = 7)"
    using epoll_follows_channels [OF s(1)] by blast
  then show ?thesis using s(2) c by blast
qed

text \<open>Then the assertions of \<^verbatim>\<open>fillActiveChannels\<close> hold for what the kernel reports.\<close>

lemma fill_loop_watched:
  "(\<And>a. a \<in> set (map snd rs) \<Longrightarrow> \<exists>c. cs a = Some c \<and> ep_channels p (c_fd c) = Some a) \<Longrightarrow>
    \<exists>cs'. fill_loop rs cs p active = Inr (cs', active @ map snd rs) \<and>
      (\<forall>a. map_option (setRevents 0) (cs' a) = map_option (setRevents 0) (cs a))"
proof (induction rs arbitrary: cs active)
  case (Cons r rs)
  obtain ev a where r: "r = (ev, a)" by (cases r)
  obtain c where c: "cs a = Some c" "ep_channels p (c_fd c) = Some a" using Cons(2) [of a] r by auto
  let ?cs = "cs(a \<mapsto> setRevents ev c)"
  have "\<exists>c. ?cs b = Some c \<and> ep_channels p (c_fd c) = Some b" if "b \<in> set (map snd rs)" for b
    using Cons(2) [of b] that c r by (auto simp: setRevents_def)
  from Cons(1) [of ?cs "active @ [a]", OF this] obtain cs' where "fill_loop rs ?cs p (active @ [a]) = Inr (cs', (active @ [a]) @ map snd rs)"
    and "\<forall>b. map_option (setRevents 0) (cs' b) = map_option (setRevents 0) (?cs b)" by blast
  moreover have "map_option (setRevents 0) (?cs b) = map_option (setRevents 0) (cs b)" for b
    using c by (simp add: setRevents_def)
  ultimately show ?case using r c by simp
qed simp

lemma poll_delivers:
  assumes r: "loop_reach s" and k: "interest (ep_calls (l_poller s)) = Some k"
    and rs: "\<And>a. a \<in> set (map snd rs) \<Longrightarrow> \<exists>fd ev. k fd = Some (ev, a)"
    and n: "length rs \<le> ep_events (l_poller s)"
  shows "\<exists>cs p. ep_poll (Inr rs) (l_channels s) (l_poller s) [] = Inr (cs, p, map snd rs)"
proof -
  have ok: "marks_ok (l_channels s) (ep_channels (l_poller s))"
    and k': "k = watched (l_channels s) (ep_channels (l_poller s))"
    using loop_reach_ok [OF r] k by (auto simp: reactor_ok_def)
  have "\<exists>c. l_channels s a = Some c \<and> ep_channels (l_poller s) (c_fd c) = Some a" if a: "a \<in> set (map snd rs)" for a
  proof -
    obtain fd ev where "k fd = Some (ev, a)" using rs [OF a] by blast
    then obtain c where c: "l_channels s a = Some c" "c_index c = kAdded" using watched_iff [OF ok] k' by auto
    then show ?thesis using marks_fd [OF ok c(1), of "c_fd c"] by simp
  qed
  from fill_loop_watched [of rs "l_channels s" "l_poller s" "[]", OF this] n show ?thesis
    by (auto simp: ep_poll_def fillActiveChannels_def)
qed

end
