(* ===== verification/MpscQueue.thy ===== *)
theory MpscQueue
  imports Prelude
begin

text \<open>
  \<^verbatim>\<open>MpscQueue\<close>, the lock-free queue of the functors, and its use by \<^verbatim>\<open>EventLoop::queueInLoop\<close> and
  \<^verbatim>\<open>EventLoop::loop\<close> on many threads. The nodes are a store; the atomic exchange and the store of
  the link are steps of their own, as is the write to the event descriptor behind them. The consumer
  reads what the producers write in one place only, \<^verbatim>\<open>next_\<close> of the tail, so a \<^verbatim>\<open>dequeue\<close> is a step.
\<close>

subsection \<open>The queue\<close>

record 'a node =
  nd_data :: "'a option"
  nd_next :: "nat option"

record 'a mpsc =
  q_nodes :: "nat \<rightharpoonup> 'a node"
  q_head :: nat
  q_tail :: nat

definition MpscQueue :: "nat \<Rightarrow> 'a mpsc" where
  "MpscQueue n = \<lparr>q_nodes = [n \<mapsto> \<lparr>nd_data = None, nd_next = None\<rparr>], q_head = n, q_tail = n\<rparr>"

text \<open>\<^verbatim>\<open>enqueue\<close>: a new node \<open>n\<close> and the exchange of the head, then the link from the old head.\<close>

definition enqueue_exchange :: "nat \<Rightarrow> 'a \<Rightarrow> ('a, 'z) mpsc_scheme \<Rightarrow> nat \<times> ('a, 'z) mpsc_scheme" where
  "enqueue_exchange n x q =
     (q_head q, q\<lparr>q_nodes := (q_nodes q)(n \<mapsto> \<lparr>nd_data = Some x, nd_next = None\<rparr>), q_head := n\<rparr>)"

definition enqueue_link :: "nat \<Rightarrow> nat \<Rightarrow> ('a, 'z) mpsc_scheme \<Rightarrow> ('a, 'z) mpsc_scheme res" where
  "enqueue_link prevhead n q =
     rbind (store_upd (q_nodes q) (Some prevhead) (\<lambda>d. d\<lparr>nd_next := Some n\<rparr>)) (\<lambda>ns. Inr (q\<lparr>q_nodes := ns\<rparr>))"

definition enqueue :: "nat \<Rightarrow> 'a \<Rightarrow> ('a, 'z) mpsc_scheme \<Rightarrow> ('a, 'z) mpsc_scheme res" where
  "enqueue n x q = (let (prevhead, q1) = enqueue_exchange n x q in enqueue_link prevhead n q1)"

definition dequeue :: "('a, 'z) mpsc_scheme \<Rightarrow> ('a option \<times> ('a, 'z) mpsc_scheme) res" where
  "dequeue q =
     rbind (deref (q_nodes q) (Some (q_tail q))) (\<lambda>tail.
     case nd_next tail of
       None \<Rightarrow> Inr (None, q)
     | Some n \<Rightarrow>
         rbind (deref (q_nodes q) (Some n)) (\<lambda>d.
         case nd_data d of
           None \<Rightarrow> Inl NullDeref
         | Some x \<Rightarrow> Inr (Some x, q\<lparr>q_nodes := ((q_nodes q)(n \<mapsto> d\<lparr>nd_data := None\<rparr>))(q_tail q := None), q_tail := n\<rparr>)))"

definition mpsc_empty :: "('a, 'z) mpsc_scheme \<Rightarrow> bool res" where
  "mpsc_empty q = rbind (deref (q_nodes q) (Some (q_tail q))) (\<lambda>tail. Inr (nd_next tail = None))"

text \<open>The destructor: the items that are left are taken out, and the last node is deleted.\<close>

primrec drain_queue :: "nat \<Rightarrow> ('a, 'z) mpsc_scheme \<Rightarrow> ('a, 'z) mpsc_scheme res" where
  "drain_queue 0 q = Inl Diverges"
| "drain_queue (Suc k) q = rbind (dequeue q) (\<lambda>(x, q'). if x = None then Inr q' else drain_queue k q')"

definition mpsc_destroy :: "nat \<Rightarrow> ('a, 'z) mpsc_scheme \<Rightarrow> ('a, 'z) mpsc_scheme res" where
  "mpsc_destroy k q = rbind (drain_queue k q) (\<lambda>q'. Inr (q'\<lparr>q_nodes := (q_nodes q')(q_head q' := None)\<rparr>))"

subsection \<open>Producers and the loop\<close>

text \<open>Where a call of \<^verbatim>\<open>queueInLoop\<close> is: between the exchange and the link, or before \<^verbatim>\<open>wakeup\<close>. The
  loop, on thread 0, waits in \<^verbatim>\<open>poll\<close>, handles events, or runs pending functors; it may queue
  functors itself, and wakes itself up only when it does not run pending ones.\<close>

datatype phase = Linking nat nat | Waking

datatype place = Polling | Handling | Draining

record 'a loop_queue = "'a mpsc" +
  lq_threads :: "nat \<rightharpoonup> phase"
  lq_place :: place
  lq_eventfd :: nat
  lq_in :: "'a list"
  lq_out :: "'a list"

definition loop_queue :: "nat \<Rightarrow> 'a loop_queue" where
  "loop_queue n = mpsc.extend (MpscQueue n)
     \<lparr>lq_threads = Map.empty, lq_place = Handling, lq_eventfd = 0, lq_in = [], lq_out = []\<rparr>"

inductive queue_step :: "'a loop_queue \<Rightarrow> 'a loop_queue \<Rightarrow> bool" where
  exchange: "lq_threads s t = None \<Longrightarrow> (t = 0 \<Longrightarrow> lq_place s \<noteq> Polling) \<Longrightarrow> q_nodes s n = None \<Longrightarrow>
    enqueue_exchange n x s = (p, s1) \<Longrightarrow>
    queue_step s (s1\<lparr>lq_threads := (lq_threads s)(t \<mapsto> Linking p n), lq_in := lq_in s @ [x]\<rparr>)"
| link: "lq_threads s t = Some (Linking p n) \<Longrightarrow> enqueue_link p n s = Inr s1 \<Longrightarrow>
    queue_step s (s1\<lparr>lq_threads := (lq_threads s)(t := if t = 0 \<and> lq_place s = Draining then None else Some Waking)\<rparr>)"
| wake: "lq_threads s t = Some Waking \<Longrightarrow>
    queue_step s (s\<lparr>lq_threads := (lq_threads s)(t := None), lq_eventfd := lq_eventfd s + 1\<rparr>)"
| ready: "lq_place s = Polling \<Longrightarrow> queue_step s (s\<lparr>lq_place := Handling\<rparr>)"
| read: "lq_place s = Handling \<Longrightarrow> lq_threads s 0 = None \<Longrightarrow> queue_step s (s\<lparr>lq_eventfd := 0\<rparr>)"
| drain: "lq_place s = Handling \<Longrightarrow> lq_threads s 0 = None \<Longrightarrow> queue_step s (s\<lparr>lq_place := Draining\<rparr>)"
| take: "lq_place s = Draining \<Longrightarrow> lq_threads s 0 = None \<Longrightarrow> dequeue s = Inr (Some x, s1) \<Longrightarrow>
    queue_step s (s1\<lparr>lq_out := lq_out s @ [x]\<rparr>)"
| sleep: "lq_place s = Draining \<Longrightarrow> lq_threads s 0 = None \<Longrightarrow> mpsc_empty s = Inr True \<Longrightarrow>
    queue_step s (s\<lparr>lq_place := Polling\<rparr>)"

inductive queue_reach :: "'a loop_queue \<Rightarrow> bool" where
  start: "queue_reach (loop_queue n)"
| step: "queue_reach s \<Longrightarrow> queue_step s s' \<Longrightarrow> queue_reach s'"

subsection \<open>The chain of nodes\<close>

text \<open>The nodes from the tail to the head in the order of the exchanges: neighbours are linked, or a
  thread is about to link them.\<close>

fun adj :: "'a list \<Rightarrow> 'a \<Rightarrow> 'a \<Rightarrow> bool" where
  "adj [] x y = False"
| "adj [a] x y = False"
| "adj (a # b # l) x y = (x = a \<and> y = b \<or> adj (b # l) x y)"

lemma adj_snoc: "l \<noteq> [] \<Longrightarrow> adj (l @ [n]) x y \<longleftrightarrow> adj l x y \<or> x = last l \<and> y = n"
  by (induction l x y rule: adj.induct) auto

lemma adj_set: "adj l x y \<Longrightarrow> x \<in> set l \<and> y \<in> set (tl l)"
  by (induction l x y rule: adj.induct) auto

lemma adj_fun: "distinct l \<Longrightarrow> adj l x y \<Longrightarrow> adj l x z \<Longrightarrow> y = z"
  by (induction l x y rule: adj.induct) (auto dest: adj_set)

lemma adj_last: "distinct l \<Longrightarrow> adj l x y \<Longrightarrow> x \<noteq> last l"
  by (induction l x y rule: adj.induct) (auto dest: adj_set split: if_splits)

definition next_of :: "(nat \<rightharpoonup> 'a node) \<Rightarrow> nat \<Rightarrow> nat option" where
  "next_of ns a = Option.bind (ns a) nd_next"

definition data_of :: "(nat \<rightharpoonup> 'a node) \<Rightarrow> nat \<Rightarrow> 'a option" where
  "data_of ns a = Option.bind (ns a) nd_data"

definition linking :: "(nat \<rightharpoonup> phase) \<Rightarrow> nat \<Rightarrow> nat \<Rightarrow> bool" where
  "linking ts a b \<longleftrightarrow> (\<exists>t. ts t = Some (Linking a b))"

definition chain_ok :: "(nat \<rightharpoonup> 'a node) \<Rightarrow> (nat \<rightharpoonup> phase) \<Rightarrow> nat list \<Rightarrow> bool" where
  "chain_ok ns ts l \<longleftrightarrow> l \<noteq> [] \<and> distinct l \<and> (\<forall>a\<in>set l. ns a \<noteq> None) \<and> next_of ns (last l) = None \<and>
     (\<forall>a b. adj l a b \<longrightarrow> next_of ns a = (if linking ts a b then None else Some b)) \<and>
     (\<forall>a b. linking ts a b \<longrightarrow> adj l a b) \<and>
     (\<forall>t t' a b. ts t = Some (Linking a b) \<longrightarrow> ts t' = Some (Linking a b) \<longrightarrow> t = t')"

lemma chain_okD:
  assumes "chain_ok ns ts l"
  shows "l \<noteq> []" "distinct l" "a \<in> set l \<Longrightarrow> ns a \<noteq> None" "next_of ns (last l) = None"
    "adj l a b \<Longrightarrow> next_of ns a = (if linking ts a b then None else Some b)"
    "linking ts a b \<Longrightarrow> adj l a b" "ts t = Some (Linking a b) \<Longrightarrow> ts t' = Some (Linking a b) \<Longrightarrow> t = t'"
  using assms unfolding chain_ok_def by blast+

lemma chain_okI:
  assumes "l \<noteq> []" "distinct l" "\<And>a. a \<in> set l \<Longrightarrow> ns a \<noteq> None" "next_of ns (last l) = None"
    "\<And>a b. adj l a b \<Longrightarrow> next_of ns a = (if linking ts a b then None else Some b)"
    "\<And>a b. linking ts a b \<Longrightarrow> adj l a b"
    "\<And>t t' a b. ts t = Some (Linking a b) \<Longrightarrow> ts t' = Some (Linking a b) \<Longrightarrow> t = t'"
  shows "chain_ok ns ts l"
  using assms unfolding chain_ok_def by blast

lemma chain_exchange:
  assumes c: "chain_ok ns ts l" and n: "ns n = None" and t: "ts t = None"
  shows "chain_ok (ns(n \<mapsto> \<lparr>nd_data = Some x, nd_next = None\<rparr>)) (ts(t \<mapsto> Linking (last l) n)) (l @ [n])"
proof -
  let ?ns = "ns(n \<mapsto> \<lparr>nd_data = Some x, nd_next = None\<rparr>)" and ?ts = "ts(t \<mapsto> Linking (last l) n)"
  note d = chain_okD [OF c]
  have nl: "n \<notin> set l" using d(3) n by blast
  have lk: "linking ?ts a b \<longleftrightarrow> linking ts a b \<or> a = last l \<and> b = n" for a b
    using t by (auto simp: linking_def) (metis option.distinct(1))
  have nx: "next_of ?ns a = next_of ns a" if "a \<in> set l" for a using that nl by (auto simp: next_of_def)
  show ?thesis
  proof (rule chain_okI)
    fix a b assume "adj (l @ [n]) a b"
    then have "adj l a b \<or> a = last l \<and> b = n" using adj_snoc [OF d(1)] by simp
    then show "next_of ?ns a = (if linking ?ts a b then None else Some b)"
    proof
      assume a: "adj l a b"
      then have "a \<in> set l" "b \<noteq> n" using adj_set [OF a] nl by (auto dest: list.set_sel(2) [OF d(1)])
      then show ?thesis using d(5) [OF a] nx lk by simp
    next
      assume "a = last l \<and> b = n"
      then show ?thesis using nx [of "last l"] d(1,4) lk by simp
    qed
  next
    fix a b assume "linking ?ts a b"
    then show "adj (l @ [n]) a b" using d(6) [of a b] by (auto simp: adj_snoc [OF d(1)] lk)
  next
    fix t1 t2 a b assume *: "?ts t1 = Some (Linking a b)" "?ts t2 = Some (Linking a b)"
    have "ts u \<noteq> Some (Linking (last l) n)" for u
      using d(6) [of "last l" n] adj_last [OF d(2), of "last l" n] by (auto simp: linking_def)
    then show "t1 = t2" using * d(7) [of t1 a b t2] by (auto split: if_splits)
  qed (use d(2,3) nl in \<open>auto simp: next_of_def\<close>)
qed

lemma chain_link:
  assumes c: "chain_ok ns ts l" and t: "ts t = Some (Linking p n)" and p: "ns p = Some d"
    and ph: "\<And>a b. ph \<noteq> Some (Linking a b)"
  shows "chain_ok (ns(p \<mapsto> d\<lparr>nd_next := Some n\<rparr>)) (ts(t := ph)) l"
proof -
  let ?ns = "ns(p \<mapsto> d\<lparr>nd_next := Some n\<rparr>)" and ?ts = "ts(t := ph)"
  note ch = chain_okD [OF c]
  have pn: "adj l p n" using ch(6) [of p n] t by (auto simp: linking_def)
  have lk: "linking ?ts a b \<longleftrightarrow> linking ts a b \<and> (a, b) \<noteq> (p, n)" for a b
  proof
    assume "linking ?ts a b"
    then obtain t' where t': "?ts t' = Some (Linking a b)" by (auto simp: linking_def)
    then have "t' \<noteq> t" "ts t' = Some (Linking a b)" using ph by (auto split: if_splits)
    then show "linking ts a b \<and> (a, b) \<noteq> (p, n)" using ch(7) [OF t] by (auto simp: linking_def)
  next
    assume *: "linking ts a b \<and> (a, b) \<noteq> (p, n)"
    then obtain t' where t': "ts t' = Some (Linking a b)" by (auto simp: linking_def)
    then have "?ts t' = Some (Linking a b)" using * t by auto
    then show "linking ?ts a b" unfolding linking_def by blast
  qed
  have nx: "next_of ?ns a = (if a = p then Some n else next_of ns a)" for a by (simp add: next_of_def)
  show ?thesis
  proof (rule chain_okI)
    fix a b assume a: "adj l a b"
    show "next_of ?ns a = (if linking ?ts a b then None else Some b)"
      using ch(5) [OF a] adj_fun [OF ch(2) pn, of b] a nx lk by auto
  next
    fix t1 t2 a b assume "?ts t1 = Some (Linking a b)" "?ts t2 = Some (Linking a b)"
    then show "t1 = t2" using ph ch(7) [of t1 a b t2] by (auto split: if_splits)
  next
    show "next_of ?ns (last l) = None" using adj_last [OF ch(2) pn] ch(4) nx by simp
  next
    fix a assume "a \<in> set l"
    then show "?ns a \<noteq> None" using ch(3) by simp
  next
    fix a b assume "linking ?ts a b"
    then show "adj l a b" using ch(6) lk by blast
  qed (fact ch(1,2))+
qed

lemma chain_threads:
  "chain_ok ns ts l \<Longrightarrow> (\<And>t a b. ts' t = Some (Linking a b) \<longleftrightarrow> ts t = Some (Linking a b)) \<Longrightarrow> chain_ok ns ts' l"
  by (simp add: chain_ok_def linking_def)

lemma chain_take:
  assumes c: "chain_ok ns ts l" and n: "next_of ns (hd l) = Some b" and d: "ns b = Some d"
  shows "\<exists>ys. l = hd l # b # ys \<and> chain_ok ((ns(b \<mapsto> d\<lparr>nd_data := None\<rparr>))(hd l := None)) ts (b # ys)"
proof -
  note ch = chain_okD [OF c]
  have "l \<noteq> [hd l]" using ch(4) n by (metis last_ConsL option.distinct(1))
  then obtain a b' ys where l: "l = a # b' # ys" using ch(1) by (cases l; cases "tl l") auto
  have "next_of ns a = (if linking ts a b' then None else Some b')" using ch(5) [of a b'] l by simp
  then have b: "b' = b" and nl: "\<not> linking ts a b" using n l by (auto split: if_splits)
  let ?ns = "(ns(b \<mapsto> d\<lparr>nd_data := None\<rparr>))(a := None)"
  have nx: "next_of ?ns x = next_of ns x" if "x \<in> set (b # ys)" for x
    using that ch(2) l b d by (auto simp: next_of_def)
  have up: "adj l x y" if "adj (b # ys) x y" for x y using that l b by simp
  have "chain_ok ?ns ts (b # ys)"
  proof (rule chain_okI)
    fix x y assume x: "adj (b # ys) x y"
    show "next_of ?ns x = (if linking ts x y then None else Some y)"
      using nx adj_set [OF x] ch(5) [OF up [OF x]] by simp
  next
    fix x y assume xy: "linking ts x y"
    then have "adj l x y" by (rule ch(6))
    then have "x = a \<and> y = b \<or> adj (b # ys) x y" using l b by simp
    then show "adj (b # ys) x y" using nl xy by blast
  next
    fix x assume "x \<in> set (b # ys)"
    then show "?ns x \<noteq> None" using ch(2) ch(3) [of x] l b by auto
  next
    show "next_of ?ns (last (b # ys)) = None" using nx [of "last (b # ys)"] ch(4) l b by simp
  next
    fix t t' x y assume "ts t = Some (Linking x y)" "ts t' = Some (Linking x y)"
    then show "t = t'" by (rule ch(7))
  qed (use ch(2) l b in simp_all)
  then show ?thesis using l b by simp
qed


subsection \<open>The invariant\<close>

definition queue_ok :: "'a loop_queue \<Rightarrow> nat list \<Rightarrow> bool" where
  "queue_ok s l \<longleftrightarrow> chain_ok (q_nodes s) (lq_threads s) l \<and> hd l = q_tail s \<and> last l = q_head s \<and>
     (\<exists>rest. lq_in s = lq_out s @ rest \<and> map (data_of (q_nodes s)) (tl l) = map Some rest) \<and>
     (lq_place s = Polling \<longrightarrow> lq_threads s 0 = None \<and>
        (lq_eventfd s = 0 \<longrightarrow> (\<forall>t. lq_threads s t = None) \<longrightarrow> tl l = []))"

lemma data_of_link: "ns p = Some d \<Longrightarrow> data_of (ns(p \<mapsto> d\<lparr>nd_next := x\<rparr>)) = data_of ns"
  by (rule ext) (simp add: data_of_def)

lemma queue_ok_dequeue:
  assumes ok: "queue_ok s l"
  shows "(dequeue s = Inr (None, s) \<and> ((\<forall>a b. \<not> linking (lq_threads s) a b) \<longrightarrow> lq_in s = lq_out s)) \<or>
    (\<exists>x s1 rest l'. dequeue s = Inr (Some x, s1) \<and> lq_in s = lq_out s @ x # rest \<and>
       queue_ok (s1\<lparr>lq_out := lq_out s @ [x]\<rparr>) l')"
proof -
  have c: "chain_ok (q_nodes s) (lq_threads s) l" and h: "hd l = q_tail s" "last l = q_head s"
    using ok by (simp_all add: queue_ok_def)
  note ch = chain_okD [OF c]
  obtain rest where rest: "lq_in s = lq_out s @ rest" "map (data_of (q_nodes s)) (tl l) = map Some rest"
    using ok by (auto simp: queue_ok_def)
  obtain td where td: "q_nodes s (q_tail s) = Some td" using ch(3) [OF hd_in_set [OF ch(1)]] h by auto
  show ?thesis
  proof (cases "nd_next td")
    case None
    have "rest = []" if "\<forall>a b. \<not> linking (lq_threads s) a b"
    proof (cases "tl l")
      case (Cons b ys)
      then have "l = hd l # b # ys" using ch(1) by (metis list.collapse)
      then have "adj l (hd l) b" by (metis adj.simps(3))
      from ch(5) [OF this] that h td None show ?thesis by (simp add: next_of_def)
    qed (use rest in simp)
    then show ?thesis using None td rest by (simp add: dequeue_def)
  next
    case (Some b)
    have nb: "next_of (q_nodes s) (hd l) = Some b" using h td Some by (simp add: next_of_def)
    have "tl l \<noteq> []" using ch(1,4) nb by (cases l) (auto split: if_splits)
    then obtain b' ys where l: "l = hd l # b' # ys" using ch(1) by (cases l; cases "tl l") auto
    have "adj l (hd l) b'" using l by (metis adj.simps(3))
    from ch(5) [OF this] have "b' = b" using nb by (simp split: if_splits)
    then have bl: "b \<in> set l" using l by (metis list.set_intros)
    then obtain d where d: "q_nodes s b = Some d" using ch(3) [of b] by blast
    obtain ys' where l2: "l = hd l # b # ys'"
      and c2: "chain_ok (((q_nodes s)(b \<mapsto> d\<lparr>nd_data := None\<rparr>))(hd l := None)) (lq_threads s) (b # ys')"
      using chain_take [OF c nb d] by blast
    have "data_of (q_nodes s) b # map (data_of (q_nodes s)) ys' = map Some rest"
      using arg_cong [OF l2, of tl] rest(2) by simp
    then obtain x rest' where r: "rest = x # rest'" "data_of (q_nodes s) b = Some x"
      "map (data_of (q_nodes s)) ys' = map Some rest'" by (cases rest) auto
    let ?ns = "((q_nodes s)(b \<mapsto> d\<lparr>nd_data := None\<rparr>))(q_tail s := None)"
    let ?s = "s\<lparr>q_nodes := ?ns, q_tail := b\<rparr>"
    have out: "b \<notin> set ys'" "q_tail s \<notin> set ys'" using ch(2) l2 h by (metis distinct.simps(2) list.set_intros(2))+
    have "map (data_of ?ns) ys' = map (data_of (q_nodes s)) ys'" using out by (auto simp: data_of_def)
    then have dt: "map (data_of ?ns) (tl (b # ys')) = map Some rest'" using r(3) by simp
    have "dequeue s = Inr (Some x, ?s)" using r(2) td Some d by (simp add: dequeue_def data_of_def)
    moreover have "queue_ok (?s\<lparr>lq_out := lq_out s @ [x]\<rparr>) (b # ys')"
      unfolding queue_ok_def
    proof (intro conjI)
      show "chain_ok (q_nodes (?s\<lparr>lq_out := lq_out s @ [x]\<rparr>)) (lq_threads (?s\<lparr>lq_out := lq_out s @ [x]\<rparr>)) (b # ys')"
        using c2 h by simp
      show "last (b # ys') = q_head (?s\<lparr>lq_out := lq_out s @ [x]\<rparr>)"
        using h(2) arg_cong [OF l2, of last] by simp
      show "\<exists>rest. lq_in (?s\<lparr>lq_out := lq_out s @ [x]\<rparr>) = lq_out (?s\<lparr>lq_out := lq_out s @ [x]\<rparr>) @ rest \<and>
          map (data_of (q_nodes (?s\<lparr>lq_out := lq_out s @ [x]\<rparr>))) (tl (b # ys')) = map Some rest"
        using dt rest(1) r(1) by (intro exI [of _ rest']) simp
      show "lq_place (?s\<lparr>lq_out := lq_out s @ [x]\<rparr>) = Polling \<longrightarrow> lq_threads (?s\<lparr>lq_out := lq_out s @ [x]\<rparr>) 0 = None \<and>
        (lq_eventfd (?s\<lparr>lq_out := lq_out s @ [x]\<rparr>) = 0 \<longrightarrow>
          (\<forall>t. lq_threads (?s\<lparr>lq_out := lq_out s @ [x]\<rparr>) t = None) \<longrightarrow> tl (b # ys') = [])"
        using ok arg_cong [OF l2, of tl] by (auto simp: queue_ok_def)
    qed simp
    ultimately show ?thesis using rest(1) r(1) by blast
  qed
qed

lemma linking_nodes:
  assumes ok: "queue_ok s l" and t: "lq_threads s t = Some (Linking p n)"
  shows "\<exists>d. q_nodes s p = Some d"
proof -
  have c: "chain_ok (q_nodes s) (lq_threads s) l" using ok by (simp add: queue_ok_def)
  have "adj l p n" using chain_okD(6) [OF c, of p n] t by (auto simp: linking_def)
  then show ?thesis using chain_okD(3) [OF c, of p] adj_set by fastforce
qed

lemma queue_step_ok:
  assumes st: "queue_step s s'" and ok: "queue_ok s l"
  shows "\<exists>l'. queue_ok s' l'"
  using st ok
proof (induction rule: queue_step.induct)
  case (exchange s t n x p s1)
  note ok = exchange.prems
  have c: "chain_ok (q_nodes s) (lq_threads s) l" and h: "last l = q_head s" using ok by (simp_all add: queue_ok_def)
  note c' = chain_exchange [OF c exchange(3,1), of x]
  obtain rest where rest: "lq_in s = lq_out s @ rest" "map (data_of (q_nodes s)) (tl l) = map Some rest"
    using ok by (auto simp: queue_ok_def)
  let ?ns = "(q_nodes s)(n \<mapsto> \<lparr>nd_data = Some x, nd_next = None\<rparr>)"
  have l: "l \<noteq> []" by (rule chain_okD(1) [OF c])
  have "n \<notin> set (tl l)" using chain_okD(3) [OF c, of n] exchange(3) list.set_sel(2) [OF l] by blast
  then have "map (data_of ?ns) (tl l) = map (data_of (q_nodes s)) (tl l)" by (auto simp: data_of_def)
  moreover have "data_of ?ns n = Some x" by (simp add: data_of_def)
  ultimately have "map (data_of ?ns) (tl (l @ [n])) = map Some (rest @ [x])" using rest(2) l by simp
  then have "queue_ok (s1\<lparr>lq_threads := (lq_threads s)(t \<mapsto> Linking p n), lq_in := lq_in s @ [x]\<rparr>) (l @ [n])" using ok exchange c' h l rest
    by (auto simp: queue_ok_def enqueue_exchange_def)
  then show ?case ..
next
  case (link s t p n s1)
  note ok = link.prems
  have c: "chain_ok (q_nodes s) (lq_threads s) l" using ok by (simp add: queue_ok_def)
  obtain d where d: "q_nodes s p = Some d" and s1: "s1 = s\<lparr>q_nodes := (q_nodes s)(p \<mapsto> d\<lparr>nd_next := Some n\<rparr>)\<rparr>"
    using link(2) by (auto simp: enqueue_link_def)
  let ?ph = "if t = 0 \<and> lq_place s = Draining then None else Some Waking"
  have "chain_ok ((q_nodes s)(p \<mapsto> d\<lparr>nd_next := Some n\<rparr>)) ((lq_threads s)(t := ?ph)) l"
    by (rule chain_link [OF c link(1) d]) simp
  moreover have "data_of ((q_nodes s)(p \<mapsto> d\<lparr>nd_next := Some n\<rparr>)) = data_of (q_nodes s)"
    by (rule data_of_link [of "q_nodes s" p d "Some n", OF d])
  moreover have "lq_place s = Polling \<Longrightarrow> t \<noteq> 0 \<and> ?ph = Some Waking"
    using ok link(1) by (cases "t = 0") (auto simp: queue_ok_def)
  ultimately have "queue_ok (s1\<lparr>lq_threads := (lq_threads s)(t := ?ph)\<rparr>) l"
    using ok unfolding queue_ok_def s1 by (cases "lq_place s") auto
  then show ?case ..
next
  case (wake s t)
  note ok = wake.prems
  have "chain_ok (q_nodes s) ((lq_threads s)(t := None)) l"
  proof (rule chain_threads [of _ "lq_threads s"])
    show "chain_ok (q_nodes s) (lq_threads s) l" using ok by (simp add: queue_ok_def)
  qed (use wake(1) in simp)
  then have "queue_ok (s\<lparr>lq_threads := (lq_threads s)(t := None), lq_eventfd := lq_eventfd s + 1\<rparr>) l"
    using ok wake by (auto simp: queue_ok_def)
  then show ?case ..
next
  case (take s x s1)
  then show ?case using queue_ok_dequeue [OF take.prems] by auto
next
  case (sleep s)
  note ok = sleep.prems
  have c: "chain_ok (q_nodes s) (lq_threads s) l" and h: "hd l = q_tail s" using ok by (simp_all add: queue_ok_def)
  have "tl l = []" if no: "\<forall>t. lq_threads s t = None"
  proof (cases "tl l")
    case (Cons b ys)
    then have "adj l (hd l) b" using chain_okD(1) [OF c] by (metis adj.simps(3) list.collapse)
    from chain_okD(5) [OF c this] have "next_of (q_nodes s) (q_tail s) = Some b" using no h by (simp add: linking_def)
    then show ?thesis using sleep(3) by (auto simp: mpsc_empty_def next_of_def)
  qed
  then have "queue_ok (s\<lparr>lq_place := Polling\<rparr>) l" using ok sleep by (auto simp: queue_ok_def)
  then show ?case ..
qed (auto simp: queue_ok_def intro!: exI [of _ l])

lemma queue_reach_ok: "queue_reach s \<Longrightarrow> \<exists>l. queue_ok s l"
proof (induction rule: queue_reach.induct)
  case (start n)
  have "queue_ok (loop_queue n) [n]"
    by (auto simp: queue_ok_def loop_queue_def MpscQueue_def mpsc.defs chain_ok_def next_of_def linking_def)
  then show ?case ..
next
  case (step s s')
  then show ?case using queue_step_ok by blast
qed


subsection \<open>The promises\<close>

text \<open>C5. The functors come out in the order in which their producers exchanged the head, each once,
  under every interleaving: what has been taken is always a first part of what has been put in; a
  link never writes to a deleted node; and a \<^verbatim>\<open>dequeue\<close> never fails, takes the next one, and
  finds nothing only when all are taken or a producer is between its exchange and its link.\<close>

theorem mpsc_fifo:
  assumes "queue_reach s"
  shows "(\<exists>rest. lq_in s = lq_out s @ rest) \<and>
    (\<forall>t p n. lq_threads s t = Some (Linking p n) \<longrightarrow> (\<exists>s1. enqueue_link p n s = Inr s1)) \<and>
    (dequeue s = Inr (None, s) \<and> ((\<forall>t p n. lq_threads s t \<noteq> Some (Linking p n)) \<longrightarrow> lq_in s = lq_out s) \<or>
     (\<exists>x s1 rest. dequeue s = Inr (Some x, s1) \<and> lq_in s = lq_out s @ x # rest))"
proof -
  obtain l where ok: "queue_ok s l" using queue_reach_ok [OF assms] by blast
  have "\<exists>rest. lq_in s = lq_out s @ rest" using ok by (auto simp: queue_ok_def)
  moreover have "\<exists>s1. enqueue_link p n s = Inr s1" if "lq_threads s t = Some (Linking p n)" for t p n
    using linking_nodes [OF ok that] by (auto simp: enqueue_link_def)
  ultimately show ?thesis using queue_ok_dequeue [OF ok] unfolding linking_def by blast
qed

text \<open>C20. No wakeup is lost: when the loop waits in \<^verbatim>\<open>poll\<close> with the event descriptor at zero and no
  thread is inside \<^verbatim>\<open>queueInLoop\<close>, every functor queued has been taken out.\<close>

theorem no_lost_wakeup:
  assumes r: "queue_reach s" and w: "lq_place s = Polling" "lq_eventfd s = 0" and t: "\<forall>t. lq_threads s t = None"
  shows "lq_in s = lq_out s"
  using queue_reach_ok [OF r] w t by (auto simp: queue_ok_def)

lemma reach_one: "\<exists>s. queue_reach s \<and> lq_in s = [x] \<and> lq_out s = ([] :: 'a list) \<and> dequeue s \<noteq> Inr (None, s)"
proof -
  let ?s0 = "loop_queue 0 :: 'a loop_queue"
  obtain p s1 where 1: "enqueue_exchange 1 x ?s0 = (p, s1)" by (cases "enqueue_exchange 1 x ?s0")
  let ?s1 = "s1\<lparr>lq_threads := (lq_threads ?s0)(1 \<mapsto> Linking p 1), lq_in := lq_in ?s0 @ [x]\<rparr>"
  have r1: "queue_reach ?s1"
    by (rule queue_reach.step [OF queue_reach.start queue_step.exchange [OF _ _ _ 1]])
      (simp_all add: loop_queue_def MpscQueue_def mpsc.defs)
  obtain s2 where 2: "enqueue_link p 1 ?s1 = Inr s2"
    using 1 by (auto simp: enqueue_link_def enqueue_exchange_def loop_queue_def MpscQueue_def mpsc.defs)
  have r2: "queue_reach (s2\<lparr>lq_threads := (lq_threads ?s1)(1 := if (1::nat) = 0 \<and> lq_place ?s1 = Draining then None else Some Waking)\<rparr>)"
    (is "queue_reach ?s2")
    by (rule queue_reach.step [OF r1 queue_step.link [OF _ 2]]) simp
  have "lq_in ?s2 = [x] \<and> lq_out ?s2 = [] \<and> dequeue ?s2 \<noteq> Inr (None, ?s2)"
    using 1 2 by (auto simp: enqueue_link_def enqueue_exchange_def loop_queue_def MpscQueue_def mpsc.defs dequeue_def)
  then show ?thesis using r2 by blast
qed

theorem mpsc_fifo_witness: "\<exists>(s :: nat loop_queue) s1. lq_in s = [7] \<and> lq_out s = [] \<and> dequeue s = Inr (Some 7, s1)"
proof -
  obtain s where s: "queue_reach s" "lq_in s = [7::nat]" "lq_out s = []" "dequeue s \<noteq> Inr (None, s)"
    using reach_one [of 7] by blast
  then obtain x s1 rest where "dequeue s = Inr (Some x, s1)" "lq_in s = lq_out s @ x # rest"
    using mpsc_fifo [OF s(1)] by blast
  then have "dequeue s = Inr (Some 7, s1)" using s(2,3) by simp
  then show ?thesis using s(2,3) by blast
qed

theorem no_lost_wakeup_witness:
  "\<exists>s. lq_place s = Polling \<and> lq_eventfd s = 0 \<and> lq_in (s :: bool loop_queue) = lq_out s"
proof -
  let ?s0 = "loop_queue 0 :: bool loop_queue"
  let ?s1 = "?s0\<lparr>lq_place := Draining\<rparr>"
  let ?s2 = "?s1\<lparr>lq_place := Polling\<rparr>"
  have r1: "queue_reach ?s1"
    by (rule queue_reach.step [OF queue_reach.start queue_step.drain]) (simp_all add: loop_queue_def MpscQueue_def mpsc.defs)
  have "queue_reach ?s2"
    by (rule queue_reach.step [OF r1 queue_step.sleep])
      (simp_all add: loop_queue_def MpscQueue_def mpsc.defs mpsc_empty_def)
  then have "lq_in ?s2 = lq_out ?s2"
    by (rule no_lost_wakeup) (simp_all add: loop_queue_def MpscQueue_def mpsc.defs)
  then show ?thesis by (intro exI [of _ ?s2]) (simp add: loop_queue_def MpscQueue_def mpsc.defs)
qed

end
