(* ===== verification/TcpServerSpec.thy ===== *)
theory TcpServerSpec
  imports TcpServer EventLoopSpec TcpStream
begin

text \<open>
  What a server promises: loops are given out in turn, a connection that closes leaves nothing
  behind, and what happens when a server is destroyed on the loop of its connections.
\<close>

subsection \<open>Loops in turn\<close>

lemma getNextLoop_step:
  assumes "lt_index p < length (lt_loops p)"
  shows "getNextLoop p = Inr (lt_loops p ! lt_index p, p\<lparr>lt_index := (lt_index p + 1) mod length (lt_loops p)\<rparr>)"
proof -
  have "(lt_index p + 1) mod length (lt_loops p) = (if lt_index p + 1 \<ge> length (lt_loops p) then 0 else lt_index p + 1)"
    using assms by (cases "lt_index p + 1 = length (lt_loops p)") auto
  then show ?thesis using assms by (auto simp: getNextLoop_def Let_def at_vec_def)
qed

text \<open>The loops of the pool take turns: any number of calls of \<^verbatim>\<open>getNextLoop\<close> gives the loops in
  the order of the pool, starting at the index and going round, none left out; the index stays in
  range.\<close>

lemma loops_in_turn:
  assumes "lt_index p < length (lt_loops p)"
  shows "next_loops n p = Inr (map (\<lambda>j. lt_loops p ! ((lt_index p + j) mod length (lt_loops p))) [0..<n],
    p\<lparr>lt_index := (lt_index p + n) mod length (lt_loops p)\<rparr>)"
  using assms
proof (induction n arbitrary: p)
  case (Suc n)
  let ?k = "length (lt_loops p)" and ?p = "p\<lparr>lt_index := (lt_index p + 1) mod length (lt_loops p)\<rparr>"
  have "lt_index ?p < length (lt_loops ?p)" using Suc(2) by (simp add: mod_less_divisor [OF le_less_trans [OF le0]])
  note IH = Suc(1) [OF this]
  have i: "(Suc (lt_index p) mod ?k + j) mod ?k = Suc (lt_index p + j) mod ?k" for j
    by (simp only: mod_add_left_eq add_Suc)
  have "map (\<lambda>j. lt_loops p ! ((lt_index p + j) mod ?k)) [0..<Suc n] =
      lt_loops p ! (lt_index p mod ?k) # map (\<lambda>j. lt_loops p ! ((lt_index p + Suc j) mod ?k)) [0..<n]"
    by (simp add: upt_conv_Cons map_Suc_upt [symmetric] del: upt_Suc)
  then show ?case using IH Suc(2) by (simp add: getNextLoop_step i del: upt_Suc)
qed simp

lemma loops_in_turn_witness:
  "next_loops 5 (EventLoopThreadPool [7, 8, 9]) =
     Inr ([Some 7, Some 8, Some 9, Some 7, Some 8], \<lparr>lt_loops = [Some 7, Some 8, Some 9], lt_index = 2\<rparr>)"
  using loops_in_turn [of "EventLoopThreadPool [7, 8, 9]" 5]
  by (simp add: EventLoopThreadPool_def upt_rec)

subsection \<open>Closing\<close>

text \<open>The callback of a connection has nothing to do for one that is disconnected.\<close>

definition quiet :: "(nat \<Rightarrow> net \<Rightarrow> net res) option \<Rightarrow> nat \<Rightarrow> bool" where
  "quiet cb c \<longleftrightarrow> (\<forall>s t. n_conns s c = Some t \<longrightarrow> t_state t = kDisconnected \<longrightarrow> optional_callback cb c s = Inr s)"

lemma handleClose_result:
  assumes r: "registered (t_channel t) ch s" and c: "n_conns s c = Some t"
    and st: "t_state t = kConnected \<or> t_state t = kDisconnecting"
    and one: "n_oneLoop s" "c \<in> n_connSet s" and q: "quiet cb c"
  shows "handleClose (server_user cb msg) c s = Inr (removed (t_channel t) ch
     ((silenced (t_channel t) ch (put_conn c (\<lambda>t. t\<lparr>t_state := kDisconnected\<rparr>) s))\<lparr>n_connSet := n_connSet s - {c}\<rparr>))"
proof -
  let ?s0 = "put_conn c (\<lambda>t. t\<lparr>t_state := kDisconnected\<rparr>) s" and ?a = "t_channel t"
  let ?s1 = "silenced ?a ch ?s0"
  let ?s2 = "?s1\<lparr>n_connSet := n_connSet s - {c}\<rparr>"
  have r0: "registered ?a ch ?s0" using r by (simp add: registered_def put_conn_def)
  have c1: "n_conns ?s1 c = Some (t\<lparr>t_state := kDisconnected\<rparr>)" "n_conns ?s2 c = Some (t\<lparr>t_state := kDisconnected\<rparr>)"
    using c by (simp_all add: silenced_def put_conn_def)
  have cb: "optional_callback cb c ?s1 = Inr ?s1" using q c1(1) unfolding quiet_def by (metis conn.simps(1) conn.update_convs(1) conn.ext_inject conn.surjective)
  have in1: "l_inThread ?s1" "n_oneLoop ?s1" "n_connSet ?s1 = n_connSet s"
    using r one by (simp_all add: silenced_def put_conn_def registered_def)
  have rm: "channel_remove ?a ?s2 = Inr (removed ?a ch ?s2)" by (rule remove_silenced [OF r0]) (simp_all add: silenced_def)
  have "connectionClosed cb c ?s1 = Inr (removed ?a ch ?s2)"
    using in1 one c1 rm by (simp add: connectionClosed_def runInLoop_def erase_connection_def connectDestroyed_def
        assertInLoopThread_def get_conn_def)
  then show ?thesis
    using r c st disableAll_registered [OF r0] cb
    by (simp add: handleClose_def assertInLoopThread_def get_conn_def registered_def server_user_def)
qed


text \<open>C23. A connection that closes leaves nothing behind: on the loop of the server, for a connection
  in its set whose channel is registered, \<^verbatim>\<open>handleClose\<close> returns with the connection disconnected, out
  of the set and free to be destroyed, its descriptor out of the map of the poller and out of the
  kernel's list, and nobody else touched.\<close>

theorem close_is_clean:
  assumes r: "registered (t_channel t) ch s" "reactor_ok s" and c: "n_conns s c = Some t"
    and st: "t_state t = kConnected \<or> t_state t = kDisconnecting"
    and one: "n_oneLoop s" "c \<in> n_connSet s" and q: "quiet cb c"
  shows "\<exists>s' k. handleClose (server_user cb msg) c s = Inr s' \<and> n_connSet s' = n_connSet s - {c} \<and>
     n_conns s' = (n_conns s)(c \<mapsto> t\<lparr>t_state := kDisconnected\<rparr>) \<and> (\<exists>s''. tcp_destroy c s' = Inr s'') \<and>
     ep_channels (l_poller s') = (ep_channels (l_poller s))(c_fd ch := None) \<and>
     interest (ep_calls (l_poller s')) = Some k \<and> k (c_fd ch) = None \<and>
     (\<forall>fd. fd \<noteq> c_fd ch \<longrightarrow> Some (k fd) = map_option (\<lambda>k. k fd) (interest (ep_calls (l_poller s))))"
proof -
  let ?p = "l_poller s" and ?a = "t_channel t"
  have f: "ep_channels ?p (c_fd ch) = Some ?a" and ch: "l_channels s ?a = Some ch" and ix: "c_index ch = kAdded"
    using r(1) by (simp_all add: registered_def)
  let ?w = "watched (l_channels s) (ep_channels ?p)"
  have w: "interest (ep_calls ?p) = Some ?w" using r(2) by (simp add: reactor_ok_def)
  have "?w (c_fd ch) = Some (c_events ch, ?a)" using f ch ix by (simp add: watched_def)
  then have k: "interest (ep_calls ?p @ [(CtlDel, c_fd ch, 0, ?a)]) = Some (?w(c_fd ch := None))"
    by (simp add: interest_snoc w kernel_ctl_def)
  have sets: "(n_conns s)(c := map_option (\<lambda>t. t\<lparr>t_state := kDisconnected\<rparr>) (n_conns s c)) =
      (n_conns s)(c \<mapsto> t\<lparr>t_state := kDisconnected\<rparr>)" using c by simp
  show ?thesis
    unfolding handleClose_result [OF r(1) c st one q]
    using c k w
    by (simp add: removed_def silenced_def put_conn_def ep_update_def tcp_destroy_def get_conn_def)
qed

lemma quiet_None: "quiet None c"
  by (simp add: quiet_def optional_callback_def)

definition sample_channel :: channel where "sample_channel = the (l_channels sample_net 1)"

definition sample_conn :: conn where "sample_conn = the (n_conns sample_net 2)"

lemma sample_parts:
  "l_channels sample_net 1 = Some sample_channel" "n_conns sample_net 2 = Some sample_conn"
  "t_channel sample_conn = 1" "t_state sample_conn = kConnected" "c_fd sample_channel = 5"
  "registered 1 sample_channel sample_net" "n_oneLoop sample_net" "n_connSet sample_net = {2}"
  by (simp_all add: sample_channel_def sample_conn_def registered_def) (simp_all add: sample_net_def)

lemma sample_reactor: "reactor_ok sample_net"
proof -
  let ?cs = "[1 \<mapsto> sample_channel]" and ?m = "[5 \<mapsto> 1]"
  have p: "l_channels sample_net = ?cs" "ep_channels (l_poller sample_net) = ?m"
    "ep_calls (l_poller sample_net) = [(CtlAdd, 5, 3, 1)]" "c_index sample_channel = 1" "c_events sample_channel = 3"
    by (simp_all add: sample_channel_def sample_net_def)
  have "marks_ok ?cs ?m" using sample_parts(5) p(4) by (simp add: marks_ok_def)
  moreover have "watched ?cs ?m = [5 \<mapsto> (3, 1)]" by (rule ext) (simp add: watched_def p)
  moreover have "interest [(CtlAdd, 5, 3, 1)] = Some [5 \<mapsto> (3, 1)]" by (simp add: interest_def kernel_ctl_def)
  ultimately show ?thesis by (simp add: reactor_ok_def p)
qed

theorem close_is_clean_witness:
  "\<exists>s'. handleClose (server_user None default_message) 2 sample_net = Inr s' \<and> n_connSet s' = {} \<and>
     (\<exists>s''. tcp_destroy 2 s' = Inr s'')"
proof -
  have r: "registered (t_channel sample_conn) sample_channel sample_net" using sample_parts(3,6) by simp
  have "2 \<in> n_connSet sample_net" by (simp add: sample_parts)
  from close_is_clean [OF r sample_reactor sample_parts(2) _ sample_parts(7) this quiet_None, of default_message]
  show ?thesis by (auto simp: sample_parts)
qed

text \<open>C37. Destroying a server on the loop of its connections walks over a freed node: \<^verbatim>\<open>forceClose\<close> runs
  at once, closing the first connection erases it from \<^verbatim>\<open>connSet_\<close>, and the loop of the destructor
  then advances the iterator of the erased element.\<close>

theorem destructor_dangles:
  assumes ac: "acceptor_destroy ac s0 = Inr s" and fin: "finite (n_connSet s)" "c \<in> n_connSet s"
    and least: "\<forall>d. d \<in> n_connSet s \<longrightarrow> c \<le> d"
    and r: "registered (t_channel t) ch s" and c: "n_conns s c = Some t"
    and st: "t_state t = kConnected \<or> t_state t = kDisconnecting" and one: "n_oneLoop s" and q: "quiet cb c"
  shows "server_destroy (server_user cb msg) True ac s0 = Inl NullDeref"
proof -
  have "n_connSet s \<noteq> {}" using fin(2) by blast
  moreover have "Min (n_connSet s) = c" using fin least by (intro Min_eqI) auto
  ultimately have l: "sorted_list_of_set (n_connSet s) = c # sorted_list_of_set (n_connSet s - {c})"
    using sorted_list_of_set_nonempty [OF fin(1)] by simp
  let ?s = "put_conn c (\<lambda>t. t\<lparr>t_state := kDisconnecting\<rparr>) s"
  have h: "registered (t_channel (t\<lparr>t_state := kDisconnecting\<rparr>)) ch ?s" "n_conns ?s c = Some (t\<lparr>t_state := kDisconnecting\<rparr>)"
    "n_oneLoop ?s" "c \<in> n_connSet ?s"
    using r c one fin(2) by (simp_all add: registered_def put_conn_def)
  have "forceClose (server_user cb msg) c s = handleClose (server_user cb msg) c ?s"
    using r c st by (simp add: forceClose_def runInLoop_def forceClose_body_def get_conn_def registered_def deref_def)
  then obtain s1 where "forceClose (server_user cb msg) c s = Inr s1" "n_connSet s1 = n_connSet s - {c}"
    using handleClose_result [OF h(1,2) _ h(3,4) q] by (simp add: removed_def put_conn_def)
  then show ?thesis using ac l by (simp add: server_destroy_def assertInLoopThread_def)
qed


theorem destructor_dangles_witness:
  "\<exists>ac s. server_destroy (server_user None default_message) True ac s = Inl NullDeref"
proof -
  let ?ac = "\<lparr>ac_fd = 3, ac_channel = 7, ac_idleFd = 4\<rparr>"
  let ?s0 = "sample_net\<lparr>l_channels := (l_channels sample_net)(7 \<mapsto> Channel 0 3)\<rparr>"
  have p: "l_inThread sample_net" "l_id sample_net = 0" "\<not> l_eventHandling sample_net"
    "ep_channels (l_poller sample_net) 3 = None"
    by (simp_all add: sample_net_def)
  obtain s1 where s1: "disableAll 7 ?s0 = Inr s1" "n_connSet s1 = {2}" "n_conns s1 = n_conns sample_net" "n_oneLoop s1"
      "l_channels s1 = (l_channels ?s0)(7 \<mapsto> (Channel 0 3)\<lparr>c_index := 1\<rparr>)" "l_inThread s1" "l_id s1 = 0"
      "\<not> l_eventHandling s1" "ep_channels (l_poller s1) = (ep_channels (l_poller sample_net))(3 \<mapsto> 7)"
    using p sample_parts by (simp add: disableAll_def set_events_def updateChannel_def assertInLoopThread_def ep_updateChannel_def
        Channel_def Let_def setIndex_def)
  have r1: "registered 7 ((Channel 0 3)\<lparr>c_index := 1\<rparr>) s1"
    using s1 by (simp add: registered_def Channel_def)
  obtain s where s: "channel_remove 7 s1 = Inr s" "n_connSet s = {2}" "n_conns s = n_conns sample_net" "n_oneLoop s"
      "l_channels s 1 = Some sample_channel" "l_inThread s" "l_id s = 0" "\<not> l_eventHandling s"
      "ep_channels (l_poller s) 5 = Some 1"
    using s1 sample_parts by (simp add: channel_remove_def removeChannel_def assertInLoopThread_def ep_removeChannel_def
        Channel_def isNoneEvent_def Let_def setIndex_def registered_def)
  have r: "registered (t_channel sample_conn) sample_channel s"
    using s sample_parts p(2) by (simp add: registered_def)
  have ac: "acceptor_destroy ?ac ?s0 = Inr s" using s1(1) s(1) by (simp add: acceptor_destroy_def)
  have c: "n_conns s 2 = Some sample_conn" using s sample_parts by simp
  have "server_destroy (server_user None default_message) True ?ac ?s0 = Inl NullDeref"
    using destructor_dangles [OF ac _ _ _ r c _ s(4) quiet_None] s(2) sample_parts(4) by simp
  then show ?thesis by blast
qed

end
