(* ===== verification/Connector.thy ===== *)
theory Connector
  imports TcpConnection
begin

text \<open>
  \<^verbatim>\<open>Connector\<close>: opening a connection to a server, with retries at growing intervals. The connector
  and its loop are one state; the channel of an attempt is made at an address that is an argument.
  The system calls are arguments: \<open>os\<close> gives their results from a counter of calls. \<open>k_closed\<close> keeps
  the descriptors that were closed. The functor the timer gets is the number \<open>start_functor\<close>.
\<close>

datatype connect_status = StatusDisconnected | StatusConnecting | StatusConnected

record connector = "task ev_loop" +
  k_channel :: "nat option"
  k_connect :: bool
  k_status :: connect_status
  k_retryInterval :: int
  k_maxRetryInterval :: int
  k_retry :: bool
  k_tick :: nat
  k_closed :: "int list"

record connect_os =
  co_socket :: "nat \<Rightarrow> int"
  co_connect :: "nat \<Rightarrow> int \<Rightarrow> int"
  co_error :: "nat \<Rightarrow> int \<Rightarrow> int"
  co_selfConnect :: "nat \<Rightarrow> int \<Rightarrow> bool"
  co_now :: "nat \<Rightarrow> time_entry"

record connect_user =
  cu_newConnection :: "(int \<Rightarrow> connector \<Rightarrow> connector res) option"
  cu_error :: "(connector \<Rightarrow> connector res) option"

abbreviation (input) kMaxRetryDelayMs :: int where "kMaxRetryDelayMs \<equiv> 30 * 1000"
abbreviation (input) kInitRetryDelayMs :: int where "kInitRetryDelayMs \<equiv> 500"

definition Connector :: "bool \<Rightarrow> task ev_loop \<Rightarrow> connector" where
  "Connector retry l = ev_loop.extend l
     \<lparr>k_channel = None, k_connect = False, k_status = StatusDisconnected, k_retryInterval = kInitRetryDelayMs,
      k_maxRetryInterval = kMaxRetryDelayMs, k_retry = retry, k_tick = 0, k_closed = []\<rparr>"

abbreviation (input) start_functor :: nat where "start_functor \<equiv> 0"

text \<open>A call of the system: its result, and the counter moves on.\<close>

definition call :: "(nat \<Rightarrow> 'r) \<Rightarrow> connector \<Rightarrow> 'r \<times> connector" where
  "call f s = (f (k_tick s), s\<lparr>k_tick := k_tick s + 1\<rparr>)"

definition close_fd :: "int \<Rightarrow> connector \<Rightarrow> connector" where
  "close_fd fd s = s\<lparr>k_closed := k_closed s @ [fd]\<rparr>"

definition error_callback :: "connect_user \<Rightarrow> connector \<Rightarrow> connector res" where
  "error_callback u s = (case cu_error u of None \<Rightarrow> Inr s | Some f \<Rightarrow> f s)"

text \<open>An empty function object throws when it is called.\<close>

definition newConnectionCallback :: "connect_user \<Rightarrow> int \<Rightarrow> connector \<Rightarrow> connector res" where
  "newConnectionCallback u fd s = (case cu_newConnection u of None \<Rightarrow> Inl Thrown | Some f \<Rightarrow> f fd s)"

subsection \<open>Retries\<close>

definition connector_retry :: "connect_os \<Rightarrow> int \<Rightarrow> connector \<Rightarrow> connector res" where
  "connector_retry os sockfd s =
     assert_that (k_retry s)
     (let s1 = (close_fd sockfd s)\<lparr>k_status := StatusDisconnected\<rparr> in
      if k_connect s1 then
        let (now, s2) = call (co_now os) s1 in
        rbind (runAfter now \<lparr>tv_sec = 0, tv_usec = i32 (k_retryInterval s2 * 1000)\<rparr> start_functor s2) (\<lambda>s3.
        let interval = i32 (k_retryInterval s3 * 2) in
        Inr (s3\<lparr>k_retryInterval := (if interval > k_maxRetryInterval s3 then k_maxRetryInterval s3 else interval)\<rparr>))
      else Inr s1)"

subsection \<open>Connecting\<close>

definition connecting :: "nat \<Rightarrow> int \<Rightarrow> connector \<Rightarrow> connector res" where
  "connecting a sockfd s =
     (let s1 = s\<lparr>k_status := StatusConnecting\<rparr> in
      assert_that (k_channel s1 = None)
      (enableWriting a (s1\<lparr>k_channel := Some a, l_channels := (l_channels s1)(a \<mapsto> Channel (l_id s1) sockfd)\<rparr>)))"

abbreviation (input) EINPROGRESS :: int where "EINPROGRESS \<equiv> 115"
abbreviation (input) EISCONN :: int where "EISCONN \<equiv> 106"
abbreviation (input) EAGAIN :: int where "EAGAIN \<equiv> 11"
abbreviation (input) EADDRINUSE :: int where "EADDRINUSE \<equiv> 98"
abbreviation (input) EADDRNOTAVAIL :: int where "EADDRNOTAVAIL \<equiv> 99"
abbreviation (input) ECONNREFUSED :: int where "ECONNREFUSED \<equiv> 111"
abbreviation (input) ENETUNREACH :: int where "ENETUNREACH \<equiv> 101"

text \<open>\<^verbatim>\<open>createNonblockingSocketOrDie\<close>.\<close>

definition createNonblockingSocketOrDie :: "connect_os \<Rightarrow> connector \<Rightarrow> (int \<times> connector) res" where
  "createNonblockingSocketOrDie os s =
     (let (sock, s1) = call (co_socket os) s in if sock < 0 then Inl ProcessExit else Inr (sock, s1))"

text \<open>The other errors the source lists by name are treated like those it does not.\<close>

definition connector_connect :: "connect_os \<Rightarrow> connect_user \<Rightarrow> nat \<Rightarrow> connector \<Rightarrow> connector res" where
  "connector_connect os u a s =
     rbind (createNonblockingSocketOrDie os s) (\<lambda>(sockfd, s1).
     let (savedErrno, s2) = call (\<lambda>n. co_connect os n sockfd) s1 in
     if savedErrno \<in> {0, EINPROGRESS, EINTR, EISCONN} then connecting a sockfd s2
     else if savedErrno \<in> {EAGAIN, EADDRINUSE, EADDRNOTAVAIL, ECONNREFUSED, ENETUNREACH}
     then (if k_retry s2 then connector_retry os sockfd s2 else Inr s2)
     else error_callback u (close_fd sockfd s2))"

definition startInLoop :: "connect_os \<Rightarrow> connect_user \<Rightarrow> nat \<Rightarrow> connector \<Rightarrow> connector res" where
  "startInLoop os u a s = assertInLoopThread (l_inThread s)
     (assert_that (k_status s = StatusDisconnected)
      (if k_connect s then connector_connect os u a s else Inr s))"

definition connector_start :: "connect_os \<Rightarrow> connect_user \<Rightarrow> nat \<Rightarrow> connector \<Rightarrow> connector res" where
  "connector_start os u a s = runInLoop (\<lambda>_. startInLoop os u a) StartInLoop (s\<lparr>k_connect := True\<rparr>)"

subsection \<open>The handlers of the channel\<close>

definition removeAndResetChannel :: "connector \<Rightarrow> (int \<times> connector) res" where
  "removeAndResetChannel s =
     (case k_channel s of
        None \<Rightarrow> Inl NullDeref
      | Some a \<Rightarrow>
          rbind (disableAll a s) (\<lambda>s1.
          rbind (channel_remove a s1) (\<lambda>s2.
          rbind (deref (l_channels s2) (Some a)) (\<lambda>c.
          rbind (queueInLoop ResetChannel s2) (\<lambda>s3. Inr (c_fd c, s3))))))"

text \<open>The functor that gives the channel up.\<close>

definition reset_channel :: "connector \<Rightarrow> connector" where
  "reset_channel s = (case k_channel s of None \<Rightarrow> s
     | Some a \<Rightarrow> s\<lparr>k_channel := None, l_channels := (l_channels s)(a := None)\<rparr>)"

definition attempt_failed :: "connect_os \<Rightarrow> connect_user \<Rightarrow> int \<Rightarrow> connector \<Rightarrow> connector res" where
  "attempt_failed os u sockfd s =
     rbind (if k_retry s then connector_retry os sockfd s else Inr (close_fd sockfd s)) (error_callback u)"

definition connector_handleWrite :: "connect_os \<Rightarrow> connect_user \<Rightarrow> connector \<Rightarrow> connector res" where
  "connector_handleWrite os u s =
     (if k_status s = StatusConnecting then
        rbind (removeAndResetChannel s) (\<lambda>(sockfd, s1).
        let (err, s2) = call (\<lambda>n. co_error os n sockfd) s1 in
        if err \<noteq> 0 then attempt_failed os u sockfd s2
        else
          let (self, s3) = call (\<lambda>n. co_selfConnect os n sockfd) s2 in
          if self then attempt_failed os u sockfd s3
          else
            let s4 = s3\<lparr>k_status := StatusConnected\<rparr> in
            if k_connect s4 then newConnectionCallback u sockfd s4 else Inr (close_fd sockfd s4))
      else assert_that (k_status s = StatusDisconnected) (Inr s))"

definition connector_handleError :: "connect_os \<Rightarrow> connect_user \<Rightarrow> connector \<Rightarrow> connector res" where
  "connector_handleError os u s =
     (if k_status s = StatusConnecting then
        rbind (removeAndResetChannel (s\<lparr>k_status := StatusDisconnected\<rparr>)) (\<lambda>(sockfd, s1).
        let (err, s2) = call (\<lambda>n. co_error os n sockfd) s1 in
        attempt_failed os u sockfd s2)
      else Inr s)"

definition connector_callbacks :: "connect_os \<Rightarrow> connect_user \<Rightarrow> connector callbacks" where
  "connector_callbacks os u = \<lparr>cb_read = None, cb_write = Some (connector_handleWrite os u),
     cb_close = Some (connector_handleError os u), cb_error = Some (connector_handleError os u)\<rparr>"

end
