(* ===== verification/ConnectorSpec.thy ===== *)
theory ConnectorSpec
  imports Connector EventLoopSpec TimerFlush
begin

text \<open>
  What a connector promises: an attempt that ends takes its channel out of the poller and settles its
  descriptor, retries grow apart, and what goes wrong: a failed attempt that is not retried leaves the
  connector unable to start again, and the fourth retry runs into the end of the timing wheel.
\<close>

subsection \<open>The end of an attempt\<close>

text \<open>The state behind \<^verbatim>\<open>removeAndResetChannel\<close>.\<close>

definition taken_out :: "nat \<Rightarrow> channel \<Rightarrow> connector \<Rightarrow> connector" where
  "taken_out a ch s = (let s1 = removed a ch (silenced a ch s); s2 = s1\<lparr>l_funcs := l_funcs s1 @ [ResetChannel]\<rparr> in
     if l_callingPending s = Some False then wakeup s2 else s2)"

lemma removeAndResetChannel_registered:
  assumes "registered a ch s" "k_channel s = Some a" "l_callingPending s = Some p"
  shows "removeAndResetChannel s = Inr (c_fd ch, taken_out a ch s)"
proof -
  have "channel_remove a (silenced a ch s) = Inr (removed a ch (silenced a ch s))"
    by (rule remove_silenced [OF assms(1)]) (simp_all add: silenced_def)
  moreover have "l_inThread s" using assms(1) by (simp add: registered_def)
  ultimately show ?thesis
    using assms disableAll_registered [OF assms(1)]
    by (simp add: removeAndResetChannel_def queueInLoop_def taken_out_def silenced_def removed_def Let_def)
qed

lemma taken_out_fields [simp]:
  "k_closed (taken_out a ch s) = k_closed s" "k_connect (taken_out a ch s) = k_connect s"
  "k_retry (taken_out a ch s) = k_retry s" "k_status (taken_out a ch s) = k_status s"
  "k_tick (taken_out a ch s) = k_tick s" "l_funcs (taken_out a ch s) = l_funcs s @ [ResetChannel]"
  "l_inThread (taken_out a ch s) = l_inThread s"
  by (simp_all add: taken_out_def silenced_def removed_def wakeup_def Let_def)

lemma taken_out_poller:
  "l_poller (taken_out a ch s) = (ep_update CtlDel a (ch\<lparr>c_events := 0\<rparr>) (l_poller s))
     \<lparr>ep_channels := (ep_channels (l_poller s))(c_fd ch := None)\<rparr>"
  by (simp add: taken_out_def silenced_def removed_def wakeup_def Let_def ep_update_def)

lemma taken_out_kernel:
  assumes r: "registered a ch s" "reactor_ok s"
  shows "\<exists>k. interest (ep_calls (l_poller (taken_out a ch s))) = Some k \<and> k (c_fd ch) = None"
proof -
  let ?w = "watched (l_channels s) (ep_channels (l_poller s))"
  have "interest (ep_calls (l_poller s)) = Some ?w" using r(2) by (simp add: reactor_ok_def)
  moreover have "?w (c_fd ch) = Some (c_events ch, a)" using r(1) by (simp add: watched_def registered_def)
  ultimately have "interest (ep_calls (l_poller (taken_out a ch s))) = Some (?w(c_fd ch := None))"
    unfolding taken_out_poller by (simp add: ep_update_def interest_snoc kernel_ctl_def)
  then show ?thesis by simp
qed

text \<open>C31. An attempt that ends is settled: when the socket of an attempt becomes writable, its channel
  goes out of the map of the poller and out of the kernel's list, giving the channel up is queued, and
  then exactly one thing happens to the descriptor: it is given to the callback when the socket has no
  error, is not connected to itself and the connector still wants the connection; it is closed when
  the connector does not; and otherwise the attempt counts as failed.\<close>

theorem attempt_settles:
  assumes st: "k_status s = StatusConnecting" and r: "registered a ch s" "reactor_ok s"
    and k: "k_channel s = Some a" "l_callingPending s = Some p"
  shows "\<exists>s1 k. l_funcs s1 = l_funcs s @ [ResetChannel] \<and> k_closed s1 = k_closed s \<and> k_retry s1 = k_retry s \<and>
    ep_channels (l_poller s1) = (ep_channels (l_poller s))(c_fd ch := None) \<and>
    interest (ep_calls (l_poller s1)) = Some k \<and> k (c_fd ch) = None \<and>
    connector_handleWrite os u s =
      (if co_error os (k_tick s) (c_fd ch) \<noteq> 0
       then attempt_failed os u (c_fd ch) (s1\<lparr>k_tick := k_tick s + 1\<rparr>)
       else if co_selfConnect os (k_tick s + 1) (c_fd ch)
       then attempt_failed os u (c_fd ch) (s1\<lparr>k_tick := k_tick s + 2\<rparr>)
       else let s2 = s1\<lparr>k_tick := k_tick s + 2, k_status := StatusConnected\<rparr> in
         if k_connect s then newConnectionCallback u (c_fd ch) s2 else Inr (close_fd (c_fd ch) s2))"
proof -
  obtain k where k': "interest (ep_calls (l_poller (taken_out a ch s))) = Some k" "k (c_fd ch) = None"
    using taken_out_kernel [OF r] by blast
  have "ep_channels (l_poller (taken_out a ch s)) = (ep_channels (l_poller s))(c_fd ch := None)"
    by (simp add: taken_out_poller)
  moreover have "connector_handleWrite os u s =
      (if co_error os (k_tick s) (c_fd ch) \<noteq> 0
       then attempt_failed os u (c_fd ch) ((taken_out a ch s)\<lparr>k_tick := k_tick s + 1\<rparr>)
       else if co_selfConnect os (k_tick s + 1) (c_fd ch)
       then attempt_failed os u (c_fd ch) ((taken_out a ch s)\<lparr>k_tick := k_tick s + 2\<rparr>)
       else let s2 = (taken_out a ch s)\<lparr>k_tick := k_tick s + 2, k_status := StatusConnected\<rparr> in
         if k_connect s then newConnectionCallback u (c_fd ch) s2 else Inr (close_fd (c_fd ch) s2))"
    using st removeAndResetChannel_registered [OF r(1) k]
    by (simp add: connector_handleWrite_def call_def Let_def)
  ultimately show ?thesis using k' by (intro exI [of _ "taken_out a ch s"] exI [of _ k]) simp
qed

text \<open>A sample: an attempt on descriptor 5 waits for its socket.\<close>

definition sample_connector :: connector where
  "sample_connector = \<lparr>l_id = 0, l_inThread = True, l_looping = True, l_callingPending = Some False, l_quit = False,
     l_poller = \<lparr>ep_channels = [5 \<mapsto> 1], ep_events = 16, ep_calls = [(CtlAdd, 5, 4, 1)]\<rparr>, l_active = [1],
     l_current = Some 1, l_eventHandling = True, l_funcs = [], l_timer = idle_timer, l_eventfd = 0, l_wakeupChannel = 0,
     l_channels = [1 \<mapsto> \<lparr>c_loop = 0, c_fd = 5, c_events = 4, c_revents = 4, c_index = 1, c_addedToLoop = False, c_tied = False\<rparr>],
     k_channel = Some 1, k_connect = True, k_status = StatusConnecting, k_retryInterval = 500,
     k_maxRetryInterval = 30000, k_retry = False, k_tick = 0, k_closed = []\<rparr>"

definition sample_attempt :: channel where
  "sample_attempt = \<lparr>c_loop = 0, c_fd = 5, c_events = 4, c_revents = 4, c_index = 1, c_addedToLoop = False, c_tied = False\<rparr>"

definition sample_connect_os :: "int \<Rightarrow> connect_os" where
  "sample_connect_os err = \<lparr>co_socket = (\<lambda>n. 7), co_connect = (\<lambda>n fd. 115), co_error = (\<lambda>n fd. err),
     co_selfConnect = (\<lambda>n fd. False), co_now = (\<lambda>n. time_default)\<rparr>"

lemma sample_connector_facts:
  "k_status sample_connector = StatusConnecting" "registered 1 sample_attempt sample_connector"
  "k_channel sample_connector = Some 1" "l_callingPending sample_connector = Some False"
  "k_connect sample_connector" "\<not> k_retry sample_connector" "k_closed sample_connector = []"
  "k_tick sample_connector = 0" "c_fd sample_attempt = 5"
  by (simp_all add: sample_connector_def sample_attempt_def registered_def)

lemma sample_connector_reactor: "reactor_ok sample_connector"
proof -
  let ?cs = "[1 \<mapsto> sample_attempt]" and ?m = "[5 \<mapsto> 1]"
  have p: "l_channels sample_connector = ?cs" "ep_channels (l_poller sample_connector) = ?m"
    "ep_calls (l_poller sample_connector) = [(CtlAdd, 5, 4, 1)]" "c_index sample_attempt = 1"
    "c_events sample_attempt = 4" "c_fd sample_attempt = 5"
    by (simp_all add: sample_connector_def sample_attempt_def)
  have "marks_ok ?cs ?m" using p by (simp add: marks_ok_def)
  moreover have "watched ?cs ?m = [5 \<mapsto> (4, 1)]" by (rule ext) (simp add: watched_def p)
  moreover have "interest [(CtlAdd, 5, 4, 1)] = Some [5 \<mapsto> (4, 1)]" by (simp add: interest_def kernel_ctl_def)
  ultimately show ?thesis by (simp add: reactor_ok_def p)
qed

theorem attempt_settles_witness:
  "\<exists>s'. connector_handleWrite (sample_connect_os 0)
      \<lparr>cu_newConnection = Some (\<lambda>fd s. Inr (s\<lparr>k_retryInterval := fd\<rparr>)), cu_error = None\<rparr> sample_connector = Inr s' \<and>
     k_retryInterval s' = 5 \<and> k_status s' = StatusConnected \<and> k_closed s' = [] \<and> ep_channels (l_poller s') 5 = None"
proof -
  let ?u = "\<lparr>cu_newConnection = Some (\<lambda>fd s. Inr (s\<lparr>k_retryInterval := fd\<rparr>)), cu_error = None\<rparr>"
  have "co_error (sample_connect_os 0) n fd = 0" "\<not> co_selfConnect (sample_connect_os 0) n fd" for n fd
    by (simp_all add: sample_connect_os_def)
  then show ?thesis
    using attempt_settles [OF sample_connector_facts(1,2) sample_connector_reactor sample_connector_facts(3,4),
        of "sample_connect_os 0" ?u]
    by (auto simp: sample_connector_facts newConnectionCallback_def)
qed

text \<open>An attempt that fails in \<^verbatim>\<open>handleWrite\<close> and is not retried closes its descriptor but leaves the
  connector in the state of connecting, so that a later \<^verbatim>\<open>start\<close> stops the process at an assertion;
  after the same failure in \<^verbatim>\<open>handleError\<close> a later \<^verbatim>\<open>start\<close> connects.\<close>

lemma failed_attempt_blocks_start:
  assumes st: "k_status s = StatusConnecting" and r: "registered a ch s"
    and k: "k_channel s = Some a" "l_callingPending s = Some p"
    and f: "co_error os (k_tick s) (c_fd ch) \<noteq> 0" "\<not> k_retry s" "cu_error u = None"
  shows "\<exists>s1 s2. connector_handleWrite os u s = Inr s1 \<and> k_closed s1 = k_closed s @ [c_fd ch] \<and>
    connector_start os u b s1 = Inl AssertFailed \<and>
    connector_handleError os u s = Inr s2 \<and> k_closed s2 = k_closed s @ [c_fd ch] \<and>
    connector_start os u b s2 = connector_connect os u b (s2\<lparr>k_connect := True\<rparr>)"
proof -
  let ?s = "s\<lparr>k_status := StatusDisconnected\<rparr>" and ?t = "\<lambda>s. (taken_out a ch s)\<lparr>k_tick := k_tick s + 1\<rparr>"
  have i: "l_inThread s" using r by (simp add: registered_def)
  have r2: "registered a ch ?s" "k_channel ?s = Some a" "l_callingPending ?s = Some p"
    using r k by (simp_all add: registered_def)
  have "connector_handleWrite os u s = Inr (close_fd (c_fd ch) (?t s))"
    using st removeAndResetChannel_registered [OF r k] f
    by (simp add: connector_handleWrite_def call_def attempt_failed_def error_callback_def)
  moreover have "connector_handleError os u s = Inr (close_fd (c_fd ch) (?t ?s))"
    using st removeAndResetChannel_registered [OF r2] f
    by (simp add: connector_handleError_def call_def attempt_failed_def error_callback_def)
  ultimately show ?thesis using st i
    by (simp add: connector_start_def runInLoop_def startInLoop_def assertInLoopThread_def close_fd_def)
qed

lemma failed_attempt_blocks_start_witness:
  "\<exists>s'. connector_handleWrite (sample_connect_os 111) \<lparr>cu_newConnection = None, cu_error = None\<rparr> sample_connector = Inr s' \<and>
     k_closed s' = [5] \<and>
     connector_start (sample_connect_os 111) \<lparr>cu_newConnection = None, cu_error = None\<rparr> 2 s' = Inl AssertFailed"
proof -
  have "co_error (sample_connect_os 111) n fd \<noteq> 0" for n fd by (simp add: sample_connect_os_def)
  from failed_attempt_blocks_start [OF sample_connector_facts(1-4) this sample_connector_facts(6),
      of "\<lparr>cu_newConnection = None, cu_error = None\<rparr>" 2]
  show ?thesis by (auto simp: sample_connector_facts)
qed

subsection \<open>Retries\<close>

text \<open>Each retry closes its descriptor, and the interval doubles up to its maximum.\<close>

lemma runAfter_timer: "runAfter now d f s = Inr s' \<Longrightarrow> \<exists>r. s' = s\<lparr>l_timer := r\<rparr>"
  by (auto simp: runAfter_def)

lemma retry_doubles:
  assumes rt: "connector_retry os fd s = Inr s'" and i: "0 \<le> k_retryInterval s" "k_retryInterval s \<le> 30000" "k_maxRetryInterval s = 30000"
  shows "k_closed s' = k_closed s @ [fd] \<and> k_status s' = StatusDisconnected \<and> k_maxRetryInterval s' = 30000 \<and>
    k_retryInterval s' = (if k_connect s then min (k_retryInterval s * 2) 30000 else k_retryInterval s)"
proof (cases "k_connect s")
  case False
  then show ?thesis using rt i(3) by (auto simp: connector_retry_def close_fd_def Let_def split: if_splits)
next
  case True
  let ?s = "snd (call (co_now os) ((close_fd fd s)\<lparr>k_status := StatusDisconnected\<rparr>))"
  have s: "k_retryInterval ?s = k_retryInterval s" "k_maxRetryInterval ?s = 30000" "k_closed ?s = k_closed s @ [fd]"
    "k_status ?s = StatusDisconnected"
    using i(3) by (simp_all add: call_def close_fd_def)
  obtain r where "s' = (let s3 = ?s\<lparr>l_timer := r\<rparr>; interval = i32 (k_retryInterval s3 * 2) in
      s3\<lparr>k_retryInterval := (if interval > k_maxRetryInterval s3 then k_maxRetryInterval s3 else interval)\<rparr>)"
    using rt True runAfter_timer unfolding connector_retry_def
    by (fastforce simp: call_def close_fd_def Let_def split: if_splits)
  moreover have "i32 (k_retryInterval s * 2) = k_retryInterval s * 2" using i by (intro i32_id) auto
  ultimately show ?thesis using s True by (simp add: Let_def min_def)
qed

text \<open>A task for a delay that reaches past the first wheel.\<close>

lemma delay_past_wheel:
  assumes w: "get_wheel r 0 = Inr w" and t: "usecs (wh_tickMs w) \<le> usecs (wh_interval w)"
    "usecs (wh_currentTime w) \<le> usecs now" "usecs (wh_interval w) \<le> usecs d"
    and fit: "in_long (usecs (wh_currentTime w) + usecs (wh_tickMs w))"
      "in_long (usecs (wh_currentTime w) + usecs (wh_interval w))" "in_long (usecs now + usecs d)"
  shows "\<nexists>r'. addByDelay now d f r = Inr r'"
proof
  assume "\<exists>r'. addByDelay now d f r = Inr r'"
  then obtain r' where "addByDelay now d f r = Inr r'" by blast
  then obtain e r1 where r1: "TimerTaskEntry (fst (TimerTask f r)) (time_plus now d) (snd (TimerTask f r)) = Inr (e, r1)"
    and a: "addTimerTaskEntry e r1 = Inr r'"
    by (auto simp: addByDelay_def timer_add_def split_beta)
  have "pending r1 e (time_plus now d)" "r_wheels r1 = r_wheels r"
    using r1 by (auto simp: TimerTaskEntry_def TimerTask_def setTimerTaskEntry_def pending_def info_def Let_def deref_def)
  then show False using overflow_has_no_result [of r1 e "time_plus now d" w] a w t
    by (auto simp: get_wheel_def usecs_ops fit)
qed

text \<open>A run of retries: between two of them the loop, the timer and the attempts go on.\<close>

inductive retry_run :: "connect_os \<Rightarrow> nat \<Rightarrow> connector \<Rightarrow> bool" for os where
  first: "k_retryInterval s = kInitRetryDelayMs \<Longrightarrow> k_maxRetryInterval s = kMaxRetryDelayMs \<Longrightarrow> k_connect s \<Longrightarrow> retry_run os 0 s"
| again: "retry_run os n s \<Longrightarrow> connector_retry os fd s = Inr s1 \<Longrightarrow> k_retryInterval s2 = k_retryInterval s1 \<Longrightarrow>
    k_maxRetryInterval s2 = k_maxRetryInterval s1 \<Longrightarrow> k_connect s2 \<Longrightarrow> retry_run os (Suc n) s2"

lemma retry_run_interval:
  "retry_run os n s \<Longrightarrow> k_retryInterval s = min (500 * 2 ^ n) 30000 \<and> k_maxRetryInterval s = 30000 \<and> k_connect s"
proof (induction rule: retry_run.induct)
  case (again n s fd s1 s2)
  then have i: "0 \<le> k_retryInterval s" "k_retryInterval s \<le> 30000" "k_maxRetryInterval s = 30000" by simp_all
  have "min (min (500 * 2 ^ n) 30000 * 2) 30000 = min (500 * 2 ^ Suc n) (30000 :: int)" by (simp add: min_def)
  then show ?case using retry_doubles [OF again(2) i] again by simp
qed simp

text \<open>The first wheel of the timer an event loop makes: ticks of 200 ms, 20 buckets. The clock has not gone
  back and is 30 seconds or more from the end of what a \<^verbatim>\<open>long\<close> of microseconds holds.\<close>

definition loop_wheel :: "connect_os \<Rightarrow> connector \<Rightarrow> bool" where
  "loop_wheel os s \<longleftrightarrow> (\<exists>w. get_wheel (l_timer s) 0 = Inr w \<and> usecs (wh_tickMs w) = 200000 \<and>
     usecs (wh_interval w) = 4000000 \<and> 0 \<le> usecs (wh_currentTime w) \<and>
     usecs (wh_currentTime w) \<le> usecs (co_now os (k_tick s)) \<and> in_long (usecs (co_now os (k_tick s)) + 30000000))"

text \<open>C36. The interval between retries doubles from 500 ms up to 30 s, and no run of retries gets past
  the third: the fourth would wait for 4 s, which is beyond the first wheel of the timer of an event
  loop, where adding a task runs off the end of \<^verbatim>\<open>TimingWheel::add\<close>.\<close>

theorem retries_run_off_wheel:
  assumes run: "retry_run os n s" and w: "loop_wheel os s"
  shows "k_retryInterval s = min (500 * 2 ^ n) 30000 \<and> (n \<ge> 3 \<longrightarrow> (\<nexists>s'. connector_retry os fd s = Inr s'))"
proof (intro conjI impI)
  note i = retry_run_interval [OF run]
  then show "k_retryInterval s = min (500 * 2 ^ n) 30000" by blast
  assume n: "n \<ge> 3"
  have "(2 :: int) ^ 3 \<le> 2 ^ n" using n by (intro power_increasing) auto
  then have "4000 \<le> k_retryInterval s" "k_retryInterval s \<le> 30000" using i by simp_all
  then have us: "i32 (k_retryInterval s * 1000) = k_retryInterval s * 1000" "4000000 \<le> k_retryInterval s * 1000"
    by (simp_all add: i32_id)
  obtain w where w: "get_wheel (l_timer s) 0 = Inr w" "usecs (wh_tickMs w) = 200000"
     "usecs (wh_interval w) = 4000000" "usecs (wh_currentTime w) \<le> usecs (co_now os (k_tick s))"
     "0 \<le> usecs (wh_currentTime w)" "in_long (usecs (co_now os (k_tick s)) + 30000000)"
    using w by (auto simp: loop_wheel_def)
  have d: "usecs \<lparr>tv_sec = 0, tv_usec = k_retryInterval s * 1000\<rparr> = k_retryInterval s * 1000"
    using \<open>4000 \<le> k_retryInterval s\<close> \<open>k_retryInterval s \<le> 30000\<close> by (simp add: usecs_total in_long_def)
  have fit: "in_long (usecs (wh_currentTime w) + 200000)" "in_long (usecs (wh_currentTime w) + 4000000)"
    "in_long (usecs (co_now os (k_tick s)) + k_retryInterval s * 1000)"
    using w(4-6) \<open>4000 \<le> k_retryInterval s\<close> \<open>k_retryInterval s \<le> 30000\<close> by (simp_all add: in_long_def)
  have "\<nexists>r'. addByDelay (co_now os (k_tick s)) \<lparr>tv_sec = 0, tv_usec = k_retryInterval s * 1000\<rparr> 0 (l_timer s) = Inr r'"
    using us w fit by (intro delay_past_wheel [OF w(1)]) (simp_all add: d)
  then show "\<nexists>s'. connector_retry os fd s = Inr s'"
    using i us(1) by (auto simp: connector_retry_def call_def close_fd_def runAfter_def Let_def)
qed

text \<open>A sample: after three retries.\<close>

definition retry_timer :: timer where
  "retry_timer = \<lparr>r_tasks = Map.empty, r_entries = [0 \<mapsto> \<lparr>te_task = None, te_expiration = time_default, te_list = None,
      te_prev = Some 0, te_next = Some 0\<rparr>],
     r_wheels = [\<lparr>wh_tickMs = \<lparr>tv_sec = 0, tv_usec = 200000\<rparr>, wh_wheelSize = 20, wh_interval = \<lparr>tv_sec = 4, tv_usec = 0\<rparr>,
       wh_buckets = replicate 20 \<lparr>tl_expiration = time_default\<rparr>, wh_currentTime = \<lparr>tv_sec = 100, tv_usec = 0\<rparr>,
       wh_root = 0, wh_flag = False\<rparr>],
     r_queue = [], r_counter = 0, r_pool = pool_new 4, r_fresh = 1, r_tickMs = \<lparr>tv_sec = 0, tv_usec = 200000\<rparr>,
     r_startMs = \<lparr>tv_sec = 100, tv_usec = 0\<rparr>, r_wheelSize = 20, r_tickerNum = 2\<rparr>"

definition retrying :: "int \<Rightarrow> connector" where
  "retrying interval = sample_connector\<lparr>l_timer := retry_timer, k_retryInterval := interval, k_retry := True\<rparr>"

definition retry_os :: connect_os where
  "retry_os = (sample_connect_os 111)\<lparr>co_now := (\<lambda>n. \<lparr>tv_sec = 100, tv_usec = 0\<rparr>)\<rparr>"

lemma wheel_fuel_Suc: "wheel_fuel = Suc 63"
  by simp

lemma wheel_takes_entry: "wheel_add wheel_fuel 0 e r = Inr (Some True, r') \<Longrightarrow> addTimerTaskEntry e r = Inr r'"
  by (simp add: addTimerTaskEntry_def)

lemma retry_timer_adds:
  assumes us: "200000 \<le> us" "us < 4000000"
  shows "\<exists>r. addByDelay \<lparr>tv_sec = 100, tv_usec = 0\<rparr> \<lparr>tv_sec = 0, tv_usec = us\<rparr> 0 retry_timer = Inr r"
proof -
  let ?t = "time_plus \<lparr>tv_sec = 100, tv_usec = 0\<rparr> \<lparr>tv_sec = 0, tv_usec = us\<rparr>" and ?w = "hd (r_wheels retry_timer)"
  let ?r = "retry_timer\<lparr>r_fresh := 3, r_tasks := [1 \<mapsto> \<lparr>tt_entry = Some 2, tt_func = 0\<rparr>],
    r_entries := (r_entries retry_timer)(2 \<mapsto> \<lparr>te_task = Some 1, te_expiration = ?t, te_list = None, te_prev = None, te_next = None\<rparr>)\<rparr>"
  have p: "pending ?r 2 ?t" "get_wheel ?r 0 = Inr ?w" "wheel_ok ?w" "hangs ?r (wh_root ?w) [] 2 []"
    by (simp_all add: pending_def info_def get_wheel_def hangs_def ring_def views wheel_ok_def)
      (simp_all add: retry_timer_def usecs_total)
  have d: "usecs \<lparr>tv_sec = 0, tv_usec = us\<rparr> = us" "usecs \<lparr>tv_sec = 100, tv_usec = 0\<rparr> = 100000000"
    using us by (simp_all add: usecs_total in_long_def)
  have "usecs ?t = 100000000 + us" using us by (simp add: usecs_ops d in_long_def)
  moreover have "usecs (wh_currentTime ?w) = 100000000" "usecs (wh_tickMs ?w) = 200000" "usecs (wh_interval ?w) = 4000000"
    by (simp_all add: retry_timer_def usecs_total)
  ultimately obtain r' where "wheel_add (Suc 63) 0 2 ?r = Inr (Some True, r')"
    using wheel_add_here [OF p(1-3) _ _ p(4), of 63] us by auto
  then have "wheel_add wheel_fuel 0 2 ?r = Inr (Some True, r')" by (metis wheel_fuel_Suc)
  from wheel_takes_entry [OF this]
  have "addTimerTaskEntry 2 ?r = Inr r'" .
  moreover have "TimerTaskEntry 1 ?t (snd (TimerTask 0 retry_timer)) = Inr (2, ?r)"
    by (simp add: TimerTaskEntry_def TimerTask_def setTimerTaskEntry_def deref_def retry_timer_def
        numeral_2_eq_2)
  moreover have "fst (TimerTask 0 retry_timer) = 1" by (simp add: TimerTask_def retry_timer_def)
  ultimately show ?thesis by (simp add: addByDelay_def timer_add_def split_beta del: rbind_Inr_iff)
qed

lemma retrying_again:
  assumes i: "200 \<le> i" "i < 4000"
  shows "\<exists>s. connector_retry retry_os 5 (retrying i) = Inr s \<and> k_retryInterval s = i * 2 \<and> k_maxRetryInterval s = 30000"
proof -
  obtain r where "addByDelay \<lparr>tv_sec = 100, tv_usec = 0\<rparr> \<lparr>tv_sec = 0, tv_usec = i * 1000\<rparr> 0 retry_timer = Inr r"
    using retry_timer_adds [of "i * 1000"] i by auto
  moreover have "i32 (i * 1000) = i * 1000" "i32 (i * 2) = i * 2" using i by (simp_all add: i32_id)
  ultimately show ?thesis using i
    by (simp add: connector_retry_def call_def close_fd_def runAfter_def retrying_def sample_connector_def
        retry_os_def Let_def del: rbind_Inr_iff)
qed

lemma retrying_run: "retry_run retry_os 3 (retrying 4000)"
proof -
  have f: "k_connect (retrying i)" "k_maxRetryInterval (retrying i) = 30000" "k_retryInterval (retrying i) = i" for i
    by (simp_all add: retrying_def sample_connector_def)
  have st: "retry_run retry_os (Suc n) (retrying (i * 2))" if "retry_run retry_os n (retrying i)" "200 \<le> i" "i < 4000" for n i
    using retrying_again [OF that(2,3)] retry_run.again [OF that(1)] f by metis
  have "retry_run retry_os 0 (retrying 500)" by (rule retry_run.first) (simp_all add: f)
  from st [OF st [OF st [OF this]]] show ?thesis by (simp add: numeral_3_eq_3)
qed

theorem retries_run_off_wheel_witness:
  "\<nexists>s'. connector_retry retry_os 5 (retrying 4000) = Inr s'"
proof -
  have "loop_wheel retry_os (retrying 4000)"
    by (simp add: loop_wheel_def retrying_def get_wheel_def retry_timer_def retry_os_def usecs_total)
  from retries_run_off_wheel [OF retrying_run this] show ?thesis by simp
qed

end
