(* ===== verification/LongAddr.thy ===== *)
theory LongAddr
  imports Prelude
begin

text \<open>
  \<^verbatim>\<open>buffer/LongAddr\<close>: the striped counter. Threads that collide on the base count in cells of an array
  that grows. A step is one access to what the threads share; \<open>m_cells\<close> and \<open>nCells\<close> are two variables
  and are read one after the other. Arguments of a call are evaluated from the right, as the code
  relies on. \<open>ok\<close> says that a weak compare-and-exchange does not fail without reason. \<open>fill\<close> is what the
  slots of an array hold that \<^verbatim>\<open>new\<close> gives: \<open>Junk\<close>, because the code does not set them and reading one is
  undefined, or \<open>Null\<close>, for an allocator that clears memory. \<^verbatim>\<open>chosenIdx\<close> is one variable of a thread for all
  counters: the calls of a thread on other counters change it (\<open>Elsewhere\<close>). The values have an addition: \<^verbatim>\<open>long\<close> for \<^verbatim>\<open>LongAddr\<close>, \<^verbatim>\<open>double\<close> for
  \<^verbatim>\<open>DoubleAddr\<close>. Choosing a cell, under the lock, is one step. \<open>d_begun\<close>, \<open>d_done\<close> and \<open>d_extensions\<close>
  keep the values of the calls, those that have taken effect, and how often the array was extended.
\<close>

datatype slot = Junk | Null | Cell nat

subsection \<open>Where a call of \<^verbatim>\<open>add\<close> is\<close>

datatype 'v pc =
    Idle
  | TestCells 'v | LoadBase 'v | CasBase 'v 'v | TestNull 'v | LoadN 'v | LoadArr 'v int
  | LoadSlot 'v int nat | LoadCell 'v nat | CasCell 'v nat 'v
  | Enter 'v bool | Head 'v bool bool | HeadN 'v bool bool nat | ReadSlot 'v bool bool nat int
  | NullSlot 'v bool bool | NewCell 'v bool bool nat | Filling 'v bool bool nat
  | Found 'v bool bool nat int nat | LoopLoad 'v bool nat int nat | LoopCas 'v bool nat int nat 'v
  | LoopFail 'v bool nat int | Extending 'v nat int | GrowN 'v int
  | InitTest 'v bool bool "nat option" | Initing 'v bool bool "nat option" | InitPublish 'v
  | MetaLoad 'v bool bool | MetaCas 'v bool bool 'v
  | Releasing "('v \<times> bool \<times> bool) option"

record 'v add_thread =
  th_chosen :: int
  th_pc :: "'v pc"

record 'v adder =
  d_ncpus :: int
  d_base :: 'v
  d_busy :: bool
  d_cells :: "nat option"
  d_nCells :: int
  d_nth :: "int list"
  d_arrays :: "nat \<rightharpoonup> slot list"
  d_values :: "nat \<rightharpoonup> 'v"
  d_fresh :: nat
  d_threads :: "'v add_thread list"
  d_begun :: "'v list"
  d_done :: "'v list"
  d_extensions :: nat

text \<open>The constructor rounds the number of processors up to a power of two.\<close>

definition round_cpus :: "int \<Rightarrow> int" where
  "round_cpus n =
     (let n0 = n - 1; n1 = n0 OR shr n0 1; n2 = n1 OR shr n1 2; n3 = n2 OR shr n2 4;
          n4 = n3 OR shr n3 8; n5 = n4 OR shr n4 16 in n5 + 1)"

text \<open>\<^verbatim>\<open>Dependence::processNum\<close> of \<^verbatim>\<open>base\<close>, which rounds in the same way: the answer and the static it keeps.\<close>

definition processNum :: "int \<Rightarrow> int \<Rightarrow> (int \<times> int) res" where
  "processNum sysconf NCPUS =
     (if NCPUS = 0 then assert_that (sysconf > 0) (Inr (round_cpus sysconf, round_cpus sysconf)) else Inr (NCPUS, NCPUS))"

text \<open>\<open>indices\<close> are the \<^verbatim>\<open>chosenIdx\<close> of the threads at the time: - 1 for one that has used no counter yet.\<close>

definition MetaConcurrent :: "int \<Rightarrow> int list \<Rightarrow> 'v::zero adder res" where
  "MetaConcurrent ncpus indices = assert_that (ncpus > 0)
     (Inr \<lparr>d_ncpus = round_cpus ncpus, d_base = 0, d_busy = False, d_cells = None, d_nCells = 0,
       d_nth = replicate (nat (round_cpus ncpus)) 0, d_arrays = Map.empty, d_values = Map.empty, d_fresh = 0,
       d_threads = map (\<lambda>i. \<lparr>th_chosen = i, th_pc = Idle\<rparr>) indices, d_begun = [], d_done = [], d_extensions = 0\<rparr>)"

definition go_pc :: "nat \<Rightarrow> 'v pc \<Rightarrow> 'v adder \<Rightarrow> 'v adder" where
  "go_pc t c s = s\<lparr>d_threads := (d_threads s)[t := (d_threads s ! t)\<lparr>th_pc := c\<rparr>]\<rparr>"

definition chosen :: "nat \<Rightarrow> 'v adder \<Rightarrow> int" where "chosen t s = th_chosen (d_threads s ! t)"

definition set_chosen :: "nat \<Rightarrow> int \<Rightarrow> 'v adder \<Rightarrow> 'v adder" where
  "set_chosen t i s = s\<lparr>d_threads := (d_threads s)[t := (d_threads s ! t)\<lparr>th_chosen := i\<rparr>]\<rparr>"

text \<open>The value of a call takes effect.\<close>

definition effect :: "'v \<Rightarrow> 'v adder \<Rightarrow> 'v adder" where
  "effect v s = s\<lparr>d_done := d_done s @ [v]\<rparr>"

fun slot_cell :: "slot \<Rightarrow> nat option res" where
  "slot_cell Junk = Inl Uninitialised" | "slot_cell Null = Inr None" | "slot_cell (Cell a) = Inr (Some a)"

definition read_slot :: "nat \<Rightarrow> int \<Rightarrow> 'v adder \<Rightarrow> nat option res" where
  "read_slot p i s = rbind (deref (d_arrays s) (Some p)) (\<lambda>xs. rbind (at_vec xs i) slot_cell)"

subsection \<open>\<^verbatim>\<open>chooseCell\<close>\<close>

fun choose_cell_loop :: "nat \<Rightarrow> int list \<Rightarrow> int \<Rightarrow> 'v adder \<Rightarrow> int res" where
  "choose_cell_loop p [] c s = Inr c"
| "choose_cell_loop p (i # is) c s =
     rbind (read_slot p i s) (\<lambda>a.
     rbind (at_vec (d_nth s) i) (\<lambda>k.
     if a = None \<and> k = 0 then Inr (if i = - 1 then d_nCells s - 1 else i)
     else rbind (at_vec (d_nth s) (c AND (d_nCells s - 1))) (\<lambda>least.
          choose_cell_loop p is (if k \<le> least then i else c) s)))"

definition chooseCell :: "nat \<Rightarrow> 'v adder \<Rightarrow> 'v adder res" where
  "chooseCell t s =
     rbind (if d_nCells s > 1
            then (case d_cells s of None \<Rightarrow> Inl NullDeref | Some p \<Rightarrow> choose_cell_loop p [0..d_nCells s - 1] (chosen t s) s)
            else Inr 0) (\<lambda>i.
     let s1 = set_chosen t i s in
     if d_cells s1 \<noteq> None then
       let j = i AND (d_nCells s1 - 1) in
       rbind (at_vec (d_nth s1) j) (\<lambda>k. rbind (set_vec (d_nth s1) j (k + 1)) (\<lambda>counts. Inr (s1\<lparr>d_nth := counts\<rparr>)))
     else Inr s1)"

subsection \<open>\<^verbatim>\<open>add\<close> and \<^verbatim>\<open>metaAccumulate\<close>\<close>

text \<open>A compare-and-exchange of the value of a cell, which was read as \<open>x\<close>.\<close>

definition cas_cell :: "bool \<Rightarrow> 'v::plus \<Rightarrow> nat \<Rightarrow> 'v \<Rightarrow> 'v adder \<Rightarrow> (bool \<times> 'v adder) res" where
  "cas_cell ok v a x s =
     rbind (deref (d_values s) (Some a)) (\<lambda>y.
     Inr (if ok \<and> y = x then (True, s\<lparr>d_values := (d_values s)(a \<mapsto> x + v)\<rparr>) else (False, s)))"

text \<open>The cell of a new value goes into its slot, if that is still empty.\<close>

definition fill_slot :: "nat \<Rightarrow> nat \<Rightarrow> 'v adder \<Rightarrow> (bool \<times> 'v adder) res" where
  "fill_slot t r s = (case d_cells s of
      None \<Rightarrow> Inr (False, s)
    | Some p \<Rightarrow>
        if d_nCells s > 0 then
          (let j = chosen t s AND (d_nCells s - 1) in
           rbind (read_slot p j s) (\<lambda>a.
           if a = None then
             rbind (deref (d_arrays s) (Some p)) (\<lambda>xs. rbind (set_vec xs j (Cell r)) (\<lambda>ys.
             Inr (True, s\<lparr>d_arrays := (d_arrays s)(p \<mapsto> ys)\<rparr>)))
           else Inr (False, s)))
        else Inr (False, s))"

text \<open>The array of twice the length is published and the old one freed; \<open>nCells\<close> follows in a step of
  its own.\<close>

definition extend_cells :: "slot \<Rightarrow> nat \<Rightarrow> int \<Rightarrow> 'v adder \<Rightarrow> 'v adder res" where
  "extend_cells fill p n s =
     rbind (deref (d_arrays s) (Some p)) (\<lambda>xs.
     if n > int (length xs) then Inl OutOfRange
     else let q = d_fresh s; ys = take (nat n) xs @ replicate (nat n) fill in
       Inr (s\<lparr>d_arrays := ((d_arrays s)(q \<mapsto> ys))(p := None), d_cells := Some q, d_fresh := Suc q,
              d_extensions := d_extensions s + 1\<rparr>))"

text \<open>The first array has two slots, one of them with the value of the call.\<close>

definition publish_cells :: "slot \<Rightarrow> nat \<Rightarrow> 'v \<Rightarrow> 'v adder \<Rightarrow> 'v adder res" where
  "publish_cells fill t v s =
     (let j = chosen t s AND (d_nCells s - 1); q = d_fresh s; r = Suc q in
      rbind (set_vec (replicate 2 fill) j (Cell r)) (\<lambda>ys.
      rbind (at_vec (d_nth s) j) (\<lambda>k.
      rbind (set_vec (d_nth s) j (k + 1)) (\<lambda>counts.
      Inr ((set_chosen t j s)\<lparr>d_values := (d_values s)(r \<mapsto> v), d_nth := counts, d_arrays := (d_arrays s)(q \<mapsto> ys),
             d_cells := Some q, d_fresh := Suc r\<rparr>)))))"

fun add_step :: "slot \<Rightarrow> bool \<Rightarrow> nat \<Rightarrow> 'v::plus pc \<Rightarrow> 'v adder \<Rightarrow> 'v adder res" where
  "add_step fill ok t Idle s = Inr s"
| "add_step fill ok t (TestCells v) s = Inr (go_pc t (if d_cells s \<noteq> None then TestNull v else LoadBase v) s)"
| "add_step fill ok t (LoadBase v) s = Inr (go_pc t (CasBase v (d_base s)) s)"
| "add_step fill ok t (CasBase v b) s =
     Inr (if ok \<and> d_base s = b then go_pc t Idle (effect v (s\<lparr>d_base := b + v\<rparr>)) else go_pc t (TestNull v) s)"
| "add_step fill ok t (TestNull v) s = Inr (go_pc t (if d_cells s = None then Enter v True else LoadN v) s)"
| "add_step fill ok t (LoadN v) s =
     (let m = d_nCells s - 1 in Inr (go_pc t (if m < 0 then Enter v True else LoadArr v m) s))"
| "add_step fill ok t (LoadArr v m) s =
     (case d_cells s of None \<Rightarrow> Inl NullDeref | Some p \<Rightarrow> Inr (go_pc t (LoadSlot v m p) s))"
| "add_step fill ok t (LoadSlot v m p) s =
     rbind (read_slot p (chosen t s AND m) s) (\<lambda>x.
     Inr (go_pc t (case x of None \<Rightarrow> Enter v True | Some a \<Rightarrow> LoadCell v a) s))"
| "add_step fill ok t (LoadCell v a) s =
     rbind (deref (d_values s) (Some a)) (\<lambda>x. Inr (go_pc t (CasCell v a x) s))"
| "add_step fill ok t (CasCell v a x) s =
     rbind (cas_cell ok v a x s) (\<lambda>(b, s1). Inr (if b then go_pc t Idle (effect v s1) else go_pc t (Enter v False) s1))"
| "add_step fill ok t (Enter v unc) s =
     rbind (if d_cells s \<noteq> None \<and> chosen t s = - 1 then chooseCell t s else Inr s) (\<lambda>s1.
     Inr (go_pc t (Head v unc False) s1))"
| "add_step fill ok t (Head v unc ext) s =
     Inr (go_pc t (case d_cells s of None \<Rightarrow> InitTest v unc ext None | Some p \<Rightarrow> HeadN v unc ext p) s)"
| "add_step fill ok t (HeadN v unc ext p) s =
     (let n = d_nCells s in Inr (go_pc t (if n > 0 then ReadSlot v unc ext p n else InitTest v unc ext (Some p)) s))"
| "add_step fill ok t (ReadSlot v unc ext p n) s =
     rbind (read_slot p (chosen t s AND (n - 1)) s) (\<lambda>x.
     Inr (go_pc t (case x of None \<Rightarrow> NullSlot v unc ext | Some a \<Rightarrow> Found v unc ext p n a) s))"
| "add_step fill ok t (NullSlot v unc ext) s =
     Inr (if d_busy s then go_pc t (Head v unc False) s
          else let r = d_fresh s in
            go_pc t (NewCell v unc ext r) (s\<lparr>d_values := (d_values s)(r \<mapsto> v), d_fresh := Suc r\<rparr>))"
| "add_step fill ok t (NewCell v unc ext r) s =
     Inr (if \<not> d_busy s \<and> ok then go_pc t (Filling v unc ext r) (s\<lparr>d_busy := True\<rparr>) else go_pc t (Head v unc False) s)"
| "add_step fill ok t (Filling v unc ext r) s =
     rbind (fill_slot t r s) (\<lambda>(created, s1).
     Inr (if created then go_pc t (Releasing None) (effect v s1) else go_pc t (Releasing (Some (v, unc, ext))) s1))"
| "add_step fill ok t (Found v unc ext p n a) s =
     Inr (go_pc t (if \<not> unc then Head v True ext else LoopLoad v ext p n a) s)"
| "add_step fill ok t (LoopLoad v ext p n a) s =
     rbind (deref (d_values s) (Some a)) (\<lambda>x. Inr (go_pc t (LoopCas v ext p n a x) s))"
| "add_step fill ok t (LoopCas v ext p n a x) s =
     rbind (cas_cell ok v a x s) (\<lambda>(b, s1). Inr (if b then go_pc t Idle (effect v s1) else go_pc t (LoopFail v ext p n) s1))"
| "add_step fill ok t (LoopFail v ext p n) s =
     Inr (if n \<ge> d_ncpus s \<or> d_cells s \<noteq> Some p then go_pc t (Head v True False) s
          else if \<not> ext then go_pc t (Head v True True) s
          else if \<not> d_busy s \<and> ok then go_pc t (Extending v p n) (s\<lparr>d_busy := True\<rparr>)
          else go_pc t (Head v True ext) s)"
| "add_step fill ok t (Extending v p n) s =
     (if d_cells s = Some p then rbind (extend_cells fill p n s) (\<lambda>s1. Inr (go_pc t (GrowN v n) s1))
      else Inr (go_pc t (Releasing (Some (v, True, False))) s))"
| "add_step fill ok t (GrowN v n) s = Inr (go_pc t (Releasing (Some (v, True, False))) (s\<lparr>d_nCells := n * 2\<rparr>))"
| "add_step fill ok t (InitTest v unc ext as) s =
     Inr (if \<not> d_busy s \<and> d_cells s = as \<and> ok then go_pc t (Initing v unc ext as) (s\<lparr>d_busy := True\<rparr>)
          else go_pc t (MetaLoad v unc ext) s)"
| "add_step fill ok t (Initing v unc ext as) s =
     Inr (if d_cells s = as then go_pc t (InitPublish v) (s\<lparr>d_nCells := 2\<rparr>)
          else go_pc t (Releasing (Some (v, unc, ext))) s)"
| "add_step fill ok t (InitPublish v) s =
     rbind (publish_cells fill t v s) (\<lambda>s1. Inr (go_pc t (Releasing None) (effect v s1)))"
| "add_step fill ok t (MetaLoad v unc ext) s = Inr (go_pc t (MetaCas v unc ext (d_base s)) s)"
| "add_step fill ok t (MetaCas v unc ext b) s =
     Inr (if ok \<and> d_base s = b then go_pc t Idle (effect v (s\<lparr>d_base := b + v\<rparr>)) else go_pc t (Head v unc ext) s)"
| "add_step fill ok t (Releasing k) s =
     Inr (go_pc t (case k of None \<Rightarrow> Idle | Some (v, unc, ext) \<Rightarrow> Head v unc ext) (s\<lparr>d_busy := False\<rparr>))"

text \<open>A thread that is not in a call begins one, or a call on another counter changes its index; a thread
  in a call takes a step of it.\<close>

datatype 'v action = Begin nat 'v | Step bool nat | Elsewhere nat int

fun add_action :: "slot \<Rightarrow> 'v::plus action \<Rightarrow> 'v adder \<Rightarrow> 'v adder res" where
  "add_action fill (Begin t v) s =
     (if t < length (d_threads s) \<and> th_pc (d_threads s ! t) = Idle
      then Inr (go_pc t (TestCells v) (s\<lparr>d_begun := d_begun s @ [v]\<rparr>)) else Inr s)"
| "add_action fill (Step ok t) s =
     (if t < length (d_threads s) then add_step fill ok t (th_pc (d_threads s ! t)) s else Inr s)"
| "add_action fill (Elsewhere t i) s =
     Inr (if t < length (d_threads s) \<and> th_pc (d_threads s ! t) = Idle then set_chosen t i s else s)"

fun add_run :: "slot \<Rightarrow> 'v::plus action list \<Rightarrow> 'v adder \<Rightarrow> 'v adder res" where
  "add_run fill [] s = Inr s"
| "add_run fill (a # as) s = rbind (add_action fill a s) (add_run fill as)"

subsection \<open>\<^verbatim>\<open>sum\<close> and the destructor\<close>

fun sum_loop :: "nat \<Rightarrow> int list \<Rightarrow> 'v::plus \<Rightarrow> 'v adder \<Rightarrow> 'v res" where
  "sum_loop p [] acc s = Inr acc"
| "sum_loop p (i # is) acc s =
     rbind (read_slot p i s) (\<lambda>x. case x of
       None \<Rightarrow> sum_loop p is acc s
     | Some a \<Rightarrow> rbind (deref (d_values s) (Some a)) (\<lambda>v. sum_loop p is (acc + v) s))"

definition adder_sum :: "'v::plus adder \<Rightarrow> 'v res" where
  "adder_sum s = (case d_cells s of None \<Rightarrow> Inr (d_base s) | Some p \<Rightarrow> sum_loop p [0..d_nCells s - 1] (d_base s) s)"

text \<open>The destructor deletes the array and not the cells.\<close>

definition adder_destroy :: "'v adder \<Rightarrow> 'v adder" where
  "adder_destroy s = (case d_cells s of None \<Rightarrow> s | Some p \<Rightarrow> s\<lparr>d_arrays := (d_arrays s)(p := None), d_cells := None\<rparr>)\<lparr>d_nth := []\<rparr>"

end
