(* ===== verification/LongAddrSpec.thy ===== *)
theory LongAddrSpec
  imports LongAddr "HOL-Library.Multiset" "HOL-Library.Word"
begin

text \<open>
  What the striped counter promises: until its array of cells is extended, and when new arrays come
  cleared, no step of any thread fails, every call takes effect exactly once, and the sum of an idle
  counter is the sum of the calls. On arrays that are not cleared this holds until there is one; a
  run that does not fail there is a run on cleared arrays. With an extension it can lose a call.
\<close>

subsection \<open>The invariant\<close>

fun own_cell :: "'v pc \<Rightarrow> nat option" where
  "own_cell (NewCell v u e r) = Some r" | "own_cell (Filling v u e r) = Some r" | "own_cell _ = None"

fun holding :: "'v pc \<Rightarrow> bool" where
  "holding (Filling v u e r) = True" | "holding (Extending v p n) = True" | "holding (GrowN v n) = True"
| "holding (Initing v u e as) = True" | "holding (InitPublish v) = True" | "holding (Releasing k) = True"
| "holding _ = False"

text \<open>The value of a call that has not taken effect.\<close>

fun owed :: "'v pc \<Rightarrow> 'v multiset" where
  "owed Idle = {#}" | "owed (Releasing None) = {#}" | "owed (Releasing (Some (v, u, e))) = {#v#}"
| "owed (TestCells v) = {#v#}" | "owed (LoadBase v) = {#v#}" | "owed (CasBase v b) = {#v#}" | "owed (TestNull v) = {#v#}"
| "owed (LoadN v) = {#v#}" | "owed (LoadArr v m) = {#v#}" | "owed (LoadSlot v m p) = {#v#}" | "owed (LoadCell v a) = {#v#}"
| "owed (CasCell v a x) = {#v#}" | "owed (Enter v u) = {#v#}" | "owed (Head v u e) = {#v#}" | "owed (HeadN v u e p) = {#v#}"
| "owed (ReadSlot v u e p n) = {#v#}" | "owed (NullSlot v u e) = {#v#}" | "owed (NewCell v u e r) = {#v#}"
| "owed (Filling v u e r) = {#v#}" | "owed (Found v u e p n a) = {#v#}" | "owed (LoopLoad v e p n a) = {#v#}"
| "owed (LoopCas v e p n a x) = {#v#}" | "owed (LoopFail v e p n) = {#v#}" | "owed (Extending v p n) = {#v#}"
| "owed (GrowN v n) = {#v#}" | "owed (InitTest v u e as) = {#v#}" | "owed (Initing v u e as) = {#v#}"
| "owed (InitPublish v) = {#v#}" | "owed (MetaLoad v u e) = {#v#}" | "owed (MetaCas v u e b) = {#v#}"

definition in_cells :: "'v adder \<Rightarrow> nat \<Rightarrow> bool" where
  "in_cells s a \<longleftrightarrow> (\<exists>p x y. d_cells s = Some p \<and> d_arrays s p = Some [x, y] \<and> (x = Cell a \<or> y = Cell a))"

definition slot_value :: "'v::zero adder \<Rightarrow> slot \<Rightarrow> 'v" where
  "slot_value s x = (case x of Cell a \<Rightarrow> (case d_values s a of Some v \<Rightarrow> v | None \<Rightarrow> 0) | _ \<Rightarrow> 0)"

definition slot_ok :: "'v adder \<Rightarrow> slot \<Rightarrow> bool" where
  "slot_ok s x \<longleftrightarrow> x \<noteq> Junk \<and> (\<forall>a. x = Cell a \<longrightarrow> d_values s a \<noteq> None)"

definition cells_ok :: "'v::comm_monoid_add adder \<Rightarrow> bool" where
  "cells_ok s \<longleftrightarrow> (case d_cells s of
      None \<Rightarrow> d_arrays s = Map.empty \<and> (d_nCells s = 0 \<or> d_nCells s = 2) \<and> d_base s = sum_list (d_done s)
    | Some p \<Rightarrow> d_nCells s = 2 \<and> (\<exists>x y. d_arrays s = [p \<mapsto> [x, y]] \<and> slot_ok s x \<and> slot_ok s y \<and> (x = y \<longrightarrow> x = Null) \<and>
        d_base s + (slot_value s x + slot_value s y) = sum_list (d_done s)))"

fun pc_ok :: "'v adder \<Rightarrow> 'v pc \<Rightarrow> bool" where
  "pc_ok s (LoadN v) = (d_cells s \<noteq> None)"
| "pc_ok s (LoadArr v m) = (d_cells s \<noteq> None \<and> m = 1)"
| "pc_ok s (LoadSlot v m p) = (d_cells s = Some p \<and> m = 1)"
| "pc_ok s (LoadCell v a) = in_cells s a"
| "pc_ok s (CasCell v a x) = in_cells s a"
| "pc_ok s (HeadN v u e p) = (d_cells s = Some p)"
| "pc_ok s (ReadSlot v u e p n) = (d_cells s = Some p \<and> n = 2)"
| "pc_ok s (NewCell v u e r) = (d_values s r = Some v \<and> \<not> in_cells s r)"
| "pc_ok s (Filling v u e r) = (d_values s r = Some v \<and> \<not> in_cells s r)"
| "pc_ok s (Found v u e p n a) = (d_cells s = Some p \<and> n = 2 \<and> in_cells s a)"
| "pc_ok s (LoopLoad v e p n a) = (d_cells s = Some p \<and> n = 2 \<and> in_cells s a)"
| "pc_ok s (LoopCas v e p n a x) = (d_cells s = Some p \<and> n = 2 \<and> in_cells s a)"
| "pc_ok s (LoopFail v e p n) = (d_cells s = Some p \<and> n = 2)"
| "pc_ok s (Extending v p n) = (d_cells s = Some p \<and> n = 2)"
| "pc_ok s (GrowN v n) = False"
| "pc_ok s (InitTest v u e as) = (as = None)"
| "pc_ok s (Initing v u e as) = (as = None)"
| "pc_ok s (InitPublish v) = (d_cells s = None \<and> d_nCells s = 2)"
| "pc_ok s _ = True"

abbreviation pc_of :: "'v adder \<Rightarrow> nat \<Rightarrow> 'v pc" where "pc_of s i \<equiv> th_pc (d_threads s ! i)"

abbreviation callers :: "'v adder \<Rightarrow> nat" where "callers s \<equiv> length (d_threads s)"

definition adder_inv :: "'v::comm_monoid_add adder \<Rightarrow> bool" where
  "adder_inv s \<longleftrightarrow> cells_ok s \<and> 2 \<le> length (d_nth s) \<and> (\<forall>a. d_values s a \<noteq> None \<longrightarrow> a < d_fresh s) \<and>
     (\<forall>i < callers s. pc_ok s (pc_of s i) \<and> (holding (pc_of s i) \<longrightarrow> d_busy s)) \<and>
     (\<forall>i < callers s. \<forall>j < callers s. holding (pc_of s i) \<longrightarrow> holding (pc_of s j) \<longrightarrow> i = j) \<and>
     (\<forall>i < callers s. \<forall>j < callers s. \<forall>r. own_cell (pc_of s i) = Some r \<longrightarrow> own_cell (pc_of s j) = Some r \<longrightarrow> i = j) \<and>
     mset (d_begun s) = mset (d_done s) + (\<Sum>th\<leftarrow>d_threads s. owed (th_pc th))"

lemma pc_ok_stable:
  assumes "pc_ok s c" "\<And>p. d_cells s = Some p \<Longrightarrow> d_cells s' = Some p" "\<And>a. in_cells s a \<Longrightarrow> in_cells s' a"
    "\<And>r v. own_cell c = Some r \<Longrightarrow> \<not> in_cells s r \<Longrightarrow> d_values s r = Some v \<Longrightarrow> d_values s' r = Some v \<and> \<not> in_cells s' r"
    "holding c \<Longrightarrow> d_cells s = None \<Longrightarrow> d_nCells s = 2 \<Longrightarrow> d_cells s' = None \<and> d_nCells s' = 2"
  shows "pc_ok s' c"
  using assms by (cases c) auto

lemma in_cells_cong: "d_cells s' = d_cells s \<Longrightarrow> d_arrays s' = d_arrays s \<Longrightarrow> in_cells s' a = in_cells s a"
  by (simp add: in_cells_def)

lemma pc_ok_cong:
  assumes "d_cells s' = d_cells s" "d_arrays s' = d_arrays s" "d_nCells s' = d_nCells s" "d_values s' = d_values s"
  shows "pc_ok s' c = pc_ok s c"
  using assms in_cells_cong [OF assms(1,2)] by (cases c) simp_all

lemma cells_ok_cong:
  assumes "d_cells s' = d_cells s" "d_arrays s' = d_arrays s" "d_nCells s' = d_nCells s" "d_values s' = d_values s"
    "d_base s' = d_base s" "d_done s' = d_done s"
  shows "cells_ok s' = cells_ok s"
  unfolding cells_ok_def slot_ok_def slot_value_def assms ..

lemma sum_list_at:
  fixes f :: "'a \<Rightarrow> 'b::comm_monoid_add"
  shows "k < length xs \<Longrightarrow> (\<Sum>x\<leftarrow>xs[k := y]. f x) + f (xs ! k) = (\<Sum>x\<leftarrow>xs. f x) + f y"
proof (induction xs arbitrary: k)
  case (Cons x xs)
  then show ?case by (cases k) (simp_all add: ac_simps)
qed simp

text \<open>A step of thread \<open>t\<close> keeps the invariant when it keeps what the others rely on.\<close>

lemma inv_update:
  assumes inv: "adder_inv s" and t: "t < callers s" and th: "d_threads s' = (d_threads s)[t := th]"
    and ok: "cells_ok s'" "2 \<le> length (d_nth s')" "\<And>a. d_values s' a \<noteq> None \<Longrightarrow> a < d_fresh s'" "pc_ok s' (th_pc th)"
    and others: "\<And>i. i < callers s \<Longrightarrow> i \<noteq> t \<Longrightarrow> pc_ok s' (pc_of s i)"
    and hold: "holding (th_pc th) \<Longrightarrow> d_busy s' \<and> (holding (pc_of s t) \<or> \<not> d_busy s)"
    and busy: "d_busy s \<Longrightarrow> d_busy s' \<or> holding (pc_of s t)"
    and own: "\<And>r. own_cell (th_pc th) = Some r \<Longrightarrow> own_cell (pc_of s t) = Some r \<or> d_values s r = None"
    and ledger: "d_begun s' = d_begun s" "mset (d_done s') + owed (th_pc th) = mset (d_done s) + owed (pc_of s t)"
  shows "adder_inv s'"
proof -
  have n: "callers s' = callers s" and at: "pc_of s' t = th_pc th" "\<And>i. i \<noteq> t \<Longrightarrow> pc_of s' i = pc_of s i"
    using t by (simp_all add: th)
  have old: "pc_ok s (pc_of s i)" "holding (pc_of s i) \<Longrightarrow> d_busy s" if "i < callers s" for i
    using inv that unfolding adder_inv_def by blast+
  have one: "i = j" if "i < callers s" "j < callers s" "holding (pc_of s i)" "holding (pc_of s j)" for i j
    using inv that unfolding adder_inv_def by blast
  have one_own: "i = j" if "i < callers s" "j < callers s" "own_cell (pc_of s i) = Some r" "own_cell (pc_of s j) = Some r" for i j r
    using inv that unfolding adder_inv_def by blast
  have live: "d_values s r \<noteq> None" if "i < callers s" "own_cell (pc_of s i) = Some r" for i r
    using old(1) [OF that(1)] that(2) by (cases "pc_of s i") auto
  have 1: "pc_ok s' (pc_of s' i) \<and> (holding (pc_of s' i) \<longrightarrow> d_busy s')" if i: "i < callers s" for i
  proof (cases "i = t")
    case False
    then show ?thesis using others [OF i] old(2) [OF i] busy one [OF i t] at(2) by auto
  qed (use ok(4) hold at(1) in auto)
  have 2: "i = j" if ij: "i < callers s" "j < callers s" "holding (pc_of s' i)" "holding (pc_of s' j)" for i j
  proof (rule ccontr)
    assume "i \<noteq> j"
    then show False using hold one [OF ij(1,2)] one [OF ij(1) t] one [OF t ij(2)] old(2) ij at by metis
  qed
  have 3: "i = j" if ij: "i < callers s" "j < callers s" "own_cell (pc_of s' i) = Some r" "own_cell (pc_of s' j) = Some r" for i j r
  proof (rule ccontr)
    assume "i \<noteq> j"
    then show False using own [of r] one_own [OF ij(1,2), of r] one_own [OF ij(1) t, of r] one_own [OF t ij(2), of r] live ij at by metis
  qed
  have "(\<Sum>th\<leftarrow>d_threads s'. owed (th_pc th)) + owed (pc_of s t) = (\<Sum>th\<leftarrow>d_threads s. owed (th_pc th)) + owed (th_pc th)"
    unfolding th by (rule sum_list_at [OF t])
  then have "mset (d_done s') + (\<Sum>th\<leftarrow>d_threads s'. owed (th_pc th)) + owed (pc_of s t) =
      mset (d_done s) + (\<Sum>th\<leftarrow>d_threads s. owed (th_pc th)) + owed (pc_of s t)"
    using ledger(2) by (metis (no_types, lifting) add.assoc add.commute)
  then have "mset (d_begun s') = mset (d_done s') + (\<Sum>th\<leftarrow>d_threads s'. owed (th_pc th))"
    using inv ledger(1) by (simp add: adder_inv_def)
  then show ?thesis using ok 1 2 3 n unfolding adder_inv_def by presburger
qed

text \<open>A step that changes only where the thread is, and the flag.\<close>

lemma inv_local:
  assumes inv: "adder_inv s" and t: "t < callers s" and s': "s' = go_pc t c (s\<lparr>d_busy := b\<rparr>)"
    and c: "pc_ok s c" "owed c = owed (pc_of s t)" "own_cell c = None \<or> own_cell c = own_cell (pc_of s t)"
    and h: "holding c \<Longrightarrow> b \<and> (holding (pc_of s t) \<or> \<not> d_busy s)" "d_busy s \<Longrightarrow> b \<or> holding (pc_of s t)"
  shows "adder_inv s'"
proof (rule inv_update [OF inv t])
  show "d_threads s' = (d_threads s)[t := (d_threads s ! t)\<lparr>th_pc := c\<rparr>]" by (simp add: s' go_pc_def)
  have f: "d_cells s' = d_cells s" "d_arrays s' = d_arrays s" "d_nCells s' = d_nCells s" "d_values s' = d_values s"
    "d_base s' = d_base s" "d_done s' = d_done s" "d_busy s' = b"
    by (simp_all add: s' go_pc_def)
  show "cells_ok s'" using inv cells_ok_cong [OF f(1-6)] by (simp add: adder_inv_def)
  show "pc_ok s' (th_pc ((d_threads s ! t)\<lparr>th_pc := c\<rparr>))" using c(1) pc_ok_cong [OF f(1-4)] by simp
  show "pc_ok s' (pc_of s i)" if "i < callers s" "i \<noteq> t" for i
    using inv that pc_ok_cong [OF f(1-4)] by (simp add: adder_inv_def)
qed (use inv c h in \<open>auto simp: s' go_pc_def adder_inv_def\<close>)

subsection \<open>Steps that change what is shared\<close>

lemma inv_facts:
  assumes "adder_inv s" "t < callers s"
  shows "pc_ok s (pc_of s t)" "holding (pc_of s t) \<Longrightarrow> d_busy s" "cells_ok s" "2 \<le> length (d_nth s)"
    "d_values s a \<noteq> None \<Longrightarrow> a < d_fresh s"
  using assms by (simp_all add: adder_inv_def)

lemma go_pc_threads: "d_threads (go_pc t c s) = (d_threads s)[t := (d_threads s ! t)\<lparr>th_pc := c\<rparr>]"
  by (simp add: go_pc_def)

lemma go_pc_fields [simp]:
  "d_cells (go_pc t c s) = d_cells s" "d_arrays (go_pc t c s) = d_arrays s" "d_nCells (go_pc t c s) = d_nCells s"
  "d_values (go_pc t c s) = d_values s" "d_base (go_pc t c s) = d_base s" "d_done (go_pc t c s) = d_done s"
  "d_busy (go_pc t c s) = d_busy s" "d_nth (go_pc t c s) = d_nth s" "d_fresh (go_pc t c s) = d_fresh s"
  "d_begun (go_pc t c s) = d_begun s" "d_extensions (go_pc t c s) = d_extensions s" "d_ncpus (go_pc t c s) = d_ncpus s"
  by (simp_all add: go_pc_def)

lemma effect_fields [simp]:
  "d_cells (effect v s) = d_cells s" "d_arrays (effect v s) = d_arrays s" "d_nCells (effect v s) = d_nCells s"
  "d_values (effect v s) = d_values s" "d_base (effect v s) = d_base s" "d_done (effect v s) = d_done s @ [v]"
  "d_busy (effect v s) = d_busy s" "d_nth (effect v s) = d_nth s" "d_fresh (effect v s) = d_fresh s"
  "d_begun (effect v s) = d_begun s" "d_extensions (effect v s) = d_extensions s" "d_threads (effect v s) = d_threads s"
  by (simp_all add: effect_def)

text \<open>The two slots of the array.\<close>

lemma slots:
  assumes "cells_ok s" "d_cells s = Some p"
  obtains x y where "d_arrays s = [p \<mapsto> [x, y]]" "slot_ok s x" "slot_ok s y" "x = y \<longrightarrow> x = Null" "d_nCells s = 2"
    "d_base s + (slot_value s x + slot_value s y) = sum_list (d_done s)"
  using assms by (auto simp: cells_ok_def)

lemma cells_okI:
  assumes "d_cells s = Some p" "d_arrays s = [p \<mapsto> [x, y]]" "slot_ok s x" "slot_ok s y" "x = y \<longrightarrow> x = Null" "d_nCells s = 2"
    "d_base s + (slot_value s x + slot_value s y) = sum_list (d_done s)"
  shows "cells_ok s"
  unfolding cells_ok_def using assms by auto

lemma in_cells_slots: "d_cells s = Some p \<Longrightarrow> d_arrays s = [p \<mapsto> [x, y]] \<Longrightarrow> in_cells s a \<longleftrightarrow> x = Cell a \<or> y = Cell a"
  by (simp add: in_cells_def)

lemma slot_value_other: "x \<noteq> Cell a \<Longrightarrow> slot_value (s\<lparr>d_values := (d_values s)(a \<mapsto> v)\<rparr>) x = slot_value s x"
  by (auto simp: slot_value_def split: slot.splits)

lemma slot_value_cong: "d_values s' = d_values s \<Longrightarrow> slot_value s' x = slot_value s x"
  by (simp add: slot_value_def split: slot.splits)

lemma slot_ok_cong: "(\<And>a. d_values s a \<noteq> None \<Longrightarrow> d_values s' a \<noteq> None) \<Longrightarrow> slot_ok s x \<Longrightarrow> slot_ok s' x"
  by (auto simp: slot_ok_def)

lemma inv_base:
  assumes inv: "adder_inv s" and t: "t < callers s" and o: "owed (pc_of s t) = {#v#}" and h: "\<not> holding (pc_of s t)"
  shows "adder_inv (go_pc t Idle (effect v (s\<lparr>d_base := d_base s + v\<rparr>)))" (is "adder_inv ?s")
proof (rule inv_update [OF inv t])
  show "d_threads ?s = (d_threads s)[t := (d_threads s ! t)\<lparr>th_pc := Idle\<rparr>]" by (simp add: go_pc_threads effect_def)
  have f: "d_cells ?s = d_cells s" "d_arrays ?s = d_arrays s" "d_nCells ?s = d_nCells s" "d_values ?s = d_values s"
    by (simp_all add: effect_def)
  show "cells_ok ?s"
  proof (cases "d_cells s")
    case None
    then show ?thesis using inv_facts(3) [OF inv t] by (simp add: cells_ok_def effect_def ac_simps)
  next
    case (Some p)
    from slots [OF inv_facts(3) [OF inv t] Some] obtain x y where xy: "d_arrays s = [p \<mapsto> [x, y]]" "slot_ok s x" "slot_ok s y"
      "x = y \<longrightarrow> x = Null" "d_nCells s = 2" "d_base s + (slot_value s x + slot_value s y) = sum_list (d_done s)" .
    have "slot_ok ?s x" "slot_ok ?s y" using slot_ok_cong [of s ?s] xy(2,3) by (simp_all add: effect_def)
    moreover have "d_base s + v + (slot_value ?s x + slot_value ?s y) = sum_list (d_done s) + v"
      unfolding slot_value_cong [OF f(4)] xy(6) [symmetric] by (simp add: ac_simps)
    ultimately show ?thesis using Some xy(1,4,5) by (intro cells_okI [of _ p x y]) (simp_all add: effect_def)
  qed
  show "pc_ok ?s (pc_of s i)" if "i < callers s" "i \<noteq> t" for i
    using inv that pc_ok_cong [OF f] by (simp add: adder_inv_def)
qed (use inv o h in \<open>auto simp: effect_def adder_inv_def\<close>)

lemma inv_cell:
  assumes inv: "adder_inv s" and t: "t < callers s" and o: "owed (pc_of s t) = {#v#}" and h: "\<not> holding (pc_of s t)"
    and a: "in_cells s a" "d_values s a = Some x"
  shows "adder_inv (go_pc t Idle (effect v (s\<lparr>d_values := (d_values s)(a \<mapsto> x + v)\<rparr>)))" (is "adder_inv ?s")
proof (rule inv_update [OF inv t])
  show "d_threads ?s = (d_threads s)[t := (d_threads s ! t)\<lparr>th_pc := Idle\<rparr>]" by (simp add: go_pc_threads effect_def)
  let ?u = "s\<lparr>d_values := (d_values s)(a \<mapsto> x + v)\<rparr>"
  have f: "d_cells ?s = d_cells s" "d_arrays ?s = d_arrays s" "d_nCells ?s = d_nCells s" "d_values ?s = (d_values s)(a \<mapsto> x + v)"
    "d_base ?s = d_base s" "d_done ?s = d_done s @ [v]" by (simp_all add: effect_def)
  obtain p where p: "d_cells s = Some p" using a(1) by (auto simp: in_cells_def)
  obtain y z where yz: "d_arrays s = [p \<mapsto> [y, z]]" "slot_ok s y" "slot_ok s z" "y = z \<longrightarrow> y = Null" "d_nCells s = 2"
    "d_base s + (slot_value s y + slot_value s z) = sum_list (d_done s)"
    using slots [OF inv_facts(3) [OF inv t] p] .
  have ya: "y = Cell a \<or> z = Cell a" using a(1) in_cells_slots [OF p yz(1)] by simp
  have v: "slot_value ?s w = (if w = Cell a then slot_value s w + v else slot_value s w)" for w
    using a(2) by (auto simp: slot_value_def effect_def split: slot.splits)
  have ok: "slot_ok ?s y" "slot_ok ?s z" using slot_ok_cong [of s ?s] yz(2,3) by (simp_all add: effect_def)
  have "d_base s + (slot_value ?s y + slot_value ?s z) = sum_list (d_done s) + v"
    unfolding v using ya yz(4) by (auto simp: yz(6) [symmetric] ac_simps)
  then show "cells_ok ?s" using p yz(1,4,5) ok by (intro cells_okI [of _ p y z]) simp_all
  show "pc_ok ?s (pc_of s i)" if i: "i < callers s" "i \<noteq> t" for i
  proof (rule pc_ok_stable)
    show "pc_ok s (pc_of s i)" using inv i by (simp add: adder_inv_def)
    show "d_values ?s r = Some u \<and> \<not> in_cells ?s r" if "\<not> in_cells s r" "d_values s r = Some u" for r u
      using that a(1) in_cells_cong [OF f(1,2)] by (auto simp: f)
  qed (use f in_cells_cong [OF f(1,2)] in auto)
qed (use inv o h a in \<open>auto simp: effect_def adder_inv_def split: if_splits\<close>)

lemma inv_new_cell:
  assumes inv: "adder_inv s" and t: "t < callers s" and c: "pc_of s t = NullSlot v u e"
  shows "adder_inv (go_pc t (NewCell v u e (d_fresh s)) (s\<lparr>d_values := (d_values s)(d_fresh s \<mapsto> v), d_fresh := Suc (d_fresh s)\<rparr>))"
    (is "adder_inv (go_pc t ?c ?u)")
proof (rule inv_update [OF inv t])
  let ?s = "go_pc t ?c ?u"
  show "d_threads ?s = (d_threads s)[t := (d_threads s ! t)\<lparr>th_pc := ?c\<rparr>]" by (simp add: go_pc_threads)
  have new: "d_values s (d_fresh s) = None" using inv_facts(5) [OF inv t, of "d_fresh s"] by blast
  have f: "d_cells ?s = d_cells s" "d_arrays ?s = d_arrays s" "d_nCells ?s = d_nCells s" by simp_all
  have v: "slot_value ?s x = slot_value s x" if "slot_ok s x" for x
    using that new by (auto simp: slot_value_def slot_ok_def split: slot.splits)
  show "cells_ok ?s"
  proof (cases "d_cells s")
    case None
    then show ?thesis using inv_facts(3) [OF inv t] by (simp add: cells_ok_def)
  next
    case (Some p)
    from slots [OF inv_facts(3) [OF inv t] Some] obtain x y where xy: "d_arrays s = [p \<mapsto> [x, y]]" "slot_ok s x" "slot_ok s y"
      "x = y \<longrightarrow> x = Null" "d_nCells s = 2" "d_base s + (slot_value s x + slot_value s y) = sum_list (d_done s)" .
    have "slot_ok ?s x" "slot_ok ?s y" using slot_ok_cong [of s ?s] xy(2,3) by simp_all
    then show ?thesis using Some xy v by (intro cells_okI [of _ p x y]) simp_all
  qed
  have notin: "\<not> in_cells s (d_fresh s)"
  proof
    assume i: "in_cells s (d_fresh s)"
    then obtain p where p: "d_cells s = Some p" by (auto simp: in_cells_def)
    from slots [OF inv_facts(3) [OF inv t] p] obtain x y where "d_arrays s = [p \<mapsto> [x, y]]" "slot_ok s x" "slot_ok s y" by metis
    then show False using i p new by (auto simp: in_cells_slots slot_ok_def)
  qed
  then show "pc_ok ?s (th_pc ((d_threads s ! t)\<lparr>th_pc := ?c\<rparr>))" using in_cells_cong [OF f(1,2)] by simp
  show "pc_ok ?s (pc_of s i)" if i: "i < callers s" "i \<noteq> t" for i
  proof (rule pc_ok_stable)
    show "pc_ok s (pc_of s i)" using inv i by (simp add: adder_inv_def)
    show "d_values ?s r = Some w \<and> \<not> in_cells ?s r" if "\<not> in_cells s r" "d_values s r = Some w" for r w
      using that new in_cells_cong [OF f(1,2)] by auto
  qed (use f in_cells_cong [OF f(1,2)] in auto)
  show "own_cell (pc_of s t) = Some r \<or> d_values s r = None" if "own_cell (th_pc ((d_threads s ! t)\<lparr>th_pc := ?c\<rparr>)) = Some r" for r
    using that new by simp
qed (use inv c in \<open>auto simp: adder_inv_def less_SucI split: if_splits\<close>)

lemma and_one_cases: "(c :: int) AND 1 = 0 \<or> c AND 1 = 1"
  by (simp add: and_one_eq) presburger

lemma inv_fill:
  assumes inv: "adder_inv s" and t: "t < callers s" and c: "pc_of s t = Filling v u e r"
    and p: "d_cells s = Some p" "d_arrays s = [p \<mapsto> [x, y]]" and xy': "(x = Null \<and> x' = Cell r \<and> y' = y) \<or> (y = Null \<and> x' = x \<and> y' = Cell r)"
  shows "adder_inv (go_pc t (Releasing None) (effect v (s\<lparr>d_arrays := (d_arrays s)(p \<mapsto> [x', y'])\<rparr>)))" (is "adder_inv ?s")
proof (rule inv_update [OF inv t])
  show "d_threads ?s = (d_threads s)[t := (d_threads s ! t)\<lparr>th_pc := Releasing None\<rparr>]" by (simp add: go_pc_threads)
  from slots [OF inv_facts(3) [OF inv t] p(1)] obtain x0 y0 where "d_arrays s = [p \<mapsto> [x0, y0]]" and ok0: "slot_ok s x0" "slot_ok s y0"
    "x0 = y0 \<longrightarrow> x0 = Null" and n: "d_nCells s = 2" and sum0: "d_base s + (slot_value s x0 + slot_value s y0) = sum_list (d_done s)" .
  then have "x0 = x" "y0 = y" using p(2) by (metis fun_upd_same list.inject option.inject)+
  then have ok: "slot_ok s x" "slot_ok s y" "x = y \<longrightarrow> x = Null" and sum: "d_base s + (slot_value s x + slot_value s y) = sum_list (d_done s)"
    using ok0 sum0 by simp_all
  have r: "d_values s r = Some v" "\<not> in_cells s r" using inv_facts(1) [OF inv t] c by simp_all
  have a: "d_arrays ?s = [p \<mapsto> [x', y']]" using p(2) by simp
  have i: "in_cells s b \<longleftrightarrow> x = Cell b \<or> y = Cell b" "in_cells ?s b \<longleftrightarrow> x' = Cell b \<or> y' = Cell b" for b
    using p a by (auto simp: in_cells_def)
  have val: "slot_value ?s z = slot_value s z" for z by (rule slot_value_cong) simp
  show "cells_ok ?s"
  proof (rule cells_okI [of _ p x' y'])
    show "slot_ok ?s x'" "slot_ok ?s y'" using ok xy' r(1) by (auto simp: slot_ok_def)
    show "x' = y' \<longrightarrow> x' = Null" using xy' r(2) i(1) ok(3) by auto
    have "slot_value s x' + slot_value s y' = slot_value s x + slot_value s y + v"
      using xy' r(1) by (auto simp: slot_value_def ac_simps)
    then show "d_base ?s + (slot_value ?s x' + slot_value ?s y') = sum_list (d_done ?s)"
      unfolding val using sum by (simp add: add.assoc [symmetric])
  qed (use p n a in simp_all)
  show "pc_ok ?s (pc_of s j)" if j: "j < callers s" "j \<noteq> t" for j
  proof (rule pc_ok_stable)
    show "pc_ok s (pc_of s j)" using inv j by (simp add: adder_inv_def)
    show "in_cells ?s b" if "in_cells s b" for b using that xy' by (auto simp: i)
    show "d_values ?s k = Some w \<and> \<not> in_cells ?s k" if k: "own_cell (pc_of s j) = Some k" "\<not> in_cells s k" "d_values s k = Some w" for k w
    proof -
      have "k \<noteq> r" using inv j t k(1) c unfolding adder_inv_def by (metis own_cell.simps(2))
      then show ?thesis using k xy' by (auto simp: i)
    qed
  qed simp_all
qed (use inv c inv_facts(2) [OF inv t] in \<open>auto simp: adder_inv_def\<close>)

lemma inv_publish:
  assumes inv: "adder_inv s" and t: "t < callers s" and c: "pc_of s t = InitPublish v" and counts: "length counts = length (d_nth s)"
    and xy: "(x = Cell (Suc (d_fresh s)) \<and> y = Null) \<or> (x = Null \<and> y = Cell (Suc (d_fresh s)))"
  shows "adder_inv (go_pc t (Releasing None) (effect v ((set_chosen t j s)\<lparr>d_values := (d_values s)(Suc (d_fresh s) \<mapsto> v),
    d_nth := counts, d_arrays := (d_arrays s)(d_fresh s \<mapsto> [x, y]), d_cells := Some (d_fresh s), d_fresh := Suc (Suc (d_fresh s))\<rparr>)))"
    (is "adder_inv ?s")
proof (rule inv_update [OF inv t])
  show "d_threads ?s = (d_threads s)[t := (d_threads s ! t)\<lparr>th_chosen := j, th_pc := Releasing None\<rparr>]"
    using t by (simp add: go_pc_threads set_chosen_def)
  have none: "d_cells s = None" "d_nCells s = 2" using inv_facts(1) [OF inv t] c by simp_all
  then have b: "d_arrays s = Map.empty" "d_base s = sum_list (d_done s)" using inv_facts(3) [OF inv t] by (simp_all add: cells_ok_def)
  let ?r = "Suc (d_fresh s)"
  have fresh: "d_values s a \<noteq> None \<Longrightarrow> a < d_fresh s" for a by (rule inv_facts(5) [OF inv t])
  have f: "d_cells ?s = Some (d_fresh s)" "d_arrays ?s = [d_fresh s \<mapsto> [x, y]]" "d_values ?s = (d_values s)(?r \<mapsto> v)"
    "d_nCells ?s = 2" "d_base ?s = d_base s" "d_done ?s = d_done s @ [v]"
    using b none by (simp_all add: set_chosen_def)
  show "cells_ok ?s"
  proof (rule cells_okI [OF f(1,2)])
    show "slot_ok ?s x" "slot_ok ?s y" using xy by (auto simp: slot_ok_def)
    have "slot_value ?s x + slot_value ?s y = v" using xy by (auto simp: slot_value_def)
    then show "d_base ?s + (slot_value ?s x + slot_value ?s y) = sum_list (d_done ?s)" using b f by simp
  qed (use xy f in auto)
  show "d_values ?s a \<noteq> None \<Longrightarrow> a < d_fresh ?s" for a
    using fresh [of a] by (auto split: if_splits)
  show "pc_ok ?s (pc_of s i)" if i: "i < callers s" "i \<noteq> t" for i
  proof (rule pc_ok_stable)
    show "pc_ok s (pc_of s i)" using inv i by (simp add: adder_inv_def)
    show "in_cells ?s a" if "in_cells s a" for a using that none by (simp add: in_cells_def)
    show "d_values ?s k = Some w \<and> \<not> in_cells ?s k" if k: "d_values s k = Some w" for k w
    proof -
      have "k < d_fresh s" using fresh [of k] k by simp
      then have "k \<noteq> ?r" by simp
      then show ?thesis using k xy f(3) unfolding in_cells_slots [OF f(1,2)] by auto
    qed
    have "\<not> holding (pc_of s i)" using inv i t c unfolding adder_inv_def by (metis holding.simps(5))
    then show "d_cells ?s = None \<and> d_nCells ?s = 2" if "holding (pc_of s i)" using that by blast
  qed (use none in simp)
qed (use inv c counts inv_facts(2) [OF inv t] in \<open>auto simp: adder_inv_def set_chosen_def\<close>)

lemma inv_init:
  assumes inv: "adder_inv s" and t: "t < callers s" and c: "pc_of s t = Initing v u e as" and none: "d_cells s = None"
  shows "adder_inv (go_pc t (InitPublish v) (s\<lparr>d_nCells := 2\<rparr>))" (is "adder_inv ?s")
proof (rule inv_update [OF inv t])
  show "d_threads ?s = (d_threads s)[t := (d_threads s ! t)\<lparr>th_pc := InitPublish v\<rparr>]" by (simp add: go_pc_threads)
  show "cells_ok ?s" using inv_facts(3) [OF inv t] none by (simp add: cells_ok_def)
  have i: "in_cells ?s a = in_cells s a" for a by (rule in_cells_cong) simp_all
  show "pc_ok ?s (pc_of s i)" if "i < callers s" "i \<noteq> t" for i
    by (rule pc_ok_stable [of s]) (use inv that i in \<open>auto simp: adder_inv_def\<close>)
qed (use inv c none inv_facts(2) [OF inv t] in \<open>auto simp: adder_inv_def\<close>)

lemma inv_choose:
  assumes inv: "adder_inv s" and t: "t < callers s" and c: "pc_of s t = Enter v u" and counts: "length counts = length (d_nth s)"
  shows "adder_inv (go_pc t (Head v u False) ((set_chosen t j s)\<lparr>d_nth := counts\<rparr>))" (is "adder_inv ?s")
proof (rule inv_update [OF inv t])
  show "d_threads ?s = (d_threads s)[t := (d_threads s ! t)\<lparr>th_chosen := j, th_pc := Head v u False\<rparr>]"
    using t by (simp add: go_pc_threads set_chosen_def)
  have f: "d_cells ?s = d_cells s" "d_arrays ?s = d_arrays s" "d_nCells ?s = d_nCells s" "d_values ?s = d_values s"
    "d_base ?s = d_base s" "d_done ?s = d_done s" by (simp_all add: set_chosen_def)
  show "cells_ok ?s" using inv_facts(3) [OF inv t] cells_ok_cong [OF f] by simp
  show "pc_ok ?s (pc_of s i)" if "i < callers s" "i \<noteq> t" for i
    using inv that pc_ok_cong [OF f(1-4)] by (simp add: adder_inv_def)
qed (use inv c counts in \<open>auto simp: adder_inv_def set_chosen_def\<close>)

subsection \<open>Every step\<close>

lemma local_step:
  assumes "adder_inv s" "t < callers s" "pc_ok s c" "owed c = owed (pc_of s t)" "own_cell c = None \<or> own_cell c = own_cell (pc_of s t)"
    "holding c \<Longrightarrow> holding (pc_of s t)"
  shows "adder_inv (go_pc t c s)"
proof -
  have "adder_inv (go_pc t c (s\<lparr>d_busy := d_busy s\<rparr>))"
    by (rule inv_local [OF assms(1,2) refl assms(3-5)]) (use assms inv_facts(2) [OF assms(1,2)] in auto)
  then show ?thesis by simp
qed

lemma take_flag:
  assumes "adder_inv s" "t < callers s" "\<not> d_busy s" "pc_ok s c" "owed c = owed (pc_of s t)" "own_cell c = None \<or> own_cell c = own_cell (pc_of s t)"
  shows "adder_inv (go_pc t c (s\<lparr>d_busy := True\<rparr>))"
  by (rule inv_local [OF assms(1,2) refl assms(4-6)]) (use assms(3) in auto)

definition slot_at :: "slot \<Rightarrow> slot \<Rightarrow> int \<Rightarrow> slot" where "slot_at x y i = (if i = 0 then x else y)"

lemma read_slot_at:
  assumes "d_arrays s = [p \<mapsto> [x, y]]" "slot_ok s x" "slot_ok s y" "i = 0 \<or> i = 1"
  shows "read_slot p i s = Inr (case slot_at x y i of Cell a \<Rightarrow> Some a | _ \<Rightarrow> None)"
  using assms by (auto simp: read_slot_def deref_def at_vec_def slot_at_def slot_ok_def split: slot.splits)

lemma read_slot_cells:
  assumes c: "cells_ok s" "d_cells s = Some p"
  shows "read_slot p (i AND 1) s = Inr None \<or> (\<exists>a. read_slot p (i AND 1) s = Inr (Some a) \<and> in_cells s a)"
proof -
  from slots [OF c] obtain x y where xy: "d_arrays s = [p \<mapsto> [x, y]]" "slot_ok s x" "slot_ok s y" by metis
  show ?thesis unfolding read_slot_at [OF xy and_one_cases] in_cells_slots [OF c(2) xy(1)]
    by (auto simp: slot_at_def split: slot.splits)
qed

lemma in_cells_value:
  assumes "cells_ok s" "in_cells s a"
  shows "\<exists>v. d_values s a = Some v"
proof -
  obtain p where p: "d_cells s = Some p" using assms(2) by (auto simp: in_cells_def)
  from slots [OF assms(1) p] obtain x y where xy: "d_arrays s = [p \<mapsto> [x, y]]" "slot_ok s x" "slot_ok s y" by metis
  then show ?thesis using assms(2) in_cells_slots [OF p xy(1)] by (auto simp: slot_ok_def)
qed

lemma chooseCell_ok:
  assumes c: "cells_ok s" "d_cells s \<noteq> None" and n: "2 \<le> length (d_nth s)" and t: "t < callers s"
  shows "\<exists>i counts. chooseCell t s = Inr ((set_chosen t i s)\<lparr>d_nth := counts\<rparr>) \<and> length counts = length (d_nth s)"
proof -
  obtain p where p: "d_cells s = Some p" using c(2) by blast
  from slots [OF c(1) p] obtain x y where xy: "d_arrays s = [p \<mapsto> [x, y]]" "slot_ok s x" "slot_ok s y" and two: "d_nCells s = 2" by metis
  have read: "\<exists>b. at_vec (d_nth s) i = Inr b" if "i = 0 \<or> i = 1" for i using that n by (auto simp: at_vec_def)
  have one: "\<exists>i. choose_cell_loop p is k s = Inr i" if "set is \<subseteq> {0, 1}" for "is" k
    using that
  proof (induction "is" arbitrary: k)
    case (Cons i "is")
    obtain b b' where "at_vec (d_nth s) i = Inr b" "at_vec (d_nth s) (k AND 1) = Inr b'"
      using read [of i] read [OF and_one_cases [of k]] Cons(2) by auto
    moreover obtain z where "read_slot p i s = Inr z" using read_slot_at [OF xy, of i] Cons(2) by auto
    ultimately show ?case using Cons two by (simp del: rbind_Inr_iff at_vec_Inr set_vec_Inr)
  qed simp
  have "set [0..1 :: int] \<subseteq> {0, 1}" by auto
  then obtain i where i: "choose_cell_loop p [0..1] (chosen t s) s = Inr i" using one by blast
  obtain b where b: "at_vec (d_nth s) (i AND 1) = Inr b" using read [OF and_one_cases [of i]] by blast
  then obtain counts where "set_vec (d_nth s) (i AND 1) (b + 1) = Inr counts" "length counts = length (d_nth s)"
    by (auto simp: at_vec_def set_vec_def split: if_splits)
  then have "chooseCell t s = Inr ((set_chosen t i s)\<lparr>d_nth := counts\<rparr>)"
    using i b p two by (simp add: chooseCell_def set_chosen_def Let_def del: rbind_Inr_iff at_vec_Inr set_vec_Inr)
  then show ?thesis using \<open>length counts = _\<close> by blast
qed

lemma cas_cell_at:
  assumes "d_values s a = Some y"
  shows "cas_cell ok v a x s = Inr (if ok \<and> y = x then (True, s\<lparr>d_values := (d_values s)(a \<mapsto> y + v)\<rparr>) else (False, s))"
  using assms by (simp add: cas_cell_def deref_def)

lemma add_step_ok:
  assumes inv: "adder_inv s" and t: "t < callers s"
  shows "\<exists>s'. add_step Null ok t (pc_of s t) s = Inr s' \<and> (d_extensions s' = d_extensions s \<longrightarrow> adder_inv s')"
proof -
  note pc = inv_facts(1) [OF inv t] and cells = inv_facts(3) [OF inv t] and loc = local_step [OF inv t] and flag = take_flag [OF inv t]
  have two: "d_cells s = Some p \<Longrightarrow> d_nCells s = 2" for p using cells by (auto simp: cells_ok_def)
  have cas: "\<exists>x. d_values s a = Some x" if "in_cells s a" for a by (rule in_cells_value [OF cells that])
  show ?thesis
  proof (cases "pc_of s t")
    case Idle then show ?thesis using inv by simp
  next
    case (TestCells v) then show ?thesis by (auto intro!: loc)
  next
    case (LoadBase v) then show ?thesis by (auto intro!: loc)
  next
    case (CasBase v b) then show ?thesis using inv_base [OF inv t, of v] by (auto intro!: loc)
  next
    case (TestNull v) then show ?thesis by (auto intro!: loc)
  next
    case (LoadN v) then show ?thesis using pc two by (auto intro!: loc simp: Let_def)
  next
    case (LoadArr v m) then show ?thesis using pc by (auto intro!: loc)
  next
    case (LoadSlot v m p)
    then show ?thesis using pc read_slot_cells [OF cells, of p "chosen t s"] by (auto intro!: loc)
  next
    case (LoadCell v a) then show ?thesis using pc cas [of a] by (auto intro!: loc simp: deref_def)
  next
    case (CasCell v a x)
    then obtain y where y: "d_values s a = Some y" "in_cells s a" using pc cas [of a] by auto
    show ?thesis
    proof (cases "ok \<and> y = x")
      case True
      then show ?thesis using CasCell y inv_cell [OF inv t _ _ y(2,1), of v] by (simp add: cas_cell_at)
    next
      case False
      then have "add_step Null ok t (pc_of s t) s = Inr (go_pc t (Enter v False) s)"
        using CasCell y cas_cell_at [OF y(1), of ok v x] by auto
      moreover have "adder_inv (go_pc t (Enter v False) s)" by (rule loc) (use CasCell pc in simp_all)
      ultimately show ?thesis by blast
    qed
  next
    case (Enter v u)
    show ?thesis
    proof (cases "d_cells s \<noteq> None \<and> chosen t s = - 1")
      case True
      then show ?thesis using Enter chooseCell_ok [OF cells _ inv_facts(4) [OF inv t] t] inv_choose [OF inv t Enter] by auto
    next
      case False
      then show ?thesis using Enter by (auto intro!: loc)
    qed
  next
    case (Head v u e) then show ?thesis by (auto intro!: loc split: option.splits)
  next
    case (HeadN v u e p) then show ?thesis using pc two by (auto intro!: loc simp: Let_def)
  next
    case (ReadSlot v u e p n)
    then show ?thesis using pc read_slot_cells [OF cells, of p "chosen t s"] by (auto intro!: loc)
  next
    case (NullSlot v u e)
    then show ?thesis using inv_new_cell [OF inv t NullSlot] by (auto intro!: loc simp: Let_def)
  next
    case (NewCell v u e r) then show ?thesis using pc by (auto intro!: loc flag)
  next
    case (Found v u e p n a) then show ?thesis using pc by (auto intro!: loc)
  next
    case (LoopLoad v e p n a) then show ?thesis using pc cas [of a] by (auto intro!: loc simp: deref_def)
  next
    case (LoopCas v e p n a x)
    then obtain y where y: "d_values s a = Some y" "in_cells s a" using pc cas [of a] by auto
    show ?thesis
    proof (cases "ok \<and> y = x")
      case True
      then show ?thesis using LoopCas y inv_cell [OF inv t _ _ y(2,1), of v] by (simp add: cas_cell_at)
    next
      case False
      then have "add_step Null ok t (pc_of s t) s = Inr (go_pc t (LoopFail v e p n) s)"
        using LoopCas y cas_cell_at [OF y(1), of ok v x] by auto
      moreover have "adder_inv (go_pc t (LoopFail v e p n) s)" by (rule loc) (use LoopCas pc in simp_all)
      ultimately show ?thesis by blast
    qed
  next
    case (LoopFail v e p n) then show ?thesis using pc by (auto intro!: loc flag)
  next
    case (GrowN v n) then show ?thesis using pc by simp
  next
    case (InitTest v u e as) then show ?thesis using pc by (auto intro!: loc flag)
  next
    case (Initing v u e as) then show ?thesis using pc inv_init [OF inv t Initing] by (auto intro!: loc)
  next
    case (MetaLoad v u e) then show ?thesis by (auto intro!: loc)
  next
    case (MetaCas v u e b) then show ?thesis using inv_base [OF inv t, of v] by (auto intro!: loc)
  next
    case (Releasing k)
    have "adder_inv (go_pc t (case k of None \<Rightarrow> Idle | Some (v, u, e) \<Rightarrow> Head v u e) (s\<lparr>d_busy := False\<rparr>))"
      by (rule inv_local [OF inv t refl]) (use Releasing in \<open>auto split: option.splits\<close>)
    then show ?thesis using Releasing by simp
  next
    case (Filling v u e r)
    show ?thesis
    proof (cases "d_cells s")
      case None
      then show ?thesis using Filling by (auto intro!: loc simp: fill_slot_def)
    next
      case (Some p)
      from slots [OF cells Some] obtain x y where xy: "d_arrays s = [p \<mapsto> [x, y]]" "slot_ok s x" "slot_ok s y" by metis
      let ?j = "chosen t s AND 1"
      note read = read_slot_at [OF xy and_one_cases [of "chosen t s"]]
      show ?thesis
      proof (cases "slot_at x y ?j = Null")
        case True
        let ?x = "if ?j = 0 then Cell r else x" and ?y = "if ?j = 0 then y else Cell r"
        have "set_vec [x, y] ?j (Cell r) = Inr [?x, ?y]"
          using and_one_cases [of "chosen t s"] by (auto simp: set_vec_def)
        then have "fill_slot t r s = Inr (True, s\<lparr>d_arrays := (d_arrays s)(p \<mapsto> [?x, ?y])\<rparr>)"
          using Some two [OF Some] read True xy(1)
          by (simp add: fill_slot_def Let_def deref_def del: rbind_Inr_iff set_vec_Inr)
        moreover have "adder_inv (go_pc t (Releasing None) (effect v (s\<lparr>d_arrays := (d_arrays s)(p \<mapsto> [?x, ?y])\<rparr>)))"
          by (rule inv_fill [OF inv t Filling Some xy(1)]) (use True in \<open>auto simp: slot_at_def\<close>)
        ultimately show ?thesis using Filling by simp
      next
        case False
        moreover have "slot_at x y ?j \<noteq> Junk" using xy by (auto simp: slot_at_def slot_ok_def)
        ultimately have "fill_slot t r s = Inr (False, s)"
          using Some two [OF Some] read by (cases "slot_at x y ?j") (simp_all add: fill_slot_def Let_def)
        then show ?thesis using Filling by (auto intro!: loc)
      qed
    qed
  next
    case (Extending v p n)
    then obtain x y where "d_arrays s = [p \<mapsto> [x, y]]" "d_cells s = Some p" "n = 2"
      using pc slots [OF cells, of p] by (metis pc_ok.simps(14))
    then show ?thesis using Extending by (simp add: extend_cells_def deref_def Let_def)
  next
    case (InitPublish v)
    then have n: "d_cells s = None" "d_nCells s = 2" using pc by simp_all
    let ?j = "chosen t s AND 1" and ?r = "Suc (d_fresh s)"
    let ?x = "if ?j = 0 then Cell ?r else Null" and ?y = "if ?j = 0 then Null else Cell ?r"
    have j: "?j = 0 \<or> ?j = 1" by (rule and_one_cases)
    then have s: "set_vec (replicate 2 Null) ?j (Cell ?r) = Inr [?x, ?y]"
      by (auto simp: set_vec_def numeral_2_eq_2)
    have "2 \<le> length (d_nth s)" by (rule inv_facts(4) [OF inv t])
    then obtain k where k: "at_vec (d_nth s) ?j = Inr k" using j by (auto simp: at_vec_def)
    then obtain counts where c: "set_vec (d_nth s) ?j (k + 1) = Inr counts" "length counts = length (d_nth s)"
      by (auto simp: at_vec_def set_vec_def split: if_splits)
    let ?s = "(set_chosen t ?j s)\<lparr>d_values := (d_values s)(?r \<mapsto> v), d_nth := counts,
      d_arrays := (d_arrays s)(d_fresh s \<mapsto> [?x, ?y]), d_cells := Some (d_fresh s), d_fresh := Suc ?r\<rparr>"
    have "publish_cells Null t v s = Inr ?s"
      using s k c n by (simp add: publish_cells_def Let_def del: rbind_Inr_iff at_vec_Inr set_vec_Inr)
    moreover have "adder_inv (go_pc t (Releasing None) (effect v ?s))"
      by (rule inv_publish [OF inv t InitPublish c(2)]) auto
    ultimately show ?thesis using InitPublish by (simp del: rbind_Inr_iff)
  qed
qed

text \<open>Runs.\<close>

lemma inv_elsewhere:
  assumes inv: "adder_inv s" and t: "t < callers s" "pc_of s t = Idle"
  shows "adder_inv (set_chosen t i s)"
proof (rule inv_update [OF inv t(1)])
  let ?th = "(d_threads s ! t)\<lparr>th_chosen := i\<rparr>"
  show "d_threads (set_chosen t i s) = (d_threads s)[t := ?th]" by (simp add: set_chosen_def)
  have f: "d_cells (set_chosen t i s) = d_cells s" "d_arrays (set_chosen t i s) = d_arrays s"
    "d_nCells (set_chosen t i s) = d_nCells s" "d_values (set_chosen t i s) = d_values s"
    "d_base (set_chosen t i s) = d_base s" "d_done (set_chosen t i s) = d_done s"
    by (simp_all add: set_chosen_def)
  show "cells_ok (set_chosen t i s)" using inv_facts(3) [OF inv t(1)] cells_ok_cong [OF f] by simp
  show "pc_ok (set_chosen t i s) (pc_of s j)" if "j < callers s" "j \<noteq> t" for j
    using inv that pc_ok_cong [OF f(1-4)] by (simp add: adder_inv_def)
qed (use inv t in \<open>auto simp: adder_inv_def set_chosen_def\<close>)

lemma add_action_ok:
  assumes inv: "adder_inv s"
  shows "\<exists>s'. add_action Null a s = Inr s' \<and> (d_extensions s' = d_extensions s \<longrightarrow> adder_inv s')"
proof (cases a)
  case (Step ok t)
  then show ?thesis using add_step_ok [OF inv, of t ok] inv by (cases "t < callers s") simp_all
next
  case (Elsewhere t i)
  then show ?thesis using inv_elsewhere [OF inv, of t i] inv by simp
next
  case (Begin t v)
  show ?thesis
  proof (cases "t < callers s \<and> pc_of s t = Idle")
    case True
    let ?s = "s\<lparr>d_begun := d_begun s @ [v]\<rparr>" and ?th = "(d_threads s ! t)\<lparr>th_pc := TestCells v\<rparr>"
    have f: "d_cells ?s = d_cells s" "d_arrays ?s = d_arrays s" "d_nCells ?s = d_nCells s" "d_values ?s = d_values s" by simp_all
    have "(\<Sum>th\<leftarrow>(d_threads s)[t := ?th]. owed (th_pc th)) = (\<Sum>th\<leftarrow>d_threads s. owed (th_pc th)) + {#v#}"
      using sum_list_at [of t "d_threads s" "\<lambda>th. owed (th_pc th)" ?th] True by simp
    moreover have "cells_ok (go_pc t (TestCells v) ?s) = cells_ok s" by (rule cells_ok_cong) simp_all
    moreover have "pc_ok (go_pc t (TestCells v) ?s) c = pc_ok s c" for c by (rule pc_ok_cong) simp_all
    moreover have "pc_of (go_pc t (TestCells v) ?s) i = (if i = t then TestCells v else pc_of s i)" if "i < callers s" for i
      using that by (simp add: go_pc_threads)
    moreover have "callers (go_pc t (TestCells v) ?s) = callers s" by (simp add: go_pc_threads)
    ultimately have "adder_inv (go_pc t (TestCells v) ?s)"
      using inv True unfolding adder_inv_def by (auto simp: go_pc_threads)
    then show ?thesis using Begin True by simp
  next
    case False
    then show ?thesis using Begin inv by auto
  qed
qed

lemma set_chosen_fields [simp]:
  "d_cells (set_chosen t i s) = d_cells s" "d_arrays (set_chosen t i s) = d_arrays s" "d_nCells (set_chosen t i s) = d_nCells s"
  "d_values (set_chosen t i s) = d_values s" "d_base (set_chosen t i s) = d_base s" "d_done (set_chosen t i s) = d_done s"
  "d_extensions (set_chosen t i s) = d_extensions s" "d_begun (set_chosen t i s) = d_begun s"
  "d_nth (set_chosen t i s) = d_nth s" "d_busy (set_chosen t i s) = d_busy s" "d_fresh (set_chosen t i s) = d_fresh s"
  by (simp_all add: set_chosen_def)

lemma chooseCell_extensions: "chooseCell t s = Inr s' \<Longrightarrow> d_extensions s' = d_extensions s"
  by (auto simp: chooseCell_def set_chosen_def Let_def split: if_splits)

lemma add_step_extensions: "add_step fill ok t c s = Inr s' \<Longrightarrow> d_extensions s \<le> d_extensions s'"
  by (cases c)
    (auto simp: Let_def cas_cell_def fill_slot_def extend_cells_def publish_cells_def set_chosen_def
      split: if_splits option.splits dest: chooseCell_extensions)

lemma add_action_extensions: "add_action fill a s = Inr s' \<Longrightarrow> d_extensions s \<le> d_extensions s'"
  by (cases a) (auto split: if_splits dest: add_step_extensions)

lemma add_run_extensions: "add_run fill as s = Inr s' \<Longrightarrow> d_extensions s \<le> d_extensions s'"
proof (induction "as" arbitrary: s)
  case (Cons a "as")
  then obtain s1 where "add_action fill a s = Inr s1" "add_run fill as s1 = Inr s'" by auto
  then show ?case using add_action_extensions Cons(1) le_trans by blast
qed simp

lemma add_run_inv:
  assumes "adder_inv s" "add_run Null as s = Inr s'" "d_extensions s' = d_extensions s"
  shows "adder_inv s'"
  using assms
proof (induction "as" arbitrary: s)
  case (Cons a "as")
  then obtain s1 where s1: "add_action Null a s = Inr s1" "add_run Null as s1 = Inr s'" by auto
  then have e: "d_extensions s1 = d_extensions s"
    using add_action_extensions [OF s1(1)] add_run_extensions [OF s1(2)] Cons(4) by simp
  then have "adder_inv s1" using add_action_ok [OF Cons(2), of a] s1(1) by auto
  then show ?case using Cons(1) s1(2) Cons(4) e by simp
qed simp

lemma or_shr_ge: "0 \<le> k \<Longrightarrow> k \<le> k OR shr k i \<and> 0 \<le> k OR shr k i"
  by (auto simp: shr_def intro: or_greater_eq)

lemma round_cpus_ge: "1 \<le> n \<Longrightarrow> n \<le> round_cpus n"
proof -
  assume n: "1 \<le> n"
  define n0 where "n0 = n - 1"
  define n1 where "n1 = n0 OR shr n0 1"
  define n2 where "n2 = n1 OR shr n1 2"
  define n3 where "n3 = n2 OR shr n2 4"
  define n4 where "n4 = n3 OR shr n3 8"
  have "0 \<le> n0" "n0 \<le> n1 \<and> 0 \<le> n1" using n or_shr_ge unfolding n1_def n0_def by auto
  moreover from this have "n1 \<le> n2 \<and> 0 \<le> n2" using or_shr_ge unfolding n2_def by blast
  moreover from this have "n2 \<le> n3 \<and> 0 \<le> n3" using or_shr_ge unfolding n3_def by blast
  moreover from this have "n3 \<le> n4 \<and> 0 \<le> n4" using or_shr_ge unfolding n4_def by blast
  moreover from this have "n4 \<le> n4 OR shr n4 16" using or_shr_ge by blast
  moreover have "round_cpus n = (n4 OR shr n4 16) + 1"
    unfolding round_cpus_def Let_def n4_def n3_def n2_def n1_def n0_def ..
  ultimately show ?thesis unfolding n0_def by linarith
qed

text \<open>The static of \<^verbatim>\<open>processNum\<close> starts with the number of processors, so that number is never rounded.\<close>

lemma processNum_not_rounded: "0 < sysconf \<Longrightarrow> processNum sysconf sysconf = Inr (sysconf, sysconf)"
  by (simp add: processNum_def)

lemma sum_list_none: "(\<And>x. x \<in> set xs \<Longrightarrow> f x = {#}) \<Longrightarrow> (\<Sum>x\<leftarrow>xs. f x) = {#}"
  by (induction xs) auto

lemma adder_inv_new:
  assumes "MetaConcurrent ncpus indices = Inr s" "2 \<le> ncpus"
  shows "adder_inv (s :: 'v::comm_monoid_add adder)"
proof -
  have "(\<Sum>i\<leftarrow>indices. {#}) = ({#} :: 'v multiset)" by (rule sum_list_none) simp
  then show ?thesis using assms round_cpus_ge [of ncpus]
    by (auto simp: MetaConcurrent_def adder_inv_def cells_ok_def comp_def)
qed

lemma sum_idle:
  assumes inv: "adder_inv s" and idle: "\<forall>i < callers s. pc_of s i = Idle"
  shows "mset (d_done s) = mset (d_begun s) \<and> adder_sum s = Inr (sum_list (d_begun s))"
proof -
  have "(\<Sum>th\<leftarrow>d_threads s. owed (th_pc th)) = {#}"
    using idle by (intro sum_list_none) (auto simp: in_set_conv_nth)
  then have m: "mset (d_done s) = mset (d_begun s)" using inv by (simp add: adder_inv_def)
  then have eq: "sum_list (d_done s) = sum_list (d_begun s)" by (metis sum_mset_sum_list)
  have c: "cells_ok s" using inv by (simp add: adder_inv_def)
  show ?thesis
  proof (cases "d_cells s")
    case None
    then show ?thesis using c m eq by (simp add: cells_ok_def adder_sum_def)
  next
    case (Some p)
    from slots [OF c Some] obtain x y where xy: "d_arrays s = [p \<mapsto> [x, y]]" "slot_ok s x" "slot_ok s y" and n: "d_nCells s = 2"
      and sum: "d_base s + (slot_value s x + slot_value s y) = sum_list (d_done s)" by metis
    have two: "[0..1 :: int] = [0, 1]" by (simp add: upto.simps)
    have step: "sum_loop p (i # is) acc s = sum_loop p is (acc + slot_value s (slot_at x y i)) s" if "i = 0 \<or> i = 1" for i "is" acc
      using read_slot_at [OF xy that] xy that
      by (auto simp: slot_value_def slot_at_def slot_ok_def deref_def split: slot.splits option.splits)
    have "adder_sum s = Inr (d_base s + slot_value s x + slot_value s y)"
      using Some n two by (simp add: adder_sum_def step slot_at_def del: sum_loop.simps(2))
    then show ?thesis using m eq sum by (simp add: add.assoc)
  qed
qed

subsection \<open>The promises\<close>

text \<open>A state on arrays that are not cleared, and the state on cleared arrays it stands for.\<close>

definition zero_slot :: "slot \<Rightarrow> slot" where "zero_slot x = (if x = Junk then Null else x)"

definition zeroed :: "'v adder \<Rightarrow> 'v adder" where
  "zeroed s = s\<lparr>d_arrays := (\<lambda>p. map_option (map zero_slot) (d_arrays s p))\<rparr>"

lemma zero_slot_simps [simp]: "zero_slot Junk = Null" "zero_slot Null = Null" "zero_slot (Cell a) = Cell a"
  by (simp_all add: zero_slot_def)

lemma zeroed_fields [simp]:
  "d_cells (zeroed s) = d_cells s" "d_nCells (zeroed s) = d_nCells s" "d_values (zeroed s) = d_values s"
  "d_base (zeroed s) = d_base s" "d_done (zeroed s) = d_done s" "d_busy (zeroed s) = d_busy s" "d_nth (zeroed s) = d_nth s"
  "d_fresh (zeroed s) = d_fresh s" "d_begun (zeroed s) = d_begun s" "d_extensions (zeroed s) = d_extensions s"
  "d_ncpus (zeroed s) = d_ncpus s" "d_threads (zeroed s) = d_threads s" "chosen t (zeroed s) = chosen t s"
  by (simp_all add: zeroed_def chosen_def)

lemma zeroed_updates:
  "zeroed (go_pc t c s) = go_pc t c (zeroed s)" "zeroed (effect v s) = effect v (zeroed s)"
  "zeroed (set_chosen t i s) = set_chosen t i (zeroed s)" "zeroed (s\<lparr>d_busy := b\<rparr>) = (zeroed s)\<lparr>d_busy := b\<rparr>"
  "zeroed (s\<lparr>d_base := v\<rparr>) = (zeroed s)\<lparr>d_base := v\<rparr>" "zeroed (s\<lparr>d_values := vs\<rparr>) = (zeroed s)\<lparr>d_values := vs\<rparr>"
  "zeroed (s\<lparr>d_nCells := n\<rparr>) = (zeroed s)\<lparr>d_nCells := n\<rparr>" "zeroed (s\<lparr>d_nth := k\<rparr>) = (zeroed s)\<lparr>d_nth := k\<rparr>"
  "zeroed (s\<lparr>d_fresh := r\<rparr>) = (zeroed s)\<lparr>d_fresh := r\<rparr>" "zeroed (s\<lparr>d_begun := l\<rparr>) = (zeroed s)\<lparr>d_begun := l\<rparr>"
  by (simp_all add: zeroed_def go_pc_def effect_def set_chosen_def)

lemma zeroed_read: "read_slot p i s = Inr a \<Longrightarrow> read_slot p i (zeroed s) = Inr a"
proof -
  assume "read_slot p i s = Inr a"
  then obtain xs x where "d_arrays s p = Some xs" "at_vec xs i = Inr x" "slot_cell x = Inr a"
    by (auto simp: read_slot_def deref_def split: option.splits)
  moreover from this have "x \<noteq> Junk" by auto
  ultimately show ?thesis
    by (simp add: read_slot_def zeroed_def deref_def at_vec_def zero_slot_def split: if_splits)
qed

lemma zeroed_choose_loop: "choose_cell_loop p is c s = Inr r \<Longrightarrow> choose_cell_loop p is c (zeroed s) = Inr r"
  by (induction p "is" c s rule: choose_cell_loop.induct) (auto simp: zeroed_read split: if_splits)

lemma zeroed_chooseCell: "chooseCell t s = Inr s' \<Longrightarrow> chooseCell t (zeroed s) = Inr (zeroed s')"
  by (auto simp: chooseCell_def Let_def zeroed_choose_loop zeroed_updates split: if_splits option.splits)

lemma zeroed_cas: "cas_cell ok v a x s = Inr (b, s') \<Longrightarrow> cas_cell ok v a x (zeroed s) = Inr (b, zeroed s')"
  by (auto simp: cas_cell_def zeroed_updates split: if_splits)

lemma zeroed_array: "zeroed (s\<lparr>d_arrays := (d_arrays s)(p \<mapsto> ys)\<rparr>) =
    (zeroed s)\<lparr>d_arrays := (d_arrays (zeroed s))(p \<mapsto> map zero_slot ys)\<rparr>"
  by (auto simp: zeroed_def fun_eq_iff)

lemma zeroed_set_vec: "set_vec xs i y = Inr ys \<Longrightarrow> set_vec (map zero_slot xs) i (zero_slot y) = Inr (map zero_slot ys)"
  by (auto simp: set_vec_def map_update split: if_splits)

lemma zeroed_fill_slot: "fill_slot t r s = Inr (b, s') \<Longrightarrow> fill_slot t r (zeroed s) = Inr (b, zeroed s')"
proof -
  assume f: "fill_slot t r s = Inr (b, s')"
  show ?thesis
  proof (cases "d_cells s = None \<or> d_nCells s \<le> 0")
    case True
    then show ?thesis using f by (auto simp: fill_slot_def split: option.splits)
  next
    case False
    then obtain p where p: "d_cells s = Some p" "0 < d_nCells s" by auto
    let ?j = "chosen t s AND (d_nCells s - 1)"
    obtain a where a: "read_slot p ?j s = Inr a" using f p by (auto simp: fill_slot_def Let_def)
    show ?thesis
    proof (cases a)
      case None
      then obtain xs ys where xs: "d_arrays s p = Some xs" "set_vec xs ?j (Cell r) = Inr ys" "b"
        "s' = s\<lparr>d_arrays := (d_arrays s)(p \<mapsto> ys)\<rparr>"
        using f p a by (auto simp: fill_slot_def Let_def deref_def split: option.splits)
      have "set_vec (map zero_slot xs) ?j (Cell r) = Inr (map zero_slot ys)" using zeroed_set_vec [OF xs(2)] by simp
      moreover have "d_arrays (zeroed s) p = Some (map zero_slot xs)" using xs(1) by (simp add: zeroed_def)
      ultimately show ?thesis using p zeroed_read [OF a] None xs(3)
        by (simp add: fill_slot_def Let_def deref_def xs(4) zeroed_array del: rbind_Inr_iff set_vec_Inr)
    next
      case (Some c)
      then show ?thesis using f p zeroed_read [OF a] a by (simp add: fill_slot_def Let_def del: rbind_Inr_iff)
    qed
  qed
qed

lemma zeroed_extend: "extend_cells Junk p n s = Inr s' \<Longrightarrow> extend_cells Null p n (zeroed s) = Inr (zeroed s')"
proof -
  assume e: "extend_cells Junk p n s = Inr s'"
  then obtain xs where xs: "d_arrays s p = Some xs" "n \<le> int (length xs)"
    and s': "s' = s\<lparr>d_arrays := ((d_arrays s)(d_fresh s \<mapsto> take (nat n) xs @ replicate (nat n) Junk))(p := None),
      d_cells := Some (d_fresh s), d_fresh := Suc (d_fresh s), d_extensions := d_extensions s + 1\<rparr>"
    by (auto simp: extend_cells_def deref_def Let_def split: option.splits if_splits)
  have "d_arrays (zeroed s) p = Some (map zero_slot xs)" using xs(1) by (simp add: zeroed_def)
  moreover have "zeroed s' = (zeroed s)\<lparr>d_arrays := ((d_arrays (zeroed s))(d_fresh s \<mapsto>
        take (nat n) (map zero_slot xs) @ replicate (nat n) Null))(p := None),
      d_cells := Some (d_fresh s), d_fresh := Suc (d_fresh s), d_extensions := d_extensions s + 1\<rparr>"
    by (rule adder.equality) (auto simp: s' zeroed_def take_map fun_eq_iff)
  ultimately show ?thesis using xs(2) by (simp add: extend_cells_def deref_def Let_def)
qed

lemma zeroed_publish: "publish_cells Junk t v s = Inr s' \<Longrightarrow> publish_cells Null t v (zeroed s) = Inr (zeroed s')"
proof -
  assume p: "publish_cells Junk t v s = Inr s'"
  let ?j = "chosen t s AND (d_nCells s - 1)" and ?q = "d_fresh s"
  obtain ys k counts where y: "set_vec (replicate 2 Junk) ?j (Cell (Suc ?q)) = Inr ys" "at_vec (d_nth s) ?j = Inr k"
    "set_vec (d_nth s) ?j (k + 1) = Inr counts"
    "s' = (set_chosen t ?j s)\<lparr>d_values := (d_values s)(Suc ?q \<mapsto> v), d_nth := counts, d_arrays := (d_arrays s)(?q \<mapsto> ys),
             d_cells := Some ?q, d_fresh := Suc (Suc ?q)\<rparr>"
    using p unfolding publish_cells_def Let_def rbind_Inr_iff by blast
  have "set_vec (replicate 2 Null) ?j (Cell (Suc ?q)) = Inr (map zero_slot ys)" using zeroed_set_vec [OF y(1)] by simp
  then show ?thesis using y(2,3)
    by (simp add: publish_cells_def Let_def y(4) del: rbind_Inr_iff set_vec_Inr at_vec_Inr)
      (simp add: zeroed_def set_chosen_def fun_eq_iff)
qed

text \<open>A step that does not fail on arrays that are not cleared is a step on cleared ones.\<close>

lemmas zeroed_steps = Let_def zeroed_updates zeroed_read zeroed_chooseCell zeroed_cas zeroed_fill_slot zeroed_extend zeroed_publish

lemma zeroed_step:
  assumes "add_step Junk ok t c s = Inr s'"
  shows "add_step Null ok t c (zeroed s) = Inr (zeroed s')"
proof (cases c)
  case (LoadArr v m)
  then show ?thesis using assms by (cases "d_cells s") (auto simp: zeroed_steps)
next
  case (LoadSlot v m p) then show ?thesis using assms by (clarsimp simp: zeroed_steps split: if_splits)
next
  case (CasCell v a x) then show ?thesis using assms by (clarsimp simp: zeroed_steps) blast
next
  case (Enter v u) then show ?thesis using assms by (clarsimp simp: zeroed_steps split: if_splits)
next
  case (ReadSlot v u e p n) then show ?thesis using assms by (clarsimp simp: zeroed_steps split: if_splits)
next
  case (Filling v u e r) then show ?thesis using assms by (clarsimp simp: zeroed_steps) blast
next
  case (LoopCas v e p n a x) then show ?thesis using assms by (clarsimp simp: zeroed_steps) blast
next
  case (LoopFail v e p n) then show ?thesis using assms by (clarsimp simp: zeroed_updates if_distrib [of zeroed])
next
  case (Extending v p n) then show ?thesis using assms by (clarsimp simp: zeroed_steps split: if_splits)
next
  case (InitTest v u e c0) then show ?thesis using assms by (clarsimp simp: zeroed_steps split: if_splits)
next
  case (InitPublish v) then show ?thesis using assms by (clarsimp simp: zeroed_steps split: if_splits)
qed (use assms in \<open>auto simp: zeroed_steps\<close>)

lemma zeroed_action: "add_action Junk a s = Inr s' \<Longrightarrow> add_action Null a (zeroed s) = Inr (zeroed s')"
  by (cases a) (auto simp: zeroed_step zeroed_updates split: if_splits)

lemma zeroed_run: "add_run Junk as s = Inr s' \<Longrightarrow> add_run Null as (zeroed s) = Inr (zeroed s')"
proof (induction "as" arbitrary: s)
  case (Cons a "as")
  then obtain s1 where "add_action Junk a s = Inr s1" "add_run Junk as s1 = Inr s'" by auto
  then show ?case using Cons(1) zeroed_action [of a s s1] by simp
qed simp

text \<open>Slots that are not set stay so: only a null slot is filled, and there is none.\<close>

definition unset_inv :: "'v adder \<Rightarrow> bool" where
  "unset_inv s \<longleftrightarrow> (\<forall>p xs. d_arrays s p = Some xs \<longrightarrow> Null \<notin> set xs) \<and>
     (\<forall>p. d_cells s = Some p \<longrightarrow> (\<exists>xs. d_arrays s p = Some xs \<and> Junk \<in> set xs))"

lemma unset_cong: "d_arrays s' = d_arrays s \<Longrightarrow> d_cells s' = d_cells s \<Longrightarrow> unset_inv s' = unset_inv s"
  by (simp add: unset_inv_def)

lemma unset_read: "unset_inv s \<Longrightarrow> read_slot p i s \<noteq> Inr None"
proof
  assume u: "unset_inv s" and "read_slot p i s = Inr None"
  then obtain xs where xs: "d_arrays s p = Some xs" "0 \<le> i" "i < int (length xs)" "slot_cell (xs ! nat i) = Inr None"
    by (auto simp: read_slot_def deref_def at_vec_def split: option.splits if_splits)
  then have "xs ! nat i = Null" by (cases "xs ! nat i") auto
  moreover have "nat i < length xs" using xs(2,3) by (simp add: nat_less_iff)
  ultimately show False using u xs(1) nth_mem [of "nat i" xs] unfolding unset_inv_def by metis
qed

lemma set_vec_two: "set_vec (replicate 2 x) j c = Inr ys \<Longrightarrow> ys = [c, x] \<or> ys = [x, c]"
proof -
  assume s: "set_vec (replicate 2 x) j c = Inr ys"
  then have j: "0 \<le> j" "j < 2" "ys = (replicate 2 x)[nat j := c]" by (auto simp: set_vec_def split: if_splits)
  then have "nat j = 0 \<or> nat j = Suc 0" by linarith
  then show ?thesis using j(3) by (auto simp: numeral_2_eq_2)
qed

lemma unset_fill: "unset_inv s \<Longrightarrow> fill_slot t r s = Inr (b, s') \<Longrightarrow> s' = s"
  by (auto simp: fill_slot_def Let_def unset_read split: option.splits if_splits)

lemma unset_publish: "unset_inv s \<Longrightarrow> publish_cells Junk t v s = Inr s' \<Longrightarrow> unset_inv s'"
proof -
  assume u: "unset_inv s" and p: "publish_cells Junk t v s = Inr s'"
  let ?j = "chosen t s AND (d_nCells s - 1)" and ?q = "d_fresh s"
  obtain ys where y: "set_vec (replicate 2 Junk) ?j (Cell (Suc ?q)) = Inr ys" "d_arrays s' = (d_arrays s)(?q \<mapsto> ys)"
    "d_cells s' = Some ?q"
    using p by (auto simp: publish_cells_def Let_def)
  have "ys = [Cell (Suc ?q), Junk] \<or> ys = [Junk, Cell (Suc ?q)]" by (rule set_vec_two [OF y(1)])
  then show ?thesis using u y(2,3) by (auto simp: unset_inv_def split: if_splits)
qed

lemma unset_choose: "chooseCell t s = Inr s' \<Longrightarrow> unset_inv s' = unset_inv s"
  by (rule unset_cong) (auto simp: chooseCell_def Let_def split: if_splits)

lemma unset_cas: "cas_cell ok v a x s = Inr (b, s') \<Longrightarrow> unset_inv s' = unset_inv s"
  by (rule unset_cong) (auto simp: cas_cell_def split: if_splits)

lemma unset_go [simp]: "unset_inv (go_pc t c s) = unset_inv s" "unset_inv (effect v s) = unset_inv s"
  "unset_inv (set_chosen t i s) = unset_inv s"
  by (rule unset_cong; simp)+

lemma unset_fields [simp]:
  "unset_inv (s\<lparr>d_busy := b\<rparr>) = unset_inv s" "unset_inv (s\<lparr>d_base := v\<rparr>) = unset_inv s"
  "unset_inv (s\<lparr>d_values := vs\<rparr>) = unset_inv s" "unset_inv (s\<lparr>d_fresh := r\<rparr>) = unset_inv s"
  "unset_inv (s\<lparr>d_nCells := n\<rparr>) = unset_inv s" "unset_inv (s\<lparr>d_begun := l\<rparr>) = unset_inv s"
  by (rule unset_cong; simp)+

lemma unset_step:
  assumes "add_step Junk ok t c s = Inr s'" "unset_inv s" "d_extensions s' = d_extensions s"
  shows "unset_inv s'"
proof (cases c)
  case (LoadArr v m)
  then show ?thesis using assms by (auto split: option.splits)
next
  case (Extending v p n)
  then show ?thesis using assms by (auto simp: extend_cells_def Let_def split: if_splits)
next
  case (Enter v u)
  then show ?thesis using assms by (auto simp: unset_choose split: if_splits)
next
  case (Filling v u e r)
  then obtain b s1 where f: "fill_slot t r s = Inr (b, s1)"
    "s' = (if b then go_pc t (Releasing None) (effect v s1) else go_pc t (Releasing (Some (v, u, e))) s1)"
    using assms(1) by auto
  then show ?thesis using assms(2) unset_fill [OF assms(2) f(1)] by simp
qed (use assms in \<open>auto simp: Let_def unset_cas unset_publish\<close>)

lemma unset_run:
  assumes "unset_inv s" "add_run Junk as s = Inr s'" "d_extensions s' = d_extensions s"
  shows "unset_inv s'"
  using assms
proof (induction "as" arbitrary: s)
  case (Cons a "as")
  then obtain s1 where s1: "add_action Junk a s = Inr s1" "add_run Junk as s1 = Inr s'" by auto
  then have e: "d_extensions s1 = d_extensions s"
    using add_action_extensions [OF s1(1)] add_run_extensions [OF s1(2)] Cons(4) by simp
  have "unset_inv s1" using s1(1) Cons(2) unset_step [of _ _ _ s s1] e by (cases a) (auto split: if_splits)
  then show ?case using Cons(1) s1(2) Cons(4) e by simp
qed simp

text \<open>Without an array nothing depends on what a new one holds.\<close>

lemma step_without_cells:
  assumes inv: "adder_inv s" and t: "t < callers s" and none: "d_cells s = None"
  shows "\<exists>s'. add_step Junk ok t (pc_of s t) s = Inr s'"
proof -
  obtain s1 where s1: "add_step Null ok t (pc_of s t) s = Inr s1" using add_step_ok [OF inv t] by blast
  have pc: "pc_ok s (pc_of s t)" by (rule inv_facts(1) [OF inv t])
  have i: "\<not> in_cells s a" for a using none by (simp add: in_cells_def)
  show ?thesis
  proof (cases "pc_of s t")
    case (InitPublish v)
    then obtain s2 where "publish_cells Null t v s = Inr s2" using s1 by auto
    then have "\<exists>s3. publish_cells Junk t v s = Inr s3"
      by (auto simp: publish_cells_def Let_def set_vec_def split: if_splits)
    then show ?thesis using InitPublish by auto
  qed (use pc none i s1 in \<open>auto simp: fill_slot_def Let_def\<close>)
qed

lemma no_junk_same: "d_cells s = None \<Longrightarrow> cells_ok (zeroed s) \<Longrightarrow> zeroed s = s"
  by (cases s) (auto simp: zeroed_def cells_ok_def fun_eq_iff)

lemma sum_unset:
  assumes u: "unset_inv s" and c: "cells_ok (zeroed s)" and p: "d_cells s = Some p"
  shows "adder_sum s = Inl Uninitialised"
proof -
  have "d_cells (zeroed s) = Some p" using p by simp
  from slots [OF c this] obtain x y where z: "d_arrays (zeroed s) = [p \<mapsto> [x, y]]" "slot_ok (zeroed s) x" "slot_ok (zeroed s) y"
    and "d_nCells (zeroed s) = 2" by metis
  then have two: "d_nCells s = 2" by simp
  obtain xs where xs: "d_arrays s p = Some xs" "Junk \<in> set xs" using u p by (auto simp: unset_inv_def)
  have "map zero_slot xs = [x, y]" using fun_cong [OF z(1), of p] xs(1) by (simp add: zeroed_def)
  then obtain a b where ab: "xs = [a, b]" "x = zero_slot a" "y = zero_slot b" by auto
  have at: "read_slot p 0 s = slot_cell a" "read_slot p 1 s = slot_cell b"
    using xs(1) ab(1) by (simp_all add: read_slot_def deref_def at_vec_def)
  have "Null \<notin> set xs" using u xs(1) unfolding unset_inv_def by blast
  then have "Null \<notin> {a, b}" using ab(1) by simp
  moreover have "\<exists>v. d_values s k = Some v" if "a = Cell k" for k using z(2) ab(2) that by (auto simp: slot_ok_def)
  moreover have two': "[0..1 :: int] = [0, 1]" by (simp add: upto.simps)
  ultimately show ?thesis using p two at xs(2) ab(1)
    by (cases a; cases b) (auto simp: adder_sum_def deref_def split: option.splits)
qed


text \<open>A run of four threads on four processors; \<open>turns k t\<close> are \<open>k\<close> steps of thread \<open>t\<close>. Thread 0 meets
  contention and makes the cells, thread 2 fills the other slot.\<close>

abbreviation (input) turns :: "nat \<Rightarrow> nat \<Rightarrow> 64 word action list" where "turns k t \<equiv> replicate k (Step True t)"
abbreviation (input) fails :: "nat \<Rightarrow> 64 word action" where "fails t \<equiv> Step False t"

definition two_cells_run :: "64 word action list" where
  "two_cells_run = Begin 0 1 # turns 2 0 @ fails 0 # turns 7 0 @ Begin 2 100 # turns 6 2 @ fails 2 # turns 8 2"

definition first_cells_run :: "64 word action list" where
  "first_cells_run = Begin 0 1 # turns 2 0 @ fails 0 # turns 7 0"

definition outcome ::
  "slot \<Rightarrow> 64 word action list \<Rightarrow> (nat \<times> bool \<times> 64 word pc list \<times> 64 word list \<times> 64 word list \<times> 64 word res) res" where
  "outcome fill as = rbind (MetaConcurrent 4 (replicate 4 (- 1))) (\<lambda>s0. rbind (add_run fill as s0) (\<lambda>s.
     Inr (d_extensions s, d_cells s \<noteq> None, map th_pc (d_threads s), d_begun s, d_done s, adder_sum s)))"

lemma outcomeE:
  assumes "outcome fill as = Inr (e, c, pcs, begun, finished, r)"
  obtains s0 s where "MetaConcurrent 4 (replicate 4 (- 1)) = Inr s0" "add_run fill as s0 = Inr s" "d_extensions s = e"
    "(d_cells s \<noteq> None) = c" "map th_pc (d_threads s) = pcs" "d_begun s = begun" "d_done s = finished" "adder_sum s = r"
  using assms by (auto simp: outcome_def)

lemma two_cells_outcome: "outcome Null two_cells_run = Inr (0, True, replicate 4 Idle, [1, 100], [1, 100], Inr 101)"
  by code_simp

lemma first_cells_outcome: "outcome Junk first_cells_run = Inr (0, True, replicate 4 Idle, [1], [1], Inl Uninitialised)"
  by code_simp


text \<open>A run with two extensions that overlap.\<close>

definition lost_count_run :: "64 word action list" where
  "lost_count_run = two_cells_run @
     Begin 1 10 # turns 6 1 @ fails 1 # turns 10 1 @ fails 1 # turns 1 1 @
     Begin 0 2 # turns 6 0 @ fails 0 # turns 10 0 @ fails 0 # turns 6 0 @ fails 0 # turns 2 0 @
     turns 2 1 @ turns 2 0 @ turns 3 1 @ turns 6 0 @
     Begin 3 1000 # turns 13 3 @
     fails 1 # turns 10 1"


text \<open>And a thread that read \<^verbatim>\<open>m_cells\<close> before another extends it reads the freed array.\<close>

definition freed_cells_run :: "64 word action list" where
  "freed_cells_run = two_cells_run @
     Begin 1 10 # turns 6 1 @ fails 1 # turns 10 1 @ fails 1 # turns 2 1 @
     Begin 0 2 # turns 6 0 @ fails 0 # turns 10 0 @ fails 0 # turns 6 0 @ fails 0 # turns 2 0 @ turns 2 1"

lemma freed_cells_read: "outcome Null freed_cells_run = Inl NullDeref"
  by code_simp

end
