(* ===== verification/SpinLock.thy ===== *)
theory SpinLock
  imports Prelude
begin

text \<open>
  \<^verbatim>\<open>buffer/LongAddr/SpinLock\<close> and the lock of the same text in \<^verbatim>\<open>timer/delay_queue\<close>: a flag that threads
  take with a compare-and-exchange. A thread calls an operation whose body, a list of steps on the
  data the lock guards, runs between \<open>lock\<close> and \<open>unlock\<close>; \<open>guarded_step\<close> interleaves the threads, with
  a step for every access to the flag and every step of a body. \<open>gd_log\<close> keeps the operations in the
  order in which they took the lock.
\<close>

record spin_lock =
  m_locked_flag :: bool
  m_sleep :: "64 word"

definition SpinLock :: "64 word \<Rightarrow> spin_lock" where
  "SpinLock us = \<lparr>m_locked_flag = False, m_sleep = us\<rparr>"

text \<open>\<^verbatim>\<open>compare_exchange_strong\<close>: the answer, what the expected value becomes, and the flag.\<close>

definition cas_strong :: "bool \<Rightarrow> bool \<Rightarrow> bool \<Rightarrow> bool \<times> bool \<times> bool" where
  "cas_strong exp desired flag = (if flag = exp then (True, exp, desired) else (False, flag, flag))"

datatype backoff = Yield | SleepFor "64 word" | SpinOn

definition acquire_failed :: "64 word \<Rightarrow> backoff" where
  "acquire_failed us = (if us = - 1 then Yield else if us \<noteq> 0 then SleepFor us else SpinOn)"

subsection \<open>Threads that share the lock\<close>

text \<open>A thread that calls \<^verbatim>\<open>lock\<close> keeps its local variable \<^verbatim>\<open>exp\<close> with it, before the exchange, after an
  exchange that failed, and while it backs off.\<close>

datatype ('o, 's) place =
  Outside | AtCas 'o bool | Refused 'o bool | BackingOff 'o bool backoff | InBody 'o "('s \<Rightarrow> 's) list"

record ('o, 's) guarded = spin_lock +
  gd_data :: 's
  gd_places :: "('o, 's) place list"
  gd_log :: "'o list"

definition guarded_init :: "64 word \<Rightarrow> 's \<Rightarrow> nat \<Rightarrow> ('o, 's) guarded" where
  "guarded_init us d n =
     spin_lock.extend (SpinLock us) \<lparr>gd_data = d, gd_places = replicate n Outside, gd_log = []\<rparr>"

definition at_place :: "('o, 's) guarded \<Rightarrow> nat \<Rightarrow> ('o, 's) place \<Rightarrow> bool" where
  "at_place s i p \<longleftrightarrow> i < length (gd_places s) \<and> gd_places s ! i = p"

definition move :: "nat \<Rightarrow> ('o, 's) place \<Rightarrow> ('o, 's) guarded \<Rightarrow> ('o, 's) guarded" where
  "move i p s = s\<lparr>gd_places := (gd_places s)[i := p]\<rparr>"

inductive guarded_step :: "('o \<Rightarrow> ('s \<Rightarrow> 's) list) \<Rightarrow> ('o, 's) guarded \<Rightarrow> ('o, 's) guarded \<Rightarrow> bool" for body where
  call: "at_place s i Outside \<Longrightarrow> guarded_step body s (move i (AtCas f False) s)"
| acquire: "at_place s i (AtCas f e) \<Longrightarrow> cas_strong e True (m_locked_flag s) = (True, e', b) \<Longrightarrow>
    guarded_step body s ((move i (InBody f (body f)) s)\<lparr>m_locked_flag := b, gd_log := gd_log s @ [f]\<rparr>)"
| taken: "at_place s i (AtCas f e) \<Longrightarrow> cas_strong e True (m_locked_flag s) = (False, e', b) \<Longrightarrow>
    guarded_step body s ((move i (Refused f e') s)\<lparr>m_locked_flag := b\<rparr>)"
| reset: "at_place s i (Refused f e) \<Longrightarrow>
    guarded_step body s (move i (BackingOff f False (acquire_failed (m_sleep s))) s)"
| again: "at_place s i (BackingOff f e w) \<Longrightarrow> guarded_step body s (move i (AtCas f e) s)"
| work: "at_place s i (InBody f (g # gs)) \<Longrightarrow>
    guarded_step body s ((move i (InBody f gs) s)\<lparr>gd_data := g (gd_data s)\<rparr>)"
| unlock: "at_place s i (InBody f []) \<Longrightarrow> guarded_step body s ((move i Outside s)\<lparr>m_locked_flag := False\<rparr>)"

inductive guarded_reach :: "('o \<Rightarrow> ('s \<Rightarrow> 's) list) \<Rightarrow> 's \<Rightarrow> ('o, 's) guarded \<Rightarrow> bool" for body d where
  initial: "guarded_reach body d (guarded_init us d n)"
| next_step: "guarded_reach body d s \<Longrightarrow> guarded_step body s s' \<Longrightarrow> guarded_reach body d s'"

text \<open>The whole body of an operation, and operations one after the other.\<close>

definition run_body :: "('s \<Rightarrow> 's) list \<Rightarrow> 's \<Rightarrow> 's" where "run_body gs d = fold (\<lambda>g. g) gs d"

definition serial :: "('o \<Rightarrow> ('s \<Rightarrow> 's) list) \<Rightarrow> 'o list \<Rightarrow> 's \<Rightarrow> 's" where
  "serial body fs d = fold (\<lambda>f. run_body (body f)) fs d"

lemma run_body_simps [simp]: "run_body [] d = d" "run_body (g # gs) d = run_body gs (g d)"
  by (simp_all add: run_body_def)

lemma serial_simps [simp]:
  "serial body [] d = d" "serial body (fs @ [f]) d = run_body (body f) (serial body fs d)"
  by (simp_all add: serial_def)

subsection \<open>Mutual exclusion\<close>

text \<open>The threads in a body: at most one, and there is one exactly when the flag is set. What is left of
  its body completes the operations that have taken the lock, done one after the other.\<close>

definition in_body :: "('o, 's) guarded \<Rightarrow> nat \<Rightarrow> bool" where
  "in_body s i \<longleftrightarrow> (\<exists>f gs. at_place s i (InBody f gs))"

lemma in_bodyI: "at_place s i (InBody f gs) \<Longrightarrow> in_body s i"
  by (auto simp: in_body_def)

definition lock_inv :: "('o \<Rightarrow> ('s \<Rightarrow> 's) list) \<Rightarrow> 's \<Rightarrow> ('o, 's) guarded \<Rightarrow> bool" where
  "lock_inv body d s \<longleftrightarrow> (\<exists>h. m_locked_flag s = (h \<noteq> None) \<and> (\<forall>i. in_body s i \<longleftrightarrow> h = Some i) \<and>
     (case h of None \<Rightarrow> gd_data s = serial body (gd_log s) d
      | Some i \<Rightarrow> \<exists>f gs. at_place s i (InBody f gs) \<and> run_body gs (gd_data s) = serial body (gd_log s) d))"

lemma lock_inv_freeI:
  "\<not> m_locked_flag s \<Longrightarrow> (\<And>i. \<not> in_body s i) \<Longrightarrow> gd_data s = serial body (gd_log s) d \<Longrightarrow> lock_inv body d s"
  by (auto simp: lock_inv_def intro!: exI [of _ None])

lemma lock_inv_heldI:
  "m_locked_flag s \<Longrightarrow> at_place s i (InBody f gs) \<Longrightarrow> (\<And>j. in_body s j \<Longrightarrow> j = i) \<Longrightarrow>
    run_body gs (gd_data s) = serial body (gd_log s) d \<Longrightarrow> lock_inv body d s"
  unfolding lock_inv_def by (rule exI [of _ "Some i"]) (auto intro: in_bodyI)

lemma lock_inv_freeD:
  "lock_inv body d s \<Longrightarrow> \<not> m_locked_flag s \<Longrightarrow> \<not> in_body s i \<and> gd_data s = serial body (gd_log s) d"
  by (auto simp: lock_inv_def)

lemma lock_inv_heldD:
  assumes "lock_inv body d s" "m_locked_flag s"
  obtains i f gs where "at_place s i (InBody f gs)" "\<And>j. in_body s j \<Longrightarrow> j = i"
    "run_body gs (gd_data s) = serial body (gd_log s) d"
  using assms by (auto simp: lock_inv_def)

lemma lock_inv_bodyD:
  assumes "lock_inv body d s" "at_place s i (InBody f gs)"
  shows "m_locked_flag s" "\<And>j. in_body s j \<Longrightarrow> j = i" "run_body gs (gd_data s) = serial body (gd_log s) d"
proof -
  have i: "in_body s i" using assms(2) by (auto simp: in_body_def)
  then show l: "m_locked_flag s" using assms(1) by (auto simp: lock_inv_def)
  show "j = i" if "in_body s j" for j using assms(1) i that by (auto simp: lock_inv_def)
  show "run_body gs (gd_data s) = serial body (gd_log s) d"
    using assms i l by (auto simp: lock_inv_def at_place_def)
qed

lemma at_place_move: "i < length (gd_places s) \<Longrightarrow>
    at_place (move i p s) j q \<longleftrightarrow> (if j = i then q = p else at_place s j q)"
  by (auto simp: at_place_def move_def)

lemma at_place_fields [simp]:
  "at_place (s\<lparr>m_locked_flag := b\<rparr>) = at_place s" "at_place (s\<lparr>gd_data := d\<rparr>) = at_place s"
  "at_place (s\<lparr>gd_log := fs\<rparr>) = at_place s"
  by (auto simp: at_place_def fun_eq_iff)

lemma move_fields [simp]:
  "m_locked_flag (move i p s) = m_locked_flag s" "gd_data (move i p s) = gd_data s" "gd_log (move i p s) = gd_log s"
  by (simp_all add: move_def)

lemma flag_same: "m_locked_flag s \<Longrightarrow> s\<lparr>m_locked_flag := True\<rparr> = s" for s :: "('o, 's) guarded"
  by (cases s) simp

lemma at_place_unique: "at_place s i p \<Longrightarrow> at_place s i q \<Longrightarrow> p = q"
  by (simp add: at_place_def)

lemma at_place_bound: "at_place s i p \<Longrightarrow> i < length (gd_places s)"
  by (simp add: at_place_def)

lemma lock_inv_init: "lock_inv body d (guarded_init us d n)"
  by (auto simp: lock_inv_def guarded_init_def in_body_def at_place_def SpinLock_def spin_lock.defs)

lemma cas_strong_cases:
  "cas_strong False True b = (True, e', b') \<longleftrightarrow> \<not> b \<and> \<not> e' \<and> b'"
  "cas_strong False True b = (False, e', b') \<longleftrightarrow> b \<and> e' \<and> b'"
  by (auto simp: cas_strong_def)

lemma in_body_move: "i < length (gd_places s) \<Longrightarrow>
    in_body (move i p s) j \<longleftrightarrow> (if j = i then (\<exists>f gs. p = InBody f gs) else in_body s j)"
  by (auto simp: in_body_def at_place_move)

lemma in_body_fields [simp]:
  "in_body (s\<lparr>m_locked_flag := b\<rparr>) = in_body s" "in_body (s\<lparr>gd_data := d\<rparr>) = in_body s"
  "in_body (s\<lparr>gd_log := fs\<rparr>) = in_body s"
  by (auto simp: in_body_def fun_eq_iff)

lemma not_in_body: "at_place s i p \<Longrightarrow> \<forall>f gs. p \<noteq> InBody f gs \<Longrightarrow> \<not> in_body s i"
  by (auto simp: in_body_def dest: at_place_unique)

text \<open>A thread compares with \<^verbatim>\<open>false\<close> every time, because the variable is reset after a failure.\<close>

definition compares :: "('o, 's) place \<Rightarrow> bool \<Rightarrow> bool" where
  "compares p e \<longleftrightarrow> (case p of AtCas f x \<Rightarrow> x = e | BackingOff f x w \<Rightarrow> x = e | _ \<Rightarrow> False)"

lemma compares_simps [simp]:
  "compares (AtCas f x) e \<longleftrightarrow> x = e" "compares (BackingOff f x w) e \<longleftrightarrow> x = e" "\<not> compares Outside e"
  "\<not> compares (Refused f x) e" "\<not> compares (InBody f gs) e"
  by (simp_all add: compares_def)

definition exp_inv :: "('o, 's) guarded \<Rightarrow> bool" where
  "exp_inv s \<longleftrightarrow> (\<forall>i p. at_place s i p \<longrightarrow> \<not> compares p True)"

lemma exp_inv_move: "exp_inv s \<Longrightarrow> i < length (gd_places s) \<Longrightarrow> \<not> compares p True \<Longrightarrow> exp_inv (move i p s)"
  by (simp add: exp_inv_def at_place_move)

lemma exp_inv_fields [simp]:
  "exp_inv (s\<lparr>m_locked_flag := b\<rparr>) = exp_inv s" "exp_inv (s\<lparr>gd_data := d\<rparr>) = exp_inv s"
  "exp_inv (s\<lparr>gd_log := fs\<rparr>) = exp_inv s"
  by (simp_all add: exp_inv_def)

lemma exp_invD: "exp_inv s \<Longrightarrow> at_place s i (AtCas f e) \<Longrightarrow> \<not> e"
  "exp_inv s \<Longrightarrow> at_place s i (BackingOff f e w) \<Longrightarrow> \<not> e"
proof -
  have "\<not> e" if "exp_inv s" "at_place s i p" "compares p e" for p
    using that by (cases e) (simp_all add: exp_inv_def)
  then show "exp_inv s \<Longrightarrow> at_place s i (AtCas f e) \<Longrightarrow> \<not> e"
    "exp_inv s \<Longrightarrow> at_place s i (BackingOff f e w) \<Longrightarrow> \<not> e"
    by (metis compares_simps(1), metis compares_simps(2))
qed

lemma exp_inv_step: "guarded_step body s s' \<Longrightarrow> exp_inv s \<Longrightarrow> exp_inv s'"
proof (induction rule: guarded_step.induct)
  case (again s i f e w)
  then show ?case using exp_invD(2) [OF again(2,1)] by (simp add: exp_inv_move at_place_bound)
qed (auto intro!: exp_inv_move dest: at_place_bound)

text \<open>A step of a thread outside the bodies.\<close>

lemma lock_inv_outside:
  assumes inv: "lock_inv body d s" and i: "at_place s i q" "\<forall>f gs. q \<noteq> InBody f gs" "\<forall>f gs. p \<noteq> InBody f gs"
  shows "lock_inv body d (move i p s)"
proof -
  have same: "in_body (move i p s) j \<longleftrightarrow> in_body s j" for j
    using not_in_body [OF i(1,2)] i(3) by (simp add: in_body_move [OF at_place_bound [OF i(1)]])
  show ?thesis
  proof (cases "m_locked_flag s")
    case True
    then obtain k f gs where k: "at_place s k (InBody f gs)" "\<And>j. in_body s j \<Longrightarrow> j = k"
      "run_body gs (gd_data s) = serial body (gd_log s) d"
      using lock_inv_heldD [OF inv] by blast
    then have "k \<noteq> i" using i(1,2) at_place_unique by blast
    then have "at_place (move i p s) k (InBody f gs)" using k(1) at_place_bound [OF i(1)] by (simp add: at_place_move)
    then show ?thesis using True k(2,3) same by (intro lock_inv_heldI [of _ k f gs]) simp_all
  next
    case False
    then show ?thesis using lock_inv_freeD [OF inv] same by (intro lock_inv_freeI) simp_all
  qed
qed

lemma guarded_step_inv: "guarded_step body s s' \<Longrightarrow> exp_inv s \<Longrightarrow> lock_inv body d s \<Longrightarrow> lock_inv body d s'"
proof (induction rule: guarded_step.induct)
  case (acquire s i f e e' b)
  have "\<not> e" by (rule exp_invD(1) [OF acquire(3,1)])
  with acquire have "\<not> m_locked_flag s" "b" by (simp_all add: cas_strong_cases)
  moreover from this have "gd_data s = serial body (gd_log s) d" "\<not> in_body s j" for j
    using lock_inv_freeD [OF acquire(4)] by blast+
  ultimately show ?case using at_place_bound [OF acquire(1)]
    by (intro lock_inv_heldI [of _ i f "body f"]) (auto simp: at_place_move in_body_move split: if_splits)
next
  case (taken s i f e e' b)
  have "\<not> e" by (rule exp_invD(1) [OF taken(3,1)])
  with taken have "m_locked_flag s" "b" by (simp_all add: cas_strong_cases)
  moreover have "lock_inv body d (move i (Refused f e') s)"
    by (rule lock_inv_outside [OF taken(4,1)]) simp_all
  ultimately show ?case by (simp add: flag_same)
next
  case (reset s i f e)
  show ?case by (rule lock_inv_outside [OF reset(3,1)]) simp_all
next
  case (work s i f g gs)
  from lock_inv_bodyD [OF work(3,1)] at_place_bound [OF work(1)] show ?case
    by (intro lock_inv_heldI [of _ i f gs]) (auto simp: at_place_move in_body_move split: if_splits)
next
  case (unlock s i f)
  from lock_inv_bodyD [OF unlock(3,1)] at_place_bound [OF unlock(1)] show ?case
    by (intro lock_inv_freeI) (auto simp: in_body_move)
next
  case (call s i f)
  show ?case by (rule lock_inv_outside [OF call(3,1)]) simp_all
next
  case (again s i f e w)
  show ?case by (rule lock_inv_outside [OF again(3,1)]) simp_all
qed

lemma guarded_reach_exp: "guarded_reach body d s \<Longrightarrow> exp_inv s"
proof (induction rule: guarded_reach.induct)
  case (initial us n)
  then show ?case by (auto simp: exp_inv_def guarded_init_def at_place_def spin_lock.defs)
qed (rule exp_inv_step)

lemma guarded_reach_inv: "guarded_reach body d s \<Longrightarrow> lock_inv body d s"
  by (induction rule: guarded_reach.induct) (auto intro: lock_inv_init guarded_step_inv guarded_reach_exp)

subsection \<open>Every call comes to its end\<close>

lemma reach_run:
  assumes "(guarded_step body)\<^sup>*\<^sup>* s s'" "guarded_reach body d s"
  shows "guarded_reach body d s'"
  using assms by (induction rule: rtranclp_induct) (auto intro: next_step)

text \<open>The steps that are left of a thread's call, when no other thread takes the lock before it.\<close>

lemma body_run:
  "at_place s i (InBody f gs) \<Longrightarrow>
    (guarded_step body)\<^sup>*\<^sup>* s ((move i Outside s)\<lparr>gd_data := run_body gs (gd_data s), m_locked_flag := False\<rparr>)"
proof (induction gs arbitrary: s)
  case Nil
  have "(move i Outside s)\<lparr>gd_data := gd_data s, m_locked_flag := False\<rparr> = (move i Outside s)\<lparr>m_locked_flag := False\<rparr>"
    by (cases s) (simp add: move_def)
  with unlock [OF Nil, of body] have "guarded_step body s ((move i Outside s)\<lparr>gd_data := gd_data s, m_locked_flag := False\<rparr>)"
    by (simp only:)
  then show ?case by (simp only: run_body_simps)
next
  case (Cons g gs)
  let ?s = "(move i (InBody f gs) s)\<lparr>gd_data := g (gd_data s)\<rparr>"
  have "at_place ?s i (InBody f gs)" using Cons(2) by (simp add: at_place_move at_place_bound)
  note run = Cons(1) [OF this]
  have "(move i Outside ?s)\<lparr>gd_data := run_body gs (gd_data ?s), m_locked_flag := False\<rparr> =
      (move i Outside s)\<lparr>gd_data := run_body (g # gs) (gd_data s), m_locked_flag := False\<rparr>"
    by (simp add: move_def)
  then show ?case using converse_rtranclp_into_rtranclp [of "guarded_step body", OF work [OF Cons(2)] run] by simp
qed

lemma enter_run:
  assumes i: "at_place s i (AtCas f False)" and free: "\<not> m_locked_flag s"
  shows "(guarded_step body)\<^sup>*\<^sup>* s ((move i Outside s)\<lparr>gd_data := run_body (body f) (gd_data s),
    m_locked_flag := False, gd_log := gd_log s @ [f]\<rparr>)"
proof -
  let ?s = "(move i (InBody f (body f)) s)\<lparr>m_locked_flag := True, gd_log := gd_log s @ [f]\<rparr>"
  have "guarded_step body s ?s" using acquire [OF i, of False True body] free by (simp add: cas_strong_cases)
  moreover have "at_place ?s i (InBody f (body f))" using i by (simp add: at_place_move at_place_bound)
  note body_run [OF this, of body]
  ultimately have "(guarded_step body)\<^sup>*\<^sup>* s
      ((move i Outside ?s)\<lparr>gd_data := run_body (body f) (gd_data ?s), m_locked_flag := False\<rparr>)"
    by (rule converse_rtranclp_into_rtranclp)
  moreover have "(move i Outside ?s)\<lparr>gd_data := run_body (body f) (gd_data ?s), m_locked_flag := False\<rparr> =
      (move i Outside s)\<lparr>gd_data := run_body (body f) (gd_data s), m_locked_flag := False, gd_log := gd_log s @ [f]\<rparr>"
    by (cases s) (simp add: move_def)
  ultimately show ?thesis by (simp only:)
qed

text \<open>The thread that holds the lock can finish its body; the others stay where they are.\<close>

lemma holder_run:
  assumes inv: "lock_inv body d s"
  shows "\<exists>s'. (guarded_step body)\<^sup>*\<^sup>* s s' \<and> \<not> m_locked_flag s' \<and> gd_log s' = gd_log s \<and>
    (\<forall>i p. at_place s i p \<longrightarrow> at_place s' i (if in_body s i then Outside else p))"
proof (cases "m_locked_flag s")
  case False
  then show ?thesis using lock_inv_freeD [OF inv] by (intro exI [of _ s]) auto
next
  case True
  then obtain k f gs where k: "at_place s k (InBody f gs)" "\<And>j. in_body s j \<Longrightarrow> j = k"
    "run_body gs (gd_data s) = serial body (gd_log s) d"
    using lock_inv_heldD [OF inv] by blast
  have b: "in_body s j \<longleftrightarrow> j = k" for j using k(2) in_bodyI [OF k(1)] by blast
  let ?s = "(move k Outside s)\<lparr>gd_data := run_body gs (gd_data s), m_locked_flag := False\<rparr>"
  have "at_place ?s i (if in_body s i then Outside else p)" if "at_place s i p" for i p
    using that at_place_bound [OF k(1)] by (simp add: b at_place_move)
  moreover have "\<not> m_locked_flag ?s \<and> gd_log ?s = gd_log s" by simp
  ultimately have "(guarded_step body)\<^sup>*\<^sup>* s ?s \<and> \<not> m_locked_flag ?s \<and> gd_log ?s = gd_log s \<and>
      (\<forall>i p. at_place s i p \<longrightarrow> at_place ?s i (if in_body s i then Outside else p))"
    using body_run [OF k(1), of body] by (intro conjI allI impI) (elim conjE, assumption)+
  then show ?thesis by (rule exI)
qed

fun to_do :: "('o, 's) place \<Rightarrow> 'o list" where
  "to_do (AtCas f e) = [f]" | "to_do (Refused f e) = [f]" | "to_do (BackingOff f e w) = [f]" |
  "to_do Outside = []" | "to_do (InBody f gs) = []"

text \<open>A thread that waits for the lock while nobody has it.\<close>

lemma waiting_run:
  assumes i: "at_place s i p" and f: "to_do p = [f]" and inv: "exp_inv s" and free: "\<not> m_locked_flag s"
  shows "\<exists>s'. (guarded_step body)\<^sup>*\<^sup>* s s' \<and> at_place s' i Outside \<and> gd_log s' = gd_log s @ [f]"
proof -
  have to_cas: "\<exists>s'. (guarded_step body)\<^sup>*\<^sup>* s s' \<and> at_place s' i Outside \<and> gd_log s' = gd_log s @ [f]"
    if "at_place s i (AtCas f False)" "\<not> m_locked_flag s" for s :: "('a, 'b) guarded"
  proof -
    let ?s = "(move i Outside s)\<lparr>gd_data := run_body (body f) (gd_data s), m_locked_flag := False, gd_log := gd_log s @ [f]\<rparr>"
    have "at_place ?s i Outside" using at_place_bound [OF that(1)] by (simp add: at_place_move)
    then show ?thesis using enter_run [OF that, of body] by (intro exI [of _ ?s]) simp
  qed
  have to_again: "\<exists>s'. (guarded_step body)\<^sup>*\<^sup>* s s' \<and> at_place s' i Outside \<and> gd_log s' = gd_log s @ [f]"
    if "at_place s i (BackingOff f False w)" "\<not> m_locked_flag s" for s :: "('a, 'b) guarded" and w
  proof -
    have "at_place (move i (AtCas f False) s) i (AtCas f False)" using at_place_bound [OF that(1)] by (simp add: at_place_move)
    from to_cas [OF this] that(2) obtain s' where "(guarded_step body)\<^sup>*\<^sup>* (move i (AtCas f False) s) s'"
      "at_place s' i Outside" "gd_log s' = gd_log s @ [f]" by auto
    then show ?thesis using converse_rtranclp_into_rtranclp [of "guarded_step body", OF again [OF that(1)]] by blast
  qed
  show ?thesis
  proof (cases p)
    case (AtCas g e)
    then have "at_place s i (AtCas f e)" using i f by simp
    moreover from this have "\<not> e" by (rule exp_invD(1) [OF inv])
    ultimately show ?thesis using to_cas [of s] free by simp
  next
    case (BackingOff g e w)
    then have "at_place s i (BackingOff f e w)" using i f by simp
    moreover from this have "\<not> e" by (rule exp_invD(2) [OF inv])
    ultimately show ?thesis using to_again [of s w] free by simp
  next
    case (Refused g e)
    let ?s = "move i (BackingOff f False (acquire_failed (m_sleep s))) s"
    have r: "at_place s i (Refused f e)" using Refused i f by simp
    have "at_place ?s i (BackingOff f False (acquire_failed (m_sleep s)))"
      using at_place_bound [OF i] by (simp add: at_place_move)
    from to_again [OF this] free obtain s' where "(guarded_step body)\<^sup>*\<^sup>* ?s s'"
      "at_place s' i Outside" "gd_log s' = gd_log s @ [f]" by auto
    then show ?thesis using converse_rtranclp_into_rtranclp [of "guarded_step body", OF reset [OF r]] by blast
  qed (use f in simp_all)
qed

lemma call_ends:
  assumes r: "guarded_reach body d s" and i: "at_place s i p"
  shows "\<exists>s'. (guarded_step body)\<^sup>*\<^sup>* s s' \<and> at_place s' i Outside \<and> gd_log s' = gd_log s @ to_do p"
proof -
  obtain s1 where s1: "(guarded_step body)\<^sup>*\<^sup>* s s1" "\<not> m_locked_flag s1" "gd_log s1 = gd_log s"
    and at1: "at_place s1 i (if in_body s i then Outside else p)"
    using holder_run [OF guarded_reach_inv [OF r]] i by blast
  have inv: "exp_inv s1" by (rule guarded_reach_exp [OF reach_run [OF s1(1) r]])
  have out: "at_place s1 i Outside" if "to_do p = []"
    using that at1 in_bodyI [of s i] i by (cases p) (simp_all split: if_splits)
  have p: "at_place s1 i p" if "to_do p \<noteq> []"
    using that at1 not_in_body [OF i] by (cases p) simp_all
  show ?thesis
  proof (cases "to_do p")
    case Nil
    then show ?thesis using s1 out by auto
  next
    case (Cons f fs)
    then have "to_do p = [f]" by (cases p) auto
    moreover have "at_place s1 i p" by (rule p) (simp add: Cons)
    ultimately obtain s2 where "(guarded_step body)\<^sup>*\<^sup>* s1 s2" "at_place s2 i Outside" "gd_log s2 = gd_log s1 @ to_do p"
      using waiting_run [OF _ _ inv s1(2), of i p f body] by auto
    then show ?thesis using s1(1,3) rtranclp_trans [OF s1(1)] by (intro exI [of _ s2]) simp
  qed
qed

text \<open>C6. The lock makes the bodies of its operations atomic: two threads are never in a body at once;
  while the lock is free the data is what the operations give when they are run one after the other
  in the order in which they took the lock, and the thread that holds it completes that with the rest
  of its body; a thread that finds the lock free takes it. From every reachable state, for every
  thread wherever it is in its call, there is a run after which that thread has returned from its
  call, and exactly the operation it was waiting to do has taken the lock in that run.\<close>

theorem lock_serialises:
  assumes "guarded_reach body d s"
  shows "(\<forall>i j. in_body s i \<and> in_body s j \<longrightarrow> i = j) \<and>
    (\<not> m_locked_flag s \<longrightarrow> gd_data s = serial body (gd_log s) d) \<and>
    (\<forall>i f gs. at_place s i (InBody f gs) \<longrightarrow> run_body gs (gd_data s) = serial body (gd_log s) d) \<and>
    (\<forall>i f e. at_place s i (AtCas f e) \<and> \<not> m_locked_flag s \<longrightarrow>
      (\<exists>s'. guarded_step body s s' \<and> at_place s' i (InBody f (body f)))) \<and>
    (\<forall>i p. at_place s i p \<longrightarrow>
      (\<exists>s'. (guarded_step body)\<^sup>*\<^sup>* s s' \<and> at_place s' i Outside \<and> gd_log s' = gd_log s @ to_do p))"
proof -
  have inv: "lock_inv body d s" by (rule guarded_reach_inv [OF assms])
  have "\<exists>s'. guarded_step body s s' \<and> at_place s' i (InBody f (body f))"
    if "at_place s i (AtCas f e)" "\<not> m_locked_flag s" for i f e
    using acquire [OF that(1), of False True] exp_invD(1) [OF guarded_reach_exp [OF assms] that(1)]
      that(2) at_place_bound [OF that(1)]
    by (intro exI [of _ "(move i (InBody f (body f)) s)\<lparr>m_locked_flag := True, gd_log := gd_log s @ [f]\<rparr>"])
      (simp add: cas_strong_cases at_place_move)
  moreover have "in_body s i \<and> in_body s j \<Longrightarrow> i = j" for i j
    using lock_inv_bodyD(2) [OF inv] unfolding in_body_def by metis
  ultimately show ?thesis
    using lock_inv_freeD [OF inv] lock_inv_bodyD(3) [OF inv] call_ends [OF assms] by blast
qed

text \<open>Two threads add to a number by reading it into a register of the lock's holder and writing it back.\<close>

definition sample_body :: "int \<Rightarrow> (int \<times> int \<Rightarrow> int \<times> int) list" where
  "sample_body v = [\<lambda>(x, r). (x, x), \<lambda>(x, r). (r + v, r)]"

definition sample_guarded :: "(int, int \<times> int) guarded" where
  "sample_guarded = \<lparr>m_locked_flag = True, m_sleep = - 1, gd_data = (10, 10),
     gd_places = [InBody 5 [\<lambda>(x, r). (r + 5, r)], AtCas 7 False], gd_log = [5]\<rparr>"

lemma sample_guarded_reach: "guarded_reach sample_body (10, 0) sample_guarded"
proof -
  define s0 :: "(int, int \<times> int) guarded" where "s0 = guarded_init (- 1) (10, 0) 2"
  define s1 where "s1 = move 0 (AtCas 5 False) s0"
  define s2 where "s2 = move 1 (AtCas 7 False) s1"
  define s3 where "s3 = (move 0 (InBody 5 (sample_body 5)) s2)\<lparr>m_locked_flag := True, gd_log := gd_log s2 @ [5]\<rparr>"
  note defs = s0_def s1_def s2_def s3_def guarded_init_def SpinLock_def spin_lock.defs move_def at_place_def sample_body_def
  have "guarded_reach sample_body (10, 0) s0" unfolding s0_def by (rule initial)
  moreover have "guarded_step sample_body s0 s1" unfolding s1_def by (rule call) (simp add: defs)
  moreover have "guarded_step sample_body s1 s2" unfolding s2_def by (rule call) (simp add: defs)
  moreover have "guarded_step sample_body s2 s3" unfolding s3_def
    by (rule acquire [of _ _ _ False False]) (simp_all add: defs cas_strong_def numeral_2_eq_2)
  moreover have "guarded_step sample_body s3 sample_guarded"
    using work [of s3 0 5 "\<lambda>(x, r). (x, x)" "[\<lambda>(x, r). (r + 5, r)]" sample_body]
    by (simp add: defs sample_guarded_def numeral_2_eq_2)
  ultimately show ?thesis using next_step by metis
qed

theorem lock_serialises_witness:
  "run_body [\<lambda>(x, r). (r + 5, r)] (gd_data sample_guarded) = serial sample_body [5] (10, 0) \<and>
   (\<exists>s'. (guarded_step sample_body)\<^sup>*\<^sup>* sample_guarded s' \<and> at_place s' 1 Outside \<and> gd_log s' = [5, 7])"
proof -
  have p: "at_place sample_guarded 0 (InBody 5 [\<lambda>(x, r). (r + 5, r)])" "at_place sample_guarded 1 (AtCas 7 False)"
    and l: "gd_log sample_guarded = [5]"
    by (simp_all add: at_place_def sample_guarded_def)
  note a = lock_serialises [OF sample_guarded_reach, THEN conjunct2, THEN conjunct2]
  have "run_body [\<lambda>(x, r). (r + 5, r)] (gd_data sample_guarded) = serial sample_body (gd_log sample_guarded) (10, 0)"
    using conjunct1 [OF a] p(1) by blast
  moreover have "\<exists>s'. (guarded_step sample_body)\<^sup>*\<^sup>* sample_guarded s' \<and> at_place s' 1 Outside \<and>
      gd_log s' = gd_log sample_guarded @ to_do (AtCas 7 False :: (int, int \<times> int) place)"
    using conjunct2 [OF conjunct2 [OF a]] p(2) by blast
  ultimately show ?thesis unfolding l by simp
qed

text \<open>A run of one call: the thread calls, takes the lock, runs the body and gives the lock back.\<close>

lemma whole_call:
  assumes r: "guarded_reach body d0 s" and i: "at_place s i Outside" and free: "\<not> m_locked_flag s"
  shows "\<exists>s'. guarded_reach body d0 s' \<and> at_place s' i Outside \<and> \<not> m_locked_flag s' \<and>
    gd_log s' = gd_log s @ [f] \<and> gd_data s' = run_body (body f) (gd_data s)"
proof -
  let ?s = "move i (AtCas f False) s"
  let ?s' = "(move i Outside ?s)\<lparr>gd_data := run_body (body f) (gd_data ?s), m_locked_flag := False,
    gd_log := gd_log ?s @ [f]\<rparr>"
  have b: "i < length (gd_places s)" using i by (rule at_place_bound)
  have "(guarded_step body)\<^sup>*\<^sup>* ?s ?s'" using b free by (intro enter_run) (simp_all add: at_place_move)
  moreover have "guarded_reach body d0 ?s" using r call [OF i] by (rule next_step)
  ultimately have "guarded_reach body d0 ?s'" by (rule reach_run)
  moreover have "at_place ?s' i Outside" using b by (simp add: at_place_def move_def)
  ultimately show ?thesis by (intro exI [of _ ?s']) simp
qed

subsection \<open>Data behind a lock\<close>

text \<open>The contract of data that only operations under the lock touch: what is to hold of the data and of
  the operations done so far is kept by every whole body.\<close>

locale guarded_data =
  fixes body :: "'o \<Rightarrow> ('s \<Rightarrow> 's) list"
    and start :: 's
    and ok :: "'o list \<Rightarrow> 's \<Rightarrow> bool"
  assumes ok_start: "ok [] start"
    and ok_body: "ok fs d \<Longrightarrow> ok (fs @ [f]) (run_body (body f) d)"
begin

lemma ok_serial: "ok fs (serial body fs start)"
  by (induction fs rule: rev_induct) (simp_all add: ok_start ok_body)

lemma ok_free: "guarded_reach body start s \<Longrightarrow> \<not> m_locked_flag s \<Longrightarrow> ok (gd_log s) (gd_data s)"
  using lock_inv_freeD [OF guarded_reach_inv] ok_serial by metis

lemma ok_held: "guarded_reach body start s \<Longrightarrow> at_place s i (InBody f gs) \<Longrightarrow> ok (gd_log s) (run_body gs (gd_data s))"
  using lock_inv_bodyD(3) [OF guarded_reach_inv] ok_serial by metis

end

end
