(* ===== verification/LockedQueue.thy ===== *)
theory LockedQueue
  imports DelayQueue SpinLock
begin

text \<open>
  The delay queue as its threads share it: \<open>poll\<close> and \<open>offer\<close> of \<^verbatim>\<open>timer/delay_queue/DelayQueue.h\<close> are the
  bodies that run under its spin lock, in the steps of the code. \<open>qd_first\<close> is the local variable of
  the thread that holds the lock, \<open>qd_given\<close> keeps the entries that were given out.
\<close>

datatype 'a queue_call = Offer 'a time_entry | Poll time_entry

record 'a queue_data =
  qd_q :: "'a delay_queue"
  qd_first :: "'a delay_queue_entry option"
  qd_given :: "'a delay_queue_entry list"

definition no_entries :: "'a queue_data" where
  "no_entries = \<lparr>qd_q = [], qd_first = None, qd_given = []\<rparr>"

fun queue_body :: "'a queue_call \<Rightarrow> ('a queue_data \<Rightarrow> 'a queue_data) list" where
  "queue_body (Offer e t) =
     [\<lambda>d. d\<lparr>qd_q := qd_q d @ [\<lparr>dqe_expiration = t, dqe_appendix = e\<rparr>]\<rparr>,
      \<lambda>d. d\<lparr>qd_q := push_heap dqe_key (qd_q d)\<rparr>]"
| "queue_body (Poll now) =
     [\<lambda>d. d\<lparr>qd_first := (case qd_q d of [] \<Rightarrow> None | e # _ \<Rightarrow> Some e)\<rparr>,
      \<lambda>d. case qd_first d of
            None \<Rightarrow> d
          | Some e \<Rightarrow> if getDelay now e then d
                    else d\<lparr>qd_q := butlast (pop_heap dqe_key (qd_q d)), qd_given := qd_given d @ [e]\<rparr>]"

fun offered :: "'a queue_call \<Rightarrow> 'a delay_queue_entry list" where
  "offered (Offer e t) = [\<lparr>dqe_expiration = t, dqe_appendix = e\<rparr>]"
| "offered (Poll now) = []"

text \<open>The bodies are the operations of the queue.\<close>

lemma body_offer: "qd_q (run_body (queue_body (Offer e t)) d) = offer e t (qd_q d)"
  "qd_given (run_body (queue_body (Offer e t)) d) = qd_given d"
  by (simp_all add: offer_def hv_push_def)

lemma body_poll:
  assumes "poll now (qd_q d) = Inr (r, q)"
  shows "qd_q (run_body (queue_body (Poll now)) d) = q \<and>
    map dqe_appendix (qd_given (run_body (queue_body (Poll now)) d)) =
      map dqe_appendix (qd_given d) @ (case r of None \<Rightarrow> [] | Some a \<Rightarrow> [a])"
  using assms by (cases "qd_q d") (auto simp: poll_def hv_front_def hv_pop_def split: if_splits)

definition queue_ok :: "'a queue_call list \<Rightarrow> 'a queue_data \<Rightarrow> bool" where
  "queue_ok cs d \<longleftrightarrow> dq_ok (qd_q d) \<and>
     mset (concat (map offered cs)) = mset (qd_given d) + mset (qd_q d) \<and>
     (\<forall>e \<in> set (qd_given d). \<exists>now. Poll now \<in> set cs \<and> (measurable now e \<longrightarrow> due now e))"

lemma queue_ok_poll:
  assumes "queue_ok cs d"
  shows "queue_ok (cs @ [Poll now]) (run_body (queue_body (Poll now)) d)"
proof (cases "qd_q d")
  case Nil
  then show ?thesis using assms by (auto simp: queue_ok_def)
next
  case (Cons e q)
  have ok: "dq_ok (qd_q d)" using assms by (simp add: queue_ok_def)
  have p: "dq_ok (butlast (pop_heap dqe_key (qd_q d)))"
    "mset (butlast (pop_heap dqe_key (qd_q d))) = mset (qd_q d) - {#e#}"
    using pop_heap_spec [OF ok] Cons by auto
  show ?thesis
  proof (cases "getDelay now e")
    case True
    then show ?thesis using assms Cons by (auto simp: queue_ok_def)
  next
    case False
    then have "measurable now e \<longrightarrow> due now e" using getDelay_due by blast
    moreover have "mset (qd_q d) = add_mset e (mset (qd_q d) - {#e#})" using Cons by simp
    ultimately show ?thesis using assms Cons False p by (auto simp: queue_ok_def)
  qed
qed

interpretation locked_queue: guarded_data queue_body no_entries queue_ok
proof
  show "queue_ok [] no_entries" by (simp add: queue_ok_def no_entries_def heap_from_def)
next
  fix cs d f
  assume ok: "queue_ok cs d"
  show "queue_ok (cs @ [f]) (run_body (queue_body f) d)"
  proof (cases f)
    case (Offer e t)
    have "dq_ok (qd_q d)" using ok by (simp add: queue_ok_def)
    then show ?thesis using ok offer_facts(1) [of "qd_q d"] unfolding Offer queue_ok_def body_offer
      by (auto simp: offer_facts(2))
  next
    case (Poll now)
    then show ?thesis using queue_ok_poll [OF ok] by simp
  qed
qed

text \<open>C22. Threads that share a delay queue lose no entry and get none twice: under any interleaving of
  calls of \<^verbatim>\<open>offer\<close> and \<^verbatim>\<open>poll\<close>, while the lock is free the queue is a heap, the entries offered are
  those given out and those still queued, and every entry given out was due at the time of a call of
  \<^verbatim>\<open>poll\<close>. The times left, which \<^verbatim>\<open>poll\<close> computes in \<^verbatim>\<open>long\<close>, are assumed to fit it, as they do for all times
  after 1970.\<close>

theorem delay_queue_shared:
  assumes "guarded_reach queue_body no_entries s" "\<not> m_locked_flag s"
    and "\<forall>now e. Poll now \<in> set (gd_log s) \<and> e \<in> set (concat (map offered (gd_log s))) \<longrightarrow> measurable now e"
  shows "is_heap dqe_key (qd_q (gd_data s)) \<and>
    mset (concat (map offered (gd_log s))) = mset (qd_given (gd_data s)) + mset (qd_q (gd_data s)) \<and>
    (\<forall>e \<in> set (qd_given (gd_data s)). \<exists>now. Poll now \<in> set (gd_log s) \<and> due now e)"
proof -
  note ok = locked_queue.ok_free [OF assms(1,2), unfolded queue_ok_def]
  then have "set (qd_given (gd_data s)) \<subseteq> set (concat (map offered (gd_log s)))"
    by (metis mset_subset_eq_add_left set_mset_mono set_mset_mset)
  then show ?thesis using ok assms(3) by blast
qed

theorem delay_queue_shared_witness:
  "\<exists>s. guarded_reach queue_body no_entries s \<and> length (gd_log s) = 2 \<and>
     mset (qd_given (gd_data s)) + mset (qd_q (gd_data s)) = {#\<lparr>dqe_expiration = \<lparr>tv_sec = 1, tv_usec = 0\<rparr>, dqe_appendix = ''a''\<rparr>#}"
proof -
  let ?s0 = "guarded_init (- 1) no_entries 1 :: (string queue_call, string queue_data) guarded" and ?o = "Offer ''a'' \<lparr>tv_sec = 1, tv_usec = 0\<rparr>" and ?p = "Poll \<lparr>tv_sec = 2, tv_usec = 0\<rparr>"
  have s0: "guarded_reach queue_body no_entries ?s0" "at_place ?s0 0 Outside" "\<not> m_locked_flag ?s0" "gd_log ?s0 = []"
    by (rule initial) (simp_all add: guarded_init_def SpinLock_def spin_lock.defs at_place_def)
  obtain s1 where s1: "guarded_reach queue_body no_entries s1" "at_place s1 0 Outside" "\<not> m_locked_flag s1" "gd_log s1 = [?o]"
    using whole_call [OF s0(1-3), of ?o] unfolding s0(4) append_Nil by blast
  obtain s2 where s2: "guarded_reach queue_body no_entries s2" "\<not> m_locked_flag s2" "gd_log s2 = [?o, ?p]"
    using whole_call [OF s1(1-3), of ?p] unfolding s1(4) append_Cons append_Nil by blast
  have "\<forall>now e. Poll now \<in> set (gd_log s2) \<and> e \<in> set (concat (map offered (gd_log s2))) \<longrightarrow> measurable now e"
    by (simp add: s2(3) measurable_def dqe_key_def usecs_total)
  then show ?thesis using delay_queue_shared [OF s2(1,2)] s2(1,3) by (intro exI [of _ s2]) simp
qed

end
