(* ===== verification/InetAddress.thy ===== *)
theory InetAddress
  imports Prelude
begin

text \<open>
  \<^verbatim>\<open>InetAddress\<close>: the union of \<^verbatim>\<open>sockaddr_in\<close> and \<^verbatim>\<open>sockaddr_in6\<close> as its 28 bytes, of which those no one has
  written are \<open>None\<close>, on a little-endian machine: the family at offset 0, the port at 2, the address of
  IPv4 at 4 and of IPv6 at 8, the scope at 24. \<^verbatim>\<open>inet_pton\<close>, \<^verbatim>\<open>inet_ntop\<close> and \<^verbatim>\<open>gethostbyname_r\<close> are
  arguments of the definitions that call them.
\<close>

type_synonym byte = "8 word"

record inet_address =
  ia_addr :: "byte option list"
  isIpV6 :: bool

subsection \<open>Bytes\<close>

definition bytes_of :: "nat \<Rightarrow> 'a::len word \<Rightarrow> byte list" where
  "bytes_of n w = map (\<lambda>i. ucast (drop_bit (8 * i) w)) [0..<n]"

definition word_of_bytes :: "byte list \<Rightarrow> 'a::len word" where
  "word_of_bytes bs = foldr (\<lambda>b w. ucast b OR push_bit 8 w) bs 0"

definition htons :: "16 word \<Rightarrow> 16 word" where "htons x = word_of_bytes (rev (bytes_of 2 x))"
definition htonl :: "32 word \<Rightarrow> 32 word" where "htonl x = word_of_bytes (rev (bytes_of 4 x))"

fun known_bytes :: "byte option list \<Rightarrow> byte list res" where
  "known_bytes [] = Inr []"
| "known_bytes (None # bs) = Inl Uninitialised"
| "known_bytes (Some b # bs) = rbind (known_bytes bs) (\<lambda>r. Inr (b # r))"

definition get_bytes :: "nat \<Rightarrow> nat \<Rightarrow> byte option list \<Rightarrow> byte list res" where
  "get_bytes off n m = known_bytes (take n (drop off m))"

definition put_bytes :: "nat \<Rightarrow> byte list \<Rightarrow> byte option list \<Rightarrow> byte option list" where
  "put_bytes off bs m = take off m @ map Some bs @ drop (off + length bs) m"

abbreviation (input) AF_INET :: "16 word" where "AF_INET \<equiv> 2"
abbreviation (input) AF_INET6 :: "16 word" where "AF_INET6 \<equiv> 10"

abbreviation (input) put_family :: "16 word \<Rightarrow> byte option list \<Rightarrow> byte option list" where
  "put_family f \<equiv> put_bytes 0 (bytes_of 2 f)"
abbreviation (input) put_port :: "16 word \<Rightarrow> byte option list \<Rightarrow> byte option list" where
  "put_port p \<equiv> put_bytes 2 (bytes_of 2 p)"

abbreviation (input) new_union :: "byte option list" where "new_union \<equiv> replicate 28 None"

subsection \<open>Constructors\<close>

definition kInaddrAny :: "32 word" where "kInaddrAny = 0"
definition kInaddrLoopback :: "32 word" where "kInaddrLoopback = 0x7F000001"
definition in6addr_any :: "byte list" where "in6addr_any = replicate 16 0"
definition in6addr_loopback :: "byte list" where "in6addr_loopback = replicate 15 0 @ [1]"

definition InetAddress :: "16 word \<Rightarrow> bool \<Rightarrow> bool \<Rightarrow> inet_address" where
  "InetAddress port loopbackOnly ipv6 =
     (if ipv6 then
        let m1 = put_family AF_INET6 (put_bytes 0 (replicate 28 0) new_union);
            m2 = put_bytes 8 (if loopbackOnly then in6addr_loopback else in6addr_any) m1
        in \<lparr>ia_addr = put_port (htons port) m2, isIpV6 = ipv6\<rparr>
      else
        let m1 = put_family AF_INET (put_bytes 0 (replicate 16 0) new_union);
            m2 = put_bytes 4 (bytes_of 4 (htonl (if loopbackOnly then kInaddrLoopback else kInaddrAny))) m1
        in \<lparr>ia_addr = put_port (htons port) m2, isIpV6 = ipv6\<rparr>)"

text \<open>The string up to its first zero is what the C function sees.\<close>

definition c_str :: "string \<Rightarrow> string" where "c_str s = takeWhile (\<lambda>c. c \<noteq> CHR 0x00) s"

definition InetAddress_ip :: "(16 word \<Rightarrow> string \<Rightarrow> byte list option) \<Rightarrow> string \<Rightarrow> 16 word \<Rightarrow> bool \<Rightarrow> inet_address res" where
  "InetAddress_ip inet_pton ip port ipv6 =
     (if ipv6 then
        let m1 = put_port (htons port) (put_family AF_INET6 (put_bytes 0 (replicate 28 0) new_union)) in
        (case inet_pton AF_INET6 (c_str ip) of
           None \<Rightarrow> Inl ProcessExit
         | Some a \<Rightarrow> Inr \<lparr>ia_addr = put_bytes 8 a m1, isIpV6 = ipv6\<rparr>)
      else
        let m1 = put_port (htons port) (put_family AF_INET (put_bytes 0 (replicate 16 0) new_union)) in
        (case inet_pton AF_INET (c_str ip) of
           None \<Rightarrow> Inl ProcessExit
         | Some a \<Rightarrow> Inr \<lparr>ia_addr = put_bytes 4 a m1, isIpV6 = ipv6\<rparr>))"

definition InetAddress_in :: "byte list \<Rightarrow> inet_address" where
  "InetAddress_in addr = \<lparr>ia_addr = put_bytes 0 addr new_union, isIpV6 = False\<rparr>"

definition InetAddress_in6 :: "byte list \<Rightarrow> inet_address" where
  "InetAddress_in6 addr = \<lparr>ia_addr = put_bytes 0 addr new_union, isIpV6 = True\<rparr>"

subsection \<open>Reading and changing an address\<close>

definition family :: "inet_address \<Rightarrow> 16 word res" where
  "family a = rbind (get_bytes 0 2 (ia_addr a)) (\<lambda>bs. Inr (word_of_bytes bs))"

definition portNetEndian :: "inet_address \<Rightarrow> 16 word res" where
  "portNetEndian a = rbind (get_bytes 2 2 (ia_addr a)) (\<lambda>bs. Inr (word_of_bytes bs))"

definition toPort :: "inet_address \<Rightarrow> 16 word res" where
  "toPort a = rbind (portNetEndian a) (\<lambda>p. Inr (htons p))"

definition ipNetEndian :: "inet_address \<Rightarrow> 32 word res" where
  "ipNetEndian a = rbind (get_bytes 4 4 (ia_addr a)) (\<lambda>bs. Inr (word_of_bytes bs))"

definition ip6NetEndian :: "inet_address \<Rightarrow> byte list res" where
  "ip6NetEndian a = get_bytes 8 16 (ia_addr a)"

text \<open>For any other family the array of the answer is returned as it is, without contents.\<close>

definition toIp :: "(16 word \<Rightarrow> byte list \<Rightarrow> string) \<Rightarrow> inet_address \<Rightarrow> string res" where
  "toIp inet_ntop a =
     rbind (family a) (\<lambda>f.
     if f = AF_INET then rbind (get_bytes 4 4 (ia_addr a)) (\<lambda>bs. Inr (inet_ntop AF_INET bs))
     else if f = AF_INET6 then rbind (get_bytes 8 16 (ia_addr a)) (\<lambda>bs. Inr (inet_ntop AF_INET6 bs))
     else Inl Uninitialised)"

definition toIpPort :: "(16 word \<Rightarrow> byte list \<Rightarrow> string) \<Rightarrow> inet_address \<Rightarrow> string res" where
  "toIpPort inet_ntop a =
     rbind (toPort a) (\<lambda>port. rbind (toIp inet_ntop a) (\<lambda>ip. Inr (ip @ '':'' @ dec (unat port))))"

definition setSockAddrInet6 :: "byte list \<Rightarrow> inet_address \<Rightarrow> inet_address res" where
  "setSockAddrInet6 addr6 a =
     (let a1 = a\<lparr>ia_addr := put_bytes 0 addr6 (ia_addr a)\<rparr> in
      rbind (family a1) (\<lambda>f. Inr (a1\<lparr>isIpV6 := (f = AF_INET6)\<rparr>)))"

definition setPortNetEndian :: "16 word \<Rightarrow> inet_address \<Rightarrow> inet_address" where
  "setPortNetEndian port a = a\<lparr>ia_addr := put_port port (ia_addr a)\<rparr>"

definition setScopeId :: "32 word \<Rightarrow> inet_address \<Rightarrow> inet_address res" where
  "setScopeId scope_id a =
     rbind (family a) (\<lambda>f.
     Inr (if f = AF_INET6 then a\<lparr>ia_addr := put_bytes 24 (bytes_of 4 scope_id) (ia_addr a)\<rparr> else a))"

text \<open>\<open>gethostbyname\<close> gives its return value and, when it found the host, the type of the address, its
  length and its bytes.\<close>

definition resolve :: "(string \<Rightarrow> int \<times> (16 word \<times> int \<times> byte list) option) \<Rightarrow> string \<Rightarrow> inet_address option \<Rightarrow>
    (bool \<times> inet_address option) res" where
  "resolve gethostbyname hostname out =
     (case out of
        None \<Rightarrow> Inl AssertFailed
      | Some a \<Rightarrow>
          (case gethostbyname (c_str hostname) of
             (ret, he) \<Rightarrow>
               (case he of
                  Some (addrtype, n, bs) \<Rightarrow>
                    if ret = 0 then
                      assert_that (addrtype = AF_INET \<and> n = 4)
                        (Inr (True, Some (a\<lparr>ia_addr := put_bytes 4 (take 4 bs) (ia_addr a)\<rparr>)))
                    else Inl ProcessExit
                | None \<Rightarrow> if ret \<noteq> 0 then Inl ProcessExit else Inr (False, out))))"

end
