(* ===== verification/Socket.thy ===== *)
theory Socket
  imports InetAddress
begin

text \<open>
  \<^verbatim>\<open>Socket\<close>: the operations of a socket and the calls of the system they make. \<open>os\<close> gives the result of a
  call from the calls made before it; the state is their list, the latest last.
\<close>

datatype sock_call =
    Bind int "byte list" | Listen int int | Accept int | Shutdown int | ReadFd int nat | SetOption int int int int
  | GetError int | Connect int "byte list" | Create "16 word" | Close int | OpenNull

text \<open>A call gives its return value, \<^verbatim>\<open>errno\<close> or the option it was asked for, and bytes it filled in.\<close>

type_synonym sock_os = "sock_call list \<Rightarrow> sock_call \<Rightarrow> int \<times> int \<times> byte list"

definition system :: "sock_os \<Rightarrow> sock_call \<Rightarrow> sock_call list \<Rightarrow> (int \<times> int \<times> byte list) \<times> sock_call list" where
  "system os c cs = (os cs c, cs @ [c])"

abbreviation (input) SOMAXCONN :: int where "SOMAXCONN \<equiv> 4096"

text \<open>The bytes of an address that are passed on: those of the \<^verbatim>\<open>sockaddr\<close> of its flag.\<close>

definition sockaddr_of :: "inet_address \<Rightarrow> byte list res" where
  "sockaddr_of a = get_bytes 0 (if isIpV6 a then 28 else 16) (ia_addr a)"

definition bindAddress :: "sock_os \<Rightarrow> int \<Rightarrow> inet_address \<Rightarrow> sock_call list \<Rightarrow> sock_call list res" where
  "bindAddress os fd localaddr cs =
     assert_that (fd > 0)
     (rbind (sockaddr_of localaddr) (\<lambda>bs.
      let ((ret, _, _), cs1) = system os (Bind fd bs) cs in if ret = 0 then Inr cs1 else Inl ProcessExit))"

definition socket_listen :: "sock_os \<Rightarrow> int \<Rightarrow> sock_call list \<Rightarrow> sock_call list res" where
  "socket_listen os fd cs =
     assert_that (fd > 0)
     (let ((ret, _, _), cs1) = system os (Listen fd SOMAXCONN) cs in if ret < 0 then Inl ProcessExit else Inr cs1)"

definition accept :: "sock_os \<Rightarrow> int \<Rightarrow> inet_address \<Rightarrow> sock_call list \<Rightarrow> (int \<times> inet_address \<times> sock_call list) res" where
  "accept os fd peeraddr cs =
     (let ((connfd, _, bs), cs1) = system os (Accept fd) cs;
          addr6 = take 28 (bs @ replicate 28 0) in
      if connfd \<ge> 0 then rbind (setSockAddrInet6 addr6 peeraddr) (\<lambda>a. Inr (connfd, a, cs1))
      else Inr (connfd, peeraddr, cs1))"

definition socket_closeWrite :: "sock_os \<Rightarrow> int \<Rightarrow> sock_call list \<Rightarrow> sock_call list res" where
  "socket_closeWrite os fd cs =
     (let ((ret, _, _), cs1) = system os (Shutdown fd) cs in if ret < 0 then Inl ProcessExit else Inr cs1)"

definition socket_read :: "sock_os \<Rightarrow> int \<Rightarrow> nat \<Rightarrow> sock_call list \<Rightarrow> int \<times> byte list \<times> sock_call list" where
  "socket_read os fd len cs =
     (let ((ret, _, bs), cs1) = system os (ReadFd fd len) cs in (ret, take (nat ret) bs, cs1))"

text \<open>\<open>os\<close> of the addresses of a socket: the return value and the bytes written.\<close>

definition getAddr :: "(int \<Rightarrow> int \<times> byte list) \<Rightarrow> int \<Rightarrow> byte list res" where
  "getAddr getname fd =
     (let (ret, bs) = getname fd in if ret < 0 then Inl ProcessExit else Inr (take 28 (bs @ replicate 28 0)))"

definition getLocalAddr :: "(int \<Rightarrow> int \<times> byte list) \<Rightarrow> int \<Rightarrow> byte list res" where
  "getLocalAddr getsockname = getAddr getsockname"

definition getPeerAddr :: "(int \<Rightarrow> int \<times> byte list) \<Rightarrow> int \<Rightarrow> byte list res" where
  "getPeerAddr getpeername = getAddr getpeername"

definition isSelfConnect ::
    "(int \<Rightarrow> int \<times> byte list) \<Rightarrow> (int \<Rightarrow> int \<times> byte list) \<Rightarrow> int \<Rightarrow> bool res" where
  "isSelfConnect getsockname getpeername fd =
     rbind (getLocalAddr getsockname fd) (\<lambda>l.
     rbind (getPeerAddr getpeername fd) (\<lambda>p.
     let f = (word_of_bytes (take 2 l) :: 16 word); port = (\<lambda>bs. take 2 (drop 2 bs)) in
     Inr (if f = AF_INET then port l = port p \<and> take 4 (drop 4 l) = take 4 (drop 4 p)
          else if f = AF_INET6 then port l = port p \<and> take 16 (drop 8 l) = take 16 (drop 8 p)
          else False)))"

subsection \<open>Options\<close>

abbreviation (input) SOL_SOCKET :: int where "SOL_SOCKET \<equiv> 1"
abbreviation (input) IPPROTO_TCP :: int where "IPPROTO_TCP \<equiv> 6"

definition set_option :: "sock_os \<Rightarrow> int \<Rightarrow> int \<Rightarrow> int \<Rightarrow> bool \<Rightarrow> sock_call list \<Rightarrow> sock_call list" where
  "set_option os level name fd on cs = snd (system os (SetOption fd level name (if on then 1 else 0)) cs)"

definition setTcpNoDelay :: "sock_os \<Rightarrow> int \<Rightarrow> bool \<Rightarrow> sock_call list \<Rightarrow> sock_call list" where
  "setTcpNoDelay os = set_option os IPPROTO_TCP 1"

definition setReuseAddr :: "sock_os \<Rightarrow> int \<Rightarrow> bool \<Rightarrow> sock_call list \<Rightarrow> sock_call list" where
  "setReuseAddr os = set_option os SOL_SOCKET 2"

definition setReusePort :: "sock_os \<Rightarrow> int \<Rightarrow> bool \<Rightarrow> sock_call list \<Rightarrow> sock_call list" where
  "setReusePort os = set_option os SOL_SOCKET 15"

definition setKeepAlive :: "sock_os \<Rightarrow> int \<Rightarrow> bool \<Rightarrow> sock_call list \<Rightarrow> sock_call list" where
  "setKeepAlive os = set_option os SOL_SOCKET 9"

definition getSocketError :: "sock_os \<Rightarrow> int \<Rightarrow> sock_call list \<Rightarrow> int \<times> sock_call list" where
  "getSocketError os fd cs = (let ((_, v, _), cs1) = system os (GetError fd) cs in (v, cs1))"

subsection \<open>Creating, connecting, closing\<close>

definition create_socket :: "sock_os \<Rightarrow> 16 word \<Rightarrow> sock_call list \<Rightarrow> (int \<times> sock_call list) res" where
  "create_socket os f cs =
     (let ((sock, _, _), cs1) = system os (Create f) cs in if sock < 0 then Inl ProcessExit else Inr (sock, cs1))"

definition socket_connect :: "sock_os \<Rightarrow> int \<Rightarrow> inet_address \<Rightarrow> sock_call list \<Rightarrow> (int \<times> sock_call list) res" where
  "socket_connect os fd addr cs =
     rbind (sockaddr_of addr) (\<lambda>bs. let ((ret, _, _), cs1) = system os (Connect fd bs) cs in Inr (ret, cs1))"

definition socket_destroy :: "sock_os \<Rightarrow> int \<Rightarrow> sock_call list \<Rightarrow> sock_call list" where
  "socket_destroy os fd cs = (if fd \<ge> 0 then snd (system os (Close fd) cs) else cs)"

end
