(* ===== verification/SocketSpec.thy ===== *)
theory SocketSpec
  imports Socket
begin

text \<open>
  What addresses and sockets promise: the bytes of an address are those the network expects, and an
  address reads back as it was made; a socket is recognised as connected to itself exactly when both
  its ends are one; and what goes wrong with the local address of an IPv4 connection.
\<close>

subsection \<open>Bytes\<close>

lemma bytes_of_length [simp]: "length (bytes_of n w) = n"
  by (simp add: bytes_of_def)

lemma bytes_of_2: "bytes_of 2 w = [ucast w, ucast (drop_bit 8 w)]"
  by (simp add: bytes_of_def numeral_2_eq_2)

lemma bytes_of_4: "bytes_of 4 w = [ucast w, ucast (drop_bit 8 w), ucast (drop_bit 16 w), ucast (drop_bit 24 w)]"
  by (simp add: bytes_of_def upt_rec)

lemma word_of_bytes_2: "(word_of_bytes [a, b] :: 16 word) = ucast a OR push_bit 8 (ucast b)"
  by (simp add: word_of_bytes_def)

lemma word_bytes_2: "(word_of_bytes (bytes_of 2 w) :: 16 word) = w"
  unfolding bytes_of_2 word_of_bytes_2
  by (rule bit_word_eqI) (auto simp: bit_simps)

lemma byte_beyond [simp]: "\<not> bit (b :: byte) (8 + n)"
proof
  assume "bit b (8 + n)"
  from bit_imp_le_length [OF this] show False by simp
qed

lemma bytes_word_2: "bytes_of 2 (word_of_bytes [a, b] :: 16 word) = [a, b]"
  unfolding bytes_of_2 word_of_bytes_2
  by (auto intro!: bit_word_eqI simp: bit_simps)

lemma htons_bytes: "bytes_of 2 (htons p) = [ucast (drop_bit 8 p), ucast p]"
  unfolding htons_def by (simp add: bytes_of_2 [of p] bytes_word_2)

lemma htons_htons [simp]: "htons (htons p) = p"
  by (simp add: htons_def [of "htons p"] htons_bytes) (simp add: word_bytes_2 flip: bytes_of_2)

lemma port_bytes_inject: "bytes_of 2 (htons p) = bytes_of 2 (htons q) \<longleftrightarrow> p = q"
  by (metis htons_htons word_bytes_2)

lemma known_bytes_Some [simp]: "known_bytes (map Some bs) = Inr bs"
  by (induction bs) auto

lemma known_bytes_append [simp]:
  "known_bytes (map Some bs @ ms) = rbind (known_bytes ms) (\<lambda>r. Inr (bs @ r))"
  by (induction bs) (auto simp: rbind_assoc, cases "known_bytes ms", auto)

lemma known_bytes_zeros [simp]:
  "known_bytes (replicate n (Some b)) = Inr (replicate n b)"
  "known_bytes (replicate n (Some b) @ ms) = rbind (known_bytes ms) (\<lambda>r. Inr (replicate n b @ r))"
  using known_bytes_Some [of "replicate n b"] known_bytes_append [of "replicate n b"] by simp_all

text \<open>The union of an address that was made from an address of the network.\<close>

definition layout :: "bool \<Rightarrow> byte list \<Rightarrow> byte list \<Rightarrow> byte option list" where
  "layout v6 port a = map Some (if v6 then bytes_of 2 AF_INET6 @ port @ replicate 4 0 @ a @ replicate 4 0
     else bytes_of 2 AF_INET @ port @ a @ replicate 8 0) @ (if v6 then [] else replicate 12 None)"

lemma InetAddress_ip_layout:
  assumes "inet_pton (if v6 then AF_INET6 else AF_INET) (c_str ip) = Some a" "length a = (if v6 then 16 else 4)"
  shows "InetAddress_ip inet_pton ip port v6 = Inr \<lparr>ia_addr = layout v6 (bytes_of 2 (htons port)) a, isIpV6 = v6\<rparr>"
  using assms by (auto simp: InetAddress_ip_def layout_def put_bytes_def Let_def)


text \<open>The address an \<open>InetAddress\<close> stands for: made from the bytes of an address and a port.\<close>

definition address_of :: "bool \<Rightarrow> byte list \<Rightarrow> 16 word \<Rightarrow> inet_address" where
  "address_of v6 a port = \<lparr>ia_addr = layout v6 (bytes_of 2 (htons port)) a, isIpV6 = v6\<rparr>"

lemma address_of_reads:
  assumes "length a = (if v6 then 16 else 4)"
  shows "family (address_of v6 a port) = Inr (if v6 then AF_INET6 else AF_INET)"
    "toPort (address_of v6 a port) = Inr port"
    "toIp inet_ntop (address_of v6 a port) = Inr (inet_ntop (if v6 then AF_INET6 else AF_INET) a)"
    "sockaddr_of (address_of v6 a port) =
       Inr (if v6 then bytes_of 2 AF_INET6 @ bytes_of 2 (htons port) @ replicate 4 0 @ a @ replicate 4 0
            else bytes_of 2 AF_INET @ bytes_of 2 (htons port) @ a @ replicate 8 0)"
proof -
  show f: "family (address_of v6 a port) = Inr (if v6 then AF_INET6 else AF_INET)"
    by (simp add: family_def get_bytes_def layout_def address_of_def word_bytes_2)
  show "toPort (address_of v6 a port) = Inr port"
    by (simp add: toPort_def portNetEndian_def get_bytes_def layout_def address_of_def word_bytes_2)
  show "toIp inet_ntop (address_of v6 a port) = Inr (inet_ntop (if v6 then AF_INET6 else AF_INET) a)"
    unfolding toIp_def f rbind.simps
    using assms by (cases v6) (simp_all add: get_bytes_def layout_def address_of_def)
  show "sockaddr_of (address_of v6 a port) =
       Inr (if v6 then bytes_of 2 AF_INET6 @ bytes_of 2 (htons port) @ replicate 4 0 @ a @ replicate 4 0
            else bytes_of 2 AF_INET @ bytes_of 2 (htons port) @ a @ replicate 8 0)"
    using assms by (cases v6) (simp_all add: sockaddr_of_def get_bytes_def layout_def address_of_def)
qed

text \<open>C33. An address is what the network expects and reads back as it was made: when \<^verbatim>\<open>inet_pton\<close> knows the
  text, the bytes passed on are the family, the port with its high byte first, and the address in its
  place with zeros around it; the family, the port and the flag read back, and \<^verbatim>\<open>toIpPort\<close> prints the
  address, a colon and the port in decimal. When \<^verbatim>\<open>inet_pton\<close> does not know the text, the process exits.\<close>

theorem address_roundtrip:
  assumes pton: "\<And>a. inet_pton (if v6 then AF_INET6 else AF_INET) (c_str ip) = Some a \<Longrightarrow>
    length a = (if v6 then 16 else 4) \<and> inet_ntop (if v6 then AF_INET6 else AF_INET) a = canonical (c_str ip)"
  shows "case inet_pton (if v6 then AF_INET6 else AF_INET) (c_str ip) of
      None \<Rightarrow> InetAddress_ip inet_pton ip port v6 = Inl ProcessExit
    | Some a \<Rightarrow> \<exists>x. InetAddress_ip inet_pton ip port v6 = Inr x \<and> isIpV6 x = v6 \<and>
        family x = Inr (if v6 then AF_INET6 else AF_INET) \<and> toPort x = Inr port \<and>
        toIpPort inet_ntop x = Inr (canonical (c_str ip) @ '':'' @ dec (unat port)) \<and>
        sockaddr_of x = Inr (if v6 then [10, 0, ucast (drop_bit 8 port), ucast port] @ replicate 4 0 @ a @ replicate 4 0
          else [2, 0, ucast (drop_bit 8 port), ucast port] @ a @ replicate 8 0)"
proof (cases "inet_pton (if v6 then AF_INET6 else AF_INET) (c_str ip)")
  case None
  then show ?thesis by (simp add: InetAddress_ip_def Let_def split: if_splits)
next
  case (Some a)
  note a = pton [OF Some]
  have "InetAddress_ip inet_pton ip port v6 = Inr (address_of v6 a port)"
    using InetAddress_ip_layout [of inet_pton v6 ip a port] Some a by (simp add: address_of_def)
  moreover have "toIpPort inet_ntop (address_of v6 a port) = Inr (canonical (c_str ip) @ '':'' @ dec (unat port))"
    using a by (simp add: toIpPort_def address_of_reads)
  ultimately show ?thesis using Some a
    by (simp add: address_of_reads htons_bytes) (simp add: address_of_def bytes_of_2)
qed

text \<open>Dotted decimals, as far as the witness needs them.\<close>

definition sample_pton :: "16 word \<Rightarrow> string \<Rightarrow> byte list option" where
  "sample_pton f s = (if f = AF_INET \<and> s = ''127.0.0.1'' then Some [127, 0, 0, 1] else None)"

definition sample_ntop :: "16 word \<Rightarrow> byte list \<Rightarrow> string" where
  "sample_ntop f bs = (if f = AF_INET \<and> bs = [127, 0, 0, 1] then ''127.0.0.1'' else ''?'')"

theorem address_roundtrip_witness:
  "\<exists>x. InetAddress_ip sample_pton ''127.0.0.1'' 8080 False = Inr x \<and> toIpPort sample_ntop x = Inr ''127.0.0.1:8080'' \<and>
     sockaddr_of x = Inr ([2, 0, 0x1F, 0x90, 127, 0, 0, 1] @ replicate 8 0) \<and>
     InetAddress_ip sample_pton ''localhost'' 8080 False = Inl ProcessExit"
proof -
  have d: "dec 8080 = ''8080''" by (simp add: dec.simps)
  have c: "c_str ''127.0.0.1'' = ''127.0.0.1''" "c_str ''localhost'' = ''localhost''" by (simp_all add: c_str_def)
  have w: "ucast (drop_bit 8 (8080 :: 16 word)) = (0x1F :: byte)" "(8080 :: byte) = 0x90" by code_simp+
  show ?thesis
    using address_roundtrip [of sample_pton False "''127.0.0.1''" sample_ntop "\<lambda>s. s" 8080]
      address_roundtrip [of sample_pton False "''localhost''" sample_ntop "\<lambda>s. s" 8080]
    by (simp add: sample_pton_def sample_ntop_def c d w del: rbind_Inr_iff) blast
qed

subsection \<open>Connected to itself\<close>

text \<open>\<open>name_of\<close> is what the kernel answers when it is asked for an address: the bytes of its family.\<close>

definition name_of :: "bool \<Rightarrow> byte list \<Rightarrow> 16 word \<Rightarrow> byte list" where
  "name_of v6 a port = (if v6 then bytes_of 2 AF_INET6 @ bytes_of 2 (htons port) @ replicate 4 0 @ a @ replicate 4 0
     else bytes_of 2 AF_INET @ bytes_of 2 (htons port) @ a @ replicate 8 0)"

text \<open>A socket is recognised as connected to itself exactly when its two ends are the same: its local
  address and its peer, of one family, have the same address and the same port.\<close>

lemma self_connect_exact:
  assumes "getsockname fd = (0, name_of v6 a port)" "getpeername fd = (0, name_of v6 b port')"
    and "length a = (if v6 then 16 else 4)" "length b = (if v6 then 16 else 4)"
  shows "isSelfConnect getsockname getpeername fd = Inr (a = b \<and> port = port')"
  using assms
  by (cases v6) (auto simp: isSelfConnect_def getLocalAddr_def getPeerAddr_def getAddr_def name_of_def word_bytes_2
      port_bytes_inject Let_def)

lemma self_connect_exact_witness:
  "isSelfConnect (\<lambda>_. (0, name_of False [127, 0, 0, 1] 5000)) (\<lambda>_. (0, name_of False [127, 0, 0, 1] 5001)) 7 = Inr False"
  by (subst self_connect_exact [of _ _ False "[127, 0, 0, 1]" 5000 _ "[127, 0, 0, 1]" 5001]) simp_all

text \<open>\<^verbatim>\<open>TcpServer\<close> makes the local address of a connection from what \<^verbatim>\<open>getLocalAddr\<close> gives, which always has
  the type of an IPv6 address: the flag is then set for an IPv4 address too.\<close>

lemma local_address_says_ipv6:
  assumes "getsockname fd = (0, name_of False a port)" "length a = 4"
  shows "\<exists>bs. getLocalAddr getsockname fd = Inr bs \<and> isIpV6 (InetAddress_in6 bs) \<and>
    family (InetAddress_in6 bs) = Inr AF_INET \<and> toPort (InetAddress_in6 bs) = Inr port"
  using assms
  by (simp add: getLocalAddr_def getAddr_def name_of_def InetAddress_in6_def family_def toPort_def portNetEndian_def
      put_bytes_def get_bytes_def word_bytes_2)

text \<open>The address of a peer that \<^verbatim>\<open>accept\<close> fills in has the flag of its family.\<close>

lemma accept_peer:
  assumes "os cs (Accept fd) = (r, e, name_of v6 a port)" "0 \<le> r" "length a = (if v6 then 16 else 4)"
    "length (ia_addr p) = 28"
  shows "\<exists>x. accept os fd p cs = Inr (r, x, cs @ [Accept fd]) \<and> isIpV6 x = v6 \<and>
    family x = Inr (if v6 then AF_INET6 else AF_INET) \<and> toPort x = Inr port"
  using assms
  by (cases v6) (simp_all add: accept_def system_def setSockAddrInet6_def name_of_def family_def toPort_def
      portNetEndian_def put_bytes_def get_bytes_def word_bytes_2 Let_def)

end
