(* ===== verification/AnyValue.thy ===== *)
theory AnyValue
  imports Prelude
begin

text \<open>
  \<^verbatim>\<open>base/any.h\<close>: a variable that holds a value of any type, through a pointer to a holder of its own.
  The state is the store of holders and the variables, each with its pointer; a value is kept with the
  name of its type. The refinement at the end is to variables that simply have values.
\<close>

record ('t, 'v) holder =
  hd_type :: 't
  hd_held :: 'v

record ('x, 't, 'v) any_state =
  an_holders :: "nat \<rightharpoonup> ('t, 'v) holder"
  an_content :: "'x \<rightharpoonup> nat option"
  an_fresh :: nat

definition new_holder :: "('t, 'v) holder \<Rightarrow> ('x, 't, 'v) any_state \<Rightarrow> nat \<times> ('x, 't, 'v) any_state" where
  "new_holder h s = (an_fresh s, s\<lparr>an_holders := (an_holders s)(an_fresh s \<mapsto> h), an_fresh := Suc (an_fresh s)\<rparr>)"

definition set_content :: "'x \<Rightarrow> nat option \<Rightarrow> ('x, 't, 'v) any_state \<Rightarrow> ('x, 't, 'v) any_state" where
  "set_content x c s = s\<lparr>an_content := (an_content s)(x \<mapsto> c)\<rparr>"

text \<open>\<open>holder::clone\<close>: a new holder with the same value.\<close>

definition clone :: "nat \<Rightarrow> ('x, 't, 'v) any_state \<Rightarrow> (nat \<times> ('x, 't, 'v) any_state) res" where
  "clone p s = rbind (deref (an_holders s) (Some p)) (\<lambda>h. Inr (new_holder h s))"

definition any_empty :: "'x \<Rightarrow> ('x, 't, 'v) any_state \<Rightarrow> ('x, 't, 'v) any_state" where
  "any_empty x s = set_content x None s"

definition any_of :: "'x \<Rightarrow> 't \<Rightarrow> 'v \<Rightarrow> ('x, 't, 'v) any_state \<Rightarrow> ('x, 't, 'v) any_state" where
  "any_of x t v s = (let (p, s1) = new_holder \<lparr>hd_type = t, hd_held = v\<rparr> s in set_content x (Some p) s1)"

definition any_copy :: "'x \<Rightarrow> 'x \<Rightarrow> ('x, 't, 'v) any_state \<Rightarrow> ('x, 't, 'v) any_state res" where
  "any_copy x other s =
     rbind (deref (an_content s) (Some other)) (\<lambda>c. case c of
         None \<Rightarrow> Inr (set_content x None s)
       | Some p \<Rightarrow> rbind (clone p s) (\<lambda>(q, s1). Inr (set_content x (Some q) s1)))"

text \<open>Assignment from a variable that may change exchanges the two.\<close>

definition any_swap :: "'x \<Rightarrow> 'x \<Rightarrow> ('x, 't, 'v) any_state \<Rightarrow> ('x, 't, 'v) any_state res" where
  "any_swap x rhs s =
     rbind (deref (an_content s) (Some x)) (\<lambda>c. rbind (deref (an_content s) (Some rhs)) (\<lambda>d.
     Inr (set_content rhs c (set_content x d s))))"

definition any_assign :: "'x \<Rightarrow> 'x \<Rightarrow> ('x, 't, 'v) any_state \<Rightarrow> ('x, 't, 'v) any_state res" where
  "any_assign x other s = any_swap x other s"

text \<open>Assignment from a constant one clones its holder and forgets its own.\<close>

definition any_assign_const :: "'x \<Rightarrow> 'x \<Rightarrow> ('x, 't, 'v) any_state \<Rightarrow> ('x, 't, 'v) any_state res" where
  "any_assign_const x other s =
     rbind (deref (an_content s) (Some x)) (\<lambda>_. rbind (deref (an_content s) (Some other)) (\<lambda>c.
     case c of None \<Rightarrow> Inl NullDeref
     | Some p \<Rightarrow> rbind (clone p s) (\<lambda>(q, s1). Inr (set_content x (Some q) s1))))"

text \<open>\<open>None\<close> is the type \<^verbatim>\<open>void\<close> of an empty variable.\<close>

definition any_type :: "'x \<Rightarrow> ('x, 't, 'v) any_state \<Rightarrow> 't option res" where
  "any_type x s =
     rbind (deref (an_content s) (Some x)) (\<lambda>c. case c of
         None \<Rightarrow> Inr None
       | Some p \<Rightarrow> rbind (deref (an_holders s) (Some p)) (\<lambda>h. Inr (Some (hd_type h))))"

definition any_destroy :: "'x \<Rightarrow> ('x, 't, 'v) any_state \<Rightarrow> ('x, 't, 'v) any_state res" where
  "any_destroy x s =
     rbind (deref (an_content s) (Some x)) (\<lambda>c.
     let s1 = s\<lparr>an_content := (an_content s)(x := None)\<rparr> in
     case c of None \<Rightarrow> Inr s1
     | Some p \<Rightarrow> rbind (deref (an_holders s) (Some p)) (\<lambda>h. Inr (s1\<lparr>an_holders := (an_holders s)(p := None)\<rparr>)))"

text \<open>\<^verbatim>\<open>any_cast\<close> gives the value its pointer points to.\<close>

definition any_cast :: "'t \<Rightarrow> 'x option \<Rightarrow> ('x, 't, 'v) any_state \<Rightarrow> 'v res" where
  "any_cast t operand s =
     (case operand of None \<Rightarrow> Inl NullDeref
      | Some x \<Rightarrow> rbind (any_type x s) (\<lambda>u. assert_that (u = Some t)
          (rbind (deref (an_content s) (Some x)) (\<lambda>c. rbind (deref (an_holders s) c) (\<lambda>h. Inr (hd_held h))))))"

subsection \<open>Variables that have values\<close>

datatype ('x, 't, 'v) any_op =
    Empty 'x | Of 'x 't 'v | Copy 'x 'x | Assign 'x 'x | AssignConst 'x 'x | Destroy 'x

fun any_do :: "('x, 't, 'v) any_op \<Rightarrow> ('x, 't, 'v) any_state \<Rightarrow> ('x, 't, 'v) any_state res" where
  "any_do (Empty x) s = Inr (any_empty x s)"
| "any_do (Of x t v) s = Inr (any_of x t v s)"
| "any_do (Copy x y) s = any_copy x y s"
| "any_do (Assign x y) s = any_assign x y s"
| "any_do (AssignConst x y) s = any_assign_const x y s"
| "any_do (Destroy x) s = any_destroy x s"

text \<open>A constructor makes a variable that did not exist.\<close>

fun makes :: "('x, 't, 'v) any_op \<Rightarrow> 'x set" where
  "makes (Empty x) = {x}" | "makes (Of x t v) = {x}" | "makes (Copy x y) = {x}"
| "makes (Assign x y) = {}" | "makes (AssignConst x y) = {}" | "makes (Destroy x) = {}"

text \<open>What the operations do to the values, where a variable may be empty.\<close>

type_synonym ('x, 't, 'v) valuation = "'x \<rightharpoonup> ('t, 'v) holder option"

fun value_do :: "('x, 't, 'v) any_op \<Rightarrow> ('x, 't, 'v) valuation \<Rightarrow> ('x, 't, 'v) valuation res" where
  "value_do (Empty x) m = Inr (m(x \<mapsto> None))"
| "value_do (Of x t v) m = Inr (m(x \<mapsto> Some \<lparr>hd_type = t, hd_held = v\<rparr>))"
| "value_do (Copy x y) m = rbind (deref m (Some y)) (\<lambda>v. Inr (m(x \<mapsto> v)))"
| "value_do (Assign x y) m =
     rbind (deref m (Some x)) (\<lambda>v. rbind (deref m (Some y)) (\<lambda>w. Inr (m(x \<mapsto> w, y \<mapsto> v))))"
| "value_do (AssignConst x y) m =
     rbind (deref m (Some x)) (\<lambda>_. rbind (deref m (Some y)) (\<lambda>w. if w = None then Inl NullDeref else Inr (m(x \<mapsto> w))))"
| "value_do (Destroy x) m = rbind (deref m (Some x)) (\<lambda>_. Inr (m(x := None)))"

fun held_by :: "(nat \<rightharpoonup> ('t, 'v) holder) \<Rightarrow> nat option \<Rightarrow> ('t, 'v) holder option" where
  "held_by m None = None"
| "held_by m (Some p) = m p"

definition values_of :: "('x, 't, 'v) any_state \<Rightarrow> ('x, 't, 'v) valuation" where
  "values_of s x = map_option (held_by (an_holders s)) (an_content s x)"

text \<open>Every pointer is to a holder, which is no other variable's.\<close>

definition any_ok :: "('x, 't, 'v) any_state \<Rightarrow> bool" where
  "any_ok s \<longleftrightarrow> (\<forall>x p. an_content s x = Some (Some p) \<longrightarrow> p \<in> dom (an_holders s)) \<and>
     (\<forall>x y p. an_content s x = Some (Some p) \<and> an_content s y = Some (Some p) \<longrightarrow> x = y) \<and>
     (\<forall>p \<in> dom (an_holders s). p < an_fresh s)"

subsection \<open>The refinement\<close>

lemma any_okI:
  "(\<And>x p. an_content s x = Some (Some p) \<Longrightarrow> \<exists>h. an_holders s p = Some h) \<Longrightarrow>
   (\<And>x y p. an_content s x = Some (Some p) \<Longrightarrow> an_content s y = Some (Some p) \<Longrightarrow> x = y) \<Longrightarrow>
   (\<And>p h. an_holders s p = Some h \<Longrightarrow> p < an_fresh s) \<Longrightarrow> any_ok s"
  by (auto simp: any_ok_def)

lemma any_okD:
  assumes "any_ok s"
  shows "an_content s x = Some (Some p) \<Longrightarrow> \<exists>h. an_holders s p = Some h"
    "an_content s x = Some (Some p) \<Longrightarrow> an_content s y = Some (Some p) \<Longrightarrow> x = y"
    "an_holders s p = Some h \<Longrightarrow> p < an_fresh s"
    "an_content s x \<noteq> Some (Some (an_fresh s))" "an_holders s (an_fresh s) = None"
  using assms unfolding any_ok_def by blast+

lemma values_set_content: "values_of (set_content x c s) = (values_of s)(x \<mapsto> held_by (an_holders s) c)"
  by (simp add: fun_eq_iff values_of_def set_content_def)

lemma values_of_None: "values_of s x = None \<longleftrightarrow> an_content s x = None"
  by (simp add: values_of_def)

text \<open>A variable gets a holder of its own, or none; a variable goes with its holder.\<close>

lemma values_new_holder: "any_ok s \<Longrightarrow> values_of (snd (new_holder h s)) = values_of s"
proof
  fix x assume ok: "any_ok s"
  show "values_of (snd (new_holder h s)) x = values_of s x"
  proof (cases "an_content s x")
    case (Some c)
    then show ?thesis using any_okD(4) [OF ok, of x] by (cases c) (auto simp: values_of_def new_holder_def)
  qed (simp add: values_of_def new_holder_def)
qed

lemma any_ok_own:
  assumes ok: "any_ok s"
  shows "any_ok (set_content x (Some (an_fresh s)) (snd (new_holder h s)))"
    "values_of (set_content x (Some (an_fresh s)) (snd (new_holder h s))) = (values_of s)(x \<mapsto> Some h)"
proof -
  show "any_ok (set_content x (Some (an_fresh s)) (snd (new_holder h s)))"
    by (rule any_okI) (auto simp: set_content_def new_holder_def any_okD(4) [OF ok] dest: any_okD(1-3) [OF ok]
        split: if_splits intro: less_SucI)
  show "values_of (set_content x (Some (an_fresh s)) (snd (new_holder h s))) = (values_of s)(x \<mapsto> Some h)"
    unfolding values_set_content values_new_holder [OF ok] by (simp add: new_holder_def)
qed

lemma any_ok_none:
  "any_ok s \<Longrightarrow> any_ok (set_content x None s)" "values_of (set_content x None s) = (values_of s)(x \<mapsto> None)"
  by (auto simp: any_ok_def set_content_def) (simp add: values_set_content [unfolded set_content_def])

lemma fst_new_holder [simp]: "fst (new_holder h s) = an_fresh s"
  by (simp add: new_holder_def)

text \<open>Exchanging two pointers exchanges the values.\<close>

lemma swap_ok:
  assumes ok: "any_ok s" and c: "an_content s x = Some c" "an_content s y = Some d"
  shows "any_ok (set_content y c (set_content x d s))"
    "values_of (set_content y c (set_content x d s)) = (values_of s)(x := values_of s y, y := values_of s x)"
proof -
  show "any_ok (set_content y c (set_content x d s))"
    using c by (intro any_okI) (auto simp: set_content_def dest: any_okD(1-3) [OF ok] split: if_splits)
  show "values_of (set_content y c (set_content x d s)) = (values_of s)(x := values_of s y, y := values_of s x)"
    unfolding values_set_content using c by (simp add: values_of_def set_content_def)
qed

lemma destroy_ok:
  assumes ok: "any_ok s" and c: "an_content s x = Some c"
  shows "\<exists>s'. any_destroy x s = Inr s' \<and> any_ok s' \<and> values_of s' = (values_of s)(x := None)"
proof (cases c)
  case None
  let ?s = "s\<lparr>an_content := (an_content s)(x := None)\<rparr>"
  have "any_ok ?s" using ok unfolding any_ok_def by simp
  moreover have "values_of ?s = (values_of s)(x := None)" by (simp add: values_of_def fun_eq_iff)
  ultimately show ?thesis using c None by (simp add: any_destroy_def Let_def deref_def)
next
  case (Some p)
  then obtain h where h: "an_holders s p = Some h" using any_okD(1) [OF ok] c by blast
  let ?s = "s\<lparr>an_content := (an_content s)(x := None), an_holders := (an_holders s)(p := None)\<rparr>"
  have only: "an_content s y = Some (Some p) \<Longrightarrow> y = x" for y using any_okD(2) [OF ok] c Some by blast
  have "any_destroy x s = Inr ?s" using c Some h by (simp add: any_destroy_def deref_def Let_def)
  moreover have "any_ok ?s"
    by (rule any_okI) (auto dest: any_okD(1-3) [OF ok] only split: if_splits)
  moreover have "values_of ?s y = ((values_of s)(x := None)) y" for y
  proof (cases "an_content s y")
    case (Some d)
    then show ?thesis using only [of y] by (cases d) (auto simp: values_of_def)
  qed (simp add: values_of_def)
  ultimately show ?thesis by blast
qed

lemma deref_value:
  "an_content s x = Some c \<Longrightarrow> deref (values_of s) (Some x) = Inr (held_by (an_holders s) c)"
  "an_content s x = None \<Longrightarrow> deref (values_of s) (Some x) = Inl NullDeref"
  "an_content s x = Some c \<Longrightarrow> deref (an_content s) (Some x) = Inr c"
  "an_content s x = None \<Longrightarrow> deref (an_content s) (Some x) = Inl NullDeref"
  by (simp_all add: deref_def values_of_def)

text \<open>The two ways to copy.\<close>

lemma copy_ok:
  assumes ok: "any_ok s" and y: "an_content s y = Some (Some p)"
  shows "\<exists>h s'. clone p s = Inr (an_fresh s, s') \<and> held_by (an_holders s) (Some p) = Some h \<and>
    any_ok (set_content x (Some (an_fresh s)) s') \<and>
    values_of (set_content x (Some (an_fresh s)) s') = (values_of s)(x \<mapsto> Some h)"
proof -
  obtain h where "an_holders s p = Some h" using any_okD(1) [OF ok y] by blast
  then show ?thesis using any_ok_own [OF ok, of x h]
    by (intro exI [of _ h] exI [of _ "snd (new_holder h s)"]) (simp add: clone_def deref_def prod_eq_iff)
qed

text \<open>C32. Variables of type \<^verbatim>\<open>any\<close> are variables that have values: every operation on the pointers does what
  the same operation does on values and fails where it fails, and no two variables ever share a
  holder. Assignment from a variable that is not constant exchanges the two values; assignment from an
  empty constant one fails.\<close>

theorem any_refines_values:
  assumes ok: "any_ok s" and new: "\<forall>x \<in> makes f. an_content s x = None"
  shows "case any_do f s of
      Inl e \<Rightarrow> value_do f (values_of s) = Inl e
    | Inr s' \<Rightarrow> value_do f (values_of s) = Inr (values_of s') \<and> any_ok s'"
proof (cases f)
  case (Empty x)
  then show ?thesis using any_ok_none(1) [OF ok] by (simp add: any_empty_def any_ok_none(2))
next
  case (Of x t v)
  then show ?thesis using any_ok_own [OF ok, of x "\<lparr>hd_type = t, hd_held = v\<rparr>"]
    by (simp add: any_of_def split_beta)
next
  case (Copy x y)
  show ?thesis
  proof (cases "an_content s y")
    case None
    then show ?thesis using Copy by (simp add: any_copy_def deref_value)
  next
    case y: (Some c)
    show ?thesis
    proof (cases c)
      case None
      then show ?thesis using Copy y any_ok_none(1) [OF ok, of x]
        by (simp add: any_copy_def deref_value any_ok_none(2) del: rbind_Inr_iff)
    next
      case (Some p)
      with y have y': "an_content s y = Some (Some p)" by simp
      obtain h s' where "clone p s = Inr (an_fresh s, s')" "held_by (an_holders s) (Some p) = Some h"
        "any_ok (set_content x (Some (an_fresh s)) s')"
        "values_of (set_content x (Some (an_fresh s)) s') = (values_of s)(x \<mapsto> Some h)"
        using copy_ok [OF ok y'] by blast
      then show ?thesis using Copy y' by (simp add: any_copy_def deref_value del: rbind_Inr_iff)
    qed
  qed
next
  case (Assign x y)
  show ?thesis
  proof (cases "an_content s x = None \<or> an_content s y = None")
    case True
    then show ?thesis using Assign
      by (cases "an_content s x") (auto simp: any_assign_def any_swap_def deref_value)
  next
    case False
    then obtain c d where c: "an_content s x = Some c" "an_content s y = Some d" by auto
    have "(values_of s)(x := values_of s y, y := values_of s x) =
        (values_of s)(x \<mapsto> held_by (an_holders s) d, y \<mapsto> held_by (an_holders s) c)"
      using c by (simp add: values_of_def)
    then show ?thesis using Assign c swap_ok [OF ok c]
      by (simp add: any_assign_def any_swap_def deref_value del: rbind_Inr_iff)
  qed
next
  case (AssignConst x y)
  show ?thesis
  proof (cases "an_content s x = None \<or> an_content s y = None \<or> an_content s y = Some None")
    case True
    then show ?thesis using AssignConst
      by (cases "an_content s x"; cases "an_content s y") (auto simp: any_assign_const_def deref_value)
  next
    case False
    then obtain c p where c: "an_content s x = Some c" "an_content s y = Some (Some p)" by (metis not_Some_eq)
    obtain h s' where "clone p s = Inr (an_fresh s, s')" "held_by (an_holders s) (Some p) = Some h"
      "any_ok (set_content x (Some (an_fresh s)) s')"
      "values_of (set_content x (Some (an_fresh s)) s') = (values_of s)(x \<mapsto> Some h)"
      using copy_ok [OF ok c(2)] by blast
    then show ?thesis using AssignConst c by (simp add: any_assign_const_def deref_value del: rbind_Inr_iff)
  qed
next
  case (Destroy x)
  show ?thesis
  proof (cases "an_content s x")
    case None
    then show ?thesis using Destroy by (simp add: any_destroy_def deref_value)
  next
    case (Some c)
    then show ?thesis using Destroy destroy_ok [OF ok Some] by (auto simp: deref_value simp del: rbind_Inr_iff)
  qed
qed

theorem any_refines_values_witness:
  "let s = any_of ''a'' ''int'' (7 :: int) (any_of ''b'' ''int'' 8 \<lparr>an_holders = Map.empty, an_content = Map.empty, an_fresh = 0\<rparr>)
   in \<exists>s'. any_do (Assign ''a'' ''b'') s = Inr s' \<and> any_ok s' \<and>
     values_of s' ''b'' = Some (Some \<lparr>hd_type = ''int'', hd_held = 7\<rparr>)"
proof -
  let ?e = "\<lparr>an_holders = Map.empty, an_content = Map.empty, an_fresh = 0\<rparr> :: (string, string, int) any_state"
  let ?s = "any_of ''a'' ''int'' 7 (any_of ''b'' ''int'' 8 ?e)"
  have e: "any_ok ?e" "values_of ?e = Map.empty" by (simp_all add: any_ok_def values_of_def fun_eq_iff)
  note b = any_ok_own [OF e(1), of "''b''" "\<lparr>hd_type = ''int'', hd_held = 8\<rparr>"]
  note a = any_ok_own [OF b(1), of "''a''" "\<lparr>hd_type = ''int'', hd_held = 7\<rparr>"]
  have s: "any_ok ?s" "values_of ?s = [''b'' \<mapsto> Some \<lparr>hd_type = ''int'', hd_held = 8\<rparr>, ''a'' \<mapsto> Some \<lparr>hd_type = ''int'', hd_held = 7\<rparr>]"
    using a b e(2) by (simp_all add: any_of_def split_beta set_content_def new_holder_def)
  have n: "\<forall>x \<in> makes (Assign ''a'' ''b'' :: (string, string, int) any_op). an_content ?s x = None" by simp
  obtain s' where "any_do (Assign ''a'' ''b'') ?s = Inr s'"
    by (auto simp: any_assign_def any_swap_def any_of_def set_content_def new_holder_def deref_def)
  with any_refines_values [OF s(1) n] s(2) have "any_ok s'"
    "values_of s' = (values_of ?s)(''a'' := values_of ?s ''b'', ''b'' := values_of ?s ''a'')"
    by (auto simp: deref_def)
  then show ?thesis using \<open>any_do (Assign ''a'' ''b'') ?s = Inr s'\<close> s(2) unfolding Let_def by auto
qed

text \<open>Assignment from a constant variable leaves the holder of the variable behind: it is in the store,
  and no variable points to it.\<close>

lemma const_assignment_leaks:
  assumes ok: "any_ok s" and x: "an_content s x = Some (Some p)" and y: "an_content s y = Some (Some q)"
  shows "\<exists>s'. any_assign_const x y s = Inr s' \<and> p \<in> dom (an_holders s') \<and> (\<forall>z. an_content s' z \<noteq> Some (Some p))"
proof -
  obtain h where h: "an_holders s q = Some h" using any_okD(1) [OF ok y] by blast
  obtain k where k: "an_holders s p = Some k" using any_okD(1) [OF ok x] by blast
  have "p \<noteq> an_fresh s" using any_okD(3) [OF ok k] by simp
  moreover have "an_content s z = Some (Some p) \<Longrightarrow> z = x" for z using any_okD(2) [OF ok x] by blast
  moreover have "any_assign_const x y s = Inr (set_content x (Some (an_fresh s)) (snd (new_holder h s)))"
    using x y h by (simp add: any_assign_const_def deref_def clone_def split_beta)
  ultimately show ?thesis using k by (auto simp: new_holder_def set_content_def)
qed

end
