(* ===== verification/LoopThread.thy ===== *)
theory LoopThread
  imports Prelude
begin

text \<open>
  \<^verbatim>\<open>EventLoopThread\<close>: a thread with a loop of its own, and the thread that owns it. The two agree through
  three promises and a once-flag; a step is one access to what they share. Of the loop, which has its
  own theories, there is its \<^verbatim>\<open>quit_\<close>, which \<^verbatim>\<open>loop\<close> clears when it starts, the places of its rounds, and
  whether the functor of the handshake is queued. \<open>quits\<close> says whether the owner calls \<^verbatim>\<open>quit\<close> on the
  loop itself. A call on a loop that is destroyed is undefined behaviour: it leads the owner to
  \<open>Undefined\<close>, from where no thread has a step.
\<close>

datatype loop_place =
    Constructed | FunctorQueued | AwaitRun | LoopStart | AtTest | InPoll | InPending | LoopLeft | PointerCleared | Ended

datatype owner_place =
    Constructing | Free | Waiting | RunSet bool | RunWait bool | DtorTest | AtQuit bool | AtWakeup bool | Joining | Gone | Undefined

record loop_thread =
  et_loop :: bool
  et_promiseForLoopPointer :: bool
  et_promiseForRun :: bool
  et_promiseForLoop :: bool
  et_once :: bool
  et_quit :: bool
  et_queued :: bool
  et_alive :: bool
  et_joinable :: bool
  et_place :: loop_place
  et_owner :: owner_place

definition EventLoopThread :: loop_thread where
  "EventLoopThread = \<lparr>et_loop = False, et_promiseForLoopPointer = False, et_promiseForRun = False,
     et_promiseForLoop = False, et_once = False, et_quit = False, et_queued = False, et_alive = True, et_joinable = True,
     et_place = Constructed, et_owner = Constructing\<rparr>"

text \<open>One step of \<^verbatim>\<open>loopFuncs\<close>; \<open>None\<close> when it has to wait or is over.\<close>

fun loopFuncs_step :: "loop_place \<Rightarrow> loop_thread \<Rightarrow> loop_thread option" where
  "loopFuncs_step Constructed s = Some (s\<lparr>et_queued := True, et_place := FunctorQueued\<rparr>)"
| "loopFuncs_step FunctorQueued s = Some (s\<lparr>et_promiseForLoopPointer := True, et_place := AwaitRun\<rparr>)"
| "loopFuncs_step AwaitRun s = (if et_promiseForRun s then Some (s\<lparr>et_place := LoopStart\<rparr>) else None)"
| "loopFuncs_step LoopStart s = Some (s\<lparr>et_quit := False, et_place := AtTest\<rparr>)"
| "loopFuncs_step AtTest s = Some (s\<lparr>et_place := (if et_quit s then LoopLeft else InPoll)\<rparr>)"
| "loopFuncs_step InPoll s = Some (s\<lparr>et_place := InPending\<rparr>)"
| "loopFuncs_step InPending s =
     Some (if et_queued s then s\<lparr>et_promiseForLoop := True, et_queued := False, et_place := AtTest\<rparr>
       else s\<lparr>et_place := AtTest\<rparr>)"
| "loopFuncs_step LoopLeft s = Some (s\<lparr>et_loop := False, et_place := PointerCleared\<rparr>)"
| "loopFuncs_step PointerCleared s = Some (s\<lparr>et_alive := False, et_place := Ended\<rparr>)"
| "loopFuncs_step Ended s = None"

text \<open>\<^verbatim>\<open>run\<close>, called by the owner or by the destructor, which goes on with the test of the pointer.\<close>

definition thread_run :: "bool \<Rightarrow> loop_thread \<Rightarrow> loop_thread" where
  "thread_run dtor s =
     (if et_once s then s\<lparr>et_owner := (if dtor then DtorTest else Free)\<rparr>
      else s\<lparr>et_once := True, et_owner := RunSet dtor\<rparr>)"

text \<open>The steps of the owner that are not its choice.\<close>

fun owner_step :: "owner_place \<Rightarrow> loop_thread \<Rightarrow> loop_thread option" where
  "owner_step Constructing s =
     (if et_promiseForLoopPointer s then Some (s\<lparr>et_loop := True, et_owner := Free\<rparr>) else None)"
| "owner_step Free s = None"
| "owner_step Waiting s = (if et_place s = Ended then Some (s\<lparr>et_joinable := False, et_owner := Free\<rparr>) else None)"
| "owner_step (RunSet d) s = Some (s\<lparr>et_promiseForRun := True, et_owner := RunWait d\<rparr>)"
| "owner_step (RunWait d) s =
     (if et_promiseForLoop s then Some (s\<lparr>et_owner := (if d then DtorTest else Free)\<rparr>) else None)"
| "owner_step DtorTest s = Some (s\<lparr>et_owner := (if et_loop s then AtQuit True else Joining)\<rparr>)"
| "owner_step (AtQuit d) s =
     Some (if et_alive s then s\<lparr>et_quit := True, et_owner := AtWakeup d\<rparr> else s\<lparr>et_owner := Undefined\<rparr>)"
| "owner_step (AtWakeup d) s =
     Some (s\<lparr>et_owner := (if \<not> et_alive s then Undefined else if d then Joining else Free)\<rparr>)"
| "owner_step Joining s = (if et_joinable s \<and> et_place s \<noteq> Ended then None else Some (s\<lparr>et_joinable := False, et_owner := Gone\<rparr>))"
| "owner_step Gone s = None"
| "owner_step Undefined s = None"

inductive thread_step :: "bool \<Rightarrow> loop_thread \<Rightarrow> loop_thread \<Rightarrow> bool" for quits where
  loop_goes: "et_owner s \<noteq> Undefined \<Longrightarrow> loopFuncs_step (et_place s) s = Some s' \<Longrightarrow> thread_step quits s s'"
| owner_goes: "owner_step (et_owner s) s = Some s' \<Longrightarrow> thread_step quits s s'"
| calls_run: "et_owner s = Free \<Longrightarrow> thread_step quits s (thread_run False s)"
| calls_dtor: "et_owner s = Free \<Longrightarrow> thread_step quits s (thread_run True s)"
| calls_wait: "et_owner s = Free \<Longrightarrow> et_joinable s \<Longrightarrow> thread_step quits s (s\<lparr>et_owner := Waiting\<rparr>)"
| calls_quit: "quits \<Longrightarrow> et_owner s = Free \<Longrightarrow> et_loop s \<Longrightarrow> thread_step quits s (s\<lparr>et_owner := AtQuit False\<rparr>)"

inductive_cases thread_stepE: "thread_step quits s s'"

inductive thread_reach :: "bool \<Rightarrow> loop_thread \<Rightarrow> bool" for quits where
  thread_new: "thread_reach quits EventLoopThread"
| thread_more: "thread_reach quits s \<Longrightarrow> thread_step quits s s' \<Longrightarrow> thread_reach quits s'"

subsection \<open>Without other calls of \<^verbatim>\<open>quit\<close>\<close>

abbreviation (input) in_rounds :: "loop_place \<Rightarrow> bool" where
  "in_rounds p \<equiv> p = AtTest \<or> p = InPoll \<or> p = InPending"

abbreviation (input) loop_over :: "loop_place \<Rightarrow> bool" where
  "loop_over p \<equiv> p = LoopLeft \<or> p = PointerCleared \<or> p = Ended"

text \<open>What each place of the loop thread, and each of the owner, says of the rest.\<close>

fun place_ok :: "loop_place \<Rightarrow> loop_thread \<Rightarrow> bool" where
  "place_ok Constructed s \<longleftrightarrow> \<not> et_promiseForLoopPointer s \<and> \<not> et_promiseForLoop s \<and> \<not> et_queued s"
| "place_ok FunctorQueued s \<longleftrightarrow> \<not> et_promiseForLoopPointer s \<and> \<not> et_promiseForLoop s \<and> et_queued s"
| "place_ok AwaitRun s \<longleftrightarrow> et_promiseForLoopPointer s \<and> \<not> et_promiseForLoop s \<and> et_queued s"
| "place_ok LoopStart s \<longleftrightarrow> et_promiseForLoopPointer s \<and> et_promiseForRun s \<and> \<not> et_promiseForLoop s \<and> et_queued s"
| "place_ok LoopLeft s \<longleftrightarrow> et_promiseForLoopPointer s \<and> et_promiseForRun s \<and> et_promiseForLoop s \<and> \<not> et_queued s \<and> et_quit s"
| "place_ok PointerCleared s \<longleftrightarrow> et_promiseForLoopPointer s \<and> et_promiseForRun s \<and> et_promiseForLoop s \<and> \<not> et_queued s \<and> et_quit s"
| "place_ok Ended s \<longleftrightarrow> et_promiseForLoopPointer s \<and> et_promiseForRun s \<and> et_promiseForLoop s \<and> \<not> et_queued s \<and> et_quit s"
| "place_ok _ s \<longleftrightarrow> et_promiseForLoopPointer s \<and> et_promiseForRun s \<and> (et_queued s \<longleftrightarrow> \<not> et_promiseForLoop s)"

fun owner_ok :: "owner_place \<Rightarrow> loop_thread \<Rightarrow> bool" where
  "owner_ok Constructing s \<longleftrightarrow> \<not> et_once s \<and> \<not> et_promiseForRun s \<and> \<not> et_loop s \<and> \<not> et_quit s"
| "owner_ok Free s \<longleftrightarrow> et_promiseForLoopPointer s \<and> (et_once s \<longleftrightarrow> et_promiseForLoop s) \<and>
     (et_promiseForRun s \<longleftrightarrow> et_once s) \<and> et_loop s \<and> \<not> et_quit s"
| "owner_ok Waiting s \<longleftrightarrow> et_promiseForLoopPointer s \<and> (et_once s \<longleftrightarrow> et_promiseForLoop s) \<and>
     (et_promiseForRun s \<longleftrightarrow> et_once s) \<and> et_loop s \<and> \<not> et_quit s"
| "owner_ok (RunSet d) s \<longleftrightarrow> et_promiseForLoopPointer s \<and> et_once s \<and> \<not> et_promiseForRun s \<and> et_loop s \<and> \<not> et_quit s"
| "owner_ok (RunWait d) s \<longleftrightarrow> et_promiseForLoopPointer s \<and> et_once s \<and> et_promiseForRun s \<and> et_loop s \<and> \<not> et_quit s"
| "owner_ok DtorTest s \<longleftrightarrow> et_once s \<and> et_promiseForLoop s \<and> et_loop s \<and> \<not> et_quit s"
| "owner_ok (AtQuit d) s \<longleftrightarrow> d \<and> et_once s \<and> et_promiseForLoop s \<and> et_loop s \<and> \<not> et_quit s"
| "owner_ok (AtWakeup d) s \<longleftrightarrow> d \<and> et_once s \<and> et_promiseForLoop s \<and> et_quit s"
| "owner_ok Joining s \<longleftrightarrow> et_once s \<and> et_promiseForLoop s \<and> et_quit s"
| "owner_ok Gone s \<longleftrightarrow> et_place s = Ended"
| "owner_ok Undefined s \<longleftrightarrow> et_quit s \<and> et_place s = Ended"

definition thread_inv :: "loop_thread \<Rightarrow> bool" where
  "thread_inv s \<longleftrightarrow> place_ok (et_place s) s \<and> owner_ok (et_owner s) s \<and>
     (et_alive s \<longleftrightarrow> et_place s \<noteq> Ended) \<and>
     (et_joinable s \<longleftrightarrow> et_owner s \<noteq> Gone)"

lemma thread_step_inv: "thread_step False s s' \<Longrightarrow> thread_inv s \<Longrightarrow> thread_inv s'"
proof (induction rule: thread_step.induct)
  case (loop_goes s s')
  then show ?case
    by (cases "et_place s"; cases "et_owner s") (auto simp: thread_inv_def split: if_splits)
next
  case (owner_goes s s')
  then show ?case
    by (cases "et_owner s"; cases "et_place s") (auto simp: thread_inv_def split: if_splits)
next
  case (calls_run s)
  then show ?case by (cases "et_place s") (auto simp: thread_inv_def thread_run_def)
next
  case (calls_dtor s)
  then show ?case by (cases "et_place s") (auto simp: thread_inv_def thread_run_def)
next
  case (calls_wait s)
  then show ?case by (cases "et_place s") (auto simp: thread_inv_def)
qed simp

lemma thread_reach_inv: "thread_reach False s \<Longrightarrow> thread_inv s"
proof (induction rule: thread_reach.induct)
  case thread_new
  then show ?case by (simp add: thread_inv_def EventLoopThread_def)
qed (rule thread_step_inv)

subsection \<open>The handshake\<close>

fun in_dtor :: "owner_place \<Rightarrow> bool" where
  "in_dtor (RunSet d) = d" | "in_dtor (RunWait d) = d" | "in_dtor DtorTest = True" | "in_dtor (AtQuit d) = d"
| "in_dtor (AtWakeup d) = d" | "in_dtor Joining = True" | "in_dtor Gone = True" | "in_dtor Undefined = True"
| "in_dtor _ = False"

definition dtor_over :: "owner_place \<Rightarrow> bool" where "dtor_over p \<longleftrightarrow> p = Gone \<or> p = Undefined"

fun owner_left :: "owner_place \<Rightarrow> nat" where
  "owner_left (RunSet d) = 6" | "owner_left (RunWait d) = 5" | "owner_left DtorTest = 4" | "owner_left (AtQuit d) = 3"
| "owner_left (AtWakeup d) = 2" | "owner_left Joining = 1" | "owner_left _ = 0"

fun loop_left :: "bool \<Rightarrow> loop_place \<Rightarrow> nat" where
  "loop_left looped Constructed = 10" | "loop_left looped FunctorQueued = 9" | "loop_left looped AwaitRun = 8"
| "loop_left looped LoopStart = 7" | "loop_left looped AtTest = (if looped then 3 else 6)"
| "loop_left looped InPoll = 5" | "loop_left looped InPending = 4" | "loop_left looped LoopLeft = 2"
| "loop_left looped PointerCleared = 1" | "loop_left looped Ended = 0"

text \<open>What is left to do until the destructor returns.\<close>

definition work_left :: "loop_thread \<Rightarrow> nat" where
  "work_left s = 12 * owner_left (et_owner s) + loop_left (et_promiseForLoop s) (et_place s)"

lemma loop_goes_left:
  assumes inv: "thread_inv s" and d: "in_dtor (et_owner s)" and st: "loopFuncs_step (et_place s) s = Some s'"
  shows "et_owner s' = et_owner s \<and> (work_left s' < work_left s \<or> (\<exists>s''. owner_step (et_owner s) s = Some s''))"
  using assms by (cases "et_place s"; cases "et_owner s") (auto simp: thread_inv_def work_left_def split: if_splits)

lemma owner_goes_left:
  assumes inv: "thread_inv s" and d: "in_dtor (et_owner s)" and st: "owner_step (et_owner s) s = Some s'"
  shows "in_dtor (et_owner s') \<and> work_left s' < work_left s"
  using assms by (cases "et_place s"; cases "et_owner s") (auto simp: thread_inv_def work_left_def split: if_splits)

lemma someone_goes:
  assumes inv: "thread_inv s" and d: "in_dtor (et_owner s)" "\<not> dtor_over (et_owner s)"
  shows "(\<exists>s'. owner_step (et_owner s) s = Some s') \<or> (\<exists>s'. loopFuncs_step (et_place s) s = Some s')"
  using assms by (cases "et_owner s"; cases "et_place s") (auto simp: thread_inv_def dtor_over_def)

lemma dtor_goes_left:
  assumes st: "thread_step False s s'" and inv: "thread_inv s" and d: "in_dtor (et_owner s)"
  shows "in_dtor (et_owner s') \<and> (work_left s' < work_left s \<or>
    et_owner s' = et_owner s \<and> (\<exists>s''. owner_step (et_owner s) s = Some s''))"
  using st
proof (rule thread_stepE)
  assume "loopFuncs_step (et_place s) s = Some s'"
  then show ?thesis using loop_goes_left [OF inv d] d by auto
next
  assume "owner_step (et_owner s) s = Some s'"
  then show ?thesis using owner_goes_left [OF inv d] by blast
qed (use d in auto)

text \<open>The owner first: a run in which the destructor comes to its end.\<close>

lemma dtor_run: "thread_reach False s \<Longrightarrow> in_dtor (et_owner s) \<Longrightarrow>
    \<exists>s'. (thread_step False)\<^sup>*\<^sup>* s s' \<and> dtor_over (et_owner s')"
proof (induction "work_left s" arbitrary: s rule: less_induct)
  case less
  have inv: "thread_inv s" by (rule thread_reach_inv [OF less(2)])
  show ?case
  proof (cases "dtor_over (et_owner s)")
    case False
    then have u: "et_owner s \<noteq> Undefined" by (auto simp: dtor_over_def)
    obtain s1 where s1: "thread_step False s s1" "in_dtor (et_owner s1)" "work_left s1 < work_left s"
    proof (cases "\<exists>s'. owner_step (et_owner s) s = Some s'")
      case True
      then show ?thesis using that owner_goes owner_goes_left [OF inv less(3)] by blast
    next
      case stays: False
      then obtain s1 where l: "loopFuncs_step (et_place s) s = Some s1" using someone_goes [OF inv less(3) False] by blast
      then show ?thesis using that [OF loop_goes [OF u l]] loop_goes_left [OF inv less(3) l] stays less(3) by simp
    qed
    obtain s' where "(thread_step False)\<^sup>*\<^sup>* s1 s'" "dtor_over (et_owner s')"
      using less(1) [OF s1(3) thread_more [OF less(2) s1(1)] s1(2)] by blast
    then show ?thesis using s1(1) by (blast intro: converse_rtranclp_into_rtranclp)
  qed blast
qed


text \<open>Runs in which the two threads take turns; \<open>True\<close> is a step of the loop thread.\<close>

fun turns :: "bool list \<Rightarrow> loop_thread \<Rightarrow> loop_thread option" where
  "turns [] s = Some s"
| "turns (b # bs) s =
     (case (if b then if et_owner s = Undefined then None else loopFuncs_step (et_place s) s else owner_step (et_owner s) s) of
        None \<Rightarrow> None | Some s' \<Rightarrow> turns bs s')"

lemma turns_reach: "turns bs s = Some s' \<Longrightarrow> thread_reach quits s \<Longrightarrow> thread_reach quits s'"
proof (induction bs arbitrary: s)
  case (Cons b bs)
  then obtain s1 where s1: "(if b then if et_owner s = Undefined then None else loopFuncs_step (et_place s) s
      else owner_step (et_owner s) s) = Some s1"
    "turns bs s1 = Some s'"
    by (auto split: option.splits)
  have "thread_step quits s s1"
  proof (cases b)
    case True
    then show ?thesis using s1(1) by (auto intro: loop_goes split: if_splits)
  qed (use s1(1) owner_goes in simp)
  then show ?case using Cons(1) [OF s1(2)] thread_more Cons(3) by blast
qed simp

text \<open>The destructor is called at once; the thread begins its loop and meets the \<^verbatim>\<open>quit_\<close> of the destructor.\<close>

definition until_dtor :: "bool list" where "until_dtor = [True, True, False]"
definition until_quit :: "bool list" where
  "until_quit = [False, True, True, True, True, True, False, False, False]"

lemma early_dtor:
  "\<exists>s0 s. turns until_dtor EventLoopThread = Some s0 \<and> et_owner s0 = Free \<and>
     turns until_quit (thread_run True s0) = Some s \<and> et_owner s = AtWakeup True \<and> et_quit s \<and>
     et_alive s \<and> et_place s = AtTest \<and> work_left s = 27"
  by (simp add: until_dtor_def until_quit_def EventLoopThread_def thread_run_def work_left_def)

lemma early_dtor_reach:
  obtains s where "thread_reach quits s" "et_owner s = AtWakeup True" "et_quit s" "et_alive s" "et_place s = AtTest"
    "work_left s = 27"
  using early_dtor turns_reach [OF _ thread_new] turns_reach [OF _ thread_more [OF _ calls_dtor]] by metis


text \<open>The wake-up of \<^verbatim>\<open>quit\<close> can come after the loop has seen \<^verbatim>\<open>quit_\<close>, ended and been destroyed, as the comment in
  \<^verbatim>\<open>quit\<close> says; the destructor of the thread runs into that by itself.\<close>

lemma wakeup_after_end: "\<exists>s. thread_reach False s \<and> et_owner s = Undefined"
proof -
  obtain s where s: "thread_reach False s" "et_owner s = AtWakeup True" "et_quit s" "et_place s = AtTest"
    using early_dtor_reach by blast
  then have "\<exists>s'. turns [True, True, True, False] s = Some s' \<and> et_owner s' = Undefined" by simp
  then show ?thesis using turns_reach [OF _ s(1)] by blast
qed

end
