(* ===== verification/LoopThreads.thy ===== *)
theory LoopThreads
  imports LoopThread
begin

text \<open>
  \<^verbatim>\<open>EventLoopThreadPool\<close> as the owner of its threads: it makes them one after the other, and \<open>start\<close>,
  \<open>wait\<close> and the destructor go through them in order. The place of the owner is the index of the
  thread it is at and whether its call on that thread has begun. \<open>lp_started\<close> says that a \<open>start\<close> has
  returned. Choosing among the loops is in \<open>TcpServer\<close>.
\<close>

datatype loops_place =
    Making | AllFree | StartAt nat bool | WaitAt nat bool | DieAt nat bool | AllGone

record loops =
  lp_num :: nat
  lp_threads :: "loop_thread list"
  lp_at :: loops_place
  lp_started :: bool

definition loops_new :: "nat \<Rightarrow> loops" where
  "loops_new n = \<lparr>lp_num = n, lp_threads = [], lp_at = Making, lp_started = False\<rparr>"

definition owner_at :: "loops \<Rightarrow> nat \<Rightarrow> owner_place" where "owner_at s i = et_owner (lp_threads s ! i)"

definition set_thread :: "nat \<Rightarrow> loop_thread \<Rightarrow> loops \<Rightarrow> loops" where
  "set_thread i t s = s\<lparr>lp_threads := (lp_threads s)[i := t]\<rparr>"

inductive loops_step :: "loops \<Rightarrow> loops \<Rightarrow> bool" where
  make: "lp_at s = Making \<Longrightarrow> length (lp_threads s) < lp_num s \<Longrightarrow> \<forall>t \<in> set (lp_threads s). et_owner t = Free \<Longrightarrow>
    loops_step s (s\<lparr>lp_threads := lp_threads s @ [EventLoopThread]\<rparr>)"
| made: "lp_at s = Making \<Longrightarrow> length (lp_threads s) = lp_num s \<Longrightarrow> \<forall>t \<in> set (lp_threads s). et_owner t = Free \<Longrightarrow>
    loops_step s (s\<lparr>lp_at := AllFree\<rparr>)"
| thread_goes: "i < length (lp_threads s) \<Longrightarrow> owner_at s i \<noteq> Undefined \<Longrightarrow> loopFuncs_step (et_place (lp_threads s ! i)) (lp_threads s ! i) = Some t \<Longrightarrow>
    loops_step s (set_thread i t s)"
| owner_goes: "i < length (lp_threads s) \<Longrightarrow> owner_step (owner_at s i) (lp_threads s ! i) = Some t \<Longrightarrow>
    loops_step s (set_thread i t s)"
| start: "lp_at s = AllFree \<Longrightarrow> loops_step s (s\<lparr>lp_at := StartAt 0 False\<rparr>)"
| start_call: "lp_at s = StartAt i False \<Longrightarrow> i < lp_num s \<Longrightarrow>
    loops_step s ((set_thread i (thread_run False (lp_threads s ! i)) s)\<lparr>lp_at := StartAt i True\<rparr>)"
| start_next: "lp_at s = StartAt i True \<Longrightarrow> owner_at s i = Free \<Longrightarrow> loops_step s (s\<lparr>lp_at := StartAt (Suc i) False\<rparr>)"
| start_end: "lp_at s = StartAt (lp_num s) False \<Longrightarrow> loops_step s (s\<lparr>lp_at := AllFree, lp_started := True\<rparr>)"
| wait: "lp_at s = AllFree \<Longrightarrow> loops_step s (s\<lparr>lp_at := WaitAt 0 False\<rparr>)"
| wait_call: "lp_at s = WaitAt i False \<Longrightarrow> i < lp_num s \<Longrightarrow> et_joinable (lp_threads s ! i) \<Longrightarrow>
    loops_step s ((set_thread i ((lp_threads s ! i)\<lparr>et_owner := Waiting\<rparr>) s)\<lparr>lp_at := WaitAt i True\<rparr>)"
| wait_next: "lp_at s = WaitAt i True \<Longrightarrow> owner_at s i = Free \<Longrightarrow> loops_step s (s\<lparr>lp_at := WaitAt (Suc i) False\<rparr>)"
| wait_end: "lp_at s = WaitAt (lp_num s) False \<Longrightarrow> loops_step s (s\<lparr>lp_at := AllFree\<rparr>)"
| destroy: "lp_at s = AllFree \<Longrightarrow> loops_step s (s\<lparr>lp_at := DieAt 0 False\<rparr>)"
| die_call: "lp_at s = DieAt i False \<Longrightarrow> i < lp_num s \<Longrightarrow>
    loops_step s ((set_thread i (thread_run True (lp_threads s ! i)) s)\<lparr>lp_at := DieAt i True\<rparr>)"
| die_next: "lp_at s = DieAt i True \<Longrightarrow> owner_at s i = Gone \<Longrightarrow> loops_step s (s\<lparr>lp_at := DieAt (Suc i) False\<rparr>)"
| die_end: "lp_at s = DieAt (lp_num s) False \<Longrightarrow> loops_step s (s\<lparr>lp_at := AllGone\<rparr>)"

inductive loops_reach :: "nat \<Rightarrow> loops \<Rightarrow> bool" for n where
  loops_first: "loops_reach n (loops_new n)"
| loops_more: "loops_reach n s \<Longrightarrow> loops_step s s' \<Longrightarrow> loops_reach n s'"

subsection \<open>Where the owner is\<close>

text \<open>What the place of the pool says of the thread with an index.\<close>

fun index_ok :: "nat \<Rightarrow> loops_place \<Rightarrow> nat \<Rightarrow> loop_thread \<Rightarrow> bool" where
  "index_ok len Making j t \<longleftrightarrow> et_owner t = Free \<or> Suc j = len \<and> et_owner t = Constructing"
| "index_ok len AllFree j t \<longleftrightarrow> et_owner t = Free"
| "index_ok len (StartAt i b) j t \<longleftrightarrow> (et_owner t = Free \<or> b \<and> j = i \<and> et_owner t \<in> {RunSet False, RunWait False}) \<and>
     (j < i \<or> b \<and> j = i \<longrightarrow> et_once t)"
| "index_ok len (WaitAt i b) j t \<longleftrightarrow> et_owner t = Free \<or> b \<and> j = i \<and> et_owner t = Waiting"
| "index_ok len (DieAt i b) j t \<longleftrightarrow> (if j < i then et_owner t = Gone else if b \<and> j = i then in_dtor (et_owner t) else et_owner t = Free)"
| "index_ok len AllGone j t \<longleftrightarrow> et_owner t = Gone"

fun place_bound :: "nat \<Rightarrow> loops_place \<Rightarrow> bool" where
  "place_bound n (StartAt i b) \<longleftrightarrow> (if b then i < n else i \<le> n)"
| "place_bound n (WaitAt i b) \<longleftrightarrow> (if b then i < n else i \<le> n)"
| "place_bound n (DieAt i b) \<longleftrightarrow> (if b then i < n else i \<le> n)"
| "place_bound n _ \<longleftrightarrow> True"

definition loops_inv :: "loops \<Rightarrow> bool" where
  "loops_inv s \<longleftrightarrow> length (lp_threads s) \<le> lp_num s \<and> (lp_at s \<noteq> Making \<longrightarrow> length (lp_threads s) = lp_num s) \<and>
     (lp_at s = Making \<longrightarrow> \<not> lp_started s) \<and> place_bound (lp_num s) (lp_at s) \<and>
     (\<forall>j < length (lp_threads s). thread_reach False (lp_threads s ! j) \<and>
        index_ok (length (lp_threads s)) (lp_at s) j (lp_threads s ! j) \<and> (lp_started s \<longrightarrow> et_once (lp_threads s ! j)))"

lemma loops_invD:
  assumes "loops_inv s" "j < length (lp_threads s)"
  shows "thread_reach False (lp_threads s ! j)" "index_ok (length (lp_threads s)) (lp_at s) j (lp_threads s ! j)"
    "lp_started s \<Longrightarrow> et_once (lp_threads s ! j)"
  using assms by (simp_all add: loops_inv_def)

text \<open>A step of one thread or of the owner in its call on it, and the beginning of a call.\<close>

lemma loops_inv_thread:
  assumes inv: "loops_inv s" and i: "i < length (lp_threads s)" and r: "thread_reach False t"
    and p: "index_ok (length (lp_threads s)) p i t"
    and o: "\<And>j. j < length (lp_threads s) \<Longrightarrow> j \<noteq> i \<Longrightarrow>
      index_ok (length (lp_threads s)) (lp_at s) j (lp_threads s ! j) \<Longrightarrow> index_ok (length (lp_threads s)) p j (lp_threads s ! j)"
    and b: "place_bound (lp_num s) p" "(p = Making) = (lp_at s = Making)" and once: "et_once (lp_threads s ! i) \<longrightarrow> et_once t"
  shows "loops_inv ((set_thread i t s)\<lparr>lp_at := p\<rparr>)"
  using assms unfolding loops_inv_def set_thread_def by (auto simp: nth_list_update)

lemma loops_inv_move:
  assumes inv: "loops_inv s" and p: "\<And>j t. j < length (lp_threads s) \<Longrightarrow>
      index_ok (length (lp_threads s)) (lp_at s) j t \<Longrightarrow> t = lp_threads s ! j \<Longrightarrow> index_ok (length (lp_threads s)) p j t"
    and b: "place_bound (lp_num s) p" "p \<noteq> Making" "length (lp_threads s) = lp_num s"
    and st: "st \<longrightarrow> lp_started s \<or> (\<forall>j < lp_num s. et_once (lp_threads s ! j))"
  shows "loops_inv (s\<lparr>lp_at := p, lp_started := st\<rparr>)"
  using assms unfolding loops_inv_def by auto

lemma loopFuncs_keeps: "loopFuncs_step p t = Some t' \<Longrightarrow> et_owner t' = et_owner t \<and> et_once t' = et_once t"
  by (cases p) (auto split: if_splits)

lemma owner_step_once: "owner_step c t = Some t' \<Longrightarrow> et_once t' = et_once t"
  by (cases c) (auto split: if_splits)

lemma index_ok_keeps: "et_owner t' = et_owner t \<Longrightarrow> et_once t' = et_once t \<Longrightarrow> index_ok n p j t' = index_ok n p j t"
  by (cases p) auto

text \<open>A step of the owner in its call keeps to the place of the pool.\<close>

lemma owner_step_index:
  assumes "owner_step (et_owner t) t = Some t'" "index_ok n p j t"
  shows "index_ok n p j t'"
proof -
  have once: "et_once t' = et_once t" using assms(1) by (rule owner_step_once)
  show ?thesis using assms once by (cases "et_owner t"; cases p) (auto split: if_splits)
qed

lemma set_thread_at [simp]: "lp_at (set_thread i t s) = lp_at s" "lp_num (set_thread i t s) = lp_num s"
  "lp_threads (set_thread i t s) = (lp_threads s)[i := t]" "lp_started (set_thread i t s) = lp_started s"
  by (simp_all add: set_thread_def)

lemma set_thread_same: "(set_thread i t s)\<lparr>lp_at := lp_at s\<rparr> = set_thread i t s"
  by (simp add: set_thread_def)

lemma started_same: "s\<lparr>lp_at := p, lp_started := lp_started s\<rparr> = s\<lparr>lp_at := p\<rparr>"
  by simp

lemma loops_length: "loops_inv s \<Longrightarrow> lp_at s \<noteq> Making \<Longrightarrow> length (lp_threads s) = lp_num s"
  by (simp add: loops_inv_def)

lemma loops_bound: "loops_inv s \<Longrightarrow> place_bound (lp_num s) (lp_at s)"
  by (simp add: loops_inv_def)

lemma loops_step_inv: "loops_step s s' \<Longrightarrow> loops_inv s \<Longrightarrow> loops_inv s'"
proof (induction rule: loops_step.induct)
  case (make s)
  have "et_owner EventLoopThread = Constructing" by (simp add: EventLoopThread_def)
  moreover have "\<And>j. j < length (lp_threads s) \<Longrightarrow> et_owner (lp_threads s ! j) = Free" using make(3) by simp
  ultimately show ?case using make thread_new [of False] unfolding loops_inv_def
    by (simp add: nth_append less_Suc_eq)
next
  case (made s)
  have "loops_inv (s\<lparr>lp_at := AllFree, lp_started := lp_started s\<rparr>)"
    by (rule loops_inv_move [OF made(4)]) (use made in auto)
  then show ?case by (simp add: started_same)
next
  case (thread_goes i s t)
  note k = loopFuncs_keeps [OF thread_goes(3)]
  have r: "thread_reach False t"
    using thread_more [OF loops_invD(1) [OF thread_goes(4,1)] loop_goes [OF thread_goes(2) [unfolded owner_at_def] thread_goes(3)]] .
  have "loops_inv ((set_thread i t s)\<lparr>lp_at := lp_at s\<rparr>)"
    by (rule loops_inv_thread [OF thread_goes(4,1) r index_ok_keeps [THEN iffD2, OF _ _ loops_invD(2) [OF thread_goes(4,1)]]])
      (use k loops_bound [OF thread_goes(4)] in simp_all)
  then show ?case by (simp only: set_thread_same)
next
  case (owner_goes i s t)
  have st: "owner_step (et_owner (lp_threads s ! i)) (lp_threads s ! i) = Some t" using owner_goes(2) by (simp add: owner_at_def)
  have r: "thread_reach False t"
    using thread_more [OF loops_invD(1) [OF owner_goes(3,1)] thread_step.owner_goes [OF st]] .
  have "loops_inv ((set_thread i t s)\<lparr>lp_at := lp_at s\<rparr>)"
    by (rule loops_inv_thread [OF owner_goes(3,1) r owner_step_index [OF st loops_invD(2) [OF owner_goes(3,1)]]])
      (use owner_step_once [OF st] loops_bound [OF owner_goes(3)] in simp_all)
  then show ?case by (simp only: set_thread_same)
next
  case (start s)
  have "loops_inv (s\<lparr>lp_at := StartAt 0 False, lp_started := lp_started s\<rparr>)"
    by (rule loops_inv_move [OF start(2)]) (use start loops_length [OF start(2)] in auto)
  then show ?case by (simp add: started_same)
next
  case (start_call s i)
  have i: "i < length (lp_threads s)" using start_call loops_length [OF start_call(3)] by simp
  have f: "et_owner (lp_threads s ! i) = Free" using loops_invD(2) [OF start_call(3) i] start_call(1) by simp
  show ?case
    by (rule loops_inv_thread [OF start_call(3) i thread_more [OF loops_invD(1) [OF start_call(3) i] calls_run [OF f]]])
      (use start_call f in \<open>auto simp: thread_run_def\<close>)
next
  case (start_next s i)
  have "loops_inv (s\<lparr>lp_at := StartAt (Suc i) False, lp_started := lp_started s\<rparr>)"
    by (rule loops_inv_move [OF start_next(3)])
      (use start_next loops_length [OF start_next(3)] in \<open>auto simp: owner_at_def loops_inv_def less_Suc_eq\<close>)
  then show ?case by (simp add: started_same)
next
  case (start_end s)
  have "et_once (lp_threads s ! j)" if "j < lp_num s" for j
    using loops_invD(2) [OF start_end(2), of j] that start_end(1) loops_length [OF start_end(2)] by simp
  then show ?case
    by (intro loops_inv_move [OF start_end(2)]) (use start_end loops_length [OF start_end(2)] in auto)
next
  case (wait s)
  have "loops_inv (s\<lparr>lp_at := WaitAt 0 False, lp_started := lp_started s\<rparr>)"
    by (rule loops_inv_move [OF wait(2)]) (use wait loops_length [OF wait(2)] in auto)
  then show ?case by (simp add: started_same)
next
  case (wait_call s i)
  have i: "i < length (lp_threads s)" using wait_call loops_length [OF wait_call(4)] by simp
  have f: "et_owner (lp_threads s ! i) = Free" using loops_invD(2) [OF wait_call(4) i] wait_call(1) by simp
  show ?case
    by (rule loops_inv_thread [OF wait_call(4) i thread_more [OF loops_invD(1) [OF wait_call(4) i] calls_wait [OF f wait_call(3)]]])
      (use wait_call f in auto)
next
  case (wait_next s i)
  have "loops_inv (s\<lparr>lp_at := WaitAt (Suc i) False, lp_started := lp_started s\<rparr>)"
    by (rule loops_inv_move [OF wait_next(3)])
      (use wait_next loops_length [OF wait_next(3)] in \<open>auto simp: owner_at_def loops_inv_def\<close>)
  then show ?case by (simp add: started_same)
next
  case (wait_end s)
  have "loops_inv (s\<lparr>lp_at := AllFree, lp_started := lp_started s\<rparr>)"
    by (rule loops_inv_move [OF wait_end(2)]) (use wait_end loops_length [OF wait_end(2)] in auto)
  then show ?case by (simp add: started_same)
next
  case (destroy s)
  have "loops_inv (s\<lparr>lp_at := DieAt 0 False, lp_started := lp_started s\<rparr>)"
    by (rule loops_inv_move [OF destroy(2)]) (use destroy loops_length [OF destroy(2)] in auto)
  then show ?case by (simp add: started_same)
next
  case (die_call s i)
  have i: "i < length (lp_threads s)" using die_call loops_length [OF die_call(3)] by simp
  have f: "et_owner (lp_threads s ! i) = Free" using loops_invD(2) [OF die_call(3) i] die_call(1) by simp
  show ?case
    by (rule loops_inv_thread [OF die_call(3) i thread_more [OF loops_invD(1) [OF die_call(3) i] calls_dtor [OF f]]])
      (use die_call f in \<open>auto simp: thread_run_def\<close>)
next
  case (die_next s i)
  have "loops_inv (s\<lparr>lp_at := DieAt (Suc i) False, lp_started := lp_started s\<rparr>)"
    by (rule loops_inv_move [OF die_next(3)])
      (use die_next loops_length [OF die_next(3)] in \<open>auto simp: owner_at_def loops_inv_def less_Suc_eq split: if_splits\<close>)
  then show ?case by (simp add: started_same)
next
  case (die_end s)
  have "loops_inv (s\<lparr>lp_at := AllGone, lp_started := lp_started s\<rparr>)"
    by (rule loops_inv_move [OF die_end(2)]) (use die_end loops_length [OF die_end(2)] in auto)
  then show ?case by (simp add: started_same)
qed

lemma loops_reach_inv: "loops_reach n s \<Longrightarrow> loops_inv s"
proof (induction rule: loops_reach.induct)
  case loops_first
  then show ?case by (simp add: loops_inv_def loops_new_def)
qed (rule loops_step_inv)

subsection \<open>Starting and ending\<close>

lemma loops_num: "loops_reach n s \<Longrightarrow> lp_num s = n"
proof (induction rule: loops_reach.induct)
  case (loops_more s s')
  then show ?case by (auto elim: loops_step.cases)
qed (simp add: loops_new_def)

lemma die_goes:
  assumes inv: "loops_inv s" and p: "lp_at s = DieAt i b"
  shows "b \<and> owner_at s i = Undefined \<or> (\<exists>s'. loops_step s s')"
proof (cases "b \<and> owner_at s i \<noteq> Gone")
  case True
  then have i: "i < length (lp_threads s)" using loops_bound [OF inv] loops_length [OF inv] p by simp
  let ?t = "lp_threads s ! i"
  have "in_dtor (et_owner ?t)" using loops_invD(2) [OF inv i] p True by simp
  with someone_goes [OF thread_reach_inv [OF loops_invD(1) [OF inv i]]] True
  show ?thesis using thread_goes [OF i] owner_goes [OF i] by (auto simp: owner_at_def dtor_over_def)
next
  case False
  show ?thesis
  proof (cases b)
    case True
    then show ?thesis using False die_next [of s i] p by auto
  next
    case b: False
    then have "i = lp_num s \<or> i < lp_num s" using loops_bound [OF inv] p by auto
    then show ?thesis using die_call die_end p b by auto
  qed
qed

text \<open>When \<^verbatim>\<open>start\<close> has returned every loop is in its rounds; the destructor of the pool can always go on,
  unless its wake-up of a thread found the loop destroyed, and when it has returned all threads have ended.\<close>

lemma loops_start_and_stop:
  assumes r: "loops_reach n s"
  shows "lp_started s \<Longrightarrow> lp_at s = AllFree \<Longrightarrow>
      length (lp_threads s) = n \<and> (\<forall>t \<in> set (lp_threads s). et_place t \<in> {AtTest, InPoll, InPending})"
    "lp_at s = DieAt i b \<Longrightarrow> b \<and> owner_at s i = Undefined \<or> (\<exists>s'. loops_step s s')"
    "lp_at s = AllGone \<Longrightarrow> length (lp_threads s) = n \<and> (\<forall>t \<in> set (lp_threads s). et_place t = Ended)"
proof -
  have inv: "loops_inv s" by (rule loops_reach_inv [OF r])
  note n = loops_num [OF r] and t = loops_invD [OF inv]
  show "length (lp_threads s) = n \<and> (\<forall>t \<in> set (lp_threads s). et_place t \<in> {AtTest, InPoll, InPending})"
    if st: "lp_started s" and a: "lp_at s = AllFree"
  proof (intro conjI ballI)
    show "length (lp_threads s) = n" using loops_length [OF inv] n a by simp
    fix x assume "x \<in> set (lp_threads s)"
    then obtain j where j: "j < length (lp_threads s)" "x = lp_threads s ! j" by (auto simp: in_set_conv_nth)
    have "thread_inv x" "et_owner x = Free" "et_once x"
      using t(2) [OF j(1)] t(3) [OF j(1) st] thread_reach_inv [OF t(1) [OF j(1)]] a j(2) by simp_all
    then show "et_place x \<in> {AtTest, InPoll, InPending}" by (cases "et_place x") (auto simp: thread_inv_def)
  qed
  show "lp_at s = DieAt i b \<Longrightarrow> b \<and> owner_at s i = Undefined \<or> (\<exists>s'. loops_step s s')" by (rule die_goes [OF inv])
  show "length (lp_threads s) = n \<and> (\<forall>t \<in> set (lp_threads s). et_place t = Ended)" if a: "lp_at s = AllGone"
  proof (intro conjI ballI)
    show "length (lp_threads s) = n" using loops_length [OF inv] n a by simp
    fix x assume "x \<in> set (lp_threads s)"
    then obtain j where j: "j < length (lp_threads s)" "x = lp_threads s ! j" by (auto simp: in_set_conv_nth)
    have "thread_inv x" "et_owner x = Gone"
      using t(2) [OF j(1)] thread_reach_inv [OF t(1) [OF j(1)]] a j(2) by simp_all
    then show "et_place x = Ended" by (simp add: thread_inv_def)
  qed
qed

end
