(* ===== verification/ServerSetup.thy ===== *)
theory ServerSetup
  imports TcpServer SocketSpec
begin

text \<open>
  Setting a server up and accepting: the constructors of \<^verbatim>\<open>Acceptor\<close> and \<^verbatim>\<open>TcpServer\<close> and the handler of the
  acceptor with the calls of the system they make, over the models of \<^verbatim>\<open>Socket\<close> and \<^verbatim>\<open>InetAddress\<close>. The acceptor and its channel are those of
  \<open>TcpServer\<close>.
\<close>

text \<open>The members of an acceptor come before the body of its constructor: the socket, the channel at the
  address \<open>a\<close>, the idle descriptor.\<close>

definition open_acceptor :: "sock_os \<Rightarrow> int \<Rightarrow> nat \<Rightarrow> inet_address \<Rightarrow> bool \<Rightarrow> sock_call list \<Rightarrow> net \<Rightarrow>
    (acceptor \<times> sock_call list \<times> net) res" where
  "open_acceptor os idleFd a listenAddr reuseport cs s =
     rbind (family listenAddr) (\<lambda>f.
     rbind (create_socket os f cs) (\<lambda>(fd, cs1).
     rbind (Acceptor a fd idleFd s) (\<lambda>(ac, s1).
     rbind (bindAddress os fd listenAddr (setReusePort os fd reuseport (setReuseAddr os fd True cs1))) (\<lambda>cs2.
     Inr (ac, cs2, s1)))))"

text \<open>A server begins with its acceptor, no connections, no threads and the message callback that
  discards; the other callbacks are empty.\<close>

definition TcpServer_new :: "sock_os \<Rightarrow> int \<Rightarrow> nat \<Rightarrow> inet_address \<Rightarrow> bool \<Rightarrow> sock_call list \<Rightarrow> net \<Rightarrow>
    (acceptor \<times> loop_pool option \<times> user \<times> sock_call list \<times> net) res" where
  "TcpServer_new os idleFd a address reUsePort cs s =
     rbind (open_acceptor os idleFd a address reUsePort cs s) (\<lambda>(ac, cs1, s1).
     Inr (ac, None, server_user None default_message, cs1, s1\<lparr>n_connSet := {}\<rparr>))"

text \<open>\<^verbatim>\<open>setIoLoopNum\<close> makes the threads, whose loops are \<open>loops\<close>, and starts them; \<^verbatim>\<open>started_\<close> is never set.\<close>

definition setIoLoopNum :: "bool \<Rightarrow> nat list \<Rightarrow> loop_pool option res" where
  "setIoLoopNum started loops = assert_that (\<not> started) (Inr (Some (EventLoopThreadPool loops)))"

definition setRecvMessageCallback :: "(nat \<Rightarrow> net \<Rightarrow> net res) \<Rightarrow> user \<Rightarrow> user" where
  "setRecvMessageCallback cb u = u\<lparr>u_message := cb\<rparr>"

definition setConnectionCallback :: "(nat \<Rightarrow> net \<Rightarrow> net res) \<Rightarrow> user \<Rightarrow> user" where
  "setConnectionCallback cb u = u\<lparr>u_connection := optional_callback (Some cb), u_close := connectionClosed (Some cb)\<rparr>"

abbreviation (input) EMFILE :: int where "EMFILE \<equiv> 24"

text \<open>The handler: a connection goes to the callback, or is closed when there is none. On running out of
  descriptors the idle one is given up, the connection is taken and closed at once, and a new idle
  one is opened.\<close>

definition acceptor_handleRead :: "sock_os \<Rightarrow> (int \<Rightarrow> inet_address \<Rightarrow> net \<Rightarrow> net res) option \<Rightarrow> acceptor \<Rightarrow>
    sock_call list \<Rightarrow> net \<Rightarrow> (acceptor \<times> sock_call list \<times> net) res" where
  "acceptor_handleRead os newConnectionCallback ac cs s = assertInLoopThread (l_inThread s)
     (rbind (accept os (ac_fd ac) (InetAddress 0 False False) cs) (\<lambda>(connfd, peerAddr, cs1).
      if connfd \<ge> 0 then
        (case newConnectionCallback of
           Some cb \<Rightarrow> rbind (cb connfd peerAddr s) (\<lambda>s1. Inr (ac, cs1, s1))
         | None \<Rightarrow>
             let ((r, _, _), cs2) = system os (Close connfd) cs1 in
             if r < 0 then Inl ProcessExit else Inr (ac, cs2, s))
      else
        let errno = fst (snd (os cs (Accept (ac_fd ac)))) in
        if errno = EMFILE then
          let (_, cs2) = system os (Close (ac_idleFd ac)) cs1;
              ((taken, _, _), cs3) = system os (Accept (ac_fd ac)) cs2;
              (_, cs4) = system os (Close taken) cs3;
              ((idle, _, _), cs5) = system os OpenNull cs4
          in Inr (ac\<lparr>ac_idleFd := idle\<rparr>, cs5, s)
        else Inr (ac, cs1, s)))"

subsection \<open>What the acceptor does\<close>

lemma InetAddress_address:
  "InetAddress port loopbackOnly v6 = address_of v6
     (if v6 then (if loopbackOnly then in6addr_loopback else in6addr_any)
      else if loopbackOnly then [127, 0, 0, 1] else [0, 0, 0, 0]) port"
proof -
  have l: "bytes_of 4 (htonl kInaddrLoopback) = [127, 0, 0, 1]" "bytes_of 4 (htonl kInaddrAny) = [0, 0, 0, 0]"
    by code_simp+
  show ?thesis
    by (cases v6; cases loopbackOnly)
      (simp_all add: InetAddress_def address_of_def layout_def put_bytes_def l in6addr_loopback_def in6addr_any_def Let_def)
qed

text \<open>A server that listens on a port of this machine makes its socket, sets the options and binds the
  address, in this order, or the process exits.\<close>

lemma acceptor_binds:
  fixes os :: sock_os
  assumes fd: "fst (os cs (Create (if v6 then AF_INET6 else AF_INET))) = fd" "0 < fd" and idle: "0 \<le> idleFd"
    and wire: "sockaddr_of (InetAddress port lo v6) = Inr bs"
  shows "let cs1 = cs @ [Create (if v6 then AF_INET6 else AF_INET), SetOption fd SOL_SOCKET 2 1,
      SetOption fd SOL_SOCKET 15 (if shared then 1 else 0)] in
    open_acceptor os idleFd a (InetAddress port lo v6) shared cs s =
      (if fst (os cs1 (Bind fd bs)) = 0
       then Inr (\<lparr>ac_fd = fd, ac_channel = a, ac_idleFd = idleFd\<rparr>, cs1 @ [Bind fd bs],
         s\<lparr>l_channels := (l_channels s)(a \<mapsto> Channel (l_id s) fd)\<rparr>)
       else Inl ProcessExit)"
proof -
  have "family (InetAddress port lo v6) = Inr (if v6 then AF_INET6 else AF_INET)"
    unfolding InetAddress_address
    by (rule address_of_reads(1)) (simp add: in6addr_loopback_def in6addr_any_def)
  then show ?thesis using assms
    by (auto simp: open_acceptor_def create_socket_def system_def Acceptor_def bindAddress_def setReuseAddr_def
        setReusePort_def set_option_def split_beta Let_def)
qed

text \<open>A connection is handed over with its descriptor and the address of its peer, whose flag is right.\<close>

lemma acceptor_hands_over:
  assumes loop: "l_inThread s" and os: "os cs (Accept (ac_fd ac)) = (fd, e, name_of v6 a port)" "0 \<le> fd"
    and len: "length a = (if v6 then 16 else 4)"
  shows "\<exists>peer. isIpV6 peer = v6 \<and> family peer = Inr (if v6 then AF_INET6 else AF_INET) \<and> toPort peer = Inr port \<and>
    acceptor_handleRead os (Some cb) ac cs s =
      rbind (cb fd peer s) (\<lambda>s1. Inr (ac, cs @ [Accept (ac_fd ac)], s1))"
proof -
  have "length (ia_addr (InetAddress 0 False False)) = 28"
    by (simp add: InetAddress_def put_bytes_def Let_def)
  from accept_peer [of os cs "ac_fd ac", OF os len this] obtain x where
    "accept os (ac_fd ac) (InetAddress 0 False False) cs = Inr (fd, x, cs @ [Accept (ac_fd ac)])" "isIpV6 x = v6"
    "family x = Inr (if v6 then AF_INET6 else AF_INET)" "toPort x = Inr port"
    by blast
  then show ?thesis using loop os(2)
    by (intro exI [of _ x]) (simp add: acceptor_handleRead_def assertInLoopThread_def del: rbind_Inr_iff)
qed

text \<open>Out of descriptors, the connection that waits is taken and closed, nobody is told, and the acceptor has
  an idle descriptor again when the system gives one.\<close>

lemma acceptor_sheds:
  assumes loop: "l_inThread s" and fd: "fd = ac_fd ac" "os cs (Accept fd) = (- 1, EMFILE, bs)"
    and cs: "cs2 = cs @ [Accept fd, Close (ac_idleFd ac)]" "taken = fst (os cs2 (Accept fd))"
      "cs4 = cs2 @ [Accept fd, Close taken]" "idle = fst (os cs4 OpenNull)"
  shows "acceptor_handleRead os cb ac cs s = Inr (ac\<lparr>ac_idleFd := idle\<rparr>, cs4 @ [OpenNull], s)"
  using assms by (simp add: acceptor_handleRead_def accept_def system_def assertInLoopThread_def split_beta Let_def)

end
