(* ===== verification/ByteBufFrame.thy ===== *)
theory ByteBufFrame
  imports ByteBufSpec Allocator
begin

text \<open>
  What work on one buffer leaves of the others: a release only takes memory blocks away
  (\<open>mem_sub\<close>), a write into a buffer does not reach one whose region is apart from it, and a new
  \<^verbatim>\<open>Buffer\<close> is empty and comes from the arena of the thread.
\<close>

subsection \<open>Release\<close>

definition mem_sub :: "pool \<Rightarrow> pool \<Rightarrow> bool" where
  "mem_sub w w' \<longleftrightarrow> w_mem w' \<subseteq>\<^sub>m w_mem w"

lemma mem_sub_same: "w_mem w' = w_mem w \<Longrightarrow> mem_sub w w'"
  by (simp add: mem_sub_def)

lemma mem_sub_trans [trans]: "mem_sub u v \<Longrightarrow> mem_sub v w \<Longrightarrow> mem_sub u w"
  unfolding mem_sub_def by (rule map_le_trans)

lemma put_chunk_same: "put_chunk a f w = Inr w' \<Longrightarrow> w_mem w' = w_mem w"
  by (auto simp: put_chunk_def)

lemma chunk_free_run_same: "chunk_free_run h bf ca w = Inr w' \<Longrightarrow> w_mem w' = w_mem w"
  by (auto simp: chunk_free_run_def dest!: put_chunk_same)

lemma chunk_free_same: "chunk_free h n bf ca w = Inr w' \<Longrightarrow> w_mem w' = w_mem w"
  unfolding chunk_free_def Let_def
  by (auto split: if_splits option.splits dest!: put_chunk_same chunk_free_run_same)

lemma list_add0_same: "list_add0 q a w = Inr w' \<Longrightarrow> w_mem w' = w_mem w"
  by (auto simp: list_add0_def set_head_def split: option.splits dest!: put_chunk_same)

lemma list_remove_same: "list_remove q a w = Inr w' \<Longrightarrow> w_mem w' = w_mem w"
  by (auto simp: list_remove_def set_head_def Let_def split: option.splits if_splits dest!: put_chunk_same)

lemma list_move_same:
  "list_move n q a w = Inr (k, w') \<Longrightarrow> w_mem w' = w_mem w"
  "list_move0 n q a w = Inr (k, w') \<Longrightarrow> w_mem w' = w_mem w"
proof (induction n q a w and n q a w arbitrary: k w' and k w' rule: list_move_list_move0.induct)
  case (2 n q a w)
  then show ?case by (auto split: if_splits dest!: list_add0_same)
next
  case (4 n q a w)
  then show ?case by (auto split: option.splits)
qed auto

lemma list_free_same: "list_free q a h n bf w = Inr (k, w') \<Longrightarrow> w_mem w' = w_mem w"
  unfolding list_free_def
  by (auto split: if_splits dest!: chunk_free_same list_remove_same list_move_same)

lemma destroyChunk_sub: "destroyChunk a w = Inr w' \<Longrightarrow> mem_sub w w'"
  by (auto simp: destroyChunk_def Let_def mem_sub_def map_le_def split: option.splits if_splits)

lemma freeChunk_sub: "freeChunk a h n t bf w = Inr w' \<Longrightarrow> mem_sub w w'"
  unfolding freeChunk_def Let_def
  by (auto split: option.splits if_splits dest!: list_free_same destroyChunk_sub simp: mem_sub_def)

lemma cache_add_same: "cache_add a bf h n t w = Inr (k, w') \<Longrightarrow> w_mem w' = w_mem w"
  by (cases t) (auto simp: cache_add_def set_region_def split: option.splits)

lemma mem_sub_bump [simp]: "mem_sub w (bump k v) = mem_sub w v" "mem_sub w (v\<lparr>w_activeBytesHuge := i\<rparr>) = mem_sub w v"
  "mem_sub w (v\<lparr>w_recycled := r\<rparr>) = mem_sub w v"
  by (simp_all add: mem_sub_def)

lemma arena_free_sub:
  assumes "arena_free a bf h n cache w = Inr w'" shows "mem_sub w w'"
proof -
  obtain pc where pc: "get_chunk w a = Inr pc" using assms by (auto simp: arena_free_def)
  show ?thesis
  proof (cases "c_unpool (pc_chunk pc)")
    case True
    then obtain w1 k where "destroyChunk a w = Inr w1" "w' = bump ''deallocationHuge'' (w1\<lparr>w_activeBytesHuge := k\<rparr>)"
      using assms pc by (auto simp: arena_free_def Let_def)
    then show ?thesis using destroyChunk_sub [of a w w1] by simp
  next
    case False
    then obtain cached w1 where
      1: "(if cache then cache_add a bf h n (getSizeClassType h) w else Inr (False, w)) = Inr (cached, w1)"
      and 2: "(if cached then Inr w1 else freeChunk a h n (getSizeClassType h) bf w1) = Inr w'"
      using assms pc by (auto simp: arena_free_def Let_def)
    have "w_mem w1 = w_mem w" using 1 cache_add_same by (auto split: if_splits)
    moreover have "mem_sub w1 w'" using 2 freeChunk_sub [of a h n "getSizeClassType h" bf w1 w'] mem_sub_same [of w' w1]
      by (cases cached) (auto simp: mem_sub_def)
    ultimately show ?thesis by (simp add: mem_sub_def)
  qed
qed

lemma Buffer_destroy_frame:
  assumes "Buffer_destroy b w = Inr w'" shows "mem_sub w w'" "mem_le w w'"
proof -
  have "w' = w \<or> (\<exists>a p h n k w1 r. arena_free a p h n k w = Inr w1 \<and> w' = w1\<lparr>w_recycled := r\<rparr>)"
    using assms by (fastforce simp: Buffer_destroy_def deallocate_def Let_def split: option.splits if_splits)
  then have "mem_sub w w' \<and> mem_le w w'"
  proof (elim disjE exE conjE)
    fix a p h n k w1 r
    assume "arena_free a p h n k w = Inr w1" and w': "w' = w1\<lparr>w_recycled := r\<rparr>"
    then have "mem_sub w w1" "mem_le w w1" using arena_free_sub arena_free_mem by blast+
    then show ?thesis unfolding w' by (simp add: mem_le_def fresh_ok_def)
  qed (simp add: mem_sub_same)
  then show "mem_sub w w'" "mem_le w w'" by simp_all
qed

lemma buf_ok_mem: "w_mem w' = w_mem w \<Longrightarrow> buf_ok w' b = buf_ok w b"
  by (simp add: buf_ok_def in_region_def split: option.split)

text \<open>A buffer that is in order after a release was so before it, with the same bytes.\<close>

lemma mem_sub_buffer:
  assumes "mem_sub w w'" "buf_ok w' b"
  shows "buf_ok w b \<and> unread w b = unread w' b"
proof -
  obtain m sz f where m: "b_memory b = Some m" "w_mem w' m = Some (sz, f)"
    using assms(2) by (auto simp: buf_ok_def in_region_def split: option.splits)
  then have "w_mem w m = Some (sz, f)" using assms(1) unfolding mem_sub_def map_le_def by (metis domI)
  then show ?thesis using assms(2) m by (simp add: buf_ok_def in_region_def unread_def byte_at_def)
qed

subsection \<open>Buffers apart\<close>

definition regions_apart :: "byte_buf \<Rightarrow> byte_buf \<Rightarrow> bool" where
  "regions_apart b b' \<longleftrightarrow> b_memory b \<noteq> b_memory b' \<or> b_offset b + b_length b \<le> b_offset b' \<or>
     b_offset b' + b_length b' \<le> b_offset b"

lemma regions_apart_update [simp]: "regions_apart (b\<lparr>b_writerIndex := x\<rparr>) b' = regions_apart b b'"
  by (simp add: regions_apart_def)

text \<open>A write at \<open>i\<close> of \<open>n\<close> bytes inside the region of \<open>b\<close>.\<close>

lemma setBytes_other:
  assumes s: "setBytes i data 0 n b w = Inr w'" and i: "0 \<le> i" "i + n \<le> b_length b"
    and a: "regions_apart b b'" and j: "0 \<le> j" "j < b_length b'"
  shows "byte_at w' b' j = byte_at w b' j"
proof -
  obtain m where m: "b_memory b = Some m" using s by (auto simp: setBytes_def split: option.splits)
  obtain sz f where n: "0 \<le> n" "n \<le> int (length data)" and f: "w_mem w m = Some (sz, f)"
    and w': "w' = w\<lparr>w_mem := (w_mem w)(m \<mapsto> (sz, write_bytes f (idx b i) (take (nat n) data)))\<rparr>"
    using s m by (auto simp: setBytes_def write_mem_def split: option.splits if_splits)
  show ?thesis
    using a m f n i j by (auto simp: byte_at_def w' write_bytes_def idx_def regions_apart_def split: option.split)
qed

lemma setBytes_live: "setBytes i data 0 n b w = Inr w' \<Longrightarrow> w_fresh w' = w_fresh w \<and> (\<forall>m. w_mem w' m = None \<longleftrightarrow> w_mem w m = None)"
  by (auto simp: setBytes_def write_mem_def split: option.splits if_splits)

lemma in_region_setBytes: "setBytes i data 0 n b w = Inr w' \<Longrightarrow> in_region w' b' = in_region w b'"
  by (auto simp: setBytes_def write_mem_def in_region_def split: option.splits if_splits)

lemma unread_byte_at:
  assumes "buf_ok w b" "\<And>j. 0 \<le> j \<Longrightarrow> j < b_length b \<Longrightarrow> byte_at w' b j = byte_at w b j"
  shows "unread w' b = unread w b"
  using assms by (intro unread_cong) (auto simp: buf_ok_def)

lemma setBytes_apart:
  assumes s: "setBytes i data 0 n b w = Inr w'" and i: "0 \<le> i" "i + n \<le> b_length b"
    and a: "regions_apart b b'" and ok: "buf_ok w b'"
  shows "buf_ok w' b' \<and> unread w' b' = unread w b'"
  using unread_byte_at [OF ok setBytes_other [OF s i a]] in_region_setBytes [OF s] ok by (simp add: buf_ok_def)

lemma writeBytes_apart:
  assumes ok: "buf_ok w b" "int (length s) \<le> writableBytes b" "capacity b \<le> b_maxCapacity b"
    and wr: "writeBytes s (int (length s)) b w = Inr (b1, w')" and other: "regions_apart b b'" "buf_ok w b'"
  shows "buf_ok w' b' \<and> unread w' b' = unread w b'"
proof -
  have s: "setBytes (b_writerIndex b) s 0 (int (length s)) b w = Inr w'"
    using wr ensureWritable_fits [OF ok] by (simp add: writeBytes_def writeBytes_at_def)
  have "0 \<le> b_writerIndex b" "b_writerIndex b + int (length s) \<le> b_length b"
    using ok by (auto simp: buf_ok_def writableBytes_def capacity_def)
  from setBytes_apart [OF s this other] show ?thesis .
qed

text \<open>A write that makes the buffer grow, through the arena or in place, into a region apart as well.\<close>

lemma memoryCopy_other:
  assumes c: "memoryCopy (mem_ptr b) (mem_ptr b1) n w = Inr w'" and n: "n \<le> b_length b1"
    and a: "regions_apart b1 b'" and j: "0 \<le> j" "j < b_length b'"
  shows "byte_at w' b' j = byte_at w b' j"
  using c n a j
  by (auto simp: memoryCopy_def mem_ptr_def byte_at_def regions_apart_def split: if_splits option.splits prod.splits)

lemma memoryCopy_live:
  "memoryCopy p q n w = Inr w' \<Longrightarrow> w_fresh w' = w_fresh w \<and> (\<forall>m. w_mem w' m = None \<longleftrightarrow> w_mem w m = None)"
  by (auto simp: memoryCopy_def split: if_splits option.splits prod.splits)

lemma reallocate_other:
  assumes r: "reallocate nc True b w = Inr (b1, w')" and nc: "nc > b_length b" and fresh: "fresh_ok w"
    and len: "b_length b \<le> b_length b1" and a: "regions_apart b1 b'"
    and m: "b_memory b' = Some m" "w_mem w m \<noteq> None" "w_mem w' m \<noteq> None" and j: "0 \<le> j" "j < b_length b'"
  shows "byte_at w' b' j = byte_at w b' j"
proof -
  obtain c wa wb where 1: "arena_allocate_buf nc b w = Inr (b1, wa)"
    and 2: "memoryCopy (mem_ptr b) (mem_ptr b1) (b_length b) wa = Inr wb"
    and 3: "arena_free c (b_tmpBuf b) (b_handle b) (b_maxLength b) (b_cache b1) wb = Inr w'"
    using r nc by (auto simp: reallocate_def Let_def split: option.splits)
  note f1 = conjunct1 [OF arena_allocate_buf_frame [OF 1]] and f3 = arena_free_mem [OF 3] and l = memoryCopy_live [OF 2]
  have fr: "fresh_ok wa" "fresh_ok wb" using f1 fresh memoryCopy_bytes(4) [OF 2] by (auto simp: mem_le_def)
  have lt: "m < w_fresh w" using fresh m(2) by (simp add: fresh_ok_def)
  then have lb: "m < w_fresh wb" using f1 l by (simp add: mem_le_def)
  have mb: "w_mem wb m \<noteq> None" using f3 lb m(3) unfolding mem_le_def by metis
  then have ma: "w_mem wa m \<noteq> None" using l by simp
  have "byte_at w' b' j = byte_at wb b' j" by (rule byte_at_mem_le [OF f3 fr(2) m(1) mb m(3)])
  also have "\<dots> = byte_at wa b' j" by (rule memoryCopy_other [OF 2 len a j])
  also have "\<dots> = byte_at w b' j" by (rule byte_at_mem_le [OF f1 fresh m(1,2) ma])
  finally show ?thesis .
qed

lemma ensureWritable_cases:
  assumes "buf_ok w b" "ensureWritable n b w = Inr (b1, w1)"
  shows "w1 = w \<and> (b1 = b \<or> (\<exists>nc. nc > b_length b \<and> b1 = b\<lparr>b_length := nc\<rparr>)) \<or>
    (\<exists>nc. nc > b_length b \<and> reallocate nc True b w = Inr (b1, w1))"
proof (cases "i32 (b_writerIndex b + n) > capacity b")
  case True
  let ?t = "i32 (b_writerIndex b + n)"
  have "0 \<le> n" "?t \<le> b_writerIndex b + n" "0 \<le> b_writerIndex b"
    using assms i32_le [of "b_writerIndex b + n"] by (auto simp: ensureWritable_def buf_ok_def Let_def)
  then have "\<not> writableBytes b \<ge> n" using True by (auto simp: writableBytes_def)
  then obtain nc where c: "calculateNewCapacity ?t (b_maxCapacity b) = Inr nc" and s: "set_capacity nc b w = Inr (b1, w1)"
    using assms(2) True by (auto simp: ensureWritable_def Let_def)
  have "nc > b_length b" using calculateNewCapacity_ge [OF c] True by (simp add: capacity_def)
  then show ?thesis using s by (auto simp: set_capacity_def split: if_splits)
qed (use assms in \<open>auto simp: ensureWritable_def Let_def\<close>)

lemma writeBytes_other:
  assumes ok: "buf_ok w b" "fresh_ok w" and wr: "writeBytes data n b w = Inr (b', w')" and len: "b_length b \<le> b_length b'"
    and r': "buf_ok w' b'" and ob: "buf_ok w ob" "buf_ok w' ob" "regions_apart b' ob"
  shows "unread w' ob = unread w ob"
proof -
  obtain b1 w1 where 1: "ensureWritable n b w = Inr (b1, w1)"
    and 2: "setBytes (b_writerIndex b1) data 0 n b1 w1 = Inr w'"
    and 3: "b' = b1\<lparr>b_writerIndex := b_writerIndex b1 + n\<rparr>"
    using wr by (auto simp: writeBytes_def writeBytes_at_def)
  have fit: "b_writerIndex b1 + n \<le> b_length b1" and a: "regions_apart b1 ob" using r' ob(3) by (auto simp: 3 buf_ok_def)
  have "in_region w1 b1" using r' in_region_setBytes [OF 2] by (simp add: 3 buf_ok_def)
  from ensureWritable_unread [OF ok 1 this] have pos: "0 \<le> b_writerIndex b1" using ok(1) by (auto simp: same_indices_def buf_ok_def)
  obtain m where m: "b_memory ob = Some m" "w_mem w m \<noteq> None" "w_mem w' m \<noteq> None"
    using in_region_live [of w ob] in_region_live [of w' ob] ob by (auto simp: buf_ok_def)
  have m1: "w_mem w1 m \<noteq> None" using setBytes_live [OF 2] m(3) by simp
  show ?thesis
  proof (rule unread_byte_at [OF ob(1)])
    fix j assume j: "0 \<le> j" "j < b_length ob"
    have "byte_at w1 ob j = byte_at w ob j"
      using ensureWritable_cases [OF ok(1) 1] reallocate_other [OF _ _ ok(2) _ a m(1,2) m1 j] len by (auto simp: 3)
    then show "byte_at w' ob j = byte_at w ob j" using setBytes_other [OF 2 pos fit a j] by simp
  qed
qed

subsection \<open>A new buffer\<close>

lemma newInstance_frame:
  "newInstance mx w = Inr (b, w') \<Longrightarrow> mem_le w w' \<and> b_readerIndex b = 0 \<and> b_writerIndex b = 0 \<and> b_maxCapacity b = mx"
  by (auto simp: newInstance_def reuse_def setIndex0_def setMaxCapacity_def mem_le_def fresh_ok_def)

lemma arena_allocate_frame:
  assumes "arena_allocate n mx w = Inr (b, w')"
  shows "mem_le w w' \<and> b_readerIndex b = 0 \<and> b_writerIndex b = 0 \<and> b_maxCapacity b = mx"
proof -
  obtain b0 w0 where 1: "newInstance mx w = Inr (b0, w0)" "arena_allocate_buf n b0 w0 = Inr (b, w')"
    using assms by (auto simp: arena_allocate_def)
  show ?thesis using newInstance_frame [OF 1(1)] arena_allocate_buf_frame [OF 1(2)]
    by (auto simp: same_indices_def intro: mem_le_trans)
qed

lemma arena_at_upd: "arena_at as i = Inr w \<Longrightarrow> arena_at (as[i := Some w']) i = Inr w'"
  by (auto simp: arena_at_def at_vec_def split: if_splits)

lemma Buffer_frame:
  assumes B: "Buffer k n (Some al) = Inr (buf, al')" and n: "n > 0"
    and i: "al_threadCache al = Some i" "arena_at (al_arenas al) i = Inr w"
  shows "\<exists>b w'. buf = Some b \<and> al' = al\<lparr>al_arenas := (al_arenas al)[i := Some w']\<rparr> \<and> mem_le w w' \<and>
    b_readerIndex b = 0 \<and> b_writerIndex b = 0 \<and> b_maxCapacity b = INT_MAX"
proof -
  obtain b w' where "arena_allocate n INT_MAX w = Inr (b, w')" "buf = Some b"
    "al' = al\<lparr>al_arenas := (al_arenas al)[i := Some w']\<rparr>"
    using B n i
    by (auto simp: Buffer_def ALLOCATOR_def poolBuffer_def poolBuffer_max_def newPoolBuffer_def split: if_splits)
  then show ?thesis using arena_allocate_frame by blast
qed

end
