(* ===== verification/HttpAnswer.thy ===== *)
theory HttpAnswer
  imports HttpServerSpec ByteBufFrame
begin

text \<open>
  What the HTTP server promises for a request: from the bytes in the input buffer of the connection
  through the parser, the callback of the user, a buffer of the allocator and the output of the
  connection, the response follows what was sent before. The pool is taken to give the response a
  region of its own.
\<close>

definition answer :: "(http_request \<Rightarrow> http_response \<Rightarrow> http_response) \<Rightarrow> http_request \<Rightarrow> http_response" where
  "answer httpCallback req = httpCallback req (HttpResponse (response_close req))"

text \<open>The allocator gives the buffer \<open>rb\<close> for a response, in order, and keeps the buffer \<open>ob\<close> apart from it.\<close>

definition buffer_given :: "int \<Rightarrow> net \<Rightarrow> byte_buf \<Rightarrow> byte_buf \<Rightarrow> bool" where
  "buffer_given numArena s ob rb \<longleftrightarrow>
     (\<exists>al w. Buffer numArena 16384 (n_alloc s) = Inr (Some rb, al) \<and> net_pool (s\<lparr>n_alloc := Some al\<rparr>) = Inr w \<and>
        buf_ok w rb \<and> buf_ok w ob \<and> regions_apart rb ob)"

subsection \<open>The pool behind the connection\<close>

lemma mem_le_buffer:
  assumes "mem_le w w'" "fresh_ok w" "buf_ok w b" "buf_ok w' b"
  shows "unread w' b = unread w b \<and> fresh_ok w'"
proof -
  obtain m where m: "b_memory b = Some m" "w_mem w m \<noteq> None" "w_mem w' m \<noteq> None"
    using assms(3,4) in_region_live [of w b] in_region_live [of w' b] by (auto simp: buf_ok_def)
  have "unread w' b = unread w b" by (rule unread_cong) (simp_all add: byte_at_mem_le [OF assms(1,2) m])
  then show ?thesis using assms(1,2) by (simp add: mem_le_def)
qed

lemma out_view_alloc:
  assumes "out_view c s t ch b w sent" "net_pool (s\<lparr>n_alloc := a\<rparr>) = Inr w'"
    "buf_ok w' b" "unread w' b = unread w b \<and> fresh_ok w'"
  shows "out_view c (s\<lparr>n_alloc := a\<rparr>) t ch b w' sent"
  using assms by (simp add: out_view_def)

lemma out_view_put:
  assumes "out_view c s t ch b w sent" "buf_ok w' b" "unread w' b = unread w b \<and> fresh_ok w'"
  shows "out_view c (put_pool w' s) t ch b w' sent"
proof -
  have "net_pool (put_pool w' s) = Inr w'" using assms(1) by (intro net_pool_put) (simp add: out_view_def)
  then show ?thesis using out_view_alloc [OF assms(1) _ assms(2,3)] by (simp add: put_pool_def)
qed

lemma net_pool_alloc:
  assumes "net_pool s = Inr w"
  shows "\<exists>al i. n_alloc s = Some al \<and> al_threadCache al = Some i \<and> arena_at (al_arenas al) i = Inr w"
  using assms by (auto simp: net_pool_def threadCache_def split: option.splits)

lemma write_all_apart:
  assumes "buf_ok w b" "fresh_ok w" "int (length (concat ss)) \<le> writableBytes b" "capacity b \<le> b_maxCapacity b"
    and "regions_apart b b'" "buf_ok w b'"
  shows "\<exists>b1 w1. write_all ss (Some b) w = Inr (Some b1, w1) \<and> buf_ok w1 b1 \<and> fresh_ok w1 \<and>
     unread w1 b1 = unread w b @ map Some (concat ss) \<and> buf_ok w1 b' \<and> unread w1 b' = unread w b'"
  using assms
proof (induction ss arbitrary: b w)
  case (Cons s ss)
  let ?b = "b\<lparr>b_writerIndex := b_writerIndex b + int (length s)\<rparr>"
  have n: "int (length s) \<le> writableBytes b" using Cons(4) by simp
  obtain w1 where 1: "writeBytes s (int (length s)) b w = Inr (?b, w1)" "buf_ok w1 ?b" "fresh_ok w1"
    "unread w1 ?b = unread w b @ map Some s"
    using writeBytes_fits [OF Cons(2,3) n Cons(5)] by blast
  note ap = writeBytes_apart [OF Cons(2) n Cons(5) 1(1) Cons(6,7)]
  have i: "i32 (int (length s)) = int (length s)"
    using n Cons(2) by (intro i32_id) (auto simp: writableBytes_def capacity_def buf_ok_def)
  have "int (length (concat ss)) \<le> writableBytes ?b" "capacity ?b \<le> b_maxCapacity ?b" "regions_apart ?b b'" "buf_ok w1 b'"
    using Cons(4-6) ap by (simp_all add: writableBytes_def capacity_def)
  from Cons(1) [OF 1(2,3) this] show ?case using 1 i ap
    by (auto simp: buffer_writeString_def on_buf_def)
qed auto

text \<open>A whole response in a new buffer.\<close>

lemma response_filled:
  assumes v: "out_view c s t ch ob w sent" and g: "buffer_given k s ob rb"
    and fits: "int (length (response_text p)) \<le> writableBytes rb"
  shows "\<exists>al w1 b2 w2. Buffer k 16384 (n_alloc s) = Inr (Some rb, al) \<and> net_pool (s\<lparr>n_alloc := Some al\<rparr>) = Inr w1 \<and>
    appendToBuffer p (Some rb) w1 = Inr (Some b2, w2) \<and> buf_ok w2 b2 \<and> unread w2 b2 = map Some (response_text p) \<and>
    out_view c (put_pool w2 (s\<lparr>n_alloc := Some al\<rparr>)) t ch ob w2 sent"
proof -
  obtain al w1 where B: "Buffer k 16384 (n_alloc s) = Inr (Some rb, al)" "net_pool (s\<lparr>n_alloc := Some al\<rparr>) = Inr w1"
    and ok: "buf_ok w1 rb" "buf_ok w1 ob" "regions_apart rb ob"
    using g by (auto simp: buffer_given_def)
  have w: "net_pool s = Inr w" "buf_ok w ob" "fresh_ok w" using v by (auto simp: out_view_def)
  obtain al0 i where al0: "n_alloc s = Some al0" "al_threadCache al0 = Some i" "arena_at (al_arenas al0) i = Inr w"
    using net_pool_alloc [OF w(1)] by blast
  obtain w1' where w1': "al = al0\<lparr>al_arenas := (al_arenas al0)[i := Some w1']\<rparr>" "mem_le w w1'"
    "b_readerIndex rb = 0" "b_writerIndex rb = 0" "b_maxCapacity rb = INT_MAX"
    using Buffer_frame [OF B(1) [unfolded al0(1)] _ al0(2,3)] by auto
  have "w1' = w1" using B(2) w1'(1) al0(2) arena_at_upd [OF al0(3)] by (simp add: net_pool_def threadCache_def)
  then have u: "unread w1 ob = unread w ob \<and> fresh_ok w1" using mem_le_buffer w1'(2) w(2,3) ok(2) by blast
  have v1: "out_view c (s\<lparr>n_alloc := Some al\<rparr>) t ch ob w1 sent" by (rule out_view_alloc [OF v B(2) ok(2) u])
  have len: "length (response_text p) < 10 ^ 13" and cap: "capacity rb \<le> b_maxCapacity rb"
    using fits ok(1) w1'(5) by (auto simp: buf_ok_def writableBytes_def capacity_def w1'(4))
  have "length (p_body p) < 10 ^ 13" using len by (simp add: response_text_def)
  note tx = response_strings_text [OF this]
  have "int (length (concat (response_strings p))) \<le> writableBytes rb" using fits by (simp add: tx)
  note ap = write_all_apart [OF ok(1) conjunct2 [OF u] this cap ok(3,2), unfolded tx]
  then obtain b2 w2 where 2: "write_all (response_strings p) (Some rb) w1 = Inr (Some b2, w2)" "buf_ok w2 b2" "fresh_ok w2"
    "unread w2 b2 = unread w1 rb @ map Some (response_text p)" "buf_ok w2 ob" "unread w2 ob = unread w1 ob"
    using ap by blast
  have "out_view c (put_pool w2 (s\<lparr>n_alloc := Some al\<rparr>)) t ch ob w2 sent"
    using out_view_put [OF v1 2(5)] 2(3,6) by simp
  moreover have "unread w1 rb = []" by (simp add: unread_def w1'(3,4))
  ultimately show ?thesis using B 2 by (auto simp: appendToBuffer_def)
qed

subsection \<open>Sending and closing\<close>

text \<open>What \<^verbatim>\<open>send\<close> of a filled buffer does is \<^verbatim>\<open>send\<close> of its text.\<close>

lemma tcp_send_buffer_text:
  assumes "n_conns s c = Some t" "t_state t = kConnected" "l_inThread s" "net_pool s = Inr w"
    and "buf_ok w b" "unread w b = map Some text" and sd: "tcp_send_buffer os c (Some b) s = Inr (b', s')"
  shows "tcp_send os c text s = Inr s' \<and> b' = Some (retrieveAll b)"
proof -
  have known: "None \<notin> set (unread w b)" unfolding assms(6) by auto
  obtain data p where p: "buffer_peek (Some b) = Inr p" "read_mem w p (readableBytes b) = Inr data" "unread w b = map Some data"
    using unread_all [OF assms(5) known] by blast
  moreover have "data = text" using p(3) assms(6) by (simp add: inj_map_eq_map)
  ultimately show ?thesis using assms(1-4) sd
    by (auto simp: tcp_send_buffer_def tcp_send_def get_conn_def buffer_readableBytes_def buffer_retrieveAll_def on_buf_def)
qed

lemma sent_before:
  assumes "out_sound c s'" "n_conns s' = n_conns s" "net_pool s = Inr w" "net_pool s' = Inr w'" "mem_sub w w'"
  shows "out_sound c s"
  using assms mem_sub_buffer [OF assms(5)] by (auto simp: out_sound_def)

text \<open>The end of the handler: the socket is shut behind the response when it says so, and the buffer is given back.\<close>

lemma answer_closed:
  assumes send: "out_sound c s2 \<Longrightarrow> out_ok c s2 sent" and c2: "n_conns s2 c = Some t" "t_state t = kConnected" "l_inThread s2"
    and cl: "(if close then tcp_shutdown os c s2 else Inr s2) = Inr s3"
    and w: "net_pool s3 = Inr w3" "Buffer_destroy b w3 = Inr w4" and sound: "out_sound c (put_pool w4 s3)"
  shows "out_ok c (put_pool w4 s3) sent \<and>
    n_conns (put_pool w4 s3) = (n_conns s2)(c \<mapsto> t\<lparr>t_state := if close then kDisconnecting else kConnected\<rparr>)"
proof -
  note fr = Buffer_destroy_frame [OF w(2)]
  have p4: "net_pool (put_pool w4 s3) = Inr w4" by (rule net_pool_put [OF w(1)])
  have n4: "n_conns (put_pool w4 s3) = n_conns s3" by (simp add: put_pool_def)
  have s3: "out_sound c s3" by (rule sent_before [OF sound n4 w(1) p4 fr(1)])
  have n3: "n_conns s3 = (n_conns s2)(c \<mapsto> t\<lparr>t_state := if close then kDisconnecting else kConnected\<rparr>)"
    and a3: "n_alloc s3 = n_alloc s2"
    using cl c2 shutdown_fields [of os c s2 s3 t] by (auto split: if_splits simp: fun_upd_idem_iff)
  have "out_sound c s2" using s3 n3 c2 net_pool_cong [OF a3] by (auto simp: out_sound_def)
  then have "out_ok c s2 sent" by (rule send)
  then have "out_ok c s3 sent" using cl shutdown_out by (auto split: if_splits)
  then obtain t' ch b' w' where v: "out_view c s3 t' ch b' w' sent" by (auto simp: out_ok_def)
  then have w': "w' = w3" "fresh_ok w3" "n_conns s3 c = Some t'" "t_outputBuffer t' = Some b'"
    using w(1) by (auto simp: out_view_def)
  have b4: "buf_ok w4 b'" using sound w'(3,4) n4 p4 by (auto simp: out_sound_def)
  have "out_view c (put_pool w4 s3) t' ch b' w4 sent"
    using out_view_put [OF v b4] mem_sub_buffer [OF fr(1) b4] fr(2) w'(1,2) by (simp add: mem_le_def)
  then show ?thesis using n3 n4 unfolding out_ok_def by auto
qed

lemma onRequest_out:
  assumes v: "out_view c s t ch ob w sent" and t: "t_state t = kConnected" and g: "buffer_given k s ob rb"
    and fits: "int (length (response_text (answer cb req))) \<le> writableBytes rb"
    and r: "onRequest os k cb c req s = Inr s'" and sound: "out_sound c s'" and os: "os_ok os" "peer_there os"
  shows "out_ok c s' (sent @ response_text (answer cb req)) \<and> (\<exists>b. n_conns s' = (n_conns s)(c \<mapsto>
    t\<lparr>t_outputBuffer := b, t_state := if p_closeConnection (answer cb req) then kDisconnecting else kConnected\<rparr>))"
proof -
  let ?p = "answer cb req"
  obtain al w1 b2 w2 where f: "Buffer k 16384 (n_alloc s) = Inr (Some rb, al)" "net_pool (s\<lparr>n_alloc := Some al\<rparr>) = Inr w1"
    "appendToBuffer ?p (Some rb) w1 = Inr (Some b2, w2)" "buf_ok w2 b2" "unread w2 b2 = map Some (response_text ?p)"
    "out_view c (put_pool w2 (s\<lparr>n_alloc := Some al\<rparr>)) t ch ob w2 sent"
    using response_filled [OF v g fits] by blast
  let ?s1 = "put_pool w2 (s\<lparr>n_alloc := Some al\<rparr>)"
  obtain b3 s2 s3 w3 w4 where sb: "tcp_send_buffer os c (Some b2) ?s1 = Inr (b3, s2)"
    and cl: "(if p_closeConnection ?p then tcp_shutdown os c s2 else Inr s2) = Inr s3"
    and w3: "net_pool s3 = Inr w3" and d: "Buffer_destroy b3 w3 = Inr w4" and s': "s' = put_pool w4 s3"
    using r unfolding onRequest_def Let_def rbind_Inr_iff split_paired_Ex prod.case answer_def [symmetric]
    using f(1-3) by auto
  have c1: "n_conns ?s1 c = Some t" "l_inThread ?s1" "net_pool ?s1 = Inr w2" using f(6) by (auto simp: out_view_def)
  have sd: "tcp_send os c (response_text ?p) ?s1 = Inr s2"
    using tcp_send_buffer_text [OF c1(1) t c1(2,3) f(4,5) sb] by simp
  then have "sendInLoop os c (response_text ?p) ?s1 = Inr s2" using c1 t by (simp add: tcp_send_def get_conn_def deref_def)
  from sendInLoop_conn [OF this c1(1) t c1(2)] obtain bo where
    n2: "n_conns s2 = (n_conns ?s1)(c \<mapsto> t\<lparr>t_outputBuffer := bo\<rparr>)" "l_inThread s2" by blast
  have len: "int (length (response_text ?p)) \<le> INT_MAX"
    using f(4,5) length_unread [of b2 w2] by (auto simp: buf_ok_def readableBytes_def)
  have "out_ok c ?s1 sent" using f(6) unfolding out_ok_def by blast
  then have "out_ok c s2 (sent @ response_text ?p)" if "out_sound c s2"
    using tcp_send_out [OF _ os len sd that c1(1)] t by (simp add: connected_def)
  from answer_closed [OF this _ _ n2(2) cl w3 d sound [unfolded s'], of "t\<lparr>t_outputBuffer := bo\<rparr>"]
  show ?thesis using n2 t unfolding s' by (auto simp: put_pool_def)
qed

subsection \<open>The promise\<close>

lemma buffer_given_conn: "buffer_given k (put_conn c f s) ob rb = buffer_given k s ob rb"
  by (simp add: buffer_given_def put_conn_def net_pool_def)

text \<open>A request is answered once: when the parser finishes on what the input buffer holds, the message
  callback calls the user's callback with exactly the request it has found, what the connection sends
  grows by the whole text of the response and by nothing else, the connection is marked for closing
  exactly when the response says so, and the parser is ready for the next request.\<close>

lemma message_answered:
  assumes v: "out_ok c s sent" and c: "n_conns s c = Some t" "t_state t = kConnected" "t_context t = Some x"
    and buf: "t_inputBuffer t = Some ib" "t_outputBuffer t = Some ob" and w: "net_pool s = Inr w"
    and p: "parseRequest w x (Some ib) = Inr (True, \<lparr>x_state = kGotAll, x_request = r\<rparr>, Some ib')"
    and g: "buffer_given k s ob rb" and fits: "int (length (response_text (answer cb r))) \<le> writableBytes rb"
    and os: "os_ok os" "peer_there os" and m: "onMessage os k cb c s = Inr s'" and sound: "out_sound c s'"
  shows "out_ok c s' (sent @ response_text (answer cb r)) \<and>
    (\<exists>t'. n_conns s' c = Some t' \<and> t_context t' = Some HttpContext \<and> t_inputBuffer t' = Some ib' \<and>
       t_state t' = (if p_closeConnection (answer cb r) then kDisconnecting else kConnected))"
proof -
  let ?x = "\<lparr>x_state = kGotAll, x_request = r\<rparr>"
  let ?t = "t\<lparr>t_inputBuffer := Some ib', t_context := Some ?x\<rparr>"
  let ?s1 = "put_conn c (\<lambda>t. t\<lparr>t_inputBuffer := Some ib', t_context := Some ?x\<rparr>) s"
  obtain s2 where s2: "onRequest os k cb c r ?s1 = Inr s2" "s' = put_conn c (setContext (context_reset ?x)) s2"
    using m c buf(1) w p by (auto simp: onMessage_def get_conn_def gotAll_def Let_def)
  obtain ch w' where v0: "out_view c s t ch ob w' sent" using v c(1) buf(2) by (auto simp: out_ok_def out_view_def)
  have v1: "out_view c ?s1 ?t ch ob w' sent" by (rule out_view_input [OF v0])
  from onRequest_out [OF v1 _ _ fits s2(1) _ os] c(2) g
  have out: "out_sound c s2 \<Longrightarrow> out_ok c s2 (sent @ response_text (answer cb r)) \<and> (\<exists>b. n_conns s2 = (n_conns ?s1)(c \<mapsto>
      ?t\<lparr>t_outputBuffer := b, t_state := if p_closeConnection (answer cb r) then kDisconnecting else kConnected\<rparr>))"
    by (simp add: buffer_given_conn)
  have pool: "net_pool s' = net_pool s2" unfolding s2(2) by (rule net_pool_cong) (simp add: put_conn_def)
  then have "out_sound c s2" using sound by (auto simp: out_sound_def s2(2) put_conn_def setContext_def)
  note out = out [OF this]
  then obtain t2 ch2 b2 w2 where v2: "out_view c s2 t2 ch2 b2 w2 (sent @ response_text (answer cb r))"
    by (auto simp: out_ok_def)
  have "out_view c s' (setContext (context_reset ?x) t2) ch2 b2 w2 (sent @ response_text (answer cb r))"
    using v2 pool by (simp add: out_view_def s2(2) put_conn_def setContext_def)
  then show ?thesis using out
    by (auto simp: out_ok_def s2(2) put_conn_def setContext_def context_reset_def HttpContext_def req_swap_def)
qed

end
