(* ===== verification/TcpInput.thy ===== *)
theory TcpInput
  imports TcpStream ByteBufFrame
begin

text \<open>
  What a connection receives: a read event appends exactly the bytes the socket gave to the unread
  bytes of the input buffer, through both vectors of \<^verbatim>\<open>readv\<close> and any growth of the buffer, and leaves
  what the connection sends as it was. It is the counterpart of \<open>TcpStream\<close>.
\<close>

subsection \<open>\<^verbatim>\<open>readFd\<close>\<close>

text \<open>The vectors of the call.\<close>

definition read_lens :: "byte_buf \<Rightarrow> int list" where
  "read_lens b = (if writableBytes b < 65536 then [writableBytes b, 65536] else [writableBytes b])"

lemma u64_writable: "buf_ok w b \<Longrightarrow> u64 (writableBytes b) = writableBytes b"
  unfolding u64_def by (rule take_bit_int_eq_self) (auto simp: buf_ok_def writableBytes_def capacity_def)

text \<open>The part that fits behind the writer index.\<close>

definition filled :: "byte_buf \<Rightarrow> int \<Rightarrow> byte_buf" where
  "filled b n = b\<lparr>b_writerIndex := b_writerIndex b + n\<rparr>"

lemma write_behind:
  assumes ok: "buf_ok w b" "fresh_ok w" and p: "beginWrite (Some b) = Inr p" and wm: "write_mem p cs w = Inr w1"
    and fit: "int (length cs) \<le> writableBytes b"
  shows "buf_ok w1 (filled b (int (length cs))) \<and> fresh_ok w1 \<and>
    unread w1 (filled b (int (length cs))) = unread w b @ map Some cs \<and>
    (\<forall>ob. buf_ok w ob \<longrightarrow> regions_apart b ob \<longrightarrow> buf_ok w1 ob \<and> unread w1 ob = unread w ob)"
proof -
  obtain m where m: "b_memory b = Some m" "b_tmpBuf b = Some (m, b_offset b)" using buf_ok_ptr [OF ok(1)] by blast
  have "p = (m, idx b (b_writerIndex b))"
    using p m by (simp add: beginWrite_def buffer_begin_def on_buf_def idx_def)
  then have s: "setBytes (b_writerIndex b) cs 0 (int (length cs)) b w = Inr w1"
    using wm m by (simp add: setBytes_def)
  have rng: "0 \<le> b_writerIndex b" "b_writerIndex b + int (length cs) \<le> b_length b" "b_readerIndex b \<le> b_writerIndex b"
    using ok(1) fit by (auto simp: buf_ok_def writableBytes_def capacity_def)
  have "buf_ok w1 (filled b (int (length cs)))"
    using ok(1) rng in_region_setBytes [OF s] by (auto simp: buf_ok_def filled_def)
  moreover have "unread w1 (filled b (int (length cs))) = unread w b @ map Some cs"
    using setBytes_unread [OF rng(3) s] by (simp add: filled_def)
  ultimately show ?thesis using setBytes_fresh [OF s ok(2)] setBytes_apart [OF s rng(1,2)] by blast
qed

lemma readFd_appends:
  assumes ok: "buf_ok w b" "fresh_ok w" and rv: "readv (read_lens b) = Inr cs"
    and rf: "readFd readv (Some b) w = Inr (n, e, bf, w')"
  shows "n = int (length cs) \<and> (\<exists>b'. bf = Some b' \<and> (buf_ok w' b' \<longrightarrow>
     unread w' b' = unread w b @ map Some cs \<and> fresh_ok w' \<and>
     (\<forall>ob. buf_ok w ob \<longrightarrow> buf_ok w' ob \<longrightarrow> regions_apart b ob \<longrightarrow> regions_apart b' ob \<longrightarrow> b_length b \<le> b_length b' \<longrightarrow>
       unread w' ob = unread w ob)))"
proof -
  let ?k = "writableBytes b" and ?n = "int (length cs)"
  have k: "0 \<le> ?k" using ok(1) by (auto simp: buf_ok_def writableBytes_def capacity_def)
  have tn: "int (length (take (nat ?k) cs)) = min ?k ?n" using k by auto
  obtain p w1 where p: "beginWrite (Some b) = Inr p" "write_mem p (take (nat ?k) cs) w = Inr w1"
    and r: "(if ?n \<le> ?k then Inr (?n, None, Some (b\<lparr>b_writerIndex := b_writerIndex b + ?n\<rparr>), w1)
       else rbind (writeBytes (drop (nat ?k) cs) (?n - ?k) (b\<lparr>b_writerIndex := capacity b\<rparr>) w1)
             (\<lambda>(x', w2). Inr (?n, None, Some x', w2))) = Inr (n, e, bf, w')"
    using rf unfolding readFd_def on_buf_def option.case u64_writable [OF ok(1)] Let_def rv [unfolded read_lens_def] sum.case
      rbind_Inr_iff by blast
  have "int (length (take (nat ?k) cs)) \<le> ?k" using tn by simp
  note f = write_behind [OF ok p this, unfolded tn]
  show ?thesis
  proof (cases "?n \<le> ?k")
    case True
    then have "bf = Some (filled b ?n) \<and> n = ?n \<and> w' = w1 \<and> take (nat ?k) cs = cs \<and> min ?k ?n = ?n"
      using r by (auto simp: filled_def)
    then show ?thesis using f by auto
  next
    case False
    let ?b = "filled b ?k"
    obtain b' where wr: "writeBytes (drop (nat ?k) cs) (?n - ?k) ?b w1 = Inr (b', w')" and out: "bf = Some b'" "n = ?n"
      using r False by (auto simp: filled_def writableBytes_def)
    have f: "buf_ok w1 ?b" "fresh_ok w1" "unread w1 ?b = unread w b @ map Some (take (nat ?k) cs)"
      "\<And>ob. buf_ok w ob \<Longrightarrow> regions_apart b ob \<Longrightarrow> buf_ok w1 ob \<and> unread w1 ob = unread w ob"
      using f False by (auto simp: min_def)
    { assume ok': "buf_ok w' b'"
      have "take (nat (?n - ?k)) (drop (nat ?k) cs) = drop (nat ?k) cs" using k by simp
      then have "unread w' b' = unread w b @ map Some cs \<and> fresh_ok w'"
        using writeBytes_unread [OF f(1,2) wr] ok' f(3) by (simp add: buf_ok_def flip: map_append)
      moreover have "unread w' ob = unread w ob" if "buf_ok w ob" "buf_ok w' ob" "regions_apart b ob" "regions_apart b' ob"
          "b_length b \<le> b_length b'" for ob
        using f(4) [of ob] writeBytes_other [OF f(1,2) wr _ ok', of ob] that by (simp add: filled_def)
      ultimately have "unread w' b' = unread w b @ map Some cs \<and> fresh_ok w' \<and>
        (\<forall>ob. buf_ok w ob \<longrightarrow> buf_ok w' ob \<longrightarrow> regions_apart b ob \<longrightarrow> regions_apart b' ob \<longrightarrow> b_length b \<le> b_length b' \<longrightarrow>
          unread w' ob = unread w ob)" by blast }
    then show ?thesis using out by blast
  qed
qed

subsection \<open>The connection\<close>

definition conn_view ::
  "nat \<Rightarrow> net \<Rightarrow> conn \<Rightarrow> channel \<Rightarrow> byte_buf \<Rightarrow> byte_buf \<Rightarrow> pool \<Rightarrow> string \<Rightarrow> string \<Rightarrow> bool" where
  "conn_view c s t ch ib ob w sent got \<longleftrightarrow> out_view c s t ch ob w sent \<and> t_inputBuffer t = Some ib \<and>
     buf_ok w ib \<and> regions_apart ib ob \<and> unread w ib = map Some got"

text \<open>A connection has sent \<open>sent\<close> and holds \<open>got\<close> unread in its input buffer.\<close>

definition conn_ok :: "nat \<Rightarrow> net \<Rightarrow> string \<Rightarrow> string \<Rightarrow> bool" where
  "conn_ok c s sent got \<longleftrightarrow> (\<exists>t ch ib ob w. conn_view c s t ch ib ob w sent got)"

lemma conn_ok_out: "conn_ok c s sent got \<Longrightarrow> out_ok c s sent"
  by (auto simp: conn_ok_def conn_view_def out_ok_def)

text \<open>What the pool promises for a read: both buffers of the connection are in order and apart, and the
  input buffer, when it has moved, has not become shorter.\<close>

definition bufs_sound :: "nat \<Rightarrow> net \<Rightarrow> net \<Rightarrow> bool" where
  "bufs_sound c s s' \<longleftrightarrow> (\<exists>t ib t' ib' ob' w'. n_conns s c = Some t \<and> t_inputBuffer t = Some ib \<and>
     n_conns s' c = Some t' \<and> t_inputBuffer t' = Some ib' \<and> t_outputBuffer t' = Some ob' \<and> net_pool s' = Inr w' \<and>
     buf_ok w' ib' \<and> buf_ok w' ob' \<and> regions_apart ib' ob' \<and> b_length ib \<le> b_length ib')"

text \<open>The part of \<^verbatim>\<open>handleRead\<close> before the callbacks.\<close>

definition read_input :: "os \<Rightarrow> nat \<Rightarrow> net \<Rightarrow> (int \<times> net) res" where
  "read_input os c s =
     rbind (get_conn c s) (\<lambda>t. rbind (get_channel t s) (\<lambda>ch. rbind (net_pool s) (\<lambda>w.
     rbind (readFd (os_readv os (n_tick s) (c_fd ch)) (t_inputBuffer t) w) (\<lambda>(n, savedErrno, b, w').
     Inr (n, put_conn c (\<lambda>t. t\<lparr>t_inputBuffer := b\<rparr>) (put_pool w' (s\<lparr>n_tick := n_tick s + 1\<rparr>)))))))"

lemma handleRead_split:
  assumes "l_inThread s"
  shows "handleRead os u c s = rbind (read_input os c s) (\<lambda>(n, s1).
    if n > 0 then u_message u c s1 else if n = 0 then handleClose u c s1 else handleError c s1)"
  using assms by (simp add: handleRead_def read_input_def assertInLoopThread_def rbind_assoc Let_def case_prod_unfold
      del: rbind_Inr_iff cong: if_cong)

lemma conn_view_input:
  assumes "out_view c s t ch ob w sent" "net_pool (put_pool w' (s\<lparr>n_tick := k\<rparr>)) = Inr w'" "buf_ok w' ob"
    "unread w' ob = unread w ob" "fresh_ok w'" "buf_ok w' ib" "regions_apart ib ob" "unread w' ib = map Some got"
  shows "conn_view c (put_conn c (\<lambda>t. t\<lparr>t_inputBuffer := Some ib\<rparr>) (put_pool w' (s\<lparr>n_tick := k\<rparr>)))
    (t\<lparr>t_inputBuffer := Some ib\<rparr>) ch ib ob w' sent got"
  using assms net_pool_cong [of "put_conn c (\<lambda>t. t\<lparr>t_inputBuffer := Some ib\<rparr>) (put_pool w' (s\<lparr>n_tick := k\<rparr>))" "put_pool w' (s\<lparr>n_tick := k\<rparr>)"]
  by (simp add: conn_view_def out_view_def put_conn_def put_pool_def)

lemma read_input_appends:
  assumes v: "conn_view c s t ch ib ob w sent got" and rv: "os_readv os (n_tick s) (c_fd ch) (read_lens ib) = Inr cs"
    and rd: "read_input os c s = Inr (n, s1)"
  shows "n = int (length cs) \<and> (bufs_sound c s s1 \<longrightarrow>
    (\<exists>ib' w'. conn_view c s1 (t\<lparr>t_inputBuffer := Some ib'\<rparr>) ch ib' ob w' sent (got @ cs)))"
proof -
  have o: "out_view c s t ch ob w sent" and ib: "t_inputBuffer t = Some ib" "buf_ok w ib" "regions_apart ib ob" "unread w ib = map Some got"
    using v by (auto simp: conn_view_def)
  have get: "n_conns s c = Some t" "l_channels s (t_channel t) = Some ch" "net_pool s = Inr w" "fresh_ok w" "buf_ok w ob"
    "t_outputBuffer t = Some ob"
    using o by (auto simp: out_view_def)
  obtain e bf w' where rf: "readFd (os_readv os (n_tick s) (c_fd ch)) (Some ib) w = Inr (n, e, bf, w')"
    and s1: "s1 = put_conn c (\<lambda>t. t\<lparr>t_inputBuffer := bf\<rparr>) (put_pool w' (s\<lparr>n_tick := n_tick s + 1\<rparr>))"
    using rd get ib(1) by (auto simp: read_input_def get_conn_def get_channel_def)
  from readFd_appends [OF ib(2) get(4) rv rf] obtain b' where n: "n = int (length cs)" and b': "bf = Some b'" and
    app: "buf_ok w' b' \<Longrightarrow> unread w' b' = unread w ib @ map Some cs \<and> fresh_ok w' \<and>
     (\<forall>ob. buf_ok w ob \<longrightarrow> buf_ok w' ob \<longrightarrow> regions_apart ib ob \<longrightarrow> regions_apart b' ob \<longrightarrow> b_length ib \<le> b_length b' \<longrightarrow>
       unread w' ob = unread w ob)"
    by blast
  have p: "net_pool (put_pool w' (s\<lparr>n_tick := n_tick s + 1\<rparr>)) = Inr w'"
    by (rule net_pool_put) (use get(3) in \<open>simp add: net_pool_def\<close>)
  then have p1: "net_pool s1 = Inr w'" using net_pool_cong [of s1 "put_pool w' (s\<lparr>n_tick := n_tick s + 1\<rparr>)"] by (simp add: s1 put_conn_def)
  have c1: "n_conns s1 c = Some (t\<lparr>t_inputBuffer := Some b'\<rparr>)" using get(1) by (simp add: s1 put_conn_def put_pool_def b')
  { assume "bufs_sound c s s1"
    then have ok: "buf_ok w' b'" "buf_ok w' ob" "regions_apart b' ob" "b_length ib \<le> b_length b'"
      using c1 p1 get(1,6) ib(1) by (auto simp: bufs_sound_def)
    have "conn_view c s1 (t\<lparr>t_inputBuffer := Some b'\<rparr>) ch b' ob w' sent (got @ cs)"
      unfolding s1 b' using app [OF ok(1)] ok ib(3,4) get(5) by (intro conn_view_input [OF o p]) simp_all }
  then show ?thesis using n by blast
qed

text \<open>A read that fits: it returns, keeps the pool's promise, and leaves all but the bytes of the memory.\<close>

lemma read_fits:
  assumes v: "conn_view c s t ch ib ob w sent got" and rv: "os_readv os (n_tick s) (c_fd ch) (read_lens ib) = Inr cs"
    and fit: "int (length cs) \<le> writableBytes ib"
  shows "\<exists>f. let ib' = filled ib (int (length cs)); w' = w\<lparr>w_mem := f\<rparr>;
      s1 = put_conn c (\<lambda>t. t\<lparr>t_inputBuffer := Some ib'\<rparr>) (put_pool w' (s\<lparr>n_tick := n_tick s + 1\<rparr>)) in
    read_input os c s = Inr (int (length cs), s1) \<and> bufs_sound c s s1 \<and>
    conn_view c s1 (t\<lparr>t_inputBuffer := Some ib'\<rparr>) ch ib' ob w' sent (got @ cs) \<and>
    (\<forall>m. map_option fst (f m) = map_option fst (w_mem w m))"
proof -
  have o: "out_view c s t ch ob w sent" and ib: "t_inputBuffer t = Some ib" "buf_ok w ib" "regions_apart ib ob" "unread w ib = map Some got"
    using v by (auto simp: conn_view_def)
  have get: "n_conns s c = Some t" "l_channels s (t_channel t) = Some ch" "net_pool s = Inr w" "fresh_ok w" "buf_ok w ob"
    "t_outputBuffer t = Some ob"
    using o by (auto simp: out_view_def)
  obtain m sz h where m: "b_memory ib = Some m" "w_mem w m = Some (sz, h)" "0 \<le> b_offset ib" "b_offset ib + b_length ib \<le> sz"
    "b_tmpBuf ib = Some (m, b_offset ib)"
    using ib(2) by (auto simp: buf_ok_def in_region_def split: option.splits)
  have rng: "0 \<le> b_writerIndex ib" "b_writerIndex ib + int (length cs) \<le> b_length ib"
    using ib(2) fit by (auto simp: buf_ok_def writableBytes_def capacity_def)
  define f where "f = (w_mem w)(m \<mapsto> (sz, write_bytes h (b_offset ib + b_writerIndex ib) cs))"
  have p: "beginWrite (Some ib) = Inr (m, b_offset ib + b_writerIndex ib)"
    using m(5) by (simp add: beginWrite_def buffer_begin_def on_buf_def)
  have wm: "write_mem (m, b_offset ib + b_writerIndex ib) cs w = Inr (w\<lparr>w_mem := f\<rparr>)"
    using m rng by (simp add: write_mem_def f_def)
  let ?ib = "filled ib (int (length cs))" and ?w = "w\<lparr>w_mem := f\<rparr>"
  let ?s = "put_conn c (\<lambda>t. t\<lparr>t_inputBuffer := Some ?ib\<rparr>) (put_pool ?w (s\<lparr>n_tick := n_tick s + 1\<rparr>))"
  have "readFd (os_readv os (n_tick s) (c_fd ch)) (Some ib) w = Inr (int (length cs), None, Some ?ib, ?w)"
    using fit rv p wm unfolding read_lens_def
    by (simp add: readFd_def on_buf_def u64_writable [OF ib(2)] filled_def Let_def del: rbind_Inr_iff cong: if_cong)
  then have r: "read_input os c s = Inr (int (length cs), ?s)"
    using get ib(1) by (simp add: read_input_def get_conn_def get_channel_def deref_def del: rbind_Inr_iff deref_Inr)
  have pool: "net_pool (put_pool ?w (s\<lparr>n_tick := n_tick s + 1\<rparr>)) = Inr ?w"
    by (rule net_pool_put) (use get(3) in \<open>simp add: net_pool_def\<close>)
  note wb = write_behind [OF ib(2) get(4) p wm fit]
  have ap: "regions_apart ?ib ob" using ib(3) by (simp add: filled_def)
  have v1: "conn_view c ?s (t\<lparr>t_inputBuffer := Some ?ib\<rparr>) ch ?ib ob ?w sent (got @ cs)"
    using wb get(5) ib(3,4) ap by (intro conn_view_input [OF o pool]) auto
  then have "bufs_sound c s ?s" using get(1) ib(1) get(6)
    by (auto simp: bufs_sound_def conn_view_def out_view_def filled_def)
  moreover have "\<forall>k. map_option fst (f k) = map_option fst (w_mem w k)" using m(2) by (simp add: f_def)
  ultimately show ?thesis using r v1 by (auto simp: Let_def)
qed


end
