(* ===== verification/HttpPieces.thy ===== *)
theory HttpPieces
  imports HttpAnswer TcpInput
begin

text \<open>
  The HTTP server from socket to socket: a request that comes in any pieces, one read event each, is
  answered when its last byte is there and not before.
\<close>

subsection \<open>Parsing stays in the region of the buffer\<close>

definition same_place :: "byte_buf \<Rightarrow> byte_buf \<Rightarrow> bool" where
  "same_place b b' \<longleftrightarrow> b_memory b' = b_memory b \<and> b_offset b' = b_offset b \<and> b_length b' = b_length b"

lemma retrieveUntil_place: "retrieveUntil e (Some b) = Inr bf \<Longrightarrow> \<exists>b'. bf = Some b' \<and> same_place b b'"
  by (auto simp: retrieveUntil_def buffer_retrieve_def on_buf_def retrieve_def retrieveAll_def same_place_def)

lemma parse_loop_place: "parse_loop n w x (Some b) = Inr (good, x', bf) \<Longrightarrow> \<exists>b'. bf = Some b' \<and> same_place b b'"
proof (induction n arbitrary: x b)
  case (Suc n)
  have IH: "parse_loop n w y b1 = Inr (good, x', bf) \<Longrightarrow> retrieveUntil e (Some b) = Inr b1 \<Longrightarrow>
      \<exists>b'. bf = Some b' \<and> same_place b b'" for y e b1
    using Suc.IH retrieveUntil_place by (fastforce simp: same_place_def)
  have "\<exists>b'. bf = Some b' \<and> same_place b b'" if "retrieveUntil e (Some b) = Inr bf" for e
    using retrieveUntil_place [OF that] .
  moreover have "same_place b b" by (simp add: same_place_def)
  ultimately show ?case using Suc.prems Suc.IH
    by (cases "x_state x") (auto split: option.splits if_splits dest: IH)
qed simp

lemma regions_apart_place: "same_place b b' \<Longrightarrow> regions_apart b' ob = regions_apart b ob"
  by (simp add: same_place_def regions_apart_def)

lemma parse_view:
  assumes v: "conn_view c s t ch ib ob w sent got" and p: "parse_text x got = Inr (good, x', rest)"
  shows "\<exists>ib'. parseRequest w x (Some ib) = Inr (good, x', Some ib') \<and>
    conn_view c (put_conn c (\<lambda>t. t\<lparr>t_inputBuffer := Some ib', t_context := Some x'\<rparr>) s)
      (t\<lparr>t_inputBuffer := Some ib', t_context := Some x'\<rparr>) ch ib' ob w sent rest"
proof -
  have o: "out_view c s t ch ob w sent" and ib: "buf_ok w ib" "unread w ib = map Some got" "regions_apart ib ob"
    using v by (auto simp: conn_view_def)
  obtain ib' where p': "parseRequest w x (Some ib) = Inr (good, x', Some ib')" "buf_ok w ib'" "unread w ib' = map Some rest"
    using same_parseD(2) [OF parseRequest_text [OF ib(1,2)] p] by blast
  then have "regions_apart ib' ob"
    using parse_loop_place regions_apart_place ib(3) unfolding parseRequest_def rbind_Inr_iff by fastforce
  then show ?thesis using p' out_view_input [OF o, of "Some x'" "Some ib'"] by (auto simp: conn_view_def)
qed

subsection \<open>Pieces\<close>

text \<open>Read events that bring the bytes \<open>got\<close>, after each of which the pool keeps its promise.\<close>

definition socket_gives :: "os \<Rightarrow> nat \<Rightarrow> net \<Rightarrow> string \<Rightarrow> bool" where
  "socket_gives os c s cs \<longleftrightarrow> (\<exists>t ch ib. n_conns s c = Some t \<and> l_channels s (t_channel t) = Some ch \<and>
     t_inputBuffer t = Some ib \<and> os_readv os (n_tick s) (c_fd ch) (read_lens ib) = Inr cs \<and> cs \<noteq> [])"

definition pool_keeps :: "os \<Rightarrow> nat \<Rightarrow> net \<Rightarrow> bool" where
  "pool_keeps os c s \<longleftrightarrow> (\<forall>n s1. read_input os c s = Inr (n, s1) \<longrightarrow> bufs_sound c s s1)"

inductive receives ::
  "os \<Rightarrow> int \<Rightarrow> (http_request \<Rightarrow> http_response \<Rightarrow> http_response) \<Rightarrow> nat \<Rightarrow> net \<Rightarrow> string \<Rightarrow> net \<Rightarrow> bool"
  for os k cb c s0 where
  none: "receives os k cb c s0 [] s0"
| piece: "receives os k cb c s0 got s \<Longrightarrow> socket_gives os c s cs \<Longrightarrow> pool_keeps os c s \<Longrightarrow>
    handleRead os (http_user os k cb) c s = Inr s' \<Longrightarrow> receives os k cb c s0 (got @ cs) s'"

text \<open>The connection waits for the rest of a request of which it has got a part.\<close>

definition waits :: "nat \<Rightarrow> net \<Rightarrow> string \<Rightarrow> string \<Rightarrow> bool" where
  "waits c s sent got \<longleftrightarrow> (\<exists>t ch ib ob w x rest. conn_view c s t ch ib ob w sent rest \<and> t_state t = kConnected \<and>
     t_context t = Some x \<and> parse_text HttpContext got = Inr (True, x, rest) \<and> \<not> gotAll x)"

lemma printed_prefix:
  assumes r: "printable r" and cut: "render_request r = xs @ ys" "ys \<noteq> []"
  shows "\<exists>x rest. parse_text HttpContext xs = Inr (True, x, rest) \<and> \<not> gotAll x"
proof -
  have all: "parse_text HttpContext (xs @ ys) = Inr (True, \<lparr>x_state = kGotAll, x_request = r\<rparr>, [])"
    using parse_printed [OF r, of "[]"] cut(1) by simp
  then obtain good x rest where "parse_text HttpContext xs = Inr (good, x, rest)"
    by (cases "parse_text HttpContext xs") (auto simp: parse_text_more [of _ xs ys])
  then show ?thesis using all cut(2) by (auto simp: parse_text_more [of _ xs ys] split: if_splits)
qed

lemma http_message: "u_message (http_user os k cb) = onMessage os k cb"
  by (simp add: http_user_def server_user_def)

text \<open>A read event hands the message callback what it has read.\<close>

lemma piece_read:
  assumes v: "conn_view c s t ch ib ob w sent rest" and g: "socket_gives os c s cs" and keep: "pool_keeps os c s"
    and h: "handleRead os (http_user os k cb) c s = Inr s'"
  shows "\<exists>s1 ib1 w1. conn_view c s1 (t\<lparr>t_inputBuffer := Some ib1\<rparr>) ch ib1 ob w1 sent (rest @ cs) \<and> onMessage os k cb c s1 = Inr s' \<and>
    (\<exists>n. read_input os c s = Inr (n, s1))"
proof -
  have i: "l_inThread s" using v by (simp add: conn_view_def out_view_def)
  have rv: "os_readv os (n_tick s) (c_fd ch) (read_lens ib) = Inr cs" "cs \<noteq> []"
    using v g by (auto simp: socket_gives_def conn_view_def out_view_def)
  obtain n s1 where r: "read_input os c s = Inr (n, s1)"
    and m: "(if n > 0 then onMessage os k cb c s1 else if n = 0 then handleClose (http_user os k cb) c s1 else handleError c s1) = Inr s'"
    using h unfolding handleRead_split [OF i] http_message by (auto simp del: if_split_asm)
  then show ?thesis using read_input_appends [OF v rv(1) r] rv(2) keep by (fastforce simp: pool_keeps_def)
qed

lemma waits_step:
  assumes w: "waits c s sent got" and r: "printable r" "render_request r = (got @ cs) @ ys" "ys \<noteq> []"
    and g: "socket_gives os c s cs" "pool_keeps os c s" and h: "handleRead os (http_user os k cb) c s = Inr s'"
  shows "waits c s' sent (got @ cs)"
proof -
  obtain t ch ib ob p x rest where v: "conn_view c s t ch ib ob p sent rest" and t: "t_state t = kConnected" "t_context t = Some x"
    and x: "parse_text HttpContext got = Inr (True, x, rest)" "\<not> gotAll x"
    using w by (auto simp: waits_def)
  obtain s1 ib1 w1 where v1: "conn_view c s1 (t\<lparr>t_inputBuffer := Some ib1\<rparr>) ch ib1 ob w1 sent (rest @ cs)"
    and m: "onMessage os k cb c s1 = Inr s'"
    using piece_read [OF v g h] by blast
  obtain x' rest' where p: "parse_text HttpContext (got @ cs) = Inr (True, x', rest')" "\<not> gotAll x'"
    using printed_prefix [OF r] by blast
  then have "parse_text x (rest @ cs) = Inr (True, x', rest')" using x by (simp add: parse_text_more)
  from parse_view [OF v1 this] obtain ib' where pr: "parseRequest w1 x (Some ib1) = Inr (True, x', Some ib')"
    and v2: "conn_view c (put_conn c (\<lambda>t. t\<lparr>t_inputBuffer := Some ib', t_context := Some x'\<rparr>) s1)
      (t\<lparr>t_inputBuffer := Some ib', t_context := Some x'\<rparr>) ch ib' ob w1 sent rest'" by auto
  have "n_conns s1 c = Some (t\<lparr>t_inputBuffer := Some ib1\<rparr>)" "net_pool s1 = Inr w1" using v1 by (auto simp: conn_view_def out_view_def)
  then have "s' = put_conn c (\<lambda>t. t\<lparr>t_inputBuffer := Some ib', t_context := Some x'\<rparr>) s1"
    using m pr p(2) t(2) by (simp add: onMessage_def get_conn_def)
  then show ?thesis using v2 p t(1) unfolding waits_def
    by (intro exI [of _ "t\<lparr>t_inputBuffer := Some ib', t_context := Some x'\<rparr>"]) auto
qed

lemma receives_waits:
  assumes "receives os k cb c s0 got s" "waits c s0 sent []" "printable r" "render_request r = got @ ys" "ys \<noteq> []"
  shows "waits c s sent got"
  using assms
proof (induction arbitrary: ys rule: receives.induct)
  case (piece got s cs s')
  have "waits c s sent got"
    using piece.IH [OF piece.prems(1,2), of "cs @ ys"] piece.prems(3) piece.hyps(2) by (auto simp: socket_gives_def)
  from waits_step [OF this piece.prems(2,3,4) piece.hyps(2-4)] show ?case .
qed simp

subsection \<open>The promise\<close>

text \<open>A connection between two requests: connected, with nothing unread and the parser at its start.\<close>

definition idle :: "nat \<Rightarrow> net \<Rightarrow> string \<Rightarrow> bool" where
  "idle c s sent \<longleftrightarrow> (\<exists>t ch ib ob w. conn_view c s t ch ib ob w sent [] \<and> t_state t = kConnected \<and> t_context t = Some HttpContext)"

lemma idle_waits: "idle c s sent \<Longrightarrow> waits c s sent []"
  by (force simp: idle_def waits_def parse_text.simps HttpContext_def next_line_def gotAll_def)

text \<open>The allocator has a buffer for a response of \<open>n\<close> bytes, apart from the output buffer.\<close>

definition room_for :: "int \<Rightarrow> nat \<Rightarrow> net \<Rightarrow> nat \<Rightarrow> bool" where
  "room_for k c s n \<longleftrightarrow> (\<exists>t ob rb. n_conns s c = Some t \<and> t_outputBuffer t = Some ob \<and> buffer_given k s ob rb \<and>
     int n \<le> writableBytes rb)"


subsection \<open>A run\<close>

text \<open>A connection that gets the text of a request, with two bytes behind it, in two pieces. The thread has
  one region of 16 KiB cached, the element of a subpage in a block of its own; \<open>g\<close> is the memory.\<close>

definition ask_text :: string where "ask_text = render_request sample_request @ ''xy''"

definition ask_handle :: int where "ask_handle = subpageHandle 16384 13 0 0"

definition ask_region :: "cache_entry list \<Rightarrow> int \<Rightarrow> region_cache" where
  "ask_region q n = (MemoryRegionCache 256 SMALL)\<lparr>rc_queue := q, rc_allocations := n\<rparr>"

definition ask_pool :: "(nat \<rightharpoonup> mem_block) \<Rightarrow> pool" where
  "ask_pool g = sample_pool\<lparr>w_mem := g, w_fresh := 8,
     w_chunks := [7 \<mapsto> \<lparr>pc_chunk = (PoolChunk_unpooled (Some 1) 16777216 0)\<lparr>c_subpages := [Some 3], c_pageSize := 8192,
       c_pageShifts := 13, c_unpool := False\<rparr>, pc_prev = None, pc_next = None, pc_parent = None\<rparr>],
     w_subs := [3 \<mapsto> PoolSubpage_head\<lparr>s_elemSize := 16384\<rparr>],
     w_small := (replicate 39 (MemoryRegionCache 256 SMALL))
       [35 := ask_region [newEntry 7 (Some (1, 0)) ask_handle 16384] 0]\<rparr>"

definition ask_given :: "(nat \<rightharpoonup> mem_block) \<Rightarrow> pool" where
  "ask_given g = (ask_pool g)\<lparr>w_small := (w_small (ask_pool g))[35 := ask_region [] 1], w_allocations := 1\<rparr>"

definition ask_buf :: byte_buf where
  "ask_buf = \<lparr>b_maxCapacity = INT_MAX, b_chunk = Some 7, b_handle = ask_handle, b_memory = Some 1, b_offset = 0,
     b_length = 16384, b_maxLength = 16384, b_cache = True, b_tmpBuf = Some (1, 0), b_readerIndex = 0, b_writerIndex = 0\<rparr>"

definition ask_alloc :: "pool \<Rightarrow> allocator" where
  "ask_alloc w = \<lparr>al_arenas = [Some w], al_smallCacheSize = 256, al_normalCacheSize = 64,
     al_chunkSize = 16777216, al_threadCache = Some 0\<rparr>"

definition ask_out :: byte_buf where
  "ask_out = (text_buf [])\<lparr>b_offset := 512, b_tmpBuf := Some (0, 512)\<rparr>"

definition ask_mem :: "nat \<rightharpoonup> mem_block" where
  "ask_mem = [0 \<mapsto> (1024, Map.empty), 1 \<mapsto> (16777216, Map.empty)]"

definition ask_net :: net where
  "ask_net = sample_net\<lparr>n_alloc := Some (ask_alloc (ask_pool ask_mem)),
     n_conns := [2 \<mapsto> (the (n_conns sample_net 2))\<lparr>t_inputBuffer := Some (text_buf []),
       t_outputBuffer := Some ask_out, t_context := Some HttpContext\<rparr>]\<rparr>"

definition ask_os :: os where
  "ask_os = sample_os\<lparr>os_readv := (\<lambda>k fd ls. Inr (if k = 0 then take 10 ask_text else drop 10 ask_text))\<rparr>"

lemma ask_os_ok: "os_ok ask_os" "peer_there ask_os"
  by (simp_all add: os_ok_def peer_there_def ask_os_def sample_os_def)

lemma ask_length: "length ask_text \<le> 256" "10 < length (render_request sample_request)"
  by (simp_all add: ask_text_def render_request_def render_line_def sample_request_def methodString_def render_version_def)

lemma ask_handle_fields: "calculateRunOffset ask_handle = 0" "calculateBitmapIdx ask_handle = 0" "isSubpage ask_handle" "0 \<le> ask_handle"
  using subpageHandle_fields [of 0 16384 13 0] by (simp_all add: ask_handle_def run_fields_def shr_eq)

lemma ask_class: "size2sizeIdx default_sizes 16384 = Inr 35"
proof -
  have "class_of 4 16384 = 35" by code_simp
  then show ?thesis by simp
qed

lemma ask_cache:
  "w_sizes (ask_pool g) = default_sizes" "w_recycled (ask_pool g) = []" "w_allocations (ask_pool g) = 0" "w_threshold (ask_pool g) = 8192"
  "cacheForSmall 35 (ask_pool g) = Some 35" "w_small (ask_pool g) ! 35 = ask_region [newEntry 7 (Some (1, 0)) ask_handle 16384] 0"
  by (simp_all add: ask_pool_def sample_pool_def cacheForSmall_def cache_at_def)

lemma ask_init:
  "initBufWithSubpage (ask_pool g) 7 (Some (1, 0)) ask_handle 16384 True
     (ask_buf\<lparr>b_chunk := None, b_handle := 0, b_memory := None, b_length := 0, b_maxLength := 0, b_cache := False, b_tmpBuf := None\<rparr>)
   = Inr ask_buf"
  using ask_handle_fields
  by (simp add: initBufWithSubpage_def get_chunk_def ask_pool_def ask_buf_def PoolChunk_unpooled_def at_vec_def
      PoolSubpage_head_def buf_init_def init0_def shl32_eq deref_def del: rbind_Inr_iff deref_Inr)

lemma ask_buffer: "Buffer k 16384 (Some (ask_alloc (ask_pool g))) = Inr (Some ask_buf, ask_alloc (ask_given g))"
proof -
  let ?b = "ask_buf\<lparr>b_chunk := None, b_handle := 0, b_memory := None, b_length := 0, b_maxLength := 0, b_cache := False, b_tmpBuf := None\<rparr>"
  have 1: "newInstance INT_MAX (ask_pool g) = Inr (?b, ask_pool g)"
    using ask_cache by (simp add: newInstance_def recycler_get_def PoolByteBuf_def reuse_def setIndex0_def setMaxCapacity_def ask_buf_def
        del: rbind_Inr_iff)
  have "cache_allocateSmall 16384 35 ?b (ask_pool g) = Inr (True, ask_buf, ask_given g)"
    using ask_init ask_cache
    by (simp add: cache_allocateSmall_def cache_allocate_def region_at_def region_allocate_def ask_region_def newEntry_def
        MemoryRegionCache_def region_initBuf_def count_cached_def set_region_def ask_given_def del: rbind_Inr_iff)
  then have "arena_allocate_buf 16384 ?b (ask_pool g) = Inr (ask_buf, ask_given g)"
    using ask_cache(1) by (simp add: arena_allocate_buf_def ask_class tcacheAllocateSmall_def del: size2sizeIdx_default rbind_Inr_iff)
  then have "arena_allocate 16384 INT_MAX (ask_pool g) = Inr (ask_buf, ask_given g)" using 1 by (simp add: arena_allocate_def)
  then show ?thesis
    by (simp add: Buffer_def ALLOCATOR_def poolBuffer_def poolBuffer_max_def newPoolBuffer_def ask_alloc_def arena_at_def at_vec_def)
qed

text \<open>Filling the buffer leaves all but the bytes of the memory, and giving it back caches its region again.\<close>

lemma write_all_keeps:
  assumes "buf_ok w b" "fresh_ok w" "int (length (concat ss)) \<le> writableBytes b" "capacity b \<le> b_maxCapacity b"
  shows "\<exists>f. write_all ss (Some b) w = Inr (Some (b\<lparr>b_writerIndex := b_writerIndex b + int (length (concat ss))\<rparr>), w\<lparr>w_mem := f\<rparr>)"
  using assms
proof (induction ss arbitrary: b w)
  case Nil
  then show ?case by (auto intro: exI [of _ "w_mem w"])
next
  case (Cons s ss)
  let ?b = "b\<lparr>b_writerIndex := b_writerIndex b + int (length s)\<rparr>"
  have n: "int (length s) \<le> writableBytes b" using Cons(4) by simp
  obtain w1 where 1: "writeBytes s (int (length s)) b w = Inr (?b, w1)" "buf_ok w1 ?b" "fresh_ok w1"
    using writeBytes_fits [OF Cons(2,3) n Cons(5)] by blast
  then obtain g where g: "w1 = w\<lparr>w_mem := g\<rparr>"
    using ensureWritable_fits [OF Cons(2) n Cons(5)]
    by (auto simp: writeBytes_def writeBytes_at_def setBytes_def write_mem_def split: option.splits if_splits)
  have i: "i32 (int (length s)) = int (length s)"
    using n Cons(2) by (intro i32_id) (auto simp: writableBytes_def capacity_def buf_ok_def)
  have "int (length (concat ss)) \<le> writableBytes ?b" "capacity ?b \<le> b_maxCapacity ?b"
    using Cons(4,5) by (simp_all add: writableBytes_def capacity_def)
  from Cons(1) [OF 1(2,3) this] show ?case using 1(1) i
    by (auto simp: buffer_writeString_def on_buf_def g add.assoc)
qed

lemma ask_destroyed:
  "\<exists>w'. Buffer_destroy (Some (retrieveAll (ask_buf\<lparr>b_writerIndex := n\<rparr>))) (ask_given f) = Inr w' \<and> w_mem w' = f"
proof -
  let ?w = "ask_given f"
  have a: "w_sizes ?w = default_sizes" "cacheForSmall 35 ?w = Some 35" "\<not> c_unpool (pc_chunk (the (w_chunks ?w 7)))" "w_chunks ?w 7 \<noteq> None" "w_mem ?w = f"
    using ask_cache by (simp_all add: ask_given_def cacheForSmall_def) (simp_all add: ask_pool_def PoolChunk_unpooled_def cache_at_def)
  have "\<exists>w1. arena_free 7 (Some (1, 0)) ask_handle 16384 True ?w = Inr w1 \<and> w_mem w1 = f"
    using a ask_handle_fields(3)
    by (auto simp: arena_free_def get_chunk_def deref_def getSizeClassType_def cache_add_def ask_class genCache_def set_region_def
        simp del: rbind_Inr_iff deref_Inr size2sizeIdx_default)
  then show ?thesis using ask_handle_fields(4)
    by (auto simp: Buffer_destroy_def deallocate_def retrieveAll_def ask_buf_def Let_def)
qed


lemma ask_mem_upd [simp]: "(ask_given g)\<lparr>w_mem := f\<rparr> = ask_given f" "(ask_pool g)\<lparr>w_mem := f\<rparr> = ask_pool f"
  "w_mem (ask_given g) = g" "w_mem (ask_pool g) = g"
  by (simp_all add: ask_given_def ask_pool_def)

lemma ask_send:
  assumes "out_view c s t ch b w sent" "t_state t = kConnected" "readableBytes b = 0" "\<not> t_hasWriteComplete t"
  shows "sendInLoop ask_os c data s =
    Inr (s\<lparr>n_tick := n_tick s + 1, n_wire := (n_wire s)(t_socket t := n_wire s (t_socket t) @ data)\<rparr>)"
  using assms
  by (simp add: out_view_def sendInLoop_def assertInLoopThread_def get_conn_def get_channel_def try_write_def sys_write_def
      buffer_readableBytes_def on_buf_def ask_os_def sample_os_def u64_def deref_def del: rbind_Inr_iff deref_Inr)

lemma ask_shutdown:
  assumes "out_view c s t ch b w sent" "t_state t = kConnected" "readableBytes b = 0"
  shows "tcp_shutdown ask_os c s = Inr ((put_conn c (\<lambda>t. t\<lparr>t_state := kDisconnecting\<rparr>) s)
    \<lparr>n_tick := n_tick s + 1, n_shut := insert (t_socket t) (n_shut s)\<rparr>)"
  using assms
  by (simp add: out_view_def tcp_shutdown_def runInLoop_def shutdown_body_def get_conn_def get_channel_def put_conn_def
      closeWrite_def ask_os_def sample_os_def deref_def del: rbind_Inr_iff deref_Inr)

lemma ask_given_buffer:
  assumes "g 1 = Some (16777216, h)" "fresh_ok (ask_pool g)"
  shows "buf_ok (ask_given g) ask_buf" "fresh_ok (ask_given g)" "capacity ask_buf \<le> b_maxCapacity ask_buf" "writableBytes ask_buf = 16384"
proof -
  show "buf_ok (ask_given g) ask_buf" using assms(1) by (simp add: buf_ok_def in_region_def ask_buf_def)
  show "fresh_ok (ask_given g)" using assms(2) by (simp add: fresh_ok_def) (simp add: ask_given_def)
  show "capacity ask_buf \<le> b_maxCapacity ask_buf" "writableBytes ask_buf = 16384"
    by (simp_all add: ask_buf_def capacity_def writableBytes_def)
qed

lemma ask_given_ok:
  assumes "g 1 = Some (16777216, h)" "fresh_ok (ask_pool g)" "buf_ok (ask_pool g) ob" "b_memory ob \<noteq> Some 1"
    and al: "n_alloc s = Some (ask_alloc (ask_pool g))"
  shows "buffer_given k s ob ask_buf"
proof -
  have "regions_apart ask_buf ob" using assms(4) by (auto simp: regions_apart_def ask_buf_def)
  moreover have "buf_ok (ask_given g) ob" using buf_ok_mem [of "ask_given g" "ask_pool g"] assms(3) by simp
  moreover have "net_pool (s\<lparr>n_alloc := Some (ask_alloc (ask_given g))\<rparr>) = Inr (ask_given g)"
    by (simp add: net_pool_def threadCache_def arena_at_def ask_alloc_def)
  ultimately show ?thesis using ask_buffer ask_given_buffer(1) [OF assms(1,2)] al unfolding buffer_given_def by metis
qed

lemma not_found: "response_text (answer defaultHttpCallback r) =
    ''HTTP/1.1 404 Not Found'' @ kCRLF @ ''Connection: close'' @ kCRLF @ kCRLF"
  "p_closeConnection (answer defaultHttpCallback r)" "p_body (answer defaultHttpCallback r) = []"
  by (simp_all add: answer_def response_text_def defaultHttpCallback_def HttpResponse_def setCloseConnection_def
      setStatusMessage_def setStatusCode_def status_number_def dec.simps)

text \<open>The handler of the last piece, from the state its callback gets, step by step.\<close>

lemma ask_answers:
  assumes v: "conn_view c s t ch ib ob (ask_pool g) sent left" and t: "t_state t = kConnected" "\<not> t_hasWriteComplete t" "t_context t = Some x"
    and e: "readableBytes ob = 0" "b_memory ob \<noteq> Some 1"
    and pt: "parse_text x left = Inr (True, \<lparr>x_state = kGotAll, x_request = r\<rparr>, rest)"
    and al: "n_alloc s = Some (ask_alloc (ask_pool g))" and g: "g 1 = Some (16777216, h)"
  shows "\<exists>s'. onMessage ask_os k defaultHttpCallback c s = Inr s' \<and> out_sound c s'"
proof -
  let ?x = "\<lparr>x_state = kGotAll, x_request = r\<rparr>" and ?p = "answer defaultHttpCallback r"
  define T where "T = response_text ?p"
  obtain ib' where p: "parseRequest (ask_pool g) x (Some ib) = Inr (True, ?x, Some ib')"
    and v1: "conn_view c (put_conn c (\<lambda>t. t\<lparr>t_inputBuffer := Some ib', t_context := Some ?x\<rparr>) s)
      (t\<lparr>t_inputBuffer := Some ib', t_context := Some ?x\<rparr>) ch ib' ob (ask_pool g) sent rest"
    using parse_view [OF v pt] by auto
  define s1 where "s1 = put_conn c (\<lambda>t. t\<lparr>t_inputBuffer := Some ib', t_context := Some ?x\<rparr>) s"
  let ?t = "t\<lparr>t_inputBuffer := Some ib', t_context := Some ?x\<rparr>"
  have o1: "out_view c s1 ?t ch ob (ask_pool g) sent" using v1 by (simp add: conn_view_def s1_def)
  then have ob: "buf_ok (ask_pool g) ob" "fresh_ok (ask_pool g)" by (auto simp: out_view_def)
  note gb = ask_given_buffer [OF g ob(2)]
  have al1: "n_alloc s1 = Some (ask_alloc (ask_pool g))" using al by (simp add: s1_def put_conn_def)
  have fits: "int (length T) \<le> writableBytes ask_buf" by (simp add: T_def not_found gb(4))
  have given: "net_pool (s1\<lparr>n_alloc := Some (ask_alloc (ask_given g))\<rparr>) = Inr (ask_given g)"
    by (simp add: net_pool_def threadCache_def arena_at_def ask_alloc_def)
  obtain b2 w2 where f: "appendToBuffer ?p (Some ask_buf) (ask_given g) = Inr (Some b2, w2)" "buf_ok w2 b2" "unread w2 b2 = map Some T"
    "out_view c (put_pool w2 (s1\<lparr>n_alloc := Some (ask_alloc (ask_given g))\<rparr>)) ?t ch ob w2 sent"
    using response_filled [OF o1 ask_given_ok [OF g ob(2,1) e(2) al1] fits [unfolded T_def]] ask_buffer
    by (auto simp: T_def al1 given)
  let ?s2 = "put_pool w2 (s1\<lparr>n_alloc := Some (ask_alloc (ask_given g))\<rparr>)"
  have "concat (response_strings ?p) = T" unfolding T_def by (rule response_strings_text) (simp add: not_found)
  then obtain n m where bw: "b2 = ask_buf\<lparr>b_writerIndex := n\<rparr>" "w2 = ask_given m"
    using write_all_keeps [OF gb(1,2) _ gb(3), of "response_strings ?p"] fits f(1) by (auto simp: appendToBuffer_def)
  have c2: "n_conns ?s2 c = Some ?t" "l_inThread ?s2" "net_pool ?s2 = Inr w2" using f(4) by (auto simp: out_view_def)
  let ?s3 = "?s2\<lparr>n_tick := n_tick ?s2 + 1, n_wire := (n_wire ?s2)(t_socket ?t := n_wire ?s2 (t_socket ?t) @ T)\<rparr>"
  have s3: "sendInLoop ask_os c T ?s2 = Inr ?s3" by (rule ask_send [OF f(4) _ e(1)]) (use t in simp_all)
  have known: "None \<notin> set (unread w2 b2)" by (auto simp: f(3))
  obtain data q where "buffer_peek (Some b2) = Inr q" "read_mem w2 q (readableBytes b2) = Inr data" "unread w2 b2 = map Some data"
    using unread_all [OF f(2) known] by blast
  then have sent: "tcp_send_buffer ask_os c (Some b2) ?s2 = Inr (Some (retrieveAll b2), ?s3)"
    using c2 t(1) s3 f(3)
    by (simp add: tcp_send_buffer_def get_conn_def deref_def buffer_readableBytes_def buffer_retrieveAll_def on_buf_def
        inj_map_eq_map del: rbind_Inr_iff deref_Inr)
  have v3: "out_view c ?s3 ?t ch ob w2 (sent @ T)"
    by (rule out_view_cong [OF f(4)]) (use e f(4) readable_zero in \<open>auto simp: out_view_def\<close>)
  let ?s4 = "(put_conn c (\<lambda>t. t\<lparr>t_state := kDisconnecting\<rparr>) ?s3)\<lparr>n_tick := n_tick ?s3 + 1, n_shut := insert (t_socket ?t) (n_shut ?s3)\<rparr>"
  have shut: "tcp_shutdown ask_os c ?s3 = Inr ?s4" by (rule ask_shutdown [OF v3 _ e(1)]) (use t in simp)
  have pool4: "net_pool ?s4 = Inr w2" using v3 net_pool_cong [of ?s4 ?s3] by (simp add: out_view_def put_conn_def)
  obtain w4 where w4: "Buffer_destroy (Some (retrieveAll b2)) w2 = Inr w4" "w_mem w4 = m" using ask_destroyed unfolding bw by blast
  have q: "onRequest ask_os k defaultHttpCallback c r s1 = Inr (put_pool w4 ?s4)"
    using f(1) not_found(2) [of r] ask_buffer al1 given sent shut pool4 w4(1) by (simp add: onRequest_def answer_def del: rbind_Inr_iff)
  let ?s5 = "put_conn c (setContext (context_reset ?x)) (put_pool w4 ?s4)"
  have m: "onMessage ask_os k defaultHttpCallback c s = Inr ?s5"
    using q p v t by (simp add: onMessage_def get_conn_def deref_def conn_view_def out_view_def gotAll_def s1_def del: rbind_Inr_iff deref_Inr)
  have "net_pool ?s5 = Inr w4"
    using net_pool_put [of ?s4 w2 w4] pool4 net_pool_cong [of ?s5 "put_pool w4 ?s4"] by (simp add: put_conn_def)
  moreover have "buf_ok w4 ob" using buf_ok_mem [of w4 w2] w4(2) f(4) by (simp add: bw(2) out_view_def)
  ultimately have "out_sound c ?s5"
    using v3 by (auto simp: out_sound_def out_view_def put_conn_def put_pool_def setContext_def)
  then show ?thesis using m by blast
qed

lemma ask_first: "take 10 ask_text = ''GET /a?b=1''" "next_line (take 10 ask_text) = None"
  by (simp_all add: ask_text_def render_request_def render_line_def sample_request_def methodString_def next_line_def)

lemma ask_put: "n_alloc s = Some (ask_alloc u) \<Longrightarrow> n_alloc (put_conn c f (put_pool w (s\<lparr>n_tick := k\<rparr>))) = Some (ask_alloc w)"
  by (simp add: put_conn_def put_pool_def ask_alloc_def)

lemma ask_block: "\<forall>m. map_option fst (f m) = map_option fst (g m) \<Longrightarrow> g 1 = Some (n, h) \<Longrightarrow> \<exists>h'. f 1 = Some (n, h')"
  by (drule spec [of _ 1]) (auto split: option.splits)

lemma ask_start:
  "\<exists>t ch. conn_view 2 ask_net t ch (text_buf []) ask_out (ask_pool ask_mem) [] [] \<and> t_state t = kConnected \<and> \<not> t_hasWriteComplete t \<and>
     t_context t = Some HttpContext"
proof -
  have b: "buf_ok (ask_pool ask_mem) (text_buf [])" "buf_ok (ask_pool ask_mem) ask_out" "regions_apart (text_buf []) ask_out"
    by (simp_all add: buf_ok_def in_region_def regions_apart_def ask_out_def text_buf_def sample_buf_def ask_mem_def)
  have "fresh_ok (ask_pool ask_mem)" by (simp add: fresh_ok_def ask_mem_def) (simp add: ask_pool_def)
  then have "conn_view 2 ask_net (the (n_conns ask_net 2)) (the (l_channels sample_net 1)) (text_buf []) ask_out (ask_pool ask_mem) [] []"
    using b
    by (simp add: conn_view_def out_view_def ask_net_def net_pool_def threadCache_def arena_at_def ask_alloc_def readableBytes_def unread_def)
      (simp add: text_buf_def ask_out_def sample_buf_def sample_net_def isWriting_def)
  moreover have "t_state (the (n_conns ask_net 2)) = kConnected" "\<not> t_hasWriteComplete (the (n_conns ask_net 2))"
    "t_context (the (n_conns ask_net 2)) = Some HttpContext" by (simp_all add: ask_net_def) (simp_all add: sample_net_def)
  ultimately show ?thesis by blast
qed

lemma parse_nothing:
  assumes "buf_ok w b" "unread w b = map Some cs" "next_line cs = None"
  shows "parseRequest w HttpContext (Some b) = Inr (True, HttpContext, Some b)"
  using findCRLF_none [OF assms]
  by (simp add: parseRequest_def buffer_readableBytes_def on_buf_def HttpContext_def del: rbind_Inr_iff)

lemma handleRead_message:
  assumes "conn_view c s t ch ib ob w sent got" "read_input os c s = Inr (n, s1)" "n > 0" "onMessage os k cb c s1 = Inr s'"
  shows "handleRead os (http_user os k cb) c s = Inr s'"
  using assms handleRead_split [of s os "http_user os k cb" c] by (simp add: conn_view_def out_view_def http_message)

lemma ask_one:
  "\<exists>s t ch ib f h. receives ask_os k defaultHttpCallback 2 ask_net (take 10 ask_text) s \<and>
     conn_view 2 s t ch ib ask_out (ask_pool f) [] (take 10 ask_text) \<and> t_state t = kConnected \<and> \<not> t_hasWriteComplete t \<and>
     t_context t = Some HttpContext \<and> n_alloc s = Some (ask_alloc (ask_pool f)) \<and> f 1 = Some (16777216, h) \<and>
     n_tick s = 1 \<and> writableBytes ib = 246 \<and> pool_keeps ask_os 2 ask_net \<and>
     handleRead ask_os (http_user ask_os k defaultHttpCallback) 2 ask_net = Inr s"
proof -
  obtain t ch where v: "conn_view 2 ask_net t ch (text_buf []) ask_out (ask_pool ask_mem) [] []"
    and t: "t_state t = kConnected" "\<not> t_hasWriteComplete t" "t_context t = Some HttpContext" using ask_start by blast
  let ?cs = "take 10 ask_text"
  have k0: "n_tick ask_net = 0" and al: "n_alloc ask_net = Some (ask_alloc (ask_pool ask_mem))"
    by (simp_all add: ask_net_def) (simp add: sample_net_def)
  have rv: "os_readv ask_os (n_tick ask_net) (c_fd ch) (read_lens (text_buf [])) = Inr ?cs" by (simp add: ask_os_def k0)
  have len: "length ?cs = 10" by (simp add: ask_first)
  have wr: "writableBytes (text_buf []) = 256" by (simp add: writableBytes_def capacity_def text_buf_def)
  have "int (length ?cs) \<le> writableBytes (text_buf [])" using len wr by simp
  from read_fits [where os = ask_os, OF v rv this, unfolded Let_def len ask_mem_upd of_nat_numeral] obtain f where f:
    "read_input ask_os 2 ask_net = Inr (10, put_conn 2 (\<lambda>t. t\<lparr>t_inputBuffer := Some (filled (text_buf []) 10)\<rparr>) (put_pool (ask_pool f) (ask_net\<lparr>n_tick := n_tick ask_net + 1\<rparr>)))"
    "bufs_sound 2 ask_net (put_conn 2 (\<lambda>t. t\<lparr>t_inputBuffer := Some (filled (text_buf []) 10)\<rparr>) (put_pool (ask_pool f) (ask_net\<lparr>n_tick := n_tick ask_net + 1\<rparr>)))"
    "conn_view 2 (put_conn 2 (\<lambda>t. t\<lparr>t_inputBuffer := Some (filled (text_buf []) 10)\<rparr>) (put_pool (ask_pool f) (ask_net\<lparr>n_tick := n_tick ask_net + 1\<rparr>)))
      (t\<lparr>t_inputBuffer := Some (filled (text_buf []) 10)\<rparr>) ch (filled (text_buf []) 10) ask_out (ask_pool f) [] ([] @ ?cs)"
    "\<forall>m. map_option fst (f m) = map_option fst (ask_mem m)"
    by blast
  define s1 where "s1 = put_conn 2 (\<lambda>t. t\<lparr>t_inputBuffer := Some (filled (text_buf []) 10)\<rparr>) (put_pool (ask_pool f) (ask_net\<lparr>n_tick := n_tick ask_net + 1\<rparr>))"
  note f = f [folded s1_def]
  let ?ib = "filled (text_buf []) 10" and ?t = "t\<lparr>t_inputBuffer := Some (filled (text_buf []) 10)\<rparr>"
  have ib: "buf_ok (ask_pool f) ?ib" "unread (ask_pool f) ?ib = map Some ?cs" using f(3) by (auto simp: conn_view_def)
  have pt: "parse_text HttpContext ([] @ ?cs) = Inr (True, HttpContext, ?cs)"
    using ask_first(2) by (simp add: parse_text.simps HttpContext_def)
  from parse_view [OF f(3) pt] parse_nothing [OF ib ask_first(2)]
  have v2: "conn_view 2 (put_conn 2 (\<lambda>t. t\<lparr>t_inputBuffer := Some ?ib, t_context := Some HttpContext\<rparr>) s1)
      (?t\<lparr>t_inputBuffer := Some ?ib, t_context := Some HttpContext\<rparr>) ch ?ib ask_out (ask_pool f) [] ?cs" by auto
  let ?s = "put_conn 2 (\<lambda>t. t\<lparr>t_inputBuffer := Some ?ib, t_context := Some HttpContext\<rparr>) s1"
  have "onMessage ask_os k defaultHttpCallback 2 s1 = Inr ?s"
    using f(3) t(3) parse_nothing [OF ib ask_first(2)]
    by (simp add: onMessage_def get_conn_def deref_def conn_view_def out_view_def gotAll_def HttpContext_def del: rbind_Inr_iff deref_Inr)
  then have h: "handleRead ask_os (http_user ask_os k defaultHttpCallback) 2 ask_net = Inr ?s"
    by (intro handleRead_message [OF v f(1)]) simp_all
  have sg: "socket_gives ask_os 2 ask_net ?cs"
    using v rv ask_first(1) by (auto simp: socket_gives_def conn_view_def out_view_def)
  have pk: "pool_keeps ask_os 2 ask_net" using f(1,2) by (simp add: pool_keeps_def)
  have "receives ask_os k defaultHttpCallback 2 ask_net ([] @ ?cs) ?s" by (rule receives.piece [OF receives.none sg pk h])
  moreover have "n_alloc ?s = Some (ask_alloc (ask_pool f))" "n_tick ?s = 1"
    using ask_put [OF al] k0 by (simp_all add: s1_def) (simp_all add: put_conn_def put_pool_def)
  moreover have "\<exists>h. f 1 = Some (16777216, h)" using ask_block [OF f(4)] by (simp add: ask_mem_def)
  moreover have "writableBytes ?ib = 246" using wr by (simp add: filled_def writableBytes_def capacity_def)
  ultimately show ?thesis using v2 t h pk by fastforce
qed



end
