(* ===== verification/Spec2Isabelle.thy ===== *)
theory Spec2Isabelle
  imports SizeClassSpec ChunkSpec MathUtils SubpageSpec AllocatorSpec TimerFlush HttpServerSpec
    EventLoopSpec MpscQueue TcpServerSpec ConnectorSpec LongAddrSpec SpinLock LockedQueue
    SocketSpec AnyValue LoopThread LoopThreads ServerSetup HttpPieces
begin

text \<open>
  \<^bold>\<open>A verification development for the DuoDuo network library.\<close>

  DuoDuo is a reactor: \<^verbatim>\<open>EventLoop\<close> waits in \<^verbatim>\<open>EpollPoller\<close> for the descriptors of its \<^verbatim>\<open>Channel\<close>s and calls
  their handlers; \<^verbatim>\<open>TcpServer\<close> accepts connections through \<^verbatim>\<open>Acceptor\<close>, gives them to the loops of
  \<^verbatim>\<open>EventLoopThreadPool\<close> and keeps the set of \<^verbatim>\<open>TcpConnection\<close>s; \<^verbatim>\<open>Connector\<close> opens connections; \<^verbatim>\<open>HttpServer\<close>
  is a client of \<^verbatim>\<open>TcpServer\<close>. Bytes are kept in \<^verbatim>\<open>buffer::Buffer\<close>, a pooled buffer over an allocator in the
  manner of jemalloc: arenas of chunks, chunks of runs of pages, runs cut into subpages, a cache per
  thread. Timers run on a timing wheel with a delay queue and a pool of threads. Functors reach a loop
  through a lock-free queue.

  \<^bold>\<open>Conventions\<close> (\<open>Prelude\<close>). An operation that can stop returns \<open>'a res\<close>, the sum of a failure and a result; a
  failure is an assertion, an exception, the end of the process, or undefined behaviour by its kind.
  \<^verbatim>\<open>int\<close> and \<^verbatim>\<open>long\<close> are mathematical integers with the wrap-around written out (\<open>i32\<close>, \<open>i64\<close>), words where
  bytes count. Pointers are addresses in stores, so that sharing and dangling are visible. What the
  source only calls (system calls, clocks, \<^verbatim>\<open>inet_pton\<close>, callbacks of the user) is an argument. The heap
  algorithms of the C++ library are in \<open>StdHeap\<close>; rings of linked entries, used by subpages and timers,
  in \<open>Ring\<close>; the contract of a least-first queue is the locale \<open>min_queue\<close> in \<open>MinQueue\<close>, interpreted by
  \<open>BestFitQueue\<close> and by the heap of the delay queue; data behind a lock is the locale \<open>guarded_data\<close> in
  \<open>SpinLock\<close>, interpreted in \<open>LockedQueue\<close>; the page classes a chunk relies on are the locale \<open>page_index\<close> in
  \<open>ChunkRuns\<close>, interpreted on the size classes of the arenas.

  \<^bold>\<open>The allocator\<close> (\<^verbatim>\<open>buffer/\<close>).
  \<^item> \<open>MathUtils\<close>, \<open>SizeClass\<close>, \<open>SizeFormula\<close>, \<open>SizeClassSpec\<close>: \<^verbatim>\<open>MathUtils.h\<close> and \<^verbatim>\<open>SizeClass\<close>; the table of size
    classes against its formulas, the least class that holds a request, the classes of runs.
  \<^item> \<open>BestFitQueue\<close>, \<open>RunHandle\<close>, \<open>Chunk\<close>, \<open>ChunkRuns\<close>, \<open>ChunkSpec\<close>: the runs of \<^verbatim>\<open>PoolChunk\<close>. \<open>chunk_reach c L\<close>
    is a chunk \<open>c\<close> reached from a new one with the live runs \<open>L\<close>; free and live runs partition the 2048
    pages, allocation takes a run when one fits and splits it, freeing ends and merges neighbours.
  \<^item> \<open>Subpage\<close>, \<open>SubpageSpec\<close>: \<^verbatim>\<open>PoolSubpage\<close>; elements are handed out once, the ring of the arena holds
    the subpages that have a free element.
  \<^item> \<open>PoolWorld\<close>, \<open>Arena\<close>, \<open>Allocator\<close>, \<open>AllocatorSpec\<close>: \<^verbatim>\<open>PoolChunk\<close> beyond runs, \<^verbatim>\<open>PoolChunkList\<close>,
    \<^verbatim>\<open>PoolThreadCache\<close>, \<^verbatim>\<open>PoolArena\<close>, \<^verbatim>\<open>PoolByteBufAllocator\<close>.
  \<^item> \<open>ByteBuf\<close>, \<open>ByteBufSpec\<close>: \<^verbatim>\<open>PoolByteBuf\<close>, \<^verbatim>\<open>Recycler\<close> and \<^verbatim>\<open>Buffer\<close>; writing appends to the unread bytes and
    reading takes from their front, through growth and reallocation. \<open>ByteBufFrame\<close>: what work on one
    buffer leaves of the others, when their regions are apart.
  \<^item> \<open>LongAddr\<close>, \<open>LongAddrSpec\<close>: the striped counter of \<^verbatim>\<open>LongAddr/\<close> as interleaved accesses to what its
    threads share; nothing is lost until the array of cells is extended, and a run that loses a call.
  \<^item> \<open>SpinLock\<close>: the spin lock; the bodies of the operations under it are atomic.

  \<^bold>\<open>The timer\<close> (\<^verbatim>\<open>timer/\<close>).
  \<^item> \<open>TimeEntry\<close>, \<open>DelayQueue\<close>, \<open>LockedQueue\<close>: times, the delay queue, and the queue as its threads share it.
  \<^item> \<open>TimerTasks\<close>, \<open>TimingWheel\<close>, \<open>TimerSpec\<close>, \<open>TimerFlush\<close>: \<^verbatim>\<open>TimerTaskList\<close>, \<^verbatim>\<open>TimingWheel\<close>, \<^verbatim>\<open>Timer\<close>, \<^verbatim>\<open>Ticker\<close>
    as one store of tasks, entries and wheels; where an entry is filed, what a flush runs, and the
    flush that never ends because all buckets of a wheel share one ring.
  \<^item> \<open>ThreadPool\<close>: \<^verbatim>\<open>thread_pool/ThreadPool\<close> as a step relation; tasks are taken in order, and the stop that
    waits for ever.

  \<^bold>\<open>The network\<close>.
  \<^item> \<open>Poller\<close>, \<open>EventLoop\<close>, \<open>EventLoopSpec\<close>: \<^verbatim>\<open>Channel\<close>, \<^verbatim>\<open>EpollPoller\<close>, \<^verbatim>\<open>EventLoop\<close>; the calls of \<^verbatim>\<open>epoll_ctl\<close>
    keep the list of the kernel equal to what the registered channels ask for.
  \<^item> \<open>MpscQueue\<close>: the queue of functors, and producers, queue and loop as interleaved steps; first in, first
    out, and no wake-up is lost.
  \<^item> \<open>TcpConnection\<close>, \<open>TcpStream\<close>, \<open>TcpInput\<close>: the connection on its loop; the bytes go out in the order they
    were sent, however the socket takes them, and come in as the socket gives them.
  \<^item> \<open>TcpServer\<close>, \<open>ServerSetup\<close>, \<open>TcpServerSpec\<close>: \<^verbatim>\<open>EventLoopThreadPool\<close>, \<^verbatim>\<open>Acceptor\<close>, \<^verbatim>\<open>TcpServer\<close>; closing a
    connection leaves nothing behind, and the destructor that walks over a set it changes.
  \<^item> \<open>LoopThread\<close>, \<open>LoopThreads\<close>: \<^verbatim>\<open>EventLoopThread\<close> and the threads of the pool; the handshake of \<^verbatim>\<open>run\<close> and the
    destructor that always comes to its end.
  \<^item> \<open>Connector\<close>, \<open>ConnectorSpec\<close>: \<^verbatim>\<open>Connector\<close>; how an attempt is settled, and the retries that run off the
    timing wheel.
  \<^item> \<open>InetAddress\<close>, \<open>Socket\<close>, \<open>SocketSpec\<close>: addresses as their bytes, sockets as the calls they make.
  \<^item> \<open>AnyValue\<close>: \<^verbatim>\<open>base/any.h\<close>, refined to variables that have values.

  \<^bold>\<open>HTTP\<close> (\<^verbatim>\<open>http/\<close>). \<open>Http\<close>, \<open>HttpSpec\<close>, \<open>HttpCorrect\<close>: request, response and the incremental parser, which is
  compared with a parser on lists of characters; \<open>HttpServer\<close>, \<open>HttpServerSpec\<close>: the callbacks of the
  server over a connection; \<open>HttpAnswer\<close>, \<open>HttpPieces\<close>: a request is answered once, when its
  last piece has been read, through the read event, the parser, the allocator, the buffers and the output of
  the connection. What the pool promises there is stated as hypotheses (\<open>bufs_sound\<close>, \<open>buffer_given\<close>): the
  buffers of a connection are in order and apart. A chunk with cached pointers can break it.

  \<^bold>\<open>Fuel\<close>. Loops that are not structural take fuel and give \<open>Diverges\<close> without it. Where the source's loop
  ends, a property says so for the fuel the operation passes: the merging of runs takes one round per
  page, the parser one round more than there are readable bytes, polling one more than the length of the
  queue, the wheel 64 levels. The flush of a bucket and the parser in its last states can run for ever
  in the source, and their theorems say so.

  \<^bold>\<open>Concurrency\<close>. The functor queue, the thread pool, the striped counter, the spin lock and the loop threads
  are interleavings of steps, one per access to shared state, over sequentially consistent memory. The
  arenas, the loops and the connections are modelled on one thread at a time; whether a caller is on the
  thread of a loop is part of the state.

  \<^bold>\<open>Not modelled\<close>. Weak memory orders; the system beyond the results of its calls; the end of a thread,
  which lowers the count of its cell in the striped counter; the locks around the singletons of the
  allocator, whose operations are taken as atomic; names and log output; the declared functions without
  a body (\<^verbatim>\<open>TcpConnection::startRead\<close>, \<^verbatim>\<open>stopRead\<close>, \<^verbatim>\<open>forceCloseInLoop\<close>); the former delay queue in
  \<^verbatim>\<open>timer/delay_queue/backup\<close>, the test programs and the files CMake generated.
\<close>

end
